(* ===== verification/AJ_Prelude.thy ===== *)
theory AJ_Prelude
  imports Main "HOL-Library.Word"
begin

text \<open>
  Shared vocabulary of the development: the machine types the code uses, the status codes
  that its operations return, the generic lemmas on lists, options and bytes that several
  components need, and the two interfaces that several components implement, a step
  function with an invariant and a wire format with a reader.
\<close>

named_theorems chars \<open>character classification on concrete and symbolic characters\<close>
named_theorems wire \<open>byte-level encodings and the readers that invert them\<close>

type_synonym byte = "8 word"
type_synonym u16 = "16 word"
type_synonym u32 = "32 word"
type_synonym u64 = "64 word"

text \<open>The status codes of \<^verbatim>\<open>QStatus\<close> that the modelled operations return.\<close>

datatype QStatus =
    ER_OK
  | ER_FAIL
  | ER_TIMEOUT
  | ER_BUS_BAD_SIGNATURE
  | ER_BUS_BAD_VALUE
  | ER_BUS_BAD_VALUE_TYPE
  | ER_BUS_NO_ENDPOINT
  | ER_BUS_MATCH_RULE_NOT_FOUND
  | ER_SLAP_INVALID_PACKET_LEN
  | ER_SLAP_CRC_ERROR
  | ER_SLAP_INVALID_PACKET_TYPE
  | ER_SLAP_LEN_MISMATCH
  | ER_SLAP_ERROR
  | ER_SLAP_OTHER_END_CLOSED
  | ER_AUTH_FAIL
  | ER_BUS_ENDPOINT_CLOSING
  | ER_BUS_POLICY_VIOLATION
  | ER_BUS_NO_ROUTE
  | ER_BUS_NOT_AUTHENTICATING
  | ER_BUS_ESTABLISH_FAILED
  | ER_PARSE_ERROR
  | ER_EOF
  | ER_BAD_ARG_1
  | ER_BAD_ARG_2
  | ER_BAD_ARG_3
  | ER_CORRUPT_KEYBLOB
  | ER_BUS_KEY_EXPIRED
  | ER_BUS_KEY_UNAVAILABLE
  | ER_BUS_BAD_LENGTH
  | ER_BUS_NOT_NUL_TERMINATED
  | ER_BUS_BAD_OBJ_PATH
  | ER_BUS_NO_SUCH_HANDLE
  | ER_BUS_BAD_HEADER_FIELD
  | ER_BUS_BAD_HEADER_LEN
  | ER_BUS_BAD_BODY_LEN
  | ER_BUS_UNEXPECTED_SIGNATURE
  | ER_BUS_SIGNATURE_MISMATCH
  | ER_BUS_INTERFACE_MISSING
  | ER_BUS_PATH_MISSING
  | ER_BUS_MEMBER_MISSING
  | ER_BUS_ERROR_NAME_MISSING
  | ER_BUS_REPLY_SERIAL_MISSING
  | ER_BUS_NAME_TOO_LONG
  | ER_BUS_BAD_INTERFACE_NAME
  | ER_BUS_BAD_MEMBER_NAME
  | ER_BUS_BAD_ERROR_NAME
  | ER_BUS_BAD_BUS_NAME
  | ER_BUS_HANDLES_NOT_ENABLED
  | ER_BUS_HANDLES_MISMATCH
  | ER_OS_ERROR

subsection \<open>Reading a NUL-terminated string\<close>

text \<open>
  A C string is the list of the characters before its terminating NUL. Reading at the end
  gives the NUL itself: \<open>peek\<close> is \<^verbatim>\<open>*p\<close>.
\<close>

definition NUL :: char where
  "NUL = CHR 0x00"

definition peek :: "string \<Rightarrow> char" where
  "peek s = (case s of [] \<Rightarrow> NUL | c # _ \<Rightarrow> c)"

lemma peek_simps [simp]: "peek [] = NUL" "peek (c # cs) = c"
  by (simp_all add: peek_def)

definition cstring :: "string \<Rightarrow> bool" where
  "cstring s \<longleftrightarrow> NUL \<notin> set s"

lemma cstring_simps [simp]:
  "cstring []"
  "cstring (c # cs) \<longleftrightarrow> c \<noteq> NUL \<and> cstring cs"
  "cstring (xs @ ys) \<longleftrightarrow> cstring xs \<and> cstring ys"
  by (auto simp: cstring_def)

lemma peek_NUL_iff: "cstring s \<Longrightarrow> peek s = NUL \<longleftrightarrow> s = []"
  by (cases s) auto

subsection \<open>Splitting at a separator\<close>

text \<open>The pieces between the occurrences of a separator: the reference for name grammars.\<close>

fun split_on :: "'a \<Rightarrow> 'a list \<Rightarrow> 'a list list" where
  "split_on d [] = [[]]"
| "split_on d (c # cs) =
     (if c = d then [] # split_on d cs
      else (c # hd (split_on d cs)) # tl (split_on d cs))"

lemma split_on_not_Nil [simp]: "split_on d s \<noteq> []"
  by (induction s) auto

lemma length_split_on: "length (split_on d s) = Suc (count_list s d)"
proof (induction s)
  case (Cons c cs)
  then show ?case
    using split_on_not_Nil [of d cs] by (cases "split_on d cs") auto
qed simp

lemma hd_split_on_Nil_iff: "hd (split_on d s) = [] \<longleftrightarrow> s = [] \<or> hd s = d"
  by (cases s) auto

lemma split_on_Cons_other:
  "c \<noteq> d \<Longrightarrow> split_on d (c # cs) = (c # hd (split_on d cs)) # tl (split_on d cs)"
  by simp

lemma split_on_pieces: "p \<in> set (split_on d s) \<Longrightarrow> d \<notin> set p"
proof (induction s arbitrary: p)
  case (Cons c cs)
  have "hd (split_on d cs) \<in> set (split_on d cs)"
    by simp
  with Cons show ?case
    by (auto split: if_splits dest: list.set_sel(2) [OF split_on_not_Nil])
qed simp

lemma set_tl_subset: "x \<in> set (tl xs) \<Longrightarrow> x \<in> set xs"
  by (cases xs) auto

subsection \<open>Step functions with an invariant\<close>

text \<open>
  An operation takes the state and one input and returns the new state, or \<open>None\<close> when it
  does not come back. If on admissible inputs every step comes back and keeps the
  invariant, so does a run over any sequence of them.
\<close>

fun run_steps :: "('s \<Rightarrow> 'e \<Rightarrow> 's option) \<Rightarrow> 's \<Rightarrow> 'e list \<Rightarrow> 's option" where
  "run_steps step s [] = Some s"
| "run_steps step s (e # es) = Option.bind (step s e) (\<lambda>s'. run_steps step s' es)"

lemma run_steps_append:
  "run_steps step s (es @ fs) = Option.bind (run_steps step s es) (\<lambda>s'. run_steps step s' fs)"
  by (induction es arbitrary: s) (auto split: Option.bind_split)

locale invariant_machine =
  fixes step :: "'s \<Rightarrow> 'e \<Rightarrow> 's option"
    and inv :: "'s \<Rightarrow> bool"
    and adm :: "'e \<Rightarrow> bool"
  assumes step_inv: "inv s \<Longrightarrow> adm e \<Longrightarrow> \<exists>s'. step s e = Some s' \<and> inv s'"
begin

lemma run_inv: "inv s \<Longrightarrow> list_all adm es \<Longrightarrow> \<exists>s'. run_steps step s es = Some s' \<and> inv s'"
proof (induction es arbitrary: s)
  case (Cons e es)
  then obtain s1 where "step s e = Some s1" "inv s1" using step_inv by fastforce
  with Cons show ?case by simp
qed simp

end

subsection \<open>Wire formats\<close>

text \<open>
  A reader takes the bytes that remain in the buffer and returns the value it read and the
  number of bytes it used; as in the code, a count of 0 is the failure. \<open>read_items\<close>
  is the loop that reads a known number of items one after the other, giving up at the
  first failure.
\<close>

fun read_items :: "(byte list \<Rightarrow> 'a \<times> nat) \<Rightarrow> nat \<Rightarrow> byte list \<Rightarrow> ('a list \<times> nat) option" where
  "read_items rd 0 bs = Some ([], 0)"
| "read_items rd (Suc n) bs =
     (case rd bs of (x, k) \<Rightarrow>
        if k = 0 then None
        else (case read_items rd n (drop k bs) of
                None \<Rightarrow> None
              | Some (xs, m) \<Rightarrow> Some (x # xs, k + m)))"

lemma read_items_length: "read_items rd n bs = Some (xs, m) \<Longrightarrow> length xs = n"
  by (induction n arbitrary: bs xs m) (auto split: prod.splits if_splits option.splits)

text \<open>What the reader may assume of the bytes that a writer produced.\<close>

locale wire_format =
  fixes enc :: "'a \<Rightarrow> byte list"
    and dec :: "byte list \<Rightarrow> 'a \<times> nat"
    and ok :: "'a \<Rightarrow> bool"
  assumes enc_nonempty: "ok x \<Longrightarrow> enc x \<noteq> []"
    and dec_enc: "ok x \<Longrightarrow> dec (enc x @ rest) = (x, length (enc x))"
begin

lemma read_items_enc:
  "\<forall>x \<in> set xs. ok x \<Longrightarrow>
   read_items dec (length xs) (concat (map enc xs) @ rest) =
     Some (xs, length (concat (map enc xs)))"
proof (induction xs)
  case (Cons x xs)
  then have "dec (enc x @ (concat (map enc xs) @ rest)) = (x, length (enc x))"
    using dec_enc by simp
  moreover have "length (enc x) \<noteq> 0"
    using Cons.prems enc_nonempty by simp
  ultimately show ?case
    using Cons by simp
qed simp

lemma enc_inject: "ok x \<Longrightarrow> ok y \<Longrightarrow> enc x @ r = enc y @ r' \<Longrightarrow> x = y \<and> r = r'"
  using dec_enc [of x r] dec_enc [of y r'] by simp

end

text \<open>A reader never claims to have used more bytes than the buffer holds.\<close>

locale bounded_reader =
  fixes dec :: "byte list \<Rightarrow> 'a \<times> nat"
  assumes dec_bounded: "snd (dec bs) \<le> length bs"
begin

lemma read_items_bounded: "read_items dec n bs = Some (xs, m) \<Longrightarrow> m \<le> length bs"
proof (induction n arbitrary: bs xs m)
  case (Suc n)
  obtain x k where d: "dec bs = (x, k)"
    by force
  from Suc.prems d obtain ys j where r: "read_items dec n (drop k bs) = Some (ys, j)" "m = k + j"
    by (auto split: if_splits option.splits)
  have "j \<le> length (drop k bs)" using Suc.IH r(1) by blast
  moreover have "k \<le> length bs" using dec_bounded [of bs] d by simp
  ultimately show ?case using r(2) by simp
qed simp

end

subsection \<open>Bytes of a 16-bit number\<close>

text \<open>Network byte order, as the code writes it with shifts and reads it with shifts.\<close>

unbundle bit_operations_syntax

definition u16_hi :: "u16 \<Rightarrow> byte" where
  "u16_hi w = ucast (drop_bit 8 w)"

definition u16_lo :: "u16 \<Rightarrow> byte" where
  "u16_lo w = ucast w"

definition u16_of_bytes :: "byte \<Rightarrow> byte \<Rightarrow> u16" where
  "u16_of_bytes hi lo = (push_bit 8 (ucast hi)) OR (ucast lo AND 0xff)"

lemma u16_0xff_mask: "(0xff :: u16) = mask 8"
  by (simp add: mask_eq_exp_minus_1)

lemma u16_of_bytes_hi_lo [simp, wire]: "u16_of_bytes (u16_hi w) (u16_lo w) = w"
  unfolding u16_of_bytes_def u16_hi_def u16_lo_def u16_0xff_mask
  by (rule bit_word_eqI) (auto simp: bit_simps)

subsection \<open>Little-endian numbers\<close>

definition le16 :: "u16 \<Rightarrow> byte list" where
  "le16 w = [u16_lo w, u16_hi w]"

definition of_le16 :: "byte list \<Rightarrow> u16" where
  "of_le16 bs = u16_of_bytes (bs ! 1) (bs ! 0)"

definition le32 :: "u32 \<Rightarrow> byte list" where
  "le32 w = map (\<lambda>i. ucast (drop_bit (8 * i) w)) [0..<4]"

definition of_le32 :: "byte list \<Rightarrow> u32" where
  "of_le32 bs = foldr (\<lambda>b w. ucast b OR push_bit 8 w) bs 0"

definition le64 :: "u64 \<Rightarrow> byte list" where
  "le64 w = map (\<lambda>i. ucast (drop_bit (8 * i) w)) [0..<8]"

definition of_le64 :: "byte list \<Rightarrow> u64" where
  "of_le64 bs = foldr (\<lambda>b w. ucast b OR push_bit 8 w) bs 0"

lemma of_le16_le16 [simp, wire]: "of_le16 (le16 w) = w"
  by (simp add: of_le16_def le16_def)

lemma length_le [simp, wire]: "length (le16 w) = 2" "length (le32 v) = 4" "length (le64 w') = 8"
  by (simp_all add: le16_def le32_def le64_def)

lemma le_not_Nil [simp, wire]: "le16 w \<noteq> []" "le32 v \<noteq> []" "le64 w' \<noteq> []"
  by (simp_all add: le16_def le32_def le64_def)

text \<open>The loop that reads the bytes of a number, at any width.\<close>

lemma bit_fold_bytes:
  "bit (foldr (\<lambda>b w. ucast b OR push_bit 8 w) bs (0 :: 'a :: len word)) n \<longleftrightarrow>
     n < LENGTH('a) \<and> n div 8 < length bs \<and> bit ((bs :: byte list) ! (n div 8)) (n mod 8)"
proof (induction bs arbitrary: n)
  case Nil
  then show ?case by simp
next
  case (Cons b bs)
  let ?f = "\<lambda>bs. foldr (\<lambda>b w. ucast b OR push_bit 8 w) bs (0 :: 'a word)"
  have e: "bit (?f (b # bs)) n \<longleftrightarrow> n < LENGTH('a) \<and> (bit b n \<or> 8 \<le> n \<and> bit (?f bs) (n - 8))"
    by (auto simp: bit_simps)
  show ?case
  proof (cases "8 \<le> n")
    case True
    then have "n div 8 = Suc ((n - 8) div 8)" "n mod 8 = (n - 8) mod 8"
      by (simp_all add: le_div_geq le_mod_geq)
    moreover have "\<not> bit b n" using True by (simp add: bit_word.rep_eq)
    ultimately show ?thesis unfolding e Cons.IH using True by auto
  next
    case False
    then show ?thesis unfolding e by simp
  qed
qed

lemma of_le32_le32 [simp, wire]: "of_le32 (le32 w) = w"
proof (rule bit_word_eqI)
  fix n assume n: "n < LENGTH(32)"
  then have "n div 8 < 4" by simp
  with n show "bit (of_le32 (le32 w)) n = bit w n"
    by (simp add: of_le32_def bit_fold_bytes le32_def bit_simps mult_div_mod_eq)
qed

lemma of_le64_le64 [simp, wire]: "of_le64 (le64 w) = w"
proof (rule bit_word_eqI)
  fix n assume n: "n < LENGTH(64)"
  then have "n div 8 < 8" by simp
  with n show "bit (of_le64 (le64 w)) n = bit w n"
    by (simp add: of_le64_def bit_fold_bytes le64_def bit_simps mult_div_mod_eq)
qed

subsection \<open>Characters and bytes\<close>

definition char_byte :: "char \<Rightarrow> byte" where
  "char_byte c = word_of_nat (of_char c)"

definition byte_char :: "byte \<Rightarrow> char" where
  "byte_char b = char_of (unat b)"

lemma byte_char_byte [simp, wire]: "byte_char (char_byte c) = c"
proof -
  have "unat (word_of_nat (of_char c) :: byte) = of_char c"
    by (simp add: unat_of_nat)
  then show ?thesis by (simp add: byte_char_def char_byte_def)
qed

lemma byte_char_comp [simp, wire]: "byte_char \<circ> char_byte = id"
  by (simp add: fun_eq_iff)

end
