(* ===== verification/String_Util.thy ===== *)
theory String_Util
  imports AJ_Prelude
begin

text \<open>
  Character tests and number conversions of \<^verbatim>\<open>common/src/StringUtil.cc\<close>. A
  \<^verbatim>\<open>qcc::String\<close> is a list of characters; reading past its end gives the
  terminating NUL, as its buffer does. A loop that need not end is a
  \<^theory_text>\<open>partial_function (option)\<close>, with \<open>None\<close> for not returning.
\<close>

subsection \<open>Character classes\<close>

definition char_code :: "char \<Rightarrow> nat" where
  "char_code c = of_char c"

definition IsDecimalDigit :: "char \<Rightarrow> bool" where
  "IsDecimalDigit c \<longleftrightarrow> char_code (CHR ''0'') \<le> char_code c \<and> char_code c \<le> char_code (CHR ''9'')"

definition IsAlpha :: "char \<Rightarrow> bool" where
  "IsAlpha c \<longleftrightarrow>
     (char_code (CHR ''A'') \<le> char_code c \<and> char_code c \<le> char_code (CHR ''Z'')) \<or>
     (char_code (CHR ''a'') \<le> char_code c \<and> char_code c \<le> char_code (CHR ''z''))"

definition IsAlphaNumeric :: "char \<Rightarrow> bool" where
  "IsAlphaNumeric c \<longleftrightarrow> IsAlpha c \<or> IsDecimalDigit c"

definition IsOctalDigit :: "char \<Rightarrow> bool" where
  "IsOctalDigit c \<longleftrightarrow> char_code (CHR ''0'') \<le> char_code c \<and> char_code c \<le> char_code (CHR ''7'')"

definition IsHexDigit :: "char \<Rightarrow> bool" where
  "IsHexDigit c \<longleftrightarrow>
     (char_code (CHR ''0'') \<le> char_code c \<and> char_code c \<le> char_code (CHR ''9'')) \<or>
     (char_code (CHR ''a'') \<le> char_code c \<and> char_code c \<le> char_code (CHR ''f'')) \<or>
     (char_code (CHR ''A'') \<le> char_code c \<and> char_code c \<le> char_code (CHR ''F''))"

text \<open>The digit value of a character, a \<^verbatim>\<open>uint8_t\<close>; 255 for no digit.\<close>

definition CharToU8 :: "char \<Rightarrow> nat" where
  "CharToU8 c =
     (if char_code (CHR ''0'') \<le> char_code c \<and> char_code c \<le> char_code (CHR ''9'')
      then char_code c - char_code (CHR ''0'')
      else if char_code (CHR ''A'') \<le> char_code c \<and> char_code c \<le> char_code (CHR ''F'')
      then 10 + char_code c - char_code (CHR ''A'')
      else if char_code (CHR ''a'') \<le> char_code c \<and> char_code c \<le> char_code (CHR ''f'')
      then 10 + char_code c - char_code (CHR ''a'')
      else 255)"

definition U8ToChar :: "nat \<Rightarrow> char" where
  "U8ToChar d =
     (if d \<le> 9 then char_of (d + char_code (CHR ''0''))
      else if 0xa \<le> d \<and> d \<le> 0xf then char_of (d - 0xa + char_code (CHR ''a''))
      else NUL)"

definition whiteChars :: string where
  "whiteChars = [CHR '' '', CHR 0x09, CHR 0x0A, CHR 0x0D, CHR 0x0B]"

definition IsWhite :: "char \<Rightarrow> bool" where
  "IsWhite c \<longleftrightarrow> c \<in> set whiteChars"

lemmas char_class_defs [chars] =
  IsDecimalDigit_def IsAlpha_def IsAlphaNumeric_def IsOctalDigit_def IsHexDigit_def
  CharToU8_def U8ToChar_def IsWhite_def whiteChars_def char_code_def NUL_def

lemma NUL_neq [simp]:
  "NUL \<noteq> CHR ''.''" "NUL \<noteq> CHR ''/''" "NUL \<noteq> CHR '':''" "NUL \<noteq> CHR ''_''" "NUL \<noteq> CHR ''-''"
  "CHR ''.'' \<noteq> NUL" "CHR ''/'' \<noteq> NUL" "CHR '':'' \<noteq> NUL" "CHR ''_'' \<noteq> NUL" "CHR ''-'' \<noteq> NUL"
  by (simp_all add: NUL_def)

lemma not_alnum_special [simp]:
  "\<not> IsAlphaNumeric NUL" "\<not> IsAlphaNumeric (CHR ''.'')" "\<not> IsAlphaNumeric (CHR ''/'')"
  "\<not> IsAlphaNumeric (CHR '':'')" "\<not> IsAlphaNumeric (CHR ''_'')" "\<not> IsAlphaNumeric (CHR ''-'')"
  by (simp_all add: chars)

lemma not_alpha_special [simp]:
  "\<not> IsAlpha NUL" "\<not> IsAlpha (CHR ''.'')" "\<not> IsAlpha (CHR ''/'')" "\<not> IsAlpha (CHR '':'')"
  "\<not> IsAlpha (CHR ''_'')" "\<not> IsAlpha (CHR ''-'')"
  by (simp_all add: chars)

lemma not_digit_special [simp]:
  "\<not> IsDecimalDigit NUL" "\<not> IsDecimalDigit (CHR ''.'')" "\<not> IsDecimalDigit (CHR ''/'')"
  "\<not> IsDecimalDigit (CHR '':'')" "\<not> IsDecimalDigit (CHR ''_'')" "\<not> IsDecimalDigit (CHR ''-'')"
  by (simp_all add: chars)

lemma alpha_not_digit: "IsAlpha c \<Longrightarrow> \<not> IsDecimalDigit c"
  by (auto simp: chars)

subsection \<open>Bytes as hexadecimal text\<close>

definition hexCharsUC :: string where
  "hexCharsUC = ''0123456789ABCDEF''"

definition hexCharsLC :: string where
  "hexCharsLC = ''0123456789abcdef''"

definition hex_pair :: "bool \<Rightarrow> byte \<Rightarrow> string" where
  "hex_pair toLower b =
     (let hexChars = (if toLower then hexCharsLC else hexCharsUC)
      in [hexChars ! (unat b div 16), hexChars ! (unat b mod 16)])"

text \<open>A separator of 0 means none.\<close>

fun bytes_to_hex_loop :: "bool \<Rightarrow> char \<Rightarrow> bool \<Rightarrow> byte list \<Rightarrow> string" where
  "bytes_to_hex_loop toLower separator first [] = []"
| "bytes_to_hex_loop toLower separator first (b # bs) =
     (if separator \<noteq> NUL \<and> \<not> first then [separator] else []) @ hex_pair toLower b @
     bytes_to_hex_loop toLower separator False bs"

definition BytesToHexString :: "byte list \<Rightarrow> bool \<Rightarrow> char \<Rightarrow> string" where
  "BytesToHexString bytes toLower separator = bytes_to_hex_loop toLower separator True bytes"

text \<open>
  One round of the reader: skip the separator, then read two digits. The loop stops at the
  first character that does not fit, and the bytes written so far are the result.
\<close>

fun hex_to_bytes_loop :: "char \<Rightarrow> bool \<Rightarrow> nat \<Rightarrow> string \<Rightarrow> byte list" where
  "hex_to_bytes_loop separator first 0 it = []"
| "hex_to_bytes_loop separator first (Suc n) it =
     (if separator \<noteq> NUL \<and> \<not> first \<and> peek it \<noteq> separator then []
      else
        let it1 = (if separator \<noteq> NUL \<and> \<not> first then tl it else it);
            h = CharToU8 (peek it1);
            it2 = tl it1;
            l = CharToU8 (peek it2);
            it3 = tl it2
        in if h > 15 \<or> l > 15 then []
           else word_of_nat (h * 16 + l) # hex_to_bytes_loop separator False n it3)"

definition HexStringToBytes :: "string \<Rightarrow> nat \<Rightarrow> char \<Rightarrow> byte list" where
  "HexStringToBytes hex len separator =
     hex_to_bytes_loop separator True
       (if separator \<noteq> NUL then min ((1 + length hex) div 3) len else min (length hex div 2) len) hex"

definition HexStringToByteString :: "string \<Rightarrow> char \<Rightarrow> byte list" where
  "HexStringToByteString hex separator =
     hex_to_bytes_loop separator True
       (if separator \<noteq> NUL then (1 + length hex) div 3 else length hex div 2) hex"

lemma char_code_char_of [simp]: "char_code (char_of n) = n mod 256"
  by (simp add: char_code_def)

lemma char_code_literals:
  "char_code (CHR ''0'') = 48" "char_code (CHR ''9'') = 57" "char_code (CHR ''A'') = 65"
  "char_code (CHR ''F'') = 70" "char_code (CHR ''a'') = 97" "char_code (CHR ''f'') = 102"
  by (simp_all add: char_code_def)

lemma CharToU8_U8ToChar [simp]: "n < 16 \<Longrightarrow> CharToU8 (U8ToChar n) = n"
  unfolding CharToU8_def U8ToChar_def char_code_literals by (cases "n \<le> 9") auto

lemma hexCharsLC_map: "hexCharsLC = map U8ToChar [0..<16]"
  by (simp add: hexCharsLC_def U8ToChar_def char_code_literals upt_rec char_of_def bit_0)

definition upper_hex :: "nat \<Rightarrow> char" where
  "upper_hex n = (if n \<le> 9 then char_of (n + 48) else char_of (n + 55))"

lemma hexCharsUC_map: "hexCharsUC = map upper_hex [0..<16]"
  by (simp add: hexCharsUC_def upper_hex_def upt_rec char_of_def bit_0)

lemma CharToU8_hexChars [simp]:
  assumes "n < 16"
  shows "CharToU8 (hexCharsUC ! n) = n" "CharToU8 (hexCharsLC ! n) = n"
proof -
  have "CharToU8 (upper_hex n) = n"
    using assms unfolding CharToU8_def upper_hex_def char_code_literals by (cases "n \<le> 9") auto
  with assms show "CharToU8 (hexCharsUC ! n) = n"
    by (simp add: hexCharsUC_map)
  from assms show "CharToU8 (hexCharsLC ! n) = n"
    by (simp add: hexCharsLC_map)
qed

lemma unat_byte_nibbles: "unat (b :: byte) div 16 < 16" "\<not> 15 < unat (b :: byte) mod 16"
  using unsigned_less [of b, where ?'a = nat] by auto

lemma word_of_nat_nibbles [simp]:
  "word_of_nat (unat (b :: byte) div 16) * 16 + word_of_nat (unat b mod 16) = b"
proof -
  have "word_of_nat (unat b div 16 * 16 + unat b mod 16) = b"
    by (simp only: div_mult_mod_eq) simp
  then show ?thesis by (simp only: of_nat_add of_nat_mult of_nat_numeral)
qed

lemma length_hex_pair [simp]: "length (hex_pair toLower b) = 2"
  by (simp add: hex_pair_def Let_def)

lemma CharToU8_hex_pair:
  "CharToU8 (hex_pair toLower b ! 0) = unat b div 16"
  "CharToU8 (hex_pair toLower b ! 1) = unat b mod 16"
  using unat_byte_nibbles [of b] by (simp_all add: hex_pair_def Let_def not_less)

lemma hex_pair_conv: "hex_pair toLower b = [hex_pair toLower b ! 0, hex_pair toLower b ! 1]"
  by (simp add: hex_pair_def Let_def)

lemma hex_to_bytes_hex_pair:
  "hex_to_bytes_loop sep True (Suc n) (hex_pair toLower b @ rest) =
     b # hex_to_bytes_loop sep False n rest"
  using unat_byte_nibbles [of b] CharToU8_hex_pair [of toLower b]
  by (subst hex_pair_conv) (simp add: Let_def)

lemma hex_to_bytes_sep_pair:
  "hex_to_bytes_loop sep False (Suc n)
     ((if sep \<noteq> NUL then [sep] else []) @ hex_pair toLower b @ rest) =
     b # hex_to_bytes_loop sep False n rest"
  using unat_byte_nibbles [of b] CharToU8_hex_pair [of toLower b]
  by (subst hex_pair_conv) (cases "sep = NUL"; simp add: Let_def)

lemma hex_loop_roundtrip_tail:
  "n \<le> length bs \<Longrightarrow>
   hex_to_bytes_loop sep False n (bytes_to_hex_loop toLower sep False bs) = take n bs"
proof (induction bs arbitrary: n)
  case (Cons b bs)
  then show ?case
    using hex_to_bytes_sep_pair [of sep _ toLower b "bytes_to_hex_loop toLower sep False bs"]
    by (cases n) (simp_all del: hex_to_bytes_loop.simps(2))
qed simp

lemma length_bytes_to_hex_loop:
  "length (bytes_to_hex_loop toLower sep False bs) = (if sep = NUL then 2 else 3) * length bs"
  by (induction bs) auto

lemma length_BytesToHexString:
  "length (BytesToHexString bs toLower sep) =
     (if sep = NUL \<or> bs = [] then 2 * length bs else 3 * length bs - 1)"
  by (cases bs) (auto simp: BytesToHexString_def length_bytes_to_hex_loop)

subsection \<open>Numbers as text\<close>

text \<open>
  \<open>pad_loop\<close> counts the fill characters: \<^verbatim>\<open>while (--width > 0)\<close>. Division by a base of
  0 does not return. \<open>digits_loop\<close> is the do-while loop that inserts each digit before
  those already written.
\<close>

fun pad_loop :: "nat \<Rightarrow> nat \<Rightarrow> nat \<Rightarrow> nat option" where
  "pad_loop base 0 tmp = Some 0"
| "pad_loop base (Suc w) tmp =
     (if tmp \<ge> base
      then (if base = 0 then None else pad_loop base w (tmp div base))
      else map_option Suc (pad_loop base w tmp))"

partial_function (option) digits_loop :: "nat \<Rightarrow> nat \<Rightarrow> string \<Rightarrow> string option" where
  "digits_loop base num out =
     (let out' = (hexCharsUC ! (num mod base)) # out; num' = num div base
      in if num' \<noteq> 0 then digits_loop base num' out' else Some out')"

definition U32ToString :: "u32 \<Rightarrow> nat \<Rightarrow> nat \<Rightarrow> char \<Rightarrow> string option" where
  "U32ToString num base width fill =
     (let width' = (if width = 0 then 1 else width) in
      case pad_loop base (width' - 1) (unat num) of
        None \<Rightarrow> None
      | Some pos \<Rightarrow>
          (let outStr = replicate pos fill in
           if 0 < base \<and> base \<le> 16
           then map_option (\<lambda>ds. outStr @ ds) (digits_loop base (unat num) [])
           else Some (if outStr = [] then ''0'' else outStr)))"

text \<open>The value wraps at 32 bits, as \<^verbatim>\<open>val\<close> does.\<close>

fun string_to_u32_loop :: "nat \<Rightarrow> u32 \<Rightarrow> bool \<Rightarrow> string \<Rightarrow> u32 \<times> bool" where
  "string_to_u32_loop base val isBad [] = (val, isBad)"
| "string_to_u32_loop base val isBad (c # it) =
     (if \<not> IsWhite c
      then (let n = CharToU8 c; isBad' = (n \<ge> base) in
            if isBad' then (val, isBad')
            else string_to_u32_loop base (val * word_of_nat base + word_of_nat n) isBad' it)
      else if \<not> isBad then (val, isBad)
      else string_to_u32_loop base val isBad it)"

definition StringToU32 :: "string \<Rightarrow> nat \<Rightarrow> u32 \<Rightarrow> u32" where
  "StringToU32 inStr base badValue =
     (let finish = (\<lambda>b it. case string_to_u32_loop b 0 True it of
                      (val, isBad) \<Rightarrow> if isBad then badValue else val)
      in if base > 16 then badValue
         else if base = 0 then
           (if peek inStr = CHR ''0'' then
              (let it = tl inStr in
               if it = [] then 0
               else if peek it = CHR ''x'' \<or> peek it = CHR ''X'' then finish 16 (tl it)
               else finish 8 it)
            else finish 10 inStr)
         else if base = 16 then
           (if peek inStr = CHR ''0'' then
              (let it = tl inStr in
               if peek it = CHR ''x'' \<or> peek it = CHR ''X'' then finish 16 (tl it)
               else finish 16 it)
            else finish 16 inStr)
         else finish base inStr)"

subsection \<open>Positional digits\<close>

text \<open>The digits of a number, most significant first: the reference for \<open>digits_loop\<close>.\<close>

fun digs :: "nat \<Rightarrow> nat \<Rightarrow> string" where
  "digs b n = (if n < b \<or> b < 2 then [hexCharsUC ! n] else digs b (n div b) @ [hexCharsUC ! (n mod b)])"

declare digs.simps [simp del]

lemma digits_loop_digs: "2 \<le> b \<Longrightarrow> digits_loop b n out = Some (digs b n @ out)"
proof (induction b n arbitrary: out rule: digs.induct)
  case (1 b n)
  show ?case
  proof (cases "n < b")
    case True
    then show ?thesis
      by (subst digits_loop.simps, subst digs.simps) simp
  next
    case False
    with 1(1) "1.prems" have "digits_loop b (n div b) out' = Some (digs b (n div b) @ out')" for out'
      by simp
    with False "1.prems" show ?thesis
      by (subst digits_loop.simps, subst digs.simps) (simp add: Let_def div_eq_0_iff)
  qed
qed

definition good_digit :: "nat \<Rightarrow> char \<Rightarrow> bool" where
  "good_digit b c \<longleftrightarrow> CharToU8 c < b"

lemma white_not_digit: "IsWhite c \<Longrightarrow> CharToU8 c = 255"
  by (auto simp: chars)

lemma good_digits_digs: "2 \<le> b \<Longrightarrow> b \<le> 16 \<Longrightarrow> c \<in> set (digs b n) \<Longrightarrow> good_digit b c"
proof (induction b n rule: digs.induct)
  case (1 b n)
  show ?case
  proof (cases "n < b")
    case True
    with "1.prems" show ?thesis by (subst (asm) digs.simps) (auto simp: good_digit_def)
  next
    case False
    have "n mod b < b" using "1.prems"(1) by simp
    moreover have "n mod b < 16" using calculation "1.prems"(2) by linarith
    ultimately have "good_digit b (hexCharsUC ! (n mod b))"
      by (simp add: good_digit_def)
    with 1 False show ?thesis by (subst (asm) (2) digs.simps) auto
  qed
qed

lemma string_to_u32_loop_good:
  assumes "\<forall>c \<in> set s. good_digit b c" and "b \<le> 16"
  shows "string_to_u32_loop b v bad s =
           (foldl (\<lambda>v c. v * word_of_nat b + word_of_nat (CharToU8 c)) v s, bad \<and> s = [])"
  using assms
proof (induction s arbitrary: v bad)
  case (Cons c s)
  then have "\<not> IsWhite c"
    using white_not_digit by (fastforce simp: good_digit_def)
  with Cons show ?case by (simp add: good_digit_def Let_def)
qed simp

lemma foldl_digs:
  assumes "2 \<le> b" and "b \<le> 16"
  shows "foldl (\<lambda>v c. v * word_of_nat b + word_of_nat (CharToU8 c)) (0 :: u32) (digs b n) = word_of_nat n"
  using assms
proof (induction b n rule: digs.induct)
  case (1 b n)
  show ?case
  proof (cases "n < b")
    case True
    with "1.prems" show ?thesis by (subst digs.simps) simp
  next
    case False
    have m: "n mod b < b" "n mod b < 16"
      using "1.prems" mod_less_divisor [of b n] by linarith+
    have "(word_of_nat (n div b * b + n mod b) :: u32) = word_of_nat n"
      by (simp only: div_mult_mod_eq)
    then have "(word_of_nat (n div b) * word_of_nat b + word_of_nat (n mod b) :: u32) = word_of_nat n"
      by (simp only: of_nat_add of_nat_mult)
    with 1 False m show ?thesis
      by (subst digs.simps) simp
  qed
qed

lemma CharToU8_zero: "CharToU8 (CHR ''0'') = 0"
  by (simp add: CharToU8_def char_code_literals)

lemma digs_not_Nil [simp]: "digs b n \<noteq> []"
  by (subst digs.simps) simp

lemma hd_digs_zero: "2 \<le> b \<Longrightarrow> b \<le> 16 \<Longrightarrow> CharToU8 (hd (digs b n)) = 0 \<Longrightarrow> n = 0"
proof (induction b n rule: digs.induct)
  case (1 b n)
  show ?case
  proof (cases "n < b")
    case True
    with "1.prems" show ?thesis by (subst (asm) digs.simps) auto
  next
    case False
    with "1.prems" have "CharToU8 (hd (digs b (n div b))) = 0"
      by (subst (asm) digs.simps) simp
    with 1 False have "n div b = 0" by simp
    with False "1.prems" show ?thesis by (auto simp: div_eq_0_iff)
  qed
qed

subsection \<open>Properties\<close>

text \<open>
  C31. Hexadecimal text is lossless: reading back, with the same separator and a buffer of
  \<open>len\<close> bytes, what \<open>BytesToHexString\<close> wrote gives the first \<open>len\<close> of the bytes, for any
  separator character and either letter case.
\<close>

theorem hex_string_roundtrip:
  "HexStringToBytes (BytesToHexString bs toLower sep) len sep = take len bs"
proof (cases bs)
  case Nil
  then show ?thesis by (simp add: HexStringToBytes_def BytesToHexString_def)
next
  case (Cons b bs')
  define n where
    "n = (if sep \<noteq> NUL then min ((1 + length (BytesToHexString bs toLower sep)) div 3) len
          else min (length (BytesToHexString bs toLower sep) div 2) len)"
  have n: "n = min (length bs) len"
    using Cons by (auto simp: n_def length_BytesToHexString)
  have hex: "BytesToHexString (b # bs') toLower sep = hex_pair toLower b @ bytes_to_hex_loop toLower sep False bs'"
    by (simp add: BytesToHexString_def)
  have "hex_to_bytes_loop sep True n (BytesToHexString bs toLower sep) = take n bs"
  proof (cases n)
    case (Suc m)
    then have "m \<le> length bs'" using n Cons by simp
    then have "hex_to_bytes_loop sep False m (bytes_to_hex_loop toLower sep False bs') = take m bs'"
      by (rule hex_loop_roundtrip_tail)
    then show ?thesis
      by (simp only: hex Suc Cons hex_to_bytes_hex_pair take_Suc_Cons)
  qed simp
  then have "HexStringToBytes (BytesToHexString bs toLower sep) len sep = take n bs"
    by (simp only: HexStringToBytes_def n_def)
  then show ?thesis by (simp add: n min_def)
qed

text \<open>
  Numbers survive the trip through text in every base from 2 to 16, with no fill, and
  \<open>U32ToString\<close> does return there. The one exception is 0 in base 16, which
  \<open>StringToU32\<close> takes for a prefix.
\<close>

theorem u32_string_roundtrip:
  assumes "2 \<le> base" and "base \<le> 16" and "base = 16 \<longrightarrow> n \<noteq> 0"
  shows "\<exists>s. U32ToString n base 1 fill = Some s \<and> StringToU32 s base bad = n"
proof -
  let ?s = "digs base (unat n)"
  have str: "U32ToString n base 1 fill = Some ?s"
    using assms(1,2) by (simp add: U32ToString_def digits_loop_digs)
  have good: "\<forall>c \<in> set ?s. good_digit base c"
    using assms(1,2) good_digits_digs by blast
  have loop: "string_to_u32_loop base 0 True ?s = (n, False)"
    using string_to_u32_loop_good [OF good assms(2)] foldl_digs [OF assms(1,2)] by simp
  have "StringToU32 ?s base bad = n"
  proof (cases "base = 16")
    case True
    have "unat n \<noteq> 0" using assms(3) True by (simp add: unat_eq_0)
    then have "CharToU8 (hd ?s) \<noteq> 0"
      by (rule contrapos_nn) (rule hd_digs_zero [OF assms(1,2)])
    moreover have "peek ?s = hd ?s" using digs_not_Nil by (simp add: peek_def split: list.split)
    ultimately have "peek ?s \<noteq> CHR ''0''" by (auto simp: CharToU8_zero)
    with True loop show ?thesis by (simp add: StringToU32_def)
  next
    case False
    with assms(1,2) loop show ?thesis by (simp add: StringToU32_def)
  qed
  with str show ?thesis by blast
qed

theorem u32_string_roundtrip_witness:
  "\<exists>s. U32ToString 1234567 10 1 (CHR '' '') = Some s \<and> StringToU32 s 10 0 = 1234567"
  by (rule u32_string_roundtrip) simp_all

text \<open>
  The corner cases of the conversions, as the code has them. In base 1, which the
  interface documents as allowed, the digit loop of \<open>U32ToString\<close> never ends for a
  non-zero number. \<open>StringToU32\<close> in base 16 returns the bad value for the text
  \<open>0\<close>, although it is a number.
\<close>

theorem u32_string_corner_cases:
  "(U32ToString n 1 1 fill = None \<longleftrightarrow> n \<noteq> 0) \<and> StringToU32 ''0'' 16 bad = bad"
proof
  have loop: "digits_loop 1 m out = None" if "m \<noteq> 0" for m out
  proof (rule ccontr)
    assume "digits_loop 1 m out \<noteq> None"
    then obtain r where "digits_loop 1 m out = Some r" by blast
    then have "1 = (1::nat) \<longrightarrow> m = 0"
    proof (rule digits_loop.raw_induct [where P = "\<lambda>b m out r. b = 1 \<longrightarrow> m = 0", rotated])
      fix f b m out r
      assume "\<And>b m out r. f b m out = Some r \<Longrightarrow> b = 1 \<longrightarrow> m = (0::nat)"
        and "(let out' = hexCharsUC ! (m mod b) # out; num' = m div b
              in if num' \<noteq> 0 then f b num' out' else Some out') = Some r"
      then show "b = (1::nat) \<longrightarrow> m = 0"
        by (auto simp: Let_def split: if_splits)
    qed
    with that show False by simp
  qed
  have "digits_loop 1 0 out \<noteq> None" for out
    by (subst digits_loop.simps) simp
  with loop show "U32ToString n 1 1 fill = None \<longleftrightarrow> n \<noteq> 0"
    by (cases "n = 0") (simp_all add: U32ToString_def unat_gt_0 del: One_nat_def)
  show "StringToU32 ''0'' 16 bad = bad"
    by (simp add: StringToU32_def)
qed

end
