(* ===== verification/Bus_Names.thy ===== *)
theory Bus_Names
  imports String_Util
begin

text \<open>
  The name validators and the small matchers of \<^verbatim>\<open>alljoyn_core/src/BusUtil.cc\<close>. A
  \<^verbatim>\<open>const char*\<close> argument is an optional string (\<open>None\<close> is the null
  pointer); the pointer walks of the code are recursions on the remaining characters, with
  \<open>peek\<close> for \<^verbatim>\<open>*p\<close>. Each validator is shown equal to a grammar, stated on the
  pieces of the name; where the code departs from what \<^verbatim>\<open>BusUtil.h\<close> says of the
  names, the grammar is that of the code and the difference is stated.
\<close>

definition MAX_NAME_LEN :: nat where
  "MAX_NAME_LEN = 256"

subsection \<open>Validators\<close>

fun unique_name_loop :: "string \<Rightarrow> nat \<Rightarrow> nat option" where
  "unique_name_loop [] periods = Some periods"
| "unique_name_loop (c # p) periods =
     (if \<not> IsAlphaNumeric c \<and> c \<noteq> CHR ''-'' \<and> c \<noteq> CHR ''_''
      then (if c \<noteq> CHR ''.'' \<or> peek p = CHR ''.'' \<or> peek p = NUL then None
            else unique_name_loop p (Suc periods))
      else unique_name_loop p periods)"

definition IsLegalUniqueName :: "string option \<Rightarrow> bool" where
  "IsLegalUniqueName str =
     (case str of
        None \<Rightarrow> False
      | Some s \<Rightarrow>
          (let p = tl s in
           if peek s \<noteq> CHR '':'' \<or>
              \<not> (IsAlphaNumeric (peek p) \<or> peek p = CHR ''-'' \<or> peek p = CHR ''_'')
           then False
           else (case unique_name_loop (tl p) 0 of
                   None \<Rightarrow> False
                 | Some periods \<Rightarrow> periods > 0 \<and> length s + 1 \<le> MAX_NAME_LEN)))"

fun bus_name_loop :: "string \<Rightarrow> nat \<Rightarrow> nat option" where
  "bus_name_loop [] periods = Some periods"
| "bus_name_loop (c # p) periods =
     (if \<not> IsAlphaNumeric c \<and> c \<noteq> CHR ''_'' \<and> c \<noteq> CHR ''-''
      then (if c \<noteq> CHR ''.'' \<or> peek p = CHR ''.'' \<or> peek p = NUL \<or> IsDecimalDigit (peek p) then None
            else bus_name_loop p (Suc periods))
      else bus_name_loop p periods)"

definition IsLegalBusName :: "string option \<Rightarrow> bool" where
  "IsLegalBusName str =
     (case str of
        None \<Rightarrow> False
      | Some s \<Rightarrow>
          if peek s = CHR '':'' then IsLegalUniqueName str
          else if \<not> IsAlpha (peek s) \<and> peek s \<noteq> CHR ''_'' \<and> peek s \<noteq> CHR ''-'' then False
          else (case bus_name_loop (tl s) 0 of
                  None \<Rightarrow> False
                | Some periods \<Rightarrow> periods > 0 \<and> length s + 1 \<le> MAX_NAME_LEN))"

fun object_path_loop :: "string \<Rightarrow> bool" where
  "object_path_loop [] = True"
| "object_path_loop (c # str) =
     (if \<not> IsAlphaNumeric c \<and> c \<noteq> CHR ''_''
      then (if c \<noteq> CHR ''/'' \<or> peek str = CHR ''/'' \<or> peek str = NUL then False
            else object_path_loop str)
      else object_path_loop str)"

text \<open>The first slash is read before the loop, so only the slashes after it are checked there.\<close>

definition IsLegalObjectPath :: "string option \<Rightarrow> bool" where
  "IsLegalObjectPath str =
     (case str of
        None \<Rightarrow> False
      | Some s \<Rightarrow> if peek s \<noteq> CHR ''/'' then False else object_path_loop (tl s))"

fun interface_name_loop :: "string \<Rightarrow> nat \<Rightarrow> nat option" where
  "interface_name_loop [] periods = Some periods"
| "interface_name_loop (c # p) periods =
     (if \<not> IsAlphaNumeric c \<and> c \<noteq> CHR ''_''
      then (if c \<noteq> CHR ''.'' \<or> peek p = CHR ''.'' \<or> peek p = NUL then None
            else interface_name_loop p (Suc periods))
      else interface_name_loop p periods)"

definition IsLegalInterfaceName :: "string option \<Rightarrow> bool" where
  "IsLegalInterfaceName str =
     (case str of
        None \<Rightarrow> False
      | Some s \<Rightarrow>
          if \<not> IsAlpha (peek s) \<and> peek s \<noteq> CHR ''_'' then False
          else (case interface_name_loop (tl s) 0 of
                  None \<Rightarrow> False
                | Some periods \<Rightarrow> periods > 0 \<and> length s + 1 \<le> MAX_NAME_LEN))"

definition IsLegalErrorName :: "string option \<Rightarrow> bool" where
  "IsLegalErrorName str = IsLegalInterfaceName str"

fun member_name_loop :: "string \<Rightarrow> bool" where
  "member_name_loop [] = True"
| "member_name_loop (c # p) =
     (if \<not> IsAlphaNumeric c \<and> c \<noteq> CHR ''_'' then False else member_name_loop p)"

definition IsLegalMemberName :: "string option \<Rightarrow> bool" where
  "IsLegalMemberName str =
     (case str of
        None \<Rightarrow> False
      | Some s \<Rightarrow>
          if \<not> IsAlpha (peek s) \<and> peek s \<noteq> CHR ''_'' then False
          else member_name_loop (tl s) \<and> length s + 1 \<le> MAX_NAME_LEN)"

fun path_to_name_loop :: "string \<Rightarrow> string" where
  "path_to_name_loop [] = []"
| "path_to_name_loop (c # str) = (if c = CHR ''/'' then CHR ''.'' else c) # path_to_name_loop str"

definition BusNameFromObjPath :: "string option \<Rightarrow> string" where
  "BusNameFromObjPath str =
     (case str of
        None \<Rightarrow> []
      | Some s \<Rightarrow> if IsLegalObjectPath str \<and> peek (tl s) \<noteq> NUL then path_to_name_loop s else [])"

subsection \<open>Match rules and wildcards\<close>

text \<open>
  \<^verbatim>\<open>String::find_first_of(c, pos)\<close>; \<open>None\<close> is \<^verbatim>\<open>npos\<close>.
\<close>

fun index_of :: "char \<Rightarrow> string \<Rightarrow> nat option" where
  "index_of c [] = None"
| "index_of c (x # xs) = (if x = c then Some 0 else map_option Suc (index_of c xs))"

definition find_first_of :: "string \<Rightarrow> char \<Rightarrow> nat \<Rightarrow> nat option" where
  "find_first_of s c pos =
     (if pos \<ge> length s then None else map_option (\<lambda>i. pos + i) (index_of c (drop pos s)))"

definition substr :: "string \<Rightarrow> nat \<Rightarrow> nat \<Rightarrow> string" where
  "substr s pos n = (if pos \<le> length s \<and> n \<noteq> 0 then take n (drop pos s) else [])"

lemma index_of_less: "index_of c s = Some i \<Longrightarrow> i < length s"
  by (induction s arbitrary: i) (auto split: if_splits)

lemma find_first_of_bounds: "find_first_of s c pos = Some i \<Longrightarrow> pos \<le> i \<and> i < length s"
  by (auto simp: find_first_of_def dest!: index_of_less split: if_splits)

text \<open>
  The multimap is the list of its insertions. Positions are unsigned, so the length of the
  value is \<^verbatim>\<open>endQuotePos - begQuotePos\<close>, with the quote found at or after it.
\<close>

function parse_match_loop :: "string \<Rightarrow> nat \<Rightarrow> (string \<times> string) list \<Rightarrow> QStatus \<times> (string \<times> string) list" where
  "parse_match_loop match pos matchMap =
     (if pos < length match then
        let endPos = (case find_first_of match (CHR '','') pos of None \<Rightarrow> length match | Some e \<Rightarrow> e)
        in case find_first_of match (CHR ''='') pos of
             None \<Rightarrow> (ER_FAIL, matchMap)
           | Some eq \<Rightarrow>
               if eq \<ge> endPos then (ER_FAIL, matchMap)
               else
                 let eqPos = eq + 1;
                     endQuotePos =
                       (case find_first_of match (CHR 0x27) eqPos of
                          None \<Rightarrow> None
                        | Some b \<Rightarrow>
                            if b + 1 < length match
                            then map_option (\<lambda>e. (b + 1, e)) (find_first_of match (CHR 0x27) (b + 1))
                            else None)
                 in (case endQuotePos of
                       None \<Rightarrow> (ER_FAIL, matchMap)
                     | Some (begQ, endQ) \<Rightarrow>
                         parse_match_loop match (endPos + 1)
                           (matchMap @ [(substr match pos (eqPos - 1 - pos),
                                         substr match begQ (endQ - begQ))]))
      else (ER_OK, matchMap))"
  by pat_completeness auto
termination
proof (relation "measure (\<lambda>(match, pos, m). length match - pos)")
  fix match pos matchMap endPos eq eqPos endQuotePos x begQ endQ
  assume "pos < length match"
    and "endPos = (case find_first_of match CHR '','' pos of None \<Rightarrow> length match | Some e \<Rightarrow> e)"
  then have "pos \<le> endPos"
    by (auto split: option.splits dest: find_first_of_bounds)
  with \<open>pos < length match\<close>
  show "((match, endPos + 1, matchMap @ [(substr match pos (eqPos - 1 - pos), substr match begQ (endQ - begQ))]),
         match, pos, matchMap) \<in> measure (\<lambda>(match, pos, m). length match - pos)"
    by simp
qed simp

definition ParseMatchRule :: "string \<Rightarrow> QStatus \<times> (string \<times> string) list" where
  "ParseMatchRule match = parse_match_loop match 0 []"

text \<open>
  The scan for the character after a star: the first position at or after \<open>si\<close> that
  holds it, or the end of the string.
\<close>

fun scan_for :: "char \<Rightarrow> string \<Rightarrow> string" where
  "scan_for c [] = []"
| "scan_for c (x # s) = (if x = c then x # s else scan_for c s)"

text \<open>
  The loop on the rest of the pattern and of the string. After a star whose next character
  is not found, the string index is one past the end when the loop stops, and the code
  reports a difference. As in the code, \<open>True\<close> means that the string does not match.
\<close>

fun wildcard_loop :: "string \<Rightarrow> string \<Rightarrow> bool" where
  "wildcard_loop [] [] = False"
| "wildcard_loop [] (s # ss) = True"
| "wildcard_loop (p # ps) [] = (p \<noteq> CHR ''*'')"
| "wildcard_loop (p # ps) (s # ss) =
     (if p = CHR ''*'' then
        (case ps of
           [] \<Rightarrow> False
         | q # qs \<Rightarrow>
             if q = CHR ''*'' \<or> q = CHR ''?'' then True
             else (case scan_for q (s # ss) of
                     [] \<Rightarrow> True
                   | _ # ss' \<Rightarrow> wildcard_loop qs ss'))
      else if p = CHR ''?'' then wildcard_loop ps ss
      else if p \<noteq> s then True
      else wildcard_loop ps ss)"

definition WildcardMatch :: "string \<Rightarrow> string \<Rightarrow> bool" where
  "WildcardMatch str pat = (if pat = [] \<or> str = [] then True else wildcard_loop pat str)"

subsection \<open>The grammar of dotted names\<close>

text \<open>
  One loop stands for the three that walk a dotted name: \<open>ok\<close> are the characters a piece
  may hold, \<open>bf\<close> those it must not begin with.
\<close>

fun name_loop :: "(char \<Rightarrow> bool) \<Rightarrow> (char \<Rightarrow> bool) \<Rightarrow> string \<Rightarrow> nat \<Rightarrow> nat option" where
  "name_loop ok bf [] n = Some n"
| "name_loop ok bf (c # p) n =
     (if \<not> ok c
      then (if c \<noteq> CHR ''.'' \<or> peek p = CHR ''.'' \<or> peek p = NUL \<or> bf (peek p) then None
            else name_loop ok bf p (Suc n))
      else name_loop ok bf p n)"

definition bus_char :: "char \<Rightarrow> bool" where
  "bus_char c \<longleftrightarrow> IsAlphaNumeric c \<or> c = CHR ''-'' \<or> c = CHR ''_''"

definition member_char :: "char \<Rightarrow> bool" where
  "member_char c \<longleftrightarrow> IsAlphaNumeric c \<or> c = CHR ''_''"

lemma name_char_special [simp]:
  "\<not> bus_char NUL" "\<not> bus_char (CHR ''.'')" "\<not> bus_char (CHR '':'')"
  "\<not> member_char NUL" "\<not> member_char (CHR ''.'')" "\<not> member_char (CHR ''/'')"
  by (simp_all add: bus_char_def member_char_def)

lemma unique_name_loop_eq: "unique_name_loop s n = name_loop bus_char (\<lambda>_. False) s n"
  by (induction s arbitrary: n) (auto simp: bus_char_def)

lemma bus_name_loop_eq: "bus_name_loop s n = name_loop bus_char IsDecimalDigit s n"
  by (induction s arbitrary: n) (auto simp: bus_char_def)

lemma interface_name_loop_eq: "interface_name_loop s n = name_loop member_char (\<lambda>_. False) s n"
  by (induction s arbitrary: n) (auto simp: member_char_def)

lemma member_name_loop_eq: "member_name_loop s \<longleftrightarrow> (\<forall>c \<in> set s. member_char c)"
  by (induction s) (auto simp: member_char_def)

text \<open>A piece of a name, and a whole name after its first character.\<close>

definition piece :: "(char \<Rightarrow> bool) \<Rightarrow> (char \<Rightarrow> bool) \<Rightarrow> string \<Rightarrow> bool" where
  "piece ok bf p \<longleftrightarrow> p \<noteq> [] \<and> \<not> bf (hd p) \<and> (\<forall>c \<in> set p. ok c)"

definition dotted :: "(char \<Rightarrow> bool) \<Rightarrow> (char \<Rightarrow> bool) \<Rightarrow> string \<Rightarrow> bool" where
  "dotted ok bf s \<longleftrightarrow> (\<forall>p \<in> set (split_on (CHR ''.'') s). piece ok bf p)"

lemma hd_hd_split_on: "s \<noteq> [] \<Longrightarrow> hd s \<noteq> d \<Longrightarrow> hd (hd (split_on d s)) = hd s"
  by (cases s) auto

lemma ball_split_on_hd_tl:
  "(\<forall>p \<in> set (split_on d s). P p) \<longleftrightarrow> P (hd (split_on d s)) \<and> (\<forall>p \<in> set (tl (split_on d s)). P p)"
  by (cases "split_on d s") auto

lemma name_loop_pieces:
  assumes "\<not> ok (CHR ''.'')" and "\<not> ok NUL"
  shows "name_loop ok bf s n = Some m \<longleftrightarrow>
           m = n + count_list s (CHR ''.'') \<and>
           (\<forall>c \<in> set (hd (split_on (CHR ''.'') s)). ok c) \<and>
           (\<forall>p \<in> set (tl (split_on (CHR ''.'') s)). piece ok bf p)"
proof (induction s arbitrary: n)
  case (Cons c s)
  show ?case
  proof (cases "c = CHR ''.''")
    case True
    let ?d = "CHR ''.''" let ?h = "hd (split_on ?d s)"
    have first: "piece ok bf ?h \<longleftrightarrow> s \<noteq> [] \<and> hd s \<noteq> ?d \<and> \<not> bf (hd s) \<and> (\<forall>c \<in> set ?h. ok c)"
      by (auto simp: piece_def hd_split_on_Nil_iff hd_hd_split_on)
    have nul: "hd s \<noteq> NUL" if "s \<noteq> []" "hd s \<noteq> ?d" "\<forall>c \<in> set ?h. ok c"
      using that assms(2) by (cases s) auto
    have lhs: "name_loop ok bf (c # s) n = Some m \<longleftrightarrow>
        peek s \<noteq> ?d \<and> peek s \<noteq> NUL \<and> \<not> bf (peek s) \<and> name_loop ok bf s (Suc n) = Some m"
      using True assms(1) by simp
    have pk: "peek s = (if s = [] then NUL else hd s)"
      by (cases s) simp_all
    have rhs: "(\<forall>p \<in> set (tl (split_on ?d (c # s))). piece ok bf p) \<longleftrightarrow>
        piece ok bf ?h \<and> (\<forall>p \<in> set (tl (split_on ?d s)). piece ok bf p)"
      using True by (simp add: ball_split_on_hd_tl)
    have head: "hd (split_on ?d (c # s)) = []" "count_list (c # s) ?d = Suc (count_list s ?d)"
      using True by simp_all
    show ?thesis
      unfolding lhs rhs head Cons.IH first pk using nul by auto
  next
    case False
    then show ?thesis using Cons.IH by (cases "ok c") auto
  qed
qed auto

lemma dotted_Cons:
  assumes "\<not> ok (CHR ''.'')" and "\<not> ok NUL"
  shows "dotted ok bf (c # t) \<longleftrightarrow>
           ok c \<and> \<not> bf c \<and> name_loop ok bf t 0 = Some (count_list t (CHR ''.''))"
proof (cases "c = CHR ''.''")
  case True
  then show ?thesis using assms(1) by (simp add: dotted_def piece_def)
next
  case False
  then show ?thesis
    unfolding dotted_def name_loop_pieces [OF assms]
    by (auto simp: ball_split_on_hd_tl [of _ "c # t"] piece_def)
qed

lemma name_loop_count:
  assumes "\<not> ok (CHR ''.'')" and "\<not> ok NUL" and "name_loop ok bf s 0 = Some m"
  shows "m = count_list s (CHR ''.'')"
  using assms name_loop_pieces by simp

lemma not_dotted_Nil [simp]: "\<not> dotted ok bf []"
  by (simp add: dotted_def piece_def)

text \<open>
  What the validators compute after the first character: a name is accepted when the loop
  succeeds and has seen a period.
\<close>

lemma count_list_pos_iff: "0 < count_list xs x \<longleftrightarrow> x \<in> set xs"
  using count_list_0_iff [of xs x] by auto

lemma name_loop_accepts:
  assumes "\<not> ok (CHR ''.'')" and "\<not> ok NUL"
  shows "(case name_loop ok bf t 0 of None \<Rightarrow> False | Some m \<Rightarrow> m > 0 \<and> P) \<longleftrightarrow>
           name_loop ok bf t 0 = Some (count_list t (CHR ''.'')) \<and> CHR ''.'' \<in> set t \<and> P"
  using name_loop_count [OF assms, of bf t]
  by (auto simp: count_list_pos_iff split: option.splits)

subsection \<open>What the validators accept\<close>

lemma IsLegalBusName_iff:
  "IsLegalBusName (Some s) \<longleftrightarrow>
     length s \<le> 255 \<and>
     ((\<exists>t. s = CHR '':'' # t \<and> dotted bus_char (\<lambda>_. False) t \<and> CHR ''.'' \<in> set t) \<or>
      (dotted bus_char IsDecimalDigit s \<and> CHR ''.'' \<in> set s))"
proof (cases s)
  case Nil
  then show ?thesis by (simp add: IsLegalBusName_def)
next
  case (Cons c t)
  show ?thesis
  proof (cases "c = CHR '':''")
    case True
    have "IsLegalUniqueName (Some (CHR '':'' # t)) \<longleftrightarrow>
        length t \<le> 254 \<and> dotted bus_char (\<lambda>_. False) t \<and> CHR ''.'' \<in> set t"
      by (cases t)
         (auto simp: IsLegalUniqueName_def unique_name_loop_eq name_loop_accepts dotted_Cons
            MAX_NAME_LEN_def bus_char_def)
    with True Cons show ?thesis
      by (auto simp: IsLegalBusName_def dotted_Cons)
  next
    case False
    have "IsAlpha c \<or> c = CHR ''_'' \<or> c = CHR ''-'' \<longleftrightarrow> bus_char c \<and> \<not> IsDecimalDigit c"
      by (auto simp: bus_char_def IsAlphaNumeric_def dest: alpha_not_digit)
    then show ?thesis
      using Cons False
      by (auto simp: IsLegalBusName_def bus_name_loop_eq name_loop_accepts dotted_Cons MAX_NAME_LEN_def)
  qed
qed

lemma member_names_iff:
  "(IsLegalInterfaceName (Some s) \<longleftrightarrow>
      length s \<le> 255 \<and> dotted member_char (\<lambda>_. False) s \<and> \<not> IsDecimalDigit (hd s) \<and> CHR ''.'' \<in> set s) \<and>
   (IsLegalErrorName (Some s) \<longleftrightarrow> IsLegalInterfaceName (Some s)) \<and>
   (IsLegalMemberName (Some s) \<longleftrightarrow> length s \<le> 255 \<and> piece member_char IsDecimalDigit s)"
proof (cases s)
  case Nil
  then show ?thesis
    by (simp add: IsLegalInterfaceName_def IsLegalErrorName_def IsLegalMemberName_def piece_def)
next
  case (Cons c t)
  have "IsAlpha c \<or> c = CHR ''_'' \<longleftrightarrow> member_char c \<and> \<not> IsDecimalDigit c"
    by (auto simp: member_char_def IsAlphaNumeric_def dest: alpha_not_digit)
  with Cons show ?thesis
    by (auto simp: IsLegalInterfaceName_def IsLegalErrorName_def IsLegalMemberName_def piece_def
          interface_name_loop_eq member_name_loop_eq name_loop_accepts dotted_Cons MAX_NAME_LEN_def)
qed

subsection \<open>Properties\<close>

text \<open>
  C29. What \<open>IsLegalBusName\<close> accepts, exactly: at most 255 characters, and either a colon
  followed by period-separated pieces of letters, digits, hyphens and underscores, or such
  pieces of which none begins with a digit; no piece is empty and there are at least two.
  This is not what \<^verbatim>\<open>BusUtil.h\<close> documents: there a unique name has integers only
  between its periods, and a bus name is not forbidden to have pieces that are empty or begin
  with a digit. The other conjuncts show names on which code and comment differ.
\<close>

theorem legal_bus_name_grammar:
  "(IsLegalBusName (Some s) \<longleftrightarrow>
     length s \<le> 255 \<and>
     ((\<exists>t. s = CHR '':'' # t \<and> dotted bus_char (\<lambda>_. False) t \<and> CHR ''.'' \<in> set t) \<or>
      (dotted bus_char IsDecimalDigit s \<and> CHR ''.'' \<in> set s))) \<and>
   IsLegalBusName (Some '':a.b'') \<and> \<not> IsLegalBusName (Some ''a.1'') \<and> \<not> IsLegalBusName (Some ''a..b'')"
  using IsLegalBusName_iff [of s]
  by (simp add: IsLegalBusName_def IsLegalUniqueName_def MAX_NAME_LEN_def chars)

text \<open>
  What the validators of interface, error and member names accept, exactly:
  \<open>IsLegalInterfaceName\<close> and \<open>IsLegalErrorName\<close> the names of at most 255 characters whose
  period-separated pieces (two or more, none empty) are letters, digits and underscores and
  whose first character is no digit; \<open>IsLegalMemberName\<close> one such piece. For interface
  names \<^verbatim>\<open>BusUtil.h\<close> forbids neither a digit at the front nor empty pieces, for member
  names not the empty one; the last conjuncts show names that the comments allow and the
  code refuses.
\<close>

theorem legal_interface_member_grammar:
  "(IsLegalInterfaceName (Some s) \<longleftrightarrow>
      length s \<le> 255 \<and> dotted member_char (\<lambda>_. False) s \<and> \<not> IsDecimalDigit (hd s) \<and> CHR ''.'' \<in> set s) \<and>
   (IsLegalErrorName (Some s) \<longleftrightarrow> IsLegalInterfaceName (Some s)) \<and>
   (IsLegalMemberName (Some s) \<longleftrightarrow> length s \<le> 255 \<and> piece member_char IsDecimalDigit s) \<and>
   \<not> IsLegalInterfaceName (Some ''1a.b'') \<and> \<not> IsLegalInterfaceName (Some ''a..b'') \<and>
   \<not> IsLegalMemberName (Some [])"
  using member_names_iff [of s]
  by (simp add: IsLegalInterfaceName_def IsLegalMemberName_def chars)

lemma object_path_loop_pieces:
  "object_path_loop s \<longleftrightarrow>
     (\<forall>c \<in> set (hd (split_on (CHR ''/'') s)). member_char c) \<and>
     (\<forall>p \<in> set (tl (split_on (CHR ''/'') s)). piece member_char (\<lambda>_. False) p)"
proof (induction s)
  case (Cons c s)
  let ?d = "CHR ''/''"
  let ?h = "hd (split_on ?d s)"
  show ?case
  proof (cases "c = ?d")
    case True
    have first: "piece member_char (\<lambda>_. False) ?h \<longleftrightarrow>
        s \<noteq> [] \<and> hd s \<noteq> ?d \<and> (\<forall>c \<in> set ?h. member_char c)"
      by (auto simp: piece_def hd_split_on_Nil_iff)
    have nul: "hd s \<noteq> NUL" if "s \<noteq> []" "hd s \<noteq> ?d" "\<forall>c \<in> set ?h. member_char c"
      using that by (cases s) auto
    have lhs: "object_path_loop (c # s) \<longleftrightarrow> peek s \<noteq> ?d \<and> peek s \<noteq> NUL \<and> object_path_loop s"
      using True by simp
    have pk: "peek s = (if s = [] then NUL else hd s)"
      by (cases s) simp_all
    have rhs: "hd (split_on ?d (c # s)) = []"
      "tl (split_on ?d (c # s)) = split_on ?d s"
      using True by simp_all
    show ?thesis
      unfolding lhs rhs Cons.IH pk ball_split_on_hd_tl [of ?d s] first using nul by auto
  next
    case False
    then show ?thesis using Cons.IH by (auto simp: member_char_def)
  qed
qed simp

text \<open>
  C30. What \<open>IsLegalObjectPath\<close> accepts, exactly: a slash followed by nothing, or by
  slash-separated pieces of letters, digits and underscores of which every piece but the
  first is non-empty. The documentation asks for single slashes; the first piece escapes the
  check, so a path that begins with two slashes is taken for legal.
\<close>

theorem legal_object_path_grammar:
  "(IsLegalObjectPath (Some s) \<longleftrightarrow>
      (\<exists>t. s = CHR ''/'' # t \<and>
           (\<forall>c \<in> set (hd (split_on (CHR ''/'') t)). member_char c) \<and>
           (\<forall>p \<in> set (tl (split_on (CHR ''/'') t)). piece member_char (\<lambda>_. False) p))) \<and>
   IsLegalObjectPath (Some ''//a'')"
proof
  show "IsLegalObjectPath (Some s) \<longleftrightarrow>
      (\<exists>t. s = CHR ''/'' # t \<and>
           (\<forall>c \<in> set (hd (split_on (CHR ''/'') t)). member_char c) \<and>
           (\<forall>p \<in> set (tl (split_on (CHR ''/'') t)). piece member_char (\<lambda>_. False) p))"
    by (cases s) (auto simp: IsLegalObjectPath_def object_path_loop_pieces)
  show "IsLegalObjectPath (Some ''//a'')"
    by (simp add: IsLegalObjectPath_def chars)
qed

theorem legal_object_path_grammar_witness:
  "IsLegalObjectPath (Some ''/org/alljoyn'') \<longleftrightarrow>
     (\<exists>t. ''/org/alljoyn'' = CHR ''/'' # t \<and>
          (\<forall>c \<in> set (hd (split_on (CHR ''/'') t)). member_char c) \<and>
          (\<forall>p \<in> set (tl (split_on (CHR ''/'') t)). piece member_char (\<lambda>_. False) p))"
  by (rule legal_object_path_grammar [THEN conjunct1])

lemma path_to_name_loop_map: "path_to_name_loop s = map (\<lambda>c. if c = CHR ''/'' then CHR ''.'' else c) s"
  by (induction s) auto

text \<open>
  \<open>BusNameFromObjPath\<close> does not remove the leading slash, as its documentation says it
  does: for a legal path other than the root the result is the whole path with every slash
  replaced, so it begins with a period and is never itself a legal bus name.
\<close>

theorem bus_name_from_path_never_legal:
  assumes "IsLegalObjectPath (Some s)" and "tl s \<noteq> []"
  shows "BusNameFromObjPath (Some s) = map (\<lambda>c. if c = CHR ''/'' then CHR ''.'' else c) s \<and>
         \<not> IsLegalBusName (Some (BusNameFromObjPath (Some s)))"
proof -
  from assms obtain c t where s: "s = CHR ''/'' # c # t"
    by (cases s rule: list.exhaust [case_names Nil Cons]; cases "tl s")
       (auto simp: IsLegalObjectPath_def split: if_splits)
  with assms(1) have "c \<noteq> NUL"
    by (auto simp: IsLegalObjectPath_def)
  with s assms(1) have "BusNameFromObjPath (Some s) = path_to_name_loop s"
    by (simp add: BusNameFromObjPath_def)
  with s show ?thesis
    by (simp add: path_to_name_loop_map IsLegalBusName_def)
qed

theorem bus_name_from_path_never_legal_witness:
  "BusNameFromObjPath (Some ''/org/alljoyn'') = ''.org.alljoyn'' \<and>
   \<not> IsLegalBusName (Some ''.org.alljoyn'')"
proof -
  have "IsLegalObjectPath (Some ''/org/alljoyn'')"
    by (simp add: IsLegalObjectPath_def chars)
  from bus_name_from_path_never_legal [OF this] show ?thesis by auto
qed

subsection \<open>Wildcards\<close>

text \<open>The usual meaning of a pattern: a star stands for any characters, a question mark for one.\<close>

fun glob :: "string \<Rightarrow> string \<Rightarrow> bool" where
  "glob [] s \<longleftrightarrow> s = []"
| "glob (p # ps) [] \<longleftrightarrow> p = CHR ''*'' \<and> glob ps []"
| "glob (p # ps) (c # s) \<longleftrightarrow>
     (if p = CHR ''*'' then glob ps (c # s) \<or> glob (p # ps) s
      else (p = CHR ''?'' \<or> p = c) \<and> glob ps s)"

lemma glob_star: "glob ''*'' s"
  by (induction s) auto

lemma wildcard_loop_plain:
  "CHR ''*'' \<notin> set pre \<Longrightarrow> tail = [] \<or> tail = ''*'' \<Longrightarrow>
   wildcard_loop (pre @ tail) s \<longleftrightarrow> \<not> glob (pre @ tail) s"
proof (induction pre arbitrary: s)
  case Nil
  then show ?case by (cases s) (auto simp: glob_star)
next
  case (Cons p pre)
  then show ?case by (cases s) auto
qed

text \<open>
  For every pattern without a star and for every pattern whose only star is at its end (the
  shape of a name prefix), \<open>WildcardMatch\<close> finds a match exactly when neither text is
  empty and the string matches by the usual meaning of patterns. (The code returns false for
  a match; that an empty text matches nothing is documented, so \<open>*\<close> does not match the
  empty string.)
\<close>

theorem wildcard_prefix_exact:
  assumes "CHR ''*'' \<notin> set pre" and "tail = [] \<or> tail = ''*''"
  shows "\<not> WildcardMatch str (pre @ tail) \<longleftrightarrow> str \<noteq> [] \<and> pre @ tail \<noteq> [] \<and> glob (pre @ tail) str"
  using assms wildcard_loop_plain [OF assms, of str] by (auto simp: WildcardMatch_def)

theorem wildcard_prefix_exact_witness:
  "\<not> WildcardMatch ''org.alljoyn.About'' (''org.'' @ ''*'') \<longleftrightarrow>
     ''org.alljoyn.About'' \<noteq> [] \<and> ''org.'' @ ''*'' \<noteq> [] \<and> glob (''org.'' @ ''*'') ''org.alljoyn.About''"
  by (rule wildcard_prefix_exact) simp_all

text \<open>
  Patterns with a star elsewhere are matched wrongly in both directions. A string that
  ends where the pattern has a star is reported as a match whatever follows the star, so
  the string \<open>a\<close> matches \<open>a*b\<close>; and the scan after a star never tries a later
  occurrence, so \<open>aab\<close> does not match \<open>*ab\<close>.
\<close>

theorem wildcard_inner_star_wrong:
  "\<not> WildcardMatch ''a'' ''a*b'' \<and> \<not> glob ''a*b'' ''a'' \<and>
   WildcardMatch ''aab'' ''*ab'' \<and> glob ''*ab'' ''aab''"
  by (simp add: WildcardMatch_def)

end
