(* ===== verification/Name_Table.thy ===== *)
theory Name_Table
  imports Bus_Names "HOL-Library.AList" "HOL-Library.Char_ord" "HOL-Library.List_Lexorder" "HOL-Library.Monad_Syntax"
begin

text \<open>
  The table of bus names, \<^verbatim>\<open>alljoyn_core/router/NameTable.cc\<close>: unique names, well-known
  names (aliases) with their queues of owners, and the virtual aliases that other routers
  own. Endpoints are shared objects: the table holds handles, and what an endpoint says of
  itself is read from a store. Every operation runs under the table's lock, so it is one
  step; the calls to listeners are logged in the order they are made. An operation gives
  \<open>None\<close> when it does not return (an assertion fails, or the recursion of
  \<open>FindEndpoint\<close> does not end).
\<close>

unbundle bit_operations_syntax

subsection \<open>Name transfer types\<close>

datatype NameTransferType = ALL_NAMES | DAEMON_NAMES

fun nt_code :: "NameTransferType \<Rightarrow> nat" where
  "nt_code ALL_NAMES = 0"
| "nt_code DAEMON_NAMES = 1"

lemma nt_code_inject [simp]: "nt_code a = nt_code b \<longleftrightarrow> a = b"
  by (cases a; cases b) simp_all

instantiation NameTransferType :: linorder
begin

definition less_eq_NameTransferType :: "NameTransferType \<Rightarrow> NameTransferType \<Rightarrow> bool" where
  "less_eq_NameTransferType a b \<longleftrightarrow> nt_code a \<le> nt_code b"

definition less_NameTransferType :: "NameTransferType \<Rightarrow> NameTransferType \<Rightarrow> bool" where
  "less_NameTransferType a b \<longleftrightarrow> nt_code a < nt_code b"

instance
proof
  fix a b c :: NameTransferType
  show "a < b \<longleftrightarrow> a \<le> b \<and> \<not> b \<le> a"
    by (auto simp: less_eq_NameTransferType_def less_NameTransferType_def)
  show "a \<le> a" by (simp add: less_eq_NameTransferType_def)
  show "a \<le> b \<Longrightarrow> b \<le> c \<Longrightarrow> a \<le> c" by (simp add: less_eq_NameTransferType_def)
  show "a \<le> b \<Longrightarrow> b \<le> a \<Longrightarrow> a = b"
    by (cases a; cases b) (simp_all add: less_eq_NameTransferType_def)
  show "a \<le> b \<or> b \<le> a" by (auto simp: less_eq_NameTransferType_def)
qed

end

lemma ALL_NAMES_least [simp]: "ALL_NAMES \<le> t" "t \<le> ALL_NAMES \<longleftrightarrow> t = ALL_NAMES"
  by (cases t; simp add: less_eq_NameTransferType_def)+

subsection \<open>Endpoints\<close>

datatype EndpointType =
    ENDPOINT_TYPE_INVALID | ENDPOINT_TYPE_NULL | ENDPOINT_TYPE_LOCAL
  | ENDPOINT_TYPE_REMOTE | ENDPOINT_TYPE_BUS2BUS | ENDPOINT_TYPE_VIRTUAL

text \<open>
  What the table asks of an endpoint: its name, its type, whether it is valid, and for a
  virtual endpoint the name transfer types of its bus-to-bus endpoints.
\<close>

record endpoint =
  GetUniqueName :: string
  GetEndpointType :: EndpointType
  isValid :: bool
  b2bTransfers :: "NameTransferType list"

type_synonym ep = nat
type_synonym store = "ep \<Rightarrow> endpoint"

text \<open>A default-constructed endpoint is no handle at all; it is never valid.\<close>

definition IsValid :: "store \<Rightarrow> ep option \<Rightarrow> bool" where
  "IsValid st e \<longleftrightarrow> (case e of None \<Rightarrow> False | Some h \<Rightarrow> isValid (st h))"

lemma IsValid_simps [simp]: "\<not> IsValid st None" "IsValid st (Some h) \<longleftrightarrow> isValid (st h)"
  by (simp_all add: IsValid_def)

fun name_transfer_loop :: "NameTransferType \<Rightarrow> NameTransferType list \<Rightarrow> NameTransferType" where
  "name_transfer_loop nameTransfer [] = nameTransfer"
| "name_transfer_loop nameTransfer (t # ts) =
     (if nameTransfer \<noteq> ALL_NAMES then name_transfer_loop (min nameTransfer t) ts else nameTransfer)"

definition GetNameTransfer_virtual :: "store \<Rightarrow> ep \<Rightarrow> NameTransferType" where
  "GetNameTransfer_virtual st vep =
     (let b2bEps = b2bTransfers (st vep) in
      if b2bEps = [] then ALL_NAMES else name_transfer_loop DAEMON_NAMES b2bEps)"

definition GetNameTransfer :: "store \<Rightarrow> ep \<Rightarrow> NameTransferType" where
  "GetNameTransfer st e =
     (if GetEndpointType (st e) = ENDPOINT_TYPE_VIRTUAL then GetNameTransfer_virtual st e else ALL_NAMES)"

subsection \<open>The table\<close>

record NameQueueEntry =
  endpointName :: string
  flags :: u32

definition DBUS_NAME_FLAG_ALLOW_REPLACEMENT :: u32 where "DBUS_NAME_FLAG_ALLOW_REPLACEMENT = 1"
definition DBUS_NAME_FLAG_REPLACE_EXISTING :: u32 where "DBUS_NAME_FLAG_REPLACE_EXISTING = 2"
definition DBUS_NAME_FLAG_DO_NOT_QUEUE :: u32 where "DBUS_NAME_FLAG_DO_NOT_QUEUE = 4"

lemmas flag_defs = DBUS_NAME_FLAG_ALLOW_REPLACEMENT_def DBUS_NAME_FLAG_REPLACE_EXISTING_def
  DBUS_NAME_FLAG_DO_NOT_QUEUE_def

datatype disposition =
    DBUS_REQUEST_NAME_REPLY_PRIMARY_OWNER
  | DBUS_REQUEST_NAME_REPLY_IN_QUEUE
  | DBUS_REQUEST_NAME_REPLY_EXISTS
  | DBUS_REQUEST_NAME_REPLY_ALREADY_OWNER
  | DBUS_RELEASE_NAME_REPLY_RELEASED
  | DBUS_RELEASE_NAME_REPLY_NON_EXISTENT
  | DBUS_RELEASE_NAME_REPLY_NOT_OWNER

text \<open>The callbacks of a listener; the listener comes first.\<close>

datatype event =
    NameOwnerChanged nat string "string option" NameTransferType "string option" NameTransferType
  | AddAliasComplete nat string disposition
  | RemoveAliasComplete nat string disposition

text \<open>
  The hash tables are association lists in the order in which the code's iterators visit
  them, which the standard leaves open for these: a new key goes to the end. The table of
  virtual aliases is an ordered map and its list is sorted, as is the set of listeners.
\<close>

record NameTable =
  uniqueNames :: "(string \<times> ep \<times> NameTransferType) list"
  aliasNames :: "(string \<times> NameQueueEntry list) list"
  uniqueId :: u32
  uniquePrefix :: string
  listeners :: "nat list"
  virtualAliasNames :: "(string \<times> ep \<times> NameTransferType) list"
  calls :: "event list"

definition new_NameTable :: NameTable where
  "new_NameTable =
     \<lparr>uniqueNames = [], aliasNames = [], uniqueId = 0, uniquePrefix = '':1.'',
      listeners = [], virtualAliasNames = [], calls = []\<rparr>"

fun map_put :: "'k :: linorder \<Rightarrow> 'v \<Rightarrow> ('k \<times> 'v) list \<Rightarrow> ('k \<times> 'v) list" where
  "map_put k v [] = [(k, v)]"
| "map_put k v ((k', v') # r) =
     (if k = k' then (k, v) # r
      else if k < k' then (k, v) # (k', v') # r
      else (k', v') # map_put k v r)"

definition log_call :: "event \<Rightarrow> NameTable \<Rightarrow> NameTable" where
  "log_call e tbl = tbl\<lparr>calls := calls tbl @ [e]\<rparr>"

definition CallListeners ::
  "string \<Rightarrow> string option \<Rightarrow> NameTransferType \<Rightarrow> string option \<Rightarrow> NameTransferType \<Rightarrow> NameTable \<Rightarrow> NameTable" where
  "CallListeners aliasName oldOwner oldOwnerNameTransfer newOwner newOwnerNameTransfer tbl =
     fold (\<lambda>nl. log_call (NameOwnerChanged nl aliasName oldOwner oldOwnerNameTransfer newOwner newOwnerNameTransfer))
       (listeners tbl) tbl"

definition AddListener :: "nat \<Rightarrow> NameTable \<Rightarrow> NameTable" where
  "AddListener l tbl =
     tbl\<lparr>listeners := (if l \<in> set (listeners tbl) then listeners tbl else insort l (listeners tbl))\<rparr>"

definition RemoveListener :: "nat \<Rightarrow> NameTable \<Rightarrow> NameTable" where
  "RemoveListener l tbl = tbl\<lparr>listeners := remove1 l (listeners tbl)\<rparr>"

subsection \<open>Unique names\<close>

definition guid_char :: "byte \<Rightarrow> char" where
  "guid_char b =
     (let cur = unat (b AND 0x3F) in
      if cur < 10 then char_of (cur + 48)
      else if cur < 36 then char_of (cur - 10 + 65)
      else if cur < 62 then char_of (cur - 36 + 97)
      else if cur = 63 then CHR ''_'' else CHR ''-'')"

definition SHORT_SIZE :: nat where
  "SHORT_SIZE = 8"

text \<open>\<open>guid\<close> is the array of 16 bytes.\<close>

definition ToShortString :: "byte list \<Rightarrow> string" where
  "ToShortString guid = map (\<lambda>i. guid_char (guid ! i)) [0..<SHORT_SIZE]"

definition SetGUID :: "byte list \<Rightarrow> NameTable \<Rightarrow> NameTable" where
  "SetGUID guid tbl = tbl\<lparr>uniquePrefix := '':'' @ ToShortString guid @ ''.''\<rparr>"

definition GenerateUniqueName :: "NameTable \<Rightarrow> (string \<times> NameTable) option" where
  "GenerateUniqueName tbl =
     (let n = uniqueId tbl + 1 in
      map_option (\<lambda>s. (uniquePrefix tbl @ s, tbl\<lparr>uniqueId := n\<rparr>)) (U32ToString n 10 1 (CHR '' '')))"

definition IsValidLocalUniqueName :: "NameTable \<Rightarrow> string \<Rightarrow> bool" where
  "IsValidLocalUniqueName tbl uniqueName =
     (case index_of (CHR ''.'') uniqueName of
        None \<Rightarrow> False
      | Some period_pos \<Rightarrow>
          if find_first_of uniqueName (CHR ''.'') (period_pos + 1) = None then
            (let guid = take (SHORT_SIZE + 2) uniqueName in
             if guid = uniquePrefix tbl then
               (let idStr = drop (SHORT_SIZE + 2) uniqueName;
                    id = StringToU32 idStr 0 0
                in id \<noteq> 0 \<and> id \<le> uniqueId tbl)
             else False)
          else False)"

subsection \<open>Finding endpoints\<close>

partial_function (option) FindEndpoint :: "store \<Rightarrow> NameTable \<Rightarrow> string \<Rightarrow> ep option option" where
  "FindEndpoint st tbl busName =
     (if peek busName = CHR '':'' then
        Some (map_option fst (map_of (uniqueNames tbl) busName))
      else do {
        e \<leftarrow> (case map_of (aliasNames tbl) busName of
               None \<Rightarrow> Some None
             | Some [] \<Rightarrow> None
             | Some (primary # _) \<Rightarrow> FindEndpoint st tbl (endpointName primary));
        if \<not> IsValid st e then
          (case map_of (virtualAliasNames tbl) busName of
             Some (vep, _) \<Rightarrow> Some (Some vep)
           | None \<Rightarrow> Some e)
        else Some e })"

definition GetBusNames :: "NameTable \<Rightarrow> string list" where
  "GetBusNames tbl = map fst (aliasNames tbl) @ map fst (uniqueNames tbl)"

definition GetQueuedNames :: "NameTable \<Rightarrow> string \<Rightarrow> string list" where
  "GetQueuedNames tbl busName =
     (case map_of (aliasNames tbl) busName of
        Some q \<Rightarrow> map endpointName q
      | None \<Rightarrow> [])"

subsection \<open>Adding and removing names\<close>

definition AddUniqueName :: "store \<Rightarrow> ep \<Rightarrow> NameTable \<Rightarrow> NameTable" where
  "AddUniqueName st endpoint tbl =
     (let nameTransfer = GetNameTransfer st endpoint;
          uniqueName = GetUniqueName (st endpoint);
          tbl1 = tbl\<lparr>uniqueNames := AList.update uniqueName (endpoint, nameTransfer) (uniqueNames tbl)\<rparr>
      in CallListeners uniqueName None ALL_NAMES (Some uniqueName) nameTransfer tbl1)"

text \<open>An empty string stands for no owner.\<close>

definition owner_arg :: "string \<Rightarrow> string option" where
  "owner_arg s = (if s = [] then None else Some s)"

definition AddAlias ::
  "store \<Rightarrow> string \<Rightarrow> string \<Rightarrow> u32 \<Rightarrow> nat option \<Rightarrow> NameTable \<Rightarrow>
   (QStatus \<times> disposition option \<times> NameTable) option" where
  "AddAlias st aliasName uniqueName fl listener tbl =
     (case map_of (uniqueNames tbl) uniqueName of
        None \<Rightarrow> Some (ER_BUS_NO_ENDPOINT, None, tbl)
      | Some _ \<Rightarrow> do {
          (disp, origOwner, origOwnerNameTransfer, newOwner, tbl1) \<leftarrow>
            (let entry = \<lparr>endpointName = uniqueName, flags = fl\<rparr> in
             case map_of (aliasNames tbl) aliasName of
               Some [] \<Rightarrow> None
             | Some (primary # queue) \<Rightarrow>
                 Some (
                   if endpointName primary = uniqueName then
                     (DBUS_REQUEST_NAME_REPLY_ALREADY_OWNER, [], ALL_NAMES, None, tbl)
                   else if flags primary AND DBUS_NAME_FLAG_ALLOW_REPLACEMENT \<noteq> 0 \<and>
                           fl AND DBUS_NAME_FLAG_REPLACE_EXISTING \<noteq> 0 then
                     (DBUS_REQUEST_NAME_REPLY_PRIMARY_OWNER, endpointName primary, ALL_NAMES, Some uniqueName,
                      tbl\<lparr>aliasNames := AList.update aliasName (entry # primary # queue) (aliasNames tbl)\<rparr>)
                   else if fl AND DBUS_NAME_FLAG_DO_NOT_QUEUE \<noteq> 0 then
                     (DBUS_REQUEST_NAME_REPLY_EXISTS, [], ALL_NAMES, None, tbl)
                   else
                     (DBUS_REQUEST_NAME_REPLY_IN_QUEUE, [], ALL_NAMES, None,
                      tbl\<lparr>aliasNames := AList.update aliasName (primary # queue @ [entry]) (aliasNames tbl)\<rparr>))
             | None \<Rightarrow>
                 (let tbl' = tbl\<lparr>aliasNames := AList.update aliasName [entry] (aliasNames tbl)\<rparr> in
                  Some (case map_of (virtualAliasNames tbl) aliasName of
                     Some (vep, nt) \<Rightarrow>
                       (DBUS_REQUEST_NAME_REPLY_PRIMARY_OWNER, GetUniqueName (st vep), nt, Some uniqueName, tbl')
                   | None \<Rightarrow>
                       (DBUS_REQUEST_NAME_REPLY_PRIMARY_OWNER, [], ALL_NAMES, Some uniqueName, tbl'))));
          let tbl2 = (case listener of
                        Some l \<Rightarrow> log_call (AddAliasComplete l aliasName disp) tbl1
                      | None \<Rightarrow> tbl1);
          let tbl3 = (if newOwner \<noteq> None
                      then CallListeners aliasName (owner_arg origOwner) origOwnerNameTransfer newOwner ALL_NAMES tbl2
                      else tbl2);
          Some (ER_OK, Some disp, tbl3) })"

definition RemoveAlias ::
  "store \<Rightarrow> string \<Rightarrow> string \<Rightarrow> nat option \<Rightarrow> NameTable \<Rightarrow> (disposition \<times> NameTable) option" where
  "RemoveAlias st aliasName ownerName listener tbl = do {
     (disp, oldOwner, newOwner, newOwnerNameTransfer, tbl1) \<leftarrow>
       (case map_of (aliasNames tbl) aliasName of
          None \<Rightarrow> Some (DBUS_RELEASE_NAME_REPLY_NON_EXISTENT, [], [], ALL_NAMES, tbl)
        | Some [] \<Rightarrow> None
        | Some (primary # queue) \<Rightarrow>
            if endpointName primary = ownerName then do {
              (newOwner, tbl') \<leftarrow>
                (case queue of
                   [] \<Rightarrow> Some ([], tbl)
                 | next # _ \<Rightarrow> do {
                     let tbl' = tbl\<lparr>aliasNames := AList.update aliasName queue (aliasNames tbl)\<rparr>;
                     e \<leftarrow> FindEndpoint st tbl' (endpointName next);
                     Some (if IsValid st e then endpointName next else [], tbl') });
              Some (if newOwner = [] then
                      (let tbl2 = tbl'\<lparr>aliasNames := AList.delete aliasName (aliasNames tbl')\<rparr> in
                       case map_of (virtualAliasNames tbl) aliasName of
                         Some (vep, nt) \<Rightarrow> (DBUS_RELEASE_NAME_REPLY_RELEASED, ownerName, GetUniqueName (st vep), nt, tbl2)
                       | None \<Rightarrow> (DBUS_RELEASE_NAME_REPLY_RELEASED, ownerName, [], ALL_NAMES, tbl2))
                    else (DBUS_RELEASE_NAME_REPLY_RELEASED, ownerName, newOwner, ALL_NAMES, tbl')) }
            else Some (DBUS_RELEASE_NAME_REPLY_NOT_OWNER, [], [], ALL_NAMES, tbl));
     let tbl2 = (case listener of
                   Some l \<Rightarrow> log_call (RemoveAliasComplete l aliasName disp) tbl1
                 | None \<Rightarrow> tbl1);
     let tbl3 = (if oldOwner \<noteq> []
                 then CallListeners aliasName (Some oldOwner) ALL_NAMES (owner_arg newOwner) newOwnerNameTransfer tbl2
                 else tbl2);
     Some (disp, tbl3) }"

text \<open>
  The loop of \<open>RemoveUniqueName\<close> over the aliases: the queue of the alias at position
  \<open>i\<close> is searched for the first entry of the endpoint; a queued entry is erased, an
  owner is released and the loop starts over.
\<close>

fun entry_index :: "string \<Rightarrow> NameQueueEntry list \<Rightarrow> nat option" where
  "entry_index n [] = None"
| "entry_index n (e # q) = (if endpointName e = n then Some 0 else map_option Suc (entry_index n q))"

definition erase_at :: "nat \<Rightarrow> 'a list \<Rightarrow> 'a list" where
  "erase_at i xs = take i xs @ drop (Suc i) xs"

partial_function (option) remove_names_loop :: "store \<Rightarrow> string \<Rightarrow> string \<Rightarrow> nat \<Rightarrow> NameTable \<Rightarrow> NameTable option" where
  "remove_names_loop st uniqueName epName i tbl =
     (if i \<ge> length (aliasNames tbl) then Some tbl
      else (case aliasNames tbl ! i of (al, queue) \<Rightarrow>
        (case entry_index epName queue of
           None \<Rightarrow> remove_names_loop st uniqueName epName (i + 1) tbl
         | Some 0 \<Rightarrow> do {
             (disp, tbl1) \<leftarrow> RemoveAlias st al epName None tbl;
             if map_of (uniqueNames tbl1) uniqueName \<noteq> None \<and> disp = DBUS_RELEASE_NAME_REPLY_RELEASED
             then remove_names_loop st uniqueName epName 0 tbl1
             else remove_names_loop st uniqueName epName (i + 1) tbl1 }
         | Some (Suc j) \<Rightarrow>
             remove_names_loop st uniqueName epName (i + 1)
               (tbl\<lparr>aliasNames := (aliasNames tbl)[i := (al, erase_at (Suc j) queue)]\<rparr>))))"

declare FindEndpoint.simps [code] remove_names_loop.simps [code]

definition RemoveUniqueName :: "store \<Rightarrow> string \<Rightarrow> NameTable \<Rightarrow> NameTable option" where
  "RemoveUniqueName st uniqueName tbl =
     (case map_of (uniqueNames tbl) uniqueName of
        None \<Rightarrow> Some tbl
      | Some (endpoint, nameTransfer) \<Rightarrow> do {
          tbl1 \<leftarrow> remove_names_loop st uniqueName (GetUniqueName (st endpoint)) 0 tbl;
          let tbl2 = tbl1\<lparr>uniqueNames := AList.delete uniqueName (uniqueNames tbl1)\<rparr>;
          Some (CallListeners uniqueName (Some uniqueName) nameTransfer None ALL_NAMES tbl2) })"

subsection \<open>Virtual aliases\<close>

text \<open>The loops visit the keys in order; a listener does not change the table.\<close>

primrec update_virtual_loop :: "store \<Rightarrow> ep \<Rightarrow> string \<Rightarrow> string list \<Rightarrow> NameTable \<Rightarrow> NameTable" where
  "update_virtual_loop st ep epName [] tbl = tbl"
| "update_virtual_loop st ep epName (al # als) tbl =
     update_virtual_loop st ep epName als
       (case map_of (virtualAliasNames tbl) al of
          Some (vep, oldNameTransfer) \<Rightarrow>
            if vep = ep then
              (let newNameTransfer = GetNameTransfer_virtual st vep;
                   tbl1 = tbl\<lparr>virtualAliasNames := map_put al (vep, newNameTransfer) (virtualAliasNames tbl)\<rparr>
               in if oldNameTransfer \<noteq> newNameTransfer \<and> map_of (aliasNames tbl) al = None
                  then CallListeners al (Some epName) oldNameTransfer (Some epName) newNameTransfer tbl1
                  else tbl1)
            else tbl
        | None \<Rightarrow> tbl)"

definition UpdateVirtualAliases :: "store \<Rightarrow> string \<Rightarrow> NameTable \<Rightarrow> NameTable option" where
  "UpdateVirtualAliases st epName tbl = do {
     e \<leftarrow> FindEndpoint st tbl epName;
     Some (case e of
             Some ep \<Rightarrow> if isValid (st ep)
               then update_virtual_loop st ep epName (map fst (virtualAliasNames tbl)) tbl else tbl
           | None \<Rightarrow> tbl) }"

primrec remove_virtual_loop :: "store \<Rightarrow> ep \<Rightarrow> string \<Rightarrow> string list \<Rightarrow> NameTable \<Rightarrow> NameTable" where
  "remove_virtual_loop st ep epName [] tbl = tbl"
| "remove_virtual_loop st ep epName (al # als) tbl =
     remove_virtual_loop st ep epName als
       (case map_of (virtualAliasNames tbl) al of
          Some (vep, nameTransfer) \<Rightarrow>
            if vep = ep then
              (let tbl1 = tbl\<lparr>virtualAliasNames := AList.delete al (virtualAliasNames tbl)\<rparr>
               in if map_of (aliasNames tbl) al = None
                  then CallListeners al (Some epName) nameTransfer None ALL_NAMES tbl1
                  else tbl1)
            else tbl
        | None \<Rightarrow> tbl)"

definition RemoveVirtualAliases :: "store \<Rightarrow> string \<Rightarrow> NameTable \<Rightarrow> NameTable option" where
  "RemoveVirtualAliases st epName tbl = do {
     e \<leftarrow> FindEndpoint st tbl epName;
     Some (case e of
             Some ep \<Rightarrow> if isValid (st ep)
               then remove_virtual_loop st ep epName (map fst (virtualAliasNames tbl)) tbl else tbl
           | None \<Rightarrow> tbl) }"

text \<open>
  The part of a name before its first period. Without a period the position is
  \<^verbatim>\<open>npos\<close> and the comparison takes the whole name.
\<close>

definition before_period :: "string \<Rightarrow> string" where
  "before_period s = (case find_first_of s (CHR ''.'') 0 of Some i \<Rightarrow> take i s | None \<Rightarrow> s)"

definition SetVirtualAlias :: "store \<Rightarrow> string \<Rightarrow> ep option \<Rightarrow> ep \<Rightarrow> NameTable \<Rightarrow> bool \<times> NameTable" where
  "SetVirtualAlias st al newOwner requestingEndpoint tbl =
     (let vit = map_of (virtualAliasNames tbl) al;
          oldOwner = map_option fst vit;
          oldName = (if IsValid st oldOwner then GetUniqueName (st (the oldOwner)) else []);
          oldOwnerNameTransfer = (if IsValid st oldOwner then snd (the vit) else ALL_NAMES);
          reqOwnerName = GetUniqueName (st requestingEndpoint)
      in if IsValid st oldOwner \<and>
            (find_first_of oldName (CHR ''.'') 0 = None \<or> before_period oldName \<noteq> before_period reqOwnerName)
         then (False, tbl)
         else
           (let maskingLocalName = (map_of (aliasNames tbl) al \<noteq> None);
                (newName, newOwnerNameTransfer, madeChange, tbl1) =
                  (if IsValid st newOwner then
                     (let nt = GetNameTransfer_virtual st (the newOwner) in
                      (GetUniqueName (st (the newOwner)), nt,
                       newOwner \<noteq> oldOwner \<or> oldOwnerNameTransfer \<noteq> nt,
                       tbl\<lparr>virtualAliasNames := map_put al (the newOwner, nt) (virtualAliasNames tbl)\<rparr>))
                   else
                     ([], ALL_NAMES, True,
                      tbl\<lparr>virtualAliasNames := AList.delete al (virtualAliasNames tbl)\<rparr>))
            in (madeChange,
                if madeChange \<and> \<not> maskingLocalName
                then CallListeners al (owner_arg oldName) oldOwnerNameTransfer
                       (owner_arg newName) newOwnerNameTransfer tbl1
                else tbl1)))"

subsection \<open>The invariant of the table\<close>

lemma map_of_map_put [simp]: "map_of (map_put k v al) = (map_of al)(k \<mapsto> v)"
  by (induction k v al rule: map_put.induct) (auto simp: fun_eq_iff)

lemma set_map_put: "fst ` set (map_put k v al) = insert k (fst ` set al)"
  by (induction k v al rule: map_put.induct) auto

lemma sorted_map_put: "sorted_wrt (<) (map fst al) \<Longrightarrow> sorted_wrt (<) (map fst (map_put k v al))"
proof (induction k v al rule: map_put.induct)
  case (2 k v k' v' r)
  have keys: "set (map fst (map_put k v r)) = insert k (set (map fst r))"
    using set_map_put [of k v r] by simp
  show ?case
  proof (cases "k = k' \<or> k < k'")
    case True
    with 2 show ?thesis by (auto intro: less_trans)
  next
    case False
    with 2 have "sorted_wrt (<) (map fst (map_put k v r))" "k' < k" "\<forall>y \<in> set (map fst r). k' < y" by auto
    with keys False show ?thesis by (simp del: set_map)
  qed
qed simp

lemma sorted_delete: "sorted_wrt (<) (map fst al) \<Longrightarrow> sorted_wrt (<) (map fst (AList.delete k al))"
  by (simp add: AList.delete_keys removeAll_filter_not_eq sorted_wrt_filter)

lemmas alist_simps [simp] = AList.update_conv' AList.delete_conv'

lemma log_call_simps [simp]:
  "uniqueNames (log_call e tbl) = uniqueNames tbl" "aliasNames (log_call e tbl) = aliasNames tbl"
  "virtualAliasNames (log_call e tbl) = virtualAliasNames tbl" "listeners (log_call e tbl) = listeners tbl"
  "calls (log_call e tbl) = calls tbl @ [e]"
  by (simp_all add: log_call_def)

lemma fold_log_call:
  "fold (\<lambda>nl. log_call (f nl)) ls tbl = tbl\<lparr>calls := calls tbl @ map f ls\<rparr>"
  by (induction ls arbitrary: tbl) (simp_all add: log_call_def)

lemma CallListeners_simps [simp]:
  "uniqueNames (CallListeners a ow ot nw nt tbl) = uniqueNames tbl"
  "aliasNames (CallListeners a ow ot nw nt tbl) = aliasNames tbl"
  "virtualAliasNames (CallListeners a ow ot nw nt tbl) = virtualAliasNames tbl"
  "listeners (CallListeners a ow ot nw nt tbl) = listeners tbl"
  "calls (CallListeners a ow ot nw nt tbl) =
     calls tbl @ map (\<lambda>l. NameOwnerChanged l a ow ot nw nt) (listeners tbl)"
  by (simp_all add: CallListeners_def fold_log_call)

text \<open>
  Every key occurs once; a unique name begins with a colon and is the name of its endpoint;
  no queue is empty, all its entries are unique names and its first one is connected; a
  virtual alias is not spelled as a unique name; all endpoints in the table are valid.
\<close>

definition nt_keys :: "NameTable \<Rightarrow> bool" where
  "nt_keys tbl \<longleftrightarrow>
     distinct (map fst (uniqueNames tbl)) \<and> distinct (map fst (aliasNames tbl)) \<and>
     sorted_wrt (<) (map fst (virtualAliasNames tbl))"

definition queue_ok :: "NameTable \<Rightarrow> NameQueueEntry list \<Rightarrow> bool" where
  "queue_ok tbl q \<longleftrightarrow>
     q \<noteq> [] \<and> (\<forall>e \<in> set q. peek (endpointName e) = CHR '':'') \<and>
     map_of (uniqueNames tbl) (endpointName (hd q)) \<noteq> None"

definition nt_live :: "store \<Rightarrow> NameTable \<Rightarrow> bool" where
  "nt_live st tbl \<longleftrightarrow>
     (\<forall>n h t. map_of (uniqueNames tbl) n = Some (h, t) \<longrightarrow>
        GetUniqueName (st h) = n \<and> peek n = CHR '':'' \<and> isValid (st h)) \<and>
     (\<forall>a q. map_of (aliasNames tbl) a = Some q \<longrightarrow> queue_ok tbl q) \<and>
     (\<forall>a h t. map_of (virtualAliasNames tbl) a = Some (h, t) \<longrightarrow>
        peek a \<noteq> CHR '':'' \<and> peek (GetUniqueName (st h)) = CHR '':'' \<and> isValid (st h))"

definition nt_inv :: "store \<Rightarrow> NameTable \<Rightarrow> bool" where
  "nt_inv st tbl \<longleftrightarrow> nt_keys tbl \<and> nt_live st tbl"

text \<open>Who owns a name, as the users of the table see it.\<close>

definition owner :: "store \<Rightarrow> NameTable \<Rightarrow> string \<Rightarrow> string option" where
  "owner st tbl n =
     (case FindEndpoint st tbl n of
        Some (Some h) \<Rightarrow> if isValid (st h) then Some (GetUniqueName (st h)) else None
      | _ \<Rightarrow> None)"

definition owner_cf :: "store \<Rightarrow> NameTable \<Rightarrow> string \<Rightarrow> string option" where
  "owner_cf st tbl n =
     (if peek n = CHR '':'' then (if map_of (uniqueNames tbl) n = None then None else Some n)
      else (case map_of (aliasNames tbl) n of
              Some q \<Rightarrow> Some (endpointName (hd q))
            | None \<Rightarrow> map_option (\<lambda>(h, t). GetUniqueName (st h)) (map_of (virtualAliasNames tbl) n)))"

lemma FindEndpoint_unique:
  "peek n = CHR '':'' \<Longrightarrow> FindEndpoint st tbl n = Some (map_option fst (map_of (uniqueNames tbl) n))"
  by (subst FindEndpoint.simps) simp

lemma nt_live_queueD:
  assumes "nt_live st tbl" and "map_of (aliasNames tbl) a = Some q"
  obtains e r h t where "q = e # r" and "peek (endpointName e) = CHR '':''"
    and "map_of (uniqueNames tbl) (endpointName e) = Some (h, t)"
    and "GetUniqueName (st h) = endpointName e" and "isValid (st h)"
    and "\<forall>x \<in> set r. peek (endpointName x) = CHR '':''"
proof -
  from assms have q: "q \<noteq> []" "\<forall>x \<in> set q. peek (endpointName x) = CHR '':''"
    "map_of (uniqueNames tbl) (endpointName (hd q)) \<noteq> None"
    by (auto simp: nt_live_def queue_ok_def)
  then obtain e r where er: "q = e # r" by (cases q) auto
  with q obtain h t where ht: "map_of (uniqueNames tbl) (endpointName e) = Some (h, t)" by auto
  with assms(1) have "GetUniqueName (st h) = endpointName e" "isValid (st h)"
    unfolding nt_live_def by blast+
  with er ht q that show thesis by simp
qed

lemma nt_live_virtualD:
  "nt_live st tbl \<Longrightarrow> map_of (virtualAliasNames tbl) a = Some (h, t) \<Longrightarrow>
   peek a \<noteq> CHR '':'' \<and> peek (GetUniqueName (st h)) = CHR '':'' \<and> isValid (st h)"
  unfolding nt_live_def by blast

lemma FindEndpoint_returns: "nt_live st tbl \<Longrightarrow> \<exists>e. FindEndpoint st tbl n = Some e"
proof (cases "peek n = CHR '':''")
  case False
  assume inv: "nt_live st tbl"
  show ?thesis
  proof (cases "map_of (aliasNames tbl) n")
    case None
    with False show ?thesis by (subst FindEndpoint.simps) (simp split: option.splits prod.splits)
  next
    case (Some q)
    with False show ?thesis
      by (auto intro: nt_live_queueD [OF inv Some] simp: FindEndpoint_unique FindEndpoint.simps [of st tbl n])
  qed
qed (simp add: FindEndpoint_unique)

lemma owner_eq: "nt_live st tbl \<Longrightarrow> owner st tbl = owner_cf st tbl"
proof (rule ext)
  fix n
  assume inv: "nt_live st tbl"
  show "owner st tbl n = owner_cf st tbl n"
  proof (cases "peek n = CHR '':''")
    case True
    with inv show ?thesis
      by (auto simp: owner_def owner_cf_def FindEndpoint_unique nt_live_def split: option.splits)
  next
    case False
    show ?thesis
    proof (cases "map_of (aliasNames tbl) n")
      case None
      then have "FindEndpoint st tbl n = Some (map_option fst (map_of (virtualAliasNames tbl) n))"
        using False by (subst FindEndpoint.simps) (simp split: option.splits)
      with False None show ?thesis
        by (auto simp: owner_def owner_cf_def split: option.splits dest: nt_live_virtualD [OF inv])
    next
      case (Some q)
      obtain e r h t where q: "q = e # r" "peek (endpointName e) = CHR '':''"
          "map_of (uniqueNames tbl) (endpointName e) = Some (h, t)"
          "GetUniqueName (st h) = endpointName e" "isValid (st h)"
        using nt_live_queueD [OF inv Some] by metis
      then have "FindEndpoint st tbl n = Some (Some h)"
        using False Some by (subst FindEndpoint.simps) (simp add: FindEndpoint_unique)
      with False Some q show ?thesis by (simp add: owner_def owner_cf_def)
    qed
  qed
qed

subsection \<open>What a listener can reconstruct\<close>

fun heard :: "nat \<Rightarrow> (string \<rightharpoonup> string) \<Rightarrow> event \<Rightarrow> (string \<rightharpoonup> string)" where
  "heard l m (NameOwnerChanged l' a ow ot nw nt) = (if l' = l then m(a := nw) else m)"
| "heard l m _ = m"

lemma foldl_heard_map [simp]:
  "l \<in> set ls \<Longrightarrow> foldl (heard l) m (map (\<lambda>l. NameOwnerChanged l a ow ot nw nt) ls) = m(a := nw)"
proof -
  have "foldl (heard l) (m(a := nw)) (map (\<lambda>l. NameOwnerChanged l a ow ot nw nt) ls) = m(a := nw)" for ls
    by (induction ls) (simp_all del: fun_upd_apply)
  then show "l \<in> set ls \<Longrightarrow> ?thesis" by (induction ls) (auto simp del: fun_upd_apply)
qed

definition tracked :: "store \<Rightarrow> nat \<Rightarrow> NameTable \<Rightarrow> bool" where
  "tracked st l tbl \<longleftrightarrow>
     nt_inv st tbl \<and> l \<in> set (listeners tbl) \<and>
     owner_cf st tbl = foldl (heard l) Map.empty (calls tbl)"

lemma trackedI:
  assumes "tracked st l tbl" and "nt_inv st tbl'" and "listeners tbl' = listeners tbl"
    and "calls tbl' = calls tbl @ es" and "owner_cf st tbl' = foldl (heard l) (owner_cf st tbl) es"
  shows "tracked st l tbl'"
  using assms by (simp add: tracked_def)

end
