(* ===== verification/Name_Ownership.thy ===== *)
theory Name_Ownership
  imports Name_Table
begin

text \<open>
  The operations of the name table keep its invariant, and every change of an owner is
  announced: a listener that only replays what it was told knows the owner of every name.
\<close>

subsection \<open>Changes of one queue\<close>

lemma queue_ok_frame [simp]:
  "queue_ok (tbl\<lparr>aliasNames := al\<rparr>) q = queue_ok tbl q" "queue_ok (tbl\<lparr>virtualAliasNames := vl\<rparr>) q = queue_ok tbl q"
  "queue_ok (log_call e tbl) q = queue_ok tbl q" "queue_ok (CallListeners a ow ot nw nt tbl) q = queue_ok tbl q"
  "queue_ok (tbl\<lparr>listeners := ls\<rparr>) q = queue_ok tbl q" "queue_ok (tbl\<lparr>uniqueId := i\<rparr>) q = queue_ok tbl q"
  "queue_ok (tbl\<lparr>uniquePrefix := p\<rparr>) q = queue_ok tbl q"
  by (simp_all add: queue_ok_def)

lemma nt_inv_frame [simp]:
  "nt_inv st (log_call e tbl) = nt_inv st tbl" "nt_inv st (CallListeners a ow ot nw nt tbl) = nt_inv st tbl"
  "nt_inv st (tbl\<lparr>listeners := ls\<rparr>) = nt_inv st tbl" "nt_inv st (tbl\<lparr>uniqueId := i\<rparr>) = nt_inv st tbl"
  "nt_inv st (tbl\<lparr>uniquePrefix := p\<rparr>) = nt_inv st tbl"
  by (simp_all add: nt_inv_def nt_keys_def nt_live_def)

lemma owner_cf_frame [simp]:
  "owner_cf st (log_call e tbl) = owner_cf st tbl" "owner_cf st (CallListeners a ow ot nw nt tbl) = owner_cf st tbl"
  "owner_cf st (tbl\<lparr>listeners := ls\<rparr>) = owner_cf st tbl" "owner_cf st (tbl\<lparr>uniqueId := i\<rparr>) = owner_cf st tbl"
  "owner_cf st (tbl\<lparr>uniquePrefix := p\<rparr>) = owner_cf st tbl"
  by (simp_all add: owner_cf_def fun_eq_iff split: option.split)

lemma nt_inv_update_alias:
  assumes "nt_inv st tbl" and "queue_ok tbl q"
  shows "nt_inv st (tbl\<lparr>aliasNames := AList.update a q (aliasNames tbl)\<rparr>)"
proof -
  have "nt_keys (tbl\<lparr>aliasNames := AList.update a q (aliasNames tbl)\<rparr>)"
    using assms(1) by (simp add: nt_inv_def nt_keys_def AList.distinct_update)
  moreover have "nt_live st (tbl\<lparr>aliasNames := AList.update a q (aliasNames tbl)\<rparr>)"
    using assms by (auto simp: nt_inv_def nt_live_def split: if_splits)
  ultimately show ?thesis by (simp add: nt_inv_def)
qed

lemma nt_inv_delete_alias:
  assumes "nt_inv st tbl"
  shows "nt_inv st (tbl\<lparr>aliasNames := AList.delete a (aliasNames tbl)\<rparr>)"
proof -
  have "nt_keys (tbl\<lparr>aliasNames := AList.delete a (aliasNames tbl)\<rparr>)"
    using assms by (simp add: nt_inv_def nt_keys_def AList.distinct_delete)
  moreover have "nt_live st (tbl\<lparr>aliasNames := AList.delete a (aliasNames tbl)\<rparr>)"
    using assms by (auto simp: nt_inv_def nt_live_def split: if_splits)
  ultimately show ?thesis by (simp add: nt_inv_def)
qed

lemma owner_cf_update_alias [simp]:
  "peek a \<noteq> CHR '':'' \<Longrightarrow>
   owner_cf st (tbl\<lparr>aliasNames := AList.update a q (aliasNames tbl)\<rparr>) =
     (owner_cf st tbl)(a := Some (endpointName (hd q)))"
  by (auto simp: owner_cf_def fun_eq_iff split: option.split)

lemma owner_cf_delete_alias [simp]:
  "peek a \<noteq> CHR '':'' \<Longrightarrow>
   owner_cf st (tbl\<lparr>aliasNames := AList.delete a (aliasNames tbl)\<rparr>) =
     (owner_cf st tbl)(a := map_option (\<lambda>(h, t). GetUniqueName (st h)) (map_of (virtualAliasNames tbl) a))"
  by (auto simp: owner_cf_def fun_eq_iff split: option.split)

lemma owner_cf_alias:
  "peek a \<noteq> CHR '':'' \<Longrightarrow> map_of (aliasNames tbl) a = Some (e # r) \<Longrightarrow>
   owner_cf st tbl a = Some (endpointName e)"
  by (simp add: owner_cf_def)

lemma owner_arg_colon [simp]: "peek n = CHR '':'' \<Longrightarrow> owner_arg n = Some n"
  by (cases n) (auto simp: owner_arg_def NUL_def)

lemma owner_arg_Nil [simp]: "owner_arg [] = None"
  by (simp add: owner_arg_def)

lemma colon_not_Nil [simp]: "peek n = CHR '':'' \<Longrightarrow> n \<noteq> []"
  by (auto simp: NUL_def)

lemma foldl_heard_other [simp]:
  "heard l m (AddAliasComplete l' a d) = m" "heard l m (RemoveAliasComplete l' a d) = m"
  by simp_all

lemma nt_live_uniqueD:
  "nt_live st tbl \<Longrightarrow> map_of (uniqueNames tbl) n = Some (h, t) \<Longrightarrow>
   GetUniqueName (st h) = n \<and> peek n = CHR '':'' \<and> isValid (st h)"
  unfolding nt_live_def by blast

subsection \<open>Requesting and releasing an alias\<close>

lemma tracked_log [simp]:
  "tracked st l (log_call (AddAliasComplete l' a d) tbl) = tracked st l tbl"
  "tracked st l (log_call (RemoveAliasComplete l' a d) tbl) = tracked st l tbl"
  by (simp_all add: tracked_def)

lemma AddAlias_tracked:
  assumes tr: "tracked st l tbl" and a: "peek a \<noteq> CHR '':''"
  shows "\<exists>s d tbl'. AddAlias st a u fl lis tbl = Some (s, d, tbl') \<and> tracked st l tbl'"
proof (cases "map_of (uniqueNames tbl) u")
  case None
  with tr show ?thesis by (simp add: AddAlias_def)
next
  case (Some ht)
  have inv: "nt_inv st tbl" and live: "nt_live st tbl" using tr by (auto simp: tracked_def nt_inv_def)
  have u: "peek u = CHR '':''" using nt_live_uniqueD [OF live] Some by (cases ht) auto
  let ?e = "\<lparr>endpointName = u, flags = fl\<rparr>"
  show ?thesis
  proof (cases "map_of (aliasNames tbl) a")
    case None
    let ?t = "tbl\<lparr>aliasNames := AList.update a [?e] (aliasNames tbl)\<rparr>"
    have "nt_inv st ?t" using inv u Some by (intro nt_inv_update_alias) (auto simp: queue_ok_def)
    then have "tracked st l (CallListeners a ow ot (Some u) nt ?t)"
      and "tracked st l (CallListeners a ow ot (Some u) nt (log_call (AddAliasComplete l' a d) ?t))" for ow ot nt l' d
      using tr a by (simp_all add: tracked_def)
    with None Some show ?thesis
      by (cases "map_of (virtualAliasNames tbl) a"; cases lis) (auto simp: AddAlias_def Let_def)
  next
    case (Some q)
    obtain e r where q: "q = e # r" "\<forall>x \<in> set r. peek (endpointName x) = CHR '':''"
        "peek (endpointName e) = CHR '':''" "map_of (uniqueNames tbl) (endpointName e) \<noteq> None"
      using nt_live_queueD [OF live Some] by (metis option.distinct(1))
    let ?f = "tbl\<lparr>aliasNames := AList.update a (?e # e # r) (aliasNames tbl)\<rparr>"
    let ?b = "tbl\<lparr>aliasNames := AList.update a (e # r @ [?e]) (aliasNames tbl)\<rparr>"
    have "nt_inv st ?f" "nt_inv st ?b"
      using inv u q \<open>map_of (uniqueNames tbl) u = Some ht\<close> by (auto intro!: nt_inv_update_alias simp: queue_ok_def)
    then have "tracked st l (CallListeners a ow ot (Some u) nt ?f)"
      "tracked st l (CallListeners a ow ot (Some u) nt (log_call (AddAliasComplete l' a d) ?f))"
      "tracked st l ?b" for ow ot nt l' d
      using tr a fun_upd_idem [of "owner_cf st tbl", OF owner_cf_alias [OF a Some [unfolded q]]] by (simp_all add: tracked_def)
    with Some q tr \<open>map_of (uniqueNames tbl) u = Some ht\<close> show ?thesis
      by (cases lis) (auto simp: AddAlias_def Let_def)
  qed
qed

text \<open>The total number of queue entries, which every release makes smaller.\<close>

definition entries :: "NameTable \<Rightarrow> nat" where
  "entries tbl = sum_list (map (\<lambda>x. length (snd x)) (aliasNames tbl))"

lemma entries_update:
  "map_of al a = Some q \<Longrightarrow>
   sum_list (map (\<lambda>x. length (snd x)) (AList.update a q' al)) + length q = sum_list (map (\<lambda>x. length (snd x)) al) + length q'"
  by (induction al) (auto split: if_splits)

lemma entries_delete:
  "map_of al a = Some q \<Longrightarrow>
   sum_list (map (\<lambda>x. length (snd x)) (AList.delete a al)) + length q \<le> sum_list (map (\<lambda>x. length (snd x)) al)"
proof (induction al)
  case (Cons x al)
  have "sum_list (map (\<lambda>x. length (snd x)) (AList.delete a al)) \<le> sum_list (map (\<lambda>x. length (snd x)) al)"
    by (induction al) auto
  with Cons show ?case by (auto split: if_splits)
qed simp

text \<open>
  Releasing a name by its owner: the queue loses its first entry, or goes away when the next
  in line is not connected.
\<close>

lemma RemoveAlias_owner:
  assumes tr: "tracked st l tbl" and a: "peek a \<noteq> CHR '':''"
    and q: "map_of (aliasNames tbl) a = Some (e # r)"
  shows "\<exists>tbl'. RemoveAlias st a (endpointName e) lis tbl = Some (DBUS_RELEASE_NAME_REPLY_RELEASED, tbl') \<and>
     tracked st l tbl' \<and> uniqueNames tbl' = uniqueNames tbl \<and> listeners tbl' = listeners tbl \<and>
     virtualAliasNames tbl' = virtualAliasNames tbl \<and>
     aliasNames tbl' = (if r \<noteq> [] \<and> map_of (uniqueNames tbl) (endpointName (hd r)) \<noteq> None
       then AList.update a r (aliasNames tbl) else AList.delete a (aliasNames tbl)) \<and>
     entries tbl' < entries tbl"
proof -
  have inv: "nt_inv st tbl" and live: "nt_live st tbl" using tr by (auto simp: tracked_def nt_inv_def)
  have r: "\<forall>x \<in> set r. peek (endpointName x) = CHR '':''" and e: "endpointName e \<noteq> []"
    using nt_live_queueD [OF live q] by (metis list.inject, metis colon_not_Nil list.inject)
  let ?d = "tbl\<lparr>aliasNames := AList.delete a (aliasNames tbl)\<rparr>"
  let ?u = "tbl\<lparr>aliasNames := AList.update a r (aliasNames tbl)\<rparr>"
  let ?log = "\<lambda>t. case lis of Some l' \<Rightarrow> log_call (RemoveAliasComplete l' a DBUS_RELEASE_NAME_REPLY_RELEASED) t | None \<Rightarrow> t"
  have d: "tracked st l (CallListeners a ow ot
       (map_option (\<lambda>(h, t). GetUniqueName (st h)) (map_of (virtualAliasNames tbl) a)) nt (?log ?d))" for ow ot nt
    using tr a nt_inv_delete_alias [OF inv] by (auto simp: tracked_def split: option.splits)
  have de: "entries ?d < entries tbl" and ue: "entries ?u < entries tbl"
    using entries_delete [OF q] entries_update [OF q, of r] by (simp_all add: entries_def)
  show ?thesis
  proof (cases "r \<noteq> [] \<and> map_of (uniqueNames tbl) (endpointName (hd r)) \<noteq> None")
    case True
    then obtain x r' h t where x: "r = x # r'" "map_of (uniqueNames tbl) (endpointName x) = Some (h, t)"
      by (cases r) auto
    with r nt_live_uniqueD [OF live x(2)] have u: "tracked st l (CallListeners a ow ot (Some (endpointName x)) nt (?log ?u))"
      for ow ot nt
      using tr a nt_inv_update_alias [OF inv, of r a] by (auto simp: tracked_def queue_ok_def split: option.splits)
    have "FindEndpoint st ?u (endpointName x) = Some (Some h)" "isValid (st h)" "peek (endpointName x) = CHR '':''"
      using x r nt_live_uniqueD [OF live x(2)] by (simp_all add: FindEndpoint_unique)
    with q x e u ue show ?thesis
      by (cases lis) (simp_all add: RemoveAlias_def Let_def entries_def)
  next
    case False
    have nxt: "FindEndpoint st ?u (endpointName x) = Some None" if "r = x # r'" for x r'
      using False that r by (cases "map_of (uniqueNames tbl) (endpointName x)") (auto simp: FindEndpoint_unique)
    have v: "owner_arg (GetUniqueName (st h)) = Some (GetUniqueName (st h))"
      if "map_of (virtualAliasNames tbl) a = Some (h, t)" for h t
      using nt_live_virtualD [OF live that] by simp
    show ?thesis
      using False q e d de nxt v
      by (cases r; cases lis; cases "map_of (virtualAliasNames tbl) a")
         (auto simp: RemoveAlias_def Let_def entries_def AList.delete_update_same)
  qed
qed

lemma RemoveAlias_tracked:
  assumes tr: "tracked st l tbl" and a: "peek a \<noteq> CHR '':''"
  shows "\<exists>d tbl'. RemoveAlias st a u lis tbl = Some (d, tbl') \<and> tracked st l tbl'"
proof (cases "map_of (aliasNames tbl) a")
  case None
  with tr show ?thesis by (cases lis) (simp_all add: RemoveAlias_def Let_def)
next
  case (Some q)
  then obtain e r where q: "q = e # r"
    using nt_live_queueD [OF _ Some] tr by (metis tracked_def nt_inv_def)
  show ?thesis
  proof (cases "endpointName e = u")
    case True
    with RemoveAlias_owner [OF tr a Some [unfolded q], of lis] show ?thesis by blast
  next
    case False
    with tr Some q show ?thesis by (cases lis) (simp_all add: RemoveAlias_def Let_def)
  qed
qed

subsection \<open>Removing a unique name\<close>

lemma entry_index_None: "entry_index n q = None \<longleftrightarrow> (\<forall>e \<in> set q. endpointName e \<noteq> n)"
  by (induction q) auto

lemma entry_index_Some:
  "entry_index n q = Some j \<Longrightarrow>
   j < length q \<and> endpointName (q ! j) = n \<and> (\<forall>i < j. endpointName (q ! i) \<noteq> n)"
proof (induction q arbitrary: j)
  case (Cons e q)
  then show ?case by (fastforce split: if_splits nat.splits simp: nth_Cons)
qed simp

text \<open>How often a name stands in a queue.\<close>

definition times_queued :: "string \<Rightarrow> NameQueueEntry list \<Rightarrow> nat" where
  "times_queued n q = length (filter (\<lambda>e. endpointName e = n) q)"

definition queued_once :: "string \<Rightarrow> NameTable \<Rightarrow> bool" where
  "queued_once n tbl \<longleftrightarrow> (\<forall>a q. map_of (aliasNames tbl) a = Some q \<longrightarrow> times_queued n q \<le> 1)"

lemma times_queued_erase:
  assumes "entry_index n q = Some j"
  shows "times_queued n (erase_at j q) + 1 = times_queued n q"
proof -
  have q: "q = take j q @ (q ! j) # drop (Suc j) q" and n: "endpointName (q ! j) = n"
    using entry_index_Some [OF assms] by (simp_all add: id_take_nth_drop)
  have "times_queued n q = times_queued n (take j q @ (q ! j) # drop (Suc j) q)" using q by simp
  with n show ?thesis by (simp add: times_queued_def erase_at_def)
qed

lemma erase_at_hd: "0 < j \<Longrightarrow> q \<noteq> [] \<Longrightarrow> hd (erase_at j q) = hd q \<and> erase_at j q \<noteq> []"
  by (cases q; cases j) (auto simp: erase_at_def)

lemma set_erase_at: "set (erase_at j q) \<subseteq> set q"
  by (auto simp: erase_at_def dest: in_set_takeD in_set_dropD)

lemma length_erase_at: "j < length q \<Longrightarrow> length (erase_at j q) < length q"
  by (simp add: erase_at_def)

lemma nth_update_alist:
  assumes "distinct (map fst al)" and "i < length al" and "al ! i = (a, q)"
  shows "al[i := (a, q')] = AList.update a q' al" and "map_of al a = Some q"
proof -
  show "map_of al a = Some q"
    using assms by (metis map_of_is_SomeI nth_mem)
  show "al[i := (a, q')] = AList.update a q' al"
    using assms
  proof (induction al arbitrary: i)
    case (Cons x al)
    show ?case
    proof (cases i)
      case (Suc k)
      then have "a \<in> fst ` set al" using Cons.prems by (force simp: in_set_conv_nth)
      then show ?thesis using Suc Cons by auto
    qed (use Cons.prems in auto)
  qed simp
qed

text \<open>
  What holds when the loop has visited the aliases before \<open>i\<close>: the endpoint owns none of
  them, and where it was never queued twice (\<open>once\<close>) it is in none of their queues.
\<close>

definition visited :: "string \<Rightarrow> bool \<Rightarrow> nat \<Rightarrow> NameTable \<Rightarrow> bool" where
  "visited n once i tbl \<longleftrightarrow>
     (\<forall>j < i. j < length (aliasNames tbl) \<longrightarrow>
        endpointName (hd (snd (aliasNames tbl ! j))) \<noteq> n \<and>
        (once \<longrightarrow> times_queued n (snd (aliasNames tbl ! j)) = 0))"

lemma queued_once_update:
  "queued_once n tbl \<Longrightarrow> times_queued n q \<le> 1 \<Longrightarrow>
   queued_once n (tbl\<lparr>aliasNames := AList.update a q (aliasNames tbl)\<rparr>)"
  by (auto simp: queued_once_def)

lemma queued_once_release:
  assumes "queued_once n tbl" and "map_of (aliasNames tbl) a = Some (e # r)"
    and "aliasNames tbl' = AList.update a r (aliasNames tbl) \<or> aliasNames tbl' = AList.delete a (aliasNames tbl)"
  shows "queued_once n tbl'"
proof -
  have "times_queued n r \<le> times_queued n (e # r)" by (simp add: times_queued_def)
  then have "times_queued n r \<le> 1" using assms(1,2) unfolding queued_once_def by fastforce
  with assms show ?thesis by (auto simp: queued_once_def split: if_splits)
qed

text \<open>No alias is spelled as a unique name.\<close>

definition aliases_ok :: "NameTable \<Rightarrow> bool" where
  "aliases_ok tbl \<longleftrightarrow> (\<forall>a q. map_of (aliasNames tbl) a = Some q \<longrightarrow> peek a \<noteq> CHR '':'')"

lemma aliases_ok_change:
  assumes "aliases_ok tbl" and "peek a \<noteq> CHR '':''"
    and "aliasNames tbl' \<in> {aliasNames tbl, AList.delete a (aliasNames tbl), AList.update a q (aliasNames tbl),
           AList.delete a (AList.update a q (aliasNames tbl))}"
  shows "aliases_ok tbl'"
  using assms by (auto simp: aliases_ok_def split: if_splits)

definition loop_inv :: "store \<Rightarrow> nat \<Rightarrow> string \<Rightarrow> bool \<Rightarrow> NameTable \<Rightarrow> bool" where
  "loop_inv st l n once tbl \<longleftrightarrow>
     tracked st l tbl \<and> map_of (uniqueNames tbl) n \<noteq> None \<and> (once \<longrightarrow> queued_once n tbl) \<and> aliases_ok tbl"

lemma visited_Suc:
  "visited n once i tbl \<Longrightarrow> aliasNames tbl ! i = (a, q) \<Longrightarrow> endpointName (hd q) \<noteq> n \<Longrightarrow>
   (once \<longrightarrow> times_queued n q = 0) \<Longrightarrow> visited n once (Suc i) tbl"
  by (auto simp: visited_def less_Suc_eq)

text \<open>One turn that erases a queued entry.\<close>

lemma loop_erase:
  assumes inv: "loop_inv st l n once tbl" and vis: "visited n once i tbl"
    and i: "i < length (aliasNames tbl)" "aliasNames tbl ! i = (a, q)" and j: "entry_index n q = Some (Suc j)"
  shows "let tbl' = tbl\<lparr>aliasNames := (aliasNames tbl)[i := (a, erase_at (Suc j) q)]\<rparr> in
     loop_inv st l n once tbl' \<and> visited n once (Suc i) tbl' \<and> entries tbl' < entries tbl"
proof -
  let ?q = "erase_at (Suc j) q"
  let ?t = "tbl\<lparr>aliasNames := (aliasNames tbl)[i := (a, ?q)]\<rparr>"
  have d: "distinct (map fst (aliasNames tbl))" and live: "nt_live st tbl" and ni: "nt_inv st tbl"
    using inv by (auto simp: loop_inv_def tracked_def nt_inv_def nt_keys_def)
  note upd = nth_update_alist [OF d i]
  have a: "peek a \<noteq> CHR '':''" using inv upd(2) by (auto simp: loop_inv_def aliases_ok_def)
  have ix: "Suc j < length q" "endpointName (hd q) \<noteq> n"
    using entry_index_Some [OF j] by (cases q; force)+
  have hq: "hd ?q = hd q" "?q \<noteq> []" using erase_at_hd [of "Suc j" q] ix(1) by force+
  have qok: "queue_ok tbl q" using live upd(2) by (simp add: nt_live_def)
  then have "queue_ok tbl ?q" using hq set_erase_at [of "Suc j" q] by (auto simp: queue_ok_def)
  then have "nt_inv st ?t" using nt_inv_update_alias [OF ni] upd(1) by simp
  moreover have "owner_cf st ?t = owner_cf st tbl"
    using owner_cf_update_alias [OF a] upd hq a by (simp add: owner_cf_def fun_upd_idem)
  ultimately have tr: "tracked st l ?t" using inv by (simp add: tracked_def loop_inv_def)
  have al: "aliases_ok ?t" using inv a upd(1) by - (rule aliases_ok_change [of tbl a _ ?q], simp_all add: loop_inv_def)
  have once: "once \<Longrightarrow> times_queued n ?q = 0"
    using times_queued_erase [OF j] inv upd(2) by (fastforce simp: loop_inv_def queued_once_def)
  have "once \<longrightarrow> queued_once n ?t"
    using once inv upd(1) queued_once_update [of n tbl ?q a] by (simp add: loop_inv_def)
  then have "loop_inv st l n once ?t" using tr inv al by (simp add: loop_inv_def)
  moreover have "visited n once (Suc i) ?t"
    using vis i hq ix once by (auto simp: visited_def less_Suc_eq nth_list_update)
  moreover have "entries ?t < entries tbl"
    using entries_update [OF upd(2), of ?q] upd(1) length_erase_at [OF ix(1)] by (simp add: entries_def)
  ultimately show ?thesis by simp
qed

text \<open>One turn that releases an owned alias; the loop starts over.\<close>

lemma loop_release:
  assumes inv: "loop_inv st l n once tbl" and q: "map_of (aliasNames tbl) a = Some (e # r)" and e: "endpointName e = n"
  shows "\<exists>tbl'. RemoveAlias st a n None tbl = Some (DBUS_RELEASE_NAME_REPLY_RELEASED, tbl') \<and>
     loop_inv st l n once tbl' \<and> entries tbl' < entries tbl \<and> uniqueNames tbl' = uniqueNames tbl"
proof -
  have tr: "tracked st l tbl" and a: "peek a \<noteq> CHR '':''"
    using inv q by (auto simp: loop_inv_def aliases_ok_def)
  obtain tbl' where t: "RemoveAlias st a n None tbl = Some (DBUS_RELEASE_NAME_REPLY_RELEASED, tbl')"
     "tracked st l tbl'" "uniqueNames tbl' = uniqueNames tbl" "entries tbl' < entries tbl"
     "aliasNames tbl' = AList.update a r (aliasNames tbl) \<or> aliasNames tbl' = AList.delete a (aliasNames tbl)"
    using RemoveAlias_owner [OF tr a q, of None] e by auto
  have "aliases_ok tbl'"
    using inv a t(5) by - (rule aliases_ok_change [of tbl a _ r], auto simp: loop_inv_def)
  with inv have "loop_inv st l n once tbl'"
    using t(2,3) queued_once_release [OF _ q t(5), of n] by (simp add: loop_inv_def)
  with t show ?thesis by blast
qed

lemma remove_names_loop_inv:
  assumes "loop_inv st l n once tbl" and "visited n once i tbl"
  shows "\<exists>tbl'. remove_names_loop st n n i tbl = Some tbl' \<and> loop_inv st l n once tbl' \<and>
     visited n once (length (aliasNames tbl')) tbl' \<and> uniqueNames tbl' = uniqueNames tbl"
  using assms
proof (induction "(entries tbl, length (aliasNames tbl) - i)" arbitrary: tbl i
    rule: wf_induct_rule [OF wf_lex_prod [OF wf_less_than wf_less_than]])
  case 1
  note IH = "1.hyps" and inv = "1.prems"(1) and vis = "1.prems"(2)
  show ?case
  proof (cases "i < length (aliasNames tbl)")
    case False
    with inv vis show ?thesis by (subst remove_names_loop.simps) (auto simp: visited_def)
  next
    case True
    obtain a q where aq: "aliasNames tbl ! i = (a, q)" by force
    have d: "distinct (map fst (aliasNames tbl))" and live: "nt_live st tbl"
      using inv by (auto simp: loop_inv_def tracked_def nt_inv_def nt_keys_def)
    note q = nth_update_alist(2) [OF d True aq]
    obtain e r where er: "q = e # r" using live q by (cases q) (auto simp: nt_live_def queue_ok_def)
    consider "entry_index n q = None" | "entry_index n q = Some 0" | j where "entry_index n q = Some (Suc j)"
      by (metis not0_implies_Suc not_None_eq)
    then show ?thesis
    proof cases
      case 1
      then have "visited n once (Suc i) tbl"
        using vis aq er by (intro visited_Suc) (auto simp: entry_index_None times_queued_def)
      then have "\<exists>tbl'. remove_names_loop st n n (Suc i) tbl = Some tbl' \<and> loop_inv st l n once tbl' \<and>
          visited n once (length (aliasNames tbl')) tbl' \<and> uniqueNames tbl' = uniqueNames tbl"
        using inv True by (intro IH) auto
      with True aq 1 show ?thesis by (subst remove_names_loop.simps) simp
    next
      case 2
      then have "endpointName e = n" using entry_index_Some [OF 2] er by auto
      then obtain t1 where t1: "RemoveAlias st a n None tbl = Some (DBUS_RELEASE_NAME_REPLY_RELEASED, t1)"
        "loop_inv st l n once t1" "entries t1 < entries tbl" "uniqueNames t1 = uniqueNames tbl"
        using loop_release [OF inv q [unfolded er]] by blast
      have "\<exists>tbl'. remove_names_loop st n n 0 t1 = Some tbl' \<and> loop_inv st l n once tbl' \<and>
          visited n once (length (aliasNames tbl')) tbl' \<and> uniqueNames tbl' = uniqueNames t1"
        using t1 by (intro IH) (auto simp: visited_def)
      moreover have "map_of (uniqueNames t1) n \<noteq> None" using t1(2) by (simp add: loop_inv_def)
      ultimately show ?thesis using True aq 2 t1 by (subst remove_names_loop.simps) auto
    next
      case (3 j)
      let ?t = "tbl\<lparr>aliasNames := (aliasNames tbl)[i := (a, erase_at (Suc j) q)]\<rparr>"
      have "loop_inv st l n once ?t" "visited n once (Suc i) ?t" "entries ?t < entries tbl"
        using loop_erase [OF inv vis True aq 3] by (simp_all add: Let_def)
      then have "\<exists>tbl'. remove_names_loop st n n (Suc i) ?t = Some tbl' \<and> loop_inv st l n once tbl' \<and>
          visited n once (length (aliasNames tbl')) tbl' \<and> uniqueNames tbl' = uniqueNames ?t"
        by (intro IH) auto
      with True aq 3 show ?thesis by (subst remove_names_loop.simps) simp
    qed
  qed
qed

definition table_ok :: "store \<Rightarrow> nat \<Rightarrow> NameTable \<Rightarrow> bool" where
  "table_ok st l tbl \<longleftrightarrow> tracked st l tbl \<and> aliases_ok tbl"

lemma queue_ok_delete_unique:
  "queue_ok tbl q \<Longrightarrow> endpointName (hd q) \<noteq> n \<Longrightarrow>
   queue_ok (tbl\<lparr>uniqueNames := AList.delete n (uniqueNames tbl)\<rparr>) q"
  by (simp add: queue_ok_def)

lemma RemoveUniqueName_ok:
  assumes ok: "table_ok st l tbl"
  shows "\<exists>tbl'. RemoveUniqueName st n tbl = Some tbl' \<and> table_ok st l tbl' \<and>
     map_of (uniqueNames tbl') n = None \<and>
     (map_of (uniqueNames tbl) n \<noteq> None \<and> queued_once n tbl \<longrightarrow>
        (\<forall>a q. map_of (aliasNames tbl') a = Some q \<longrightarrow> times_queued n q = 0))"
proof (cases "map_of (uniqueNames tbl) n")
  case None
  with ok show ?thesis by (simp add: RemoveUniqueName_def)
next
  case (Some ht)
  obtain h t where ht: "ht = (h, t)" by force
  have live: "nt_live st tbl" using ok by (simp add: table_ok_def tracked_def nt_inv_def)
  have h: "GetUniqueName (st h) = n" "peek n = CHR '':''"
    using nt_live_uniqueD [OF live] Some ht by auto
  have "loop_inv st l n (queued_once n tbl) tbl" "visited n (queued_once n tbl) 0 tbl"
    using ok Some by (auto simp: loop_inv_def table_ok_def aliases_ok_def visited_def)
  then obtain t1 where t1: "remove_names_loop st n n 0 tbl = Some t1" "loop_inv st l n (queued_once n tbl) t1"
      "visited n (queued_once n tbl) (length (aliasNames t1)) t1"
    using remove_names_loop_inv by blast
  let ?t = "t1\<lparr>uniqueNames := AList.delete n (uniqueNames t1)\<rparr>"
  have tr: "tracked st l t1" using t1 by (simp add: loop_inv_def)
  have vis: "endpointName (hd q) \<noteq> n \<and> (queued_once n tbl \<longrightarrow> times_queued n q = 0)"
    if "map_of (aliasNames t1) a = Some q" for a q
    using t1(3) map_of_SomeD [OF that] by (fastforce simp: visited_def in_set_conv_nth)
  have "nt_keys ?t" using tr by (simp add: tracked_def nt_inv_def nt_keys_def AList.distinct_delete)
  moreover have "nt_live st ?t"
    using tr vis queue_ok_delete_unique [of t1 _ n] by (auto simp: tracked_def nt_inv_def nt_live_def split: if_splits)
  ultimately have "nt_inv st ?t" by (simp add: nt_inv_def)
  moreover have "owner_cf st ?t = (owner_cf st t1)(n := None)"
    using h by (auto simp: owner_cf_def fun_eq_iff split: option.split)
  ultimately have "tracked st l (CallListeners n ow ot None nt ?t)" for ow ot nt
    using tr by (simp add: tracked_def)
  moreover have "aliases_ok ?t" using t1 by (simp add: loop_inv_def aliases_ok_def)
  ultimately show ?thesis
    using Some ht h t1 vis by (auto simp: RemoveUniqueName_def table_ok_def aliases_ok_def Let_def)
qed

subsection \<open>The other operations\<close>

lemma AddUniqueName_ok:
  assumes ok: "table_ok st l tbl" and n: "peek (GetUniqueName (st e)) = CHR '':''" and v: "isValid (st e)"
  shows "table_ok st l (AddUniqueName st e tbl)"
proof -
  let ?n = "GetUniqueName (st e)"
  let ?t = "tbl\<lparr>uniqueNames := AList.update ?n (e, GetNameTransfer st e) (uniqueNames tbl)\<rparr>"
  have "queue_ok tbl q \<Longrightarrow> queue_ok ?t q" for q by (auto simp: queue_ok_def)
  then have "nt_inv st ?t"
    using ok n v by (auto simp: table_ok_def tracked_def nt_inv_def nt_keys_def nt_live_def AList.distinct_update)
  moreover have "owner_cf st ?t = (owner_cf st tbl)(?n := Some ?n)"
    using n by (auto simp: owner_cf_def fun_eq_iff split: option.split)
  ultimately show ?thesis
    using ok by (simp add: AddUniqueName_def Let_def table_ok_def tracked_def aliases_ok_def)
qed

lemma AddAlias_ok:
  assumes "table_ok st l tbl" and "peek a \<noteq> CHR '':''"
  shows "\<exists>s d tbl'. AddAlias st a u fl lis tbl = Some (s, d, tbl') \<and> table_ok st l tbl'"
proof -
  obtain s d tbl' where t: "AddAlias st a u fl lis tbl = Some (s, d, tbl')" "tracked st l tbl'"
    using AddAlias_tracked assms by (metis table_ok_def)
  have "aliasNames tbl' = aliasNames tbl \<or> (\<exists>q. aliasNames tbl' = AList.update a q (aliasNames tbl))"
    using t(1) by (auto simp: AddAlias_def Let_def split: option.splits list.splits if_splits prod.splits)
  then have "aliases_ok tbl'" using assms aliases_ok_change [of tbl a tbl'] by (auto simp: table_ok_def)
  with t show ?thesis by (simp add: table_ok_def)
qed

lemma RemoveAlias_ok:
  assumes "table_ok st l tbl"
  shows "\<exists>d tbl'. RemoveAlias st a u lis tbl = Some (d, tbl') \<and> table_ok st l tbl'"
proof (cases "map_of (aliasNames tbl) a")
  case None
  with assms show ?thesis
    by (cases lis) (simp_all add: RemoveAlias_def Let_def table_ok_def aliases_ok_def)
next
  case (Some q)
  then have a: "peek a \<noteq> CHR '':''" using assms by (auto simp: table_ok_def aliases_ok_def)
  obtain d tbl' where t: "RemoveAlias st a u lis tbl = Some (d, tbl')" "tracked st l tbl'"
    using RemoveAlias_tracked [OF _ a] assms by (metis table_ok_def)
  have "\<exists>q. aliasNames tbl' \<in> {aliasNames tbl, AList.delete a (aliasNames tbl), AList.update a q (aliasNames tbl),
           AList.delete a (AList.update a q (aliasNames tbl))}"
    using t(1) by (auto simp: RemoveAlias_def Let_def split: option.splits list.splits if_splits prod.splits Option.bind_splits)
  then have "aliases_ok tbl'" using assms a aliases_ok_change [of tbl a tbl'] by (auto simp: table_ok_def)
  with t show ?thesis by (simp add: table_ok_def)
qed

subsection \<open>Virtual aliases\<close>

lemma nt_inv_virtual_put:
  assumes "nt_inv st tbl" and "peek a \<noteq> CHR '':''" and "peek (GetUniqueName (st h)) = CHR '':''" and "isValid (st h)"
  shows "nt_inv st (tbl\<lparr>virtualAliasNames := map_put a (h, t) (virtualAliasNames tbl)\<rparr>)"
  using assms by (auto simp: nt_inv_def nt_keys_def nt_live_def sorted_map_put)

lemma nt_inv_virtual_delete:
  assumes "nt_inv st tbl"
  shows "nt_inv st (tbl\<lparr>virtualAliasNames := AList.delete a (virtualAliasNames tbl)\<rparr>)"
  using assms by (auto simp: nt_inv_def nt_keys_def nt_live_def sorted_delete split: if_splits)

text \<open>A local alias masks the virtual one.\<close>

lemma owner_cf_virtual_put:
  "peek a \<noteq> CHR '':'' \<Longrightarrow>
   owner_cf st (tbl\<lparr>virtualAliasNames := map_put a (h, t) (virtualAliasNames tbl)\<rparr>) =
     (if map_of (aliasNames tbl) a = None then (owner_cf st tbl)(a := Some (GetUniqueName (st h))) else owner_cf st tbl)"
  by (auto simp: owner_cf_def fun_eq_iff split: option.split)

lemma owner_cf_virtual_delete:
  "peek a \<noteq> CHR '':'' \<Longrightarrow>
   owner_cf st (tbl\<lparr>virtualAliasNames := AList.delete a (virtualAliasNames tbl)\<rparr>) =
     (if map_of (aliasNames tbl) a = None then (owner_cf st tbl)(a := None) else owner_cf st tbl)"
  by (auto simp: owner_cf_def fun_eq_iff split: option.split)

lemma aliases_ok_frame [simp]:
  "aliases_ok (tbl\<lparr>virtualAliasNames := vs\<rparr>) = aliases_ok tbl"
  "aliases_ok (CallListeners a ow ot nw nt tbl) = aliases_ok tbl" "aliases_ok (tbl\<lparr>listeners := ls\<rparr>) = aliases_ok tbl"
  "aliases_ok (tbl\<lparr>uniqueId := i\<rparr>) = aliases_ok tbl" "aliases_ok (tbl\<lparr>uniquePrefix := p\<rparr>) = aliases_ok tbl"
  by (simp_all add: aliases_ok_def)

lemma table_okD:
  "table_ok st l tbl \<Longrightarrow> nt_inv st tbl" "table_ok st l tbl \<Longrightarrow> nt_live st tbl"
  by (simp_all add: table_ok_def tracked_def nt_inv_def)

lemma table_ok_put:
  assumes ok: "table_ok st l tbl" and a: "peek a \<noteq> CHR '':''"
    and h: "peek (GetUniqueName (st h)) = CHR '':''" "isValid (st h)"
  shows "map_of (aliasNames tbl) a = None \<Longrightarrow>
      table_ok st l (CallListeners a ow ot (Some (GetUniqueName (st h))) nt
        (tbl\<lparr>virtualAliasNames := map_put a (h, t) (virtualAliasNames tbl)\<rparr>))"
    and "map_of (aliasNames tbl) a \<noteq> None \<or> owner_cf st tbl a = Some (GetUniqueName (st h)) \<Longrightarrow>
      table_ok st l (tbl\<lparr>virtualAliasNames := map_put a (h, t) (virtualAliasNames tbl)\<rparr>)"
  using ok nt_inv_virtual_put [OF table_okD(1) [OF ok] a h]
  by (auto simp: table_ok_def tracked_def owner_cf_virtual_put [OF a] fun_upd_idem)

lemma table_ok_delete:
  assumes ok: "table_ok st l tbl" and a: "peek a \<noteq> CHR '':''"
  shows "map_of (aliasNames tbl) a = None \<Longrightarrow>
      table_ok st l (CallListeners a ow ot None nt
        (tbl\<lparr>virtualAliasNames := AList.delete a (virtualAliasNames tbl)\<rparr>))"
    and "map_of (aliasNames tbl) a \<noteq> None \<Longrightarrow>
      table_ok st l (tbl\<lparr>virtualAliasNames := AList.delete a (virtualAliasNames tbl)\<rparr>)"
  using ok nt_inv_virtual_delete [OF table_okD(1) [OF ok]]
  by (auto simp: table_ok_def tracked_def owner_cf_virtual_delete [OF a])

lemma owner_cf_virtual:
  assumes "table_ok st l tbl" and "map_of (virtualAliasNames tbl) a = Some (h, t)"
  shows "map_of (aliasNames tbl) a \<noteq> None \<or> owner_cf st tbl a = Some (GetUniqueName (st h))"
  using assms nt_live_virtualD [OF table_okD(2) [OF assms(1)] assms(2)]
  by (auto simp: owner_cf_def split: option.splits)

lemma update_virtual_loop_ok:
  "table_ok st l tbl \<Longrightarrow> GetUniqueName (st h) = n \<Longrightarrow> table_ok st l (update_virtual_loop st h n as tbl)"
proof (induction "as" arbitrary: tbl)
  case (Cons a "as")
  note live = table_okD(2) [OF Cons.prems(1)]
  show ?case
  proof (cases "map_of (virtualAliasNames tbl) a")
    case None
    with Cons show ?thesis by simp
  next
    case (Some vt)
    obtain v t where vt: "vt = (v, t)" by force
    with nt_live_virtualD [OF live] Some have v: "peek a \<noteq> CHR '':''" "peek (GetUniqueName (st v)) = CHR '':''" "isValid (st v)"
      by auto
    have "table_ok st l (tbl\<lparr>virtualAliasNames := map_put a (v, t') (virtualAliasNames tbl)\<rparr>)" for t'
      using table_ok_put(2) [OF Cons.prems(1) v] owner_cf_virtual [OF Cons.prems(1)] Some vt by blast
    moreover have "table_ok st l (CallListeners a ow ot (Some n) nt
        (tbl\<lparr>virtualAliasNames := map_put a (v, t') (virtualAliasNames tbl)\<rparr>))"
      if "map_of (aliasNames tbl) a = None" "v = h" for ow ot nt t'
      using table_ok_put(1) [OF Cons.prems(1) v that(1)] that(2) Cons.prems(2) by blast
    ultimately show ?thesis using Cons Some vt by (auto simp: Let_def)
  qed
qed simp

lemma remove_virtual_loop_ok:
  "table_ok st l tbl \<Longrightarrow> table_ok st l (remove_virtual_loop st h n as tbl)"
proof (induction "as" arbitrary: tbl)
  case (Cons a "as")
  note live = table_okD(2) [OF Cons.prems(1)]
  show ?case
  proof (cases "map_of (virtualAliasNames tbl) a")
    case None
    with Cons show ?thesis by simp
  next
    case (Some vt)
    obtain v t where vt: "vt = (v, t)" by force
    with nt_live_virtualD [OF live] Some have a: "peek a \<noteq> CHR '':''" by auto
    from table_ok_delete [OF Cons.prems(1) a] Cons Some vt show ?thesis by (auto simp: Let_def)
  qed
qed simp

lemma SetVirtualAlias_ok:
  assumes ok: "table_ok st l tbl" and a: "peek a \<noteq> CHR '':''"
    and h: "\<And>h. nw = Some h \<Longrightarrow> peek (GetUniqueName (st h)) = CHR '':''"
  shows "table_ok st l (snd (SetVirtualAlias st a nw req tbl))"
proof (cases "IsValid st nw")
  case True
  then obtain h where nw: "nw = Some h" "isValid (st h)" by (cases nw) auto
  note put = table_ok_put [OF ok a h [OF nw(1)] nw(2)]
  have same: "owner_cf st tbl a = Some (GetUniqueName (st h))"
    if "map_of (virtualAliasNames tbl) a = Some (h, t)" "map_of (aliasNames tbl) a = None" for t
    using owner_cf_virtual [OF ok that(1)] that(2) by simp
  show ?thesis
    using nw ok put same h [OF nw(1)]
    by (cases "map_of (aliasNames tbl) a = None"; cases "map_of (virtualAliasNames tbl) a")
       (auto simp: SetVirtualAlias_def Let_def)
next
  case False
  show ?thesis
    using False ok table_ok_delete [OF ok a]
    by (cases "map_of (aliasNames tbl) a = None") (auto simp: SetVirtualAlias_def Let_def)
qed

subsection \<open>The table as a machine\<close>

datatype name_op =
    Unique ep | DropUnique string
  | Request string string u32 "nat option" | Release string string "nat option"
  | SetVirtual string "ep option" ep | DropVirtual string | RefreshVirtual string
  | Listen nat | Unlisten nat | NewName | SetId "byte list"

fun apply_op :: "store \<Rightarrow> NameTable \<Rightarrow> name_op \<Rightarrow> NameTable option" where
  "apply_op st tbl (Unique e) = Some (AddUniqueName st e tbl)"
| "apply_op st tbl (DropUnique n) = RemoveUniqueName st n tbl"
| "apply_op st tbl (Request a u fl lis) = map_option (snd \<circ> snd) (AddAlias st a u fl lis tbl)"
| "apply_op st tbl (Release a u lis) = map_option snd (RemoveAlias st a u lis tbl)"
| "apply_op st tbl (SetVirtual a nw req) = Some (snd (SetVirtualAlias st a nw req tbl))"
| "apply_op st tbl (DropVirtual n) = RemoveVirtualAliases st n tbl"
| "apply_op st tbl (RefreshVirtual n) = UpdateVirtualAliases st n tbl"
| "apply_op st tbl (Listen l) = Some (AddListener l tbl)"
| "apply_op st tbl (Unlisten l) = Some (RemoveListener l tbl)"
| "apply_op st tbl NewName = map_option snd (GenerateUniqueName tbl)"
| "apply_op st tbl (SetId g) = Some (SetGUID g tbl)"

text \<open>
  The calls the router makes: unique names begin with a colon and are those of valid
  endpoints, well-known names do not, and the listener that is observed stays registered.
\<close>

fun admissible :: "store \<Rightarrow> nat \<Rightarrow> name_op \<Rightarrow> bool" where
  "admissible st l (Unique e) \<longleftrightarrow> peek (GetUniqueName (st e)) = CHR '':'' \<and> isValid (st e)"
| "admissible st l (Request a u fl lis) \<longleftrightarrow> peek a \<noteq> CHR '':''"
| "admissible st l (SetVirtual a nw req) \<longleftrightarrow>
     peek a \<noteq> CHR '':'' \<and> (case nw of None \<Rightarrow> True | Some h \<Rightarrow> peek (GetUniqueName (st h)) = CHR '':'')"
| "admissible st l (RefreshVirtual n) \<longleftrightarrow> peek n = CHR '':''"
| "admissible st l (Unlisten l') \<longleftrightarrow> l' \<noteq> l"
| "admissible st l _ \<longleftrightarrow> True"

lemma table_ok_frame [simp]:
  "table_ok st l (tbl\<lparr>uniqueId := i\<rparr>) = table_ok st l tbl"
  "table_ok st l (tbl\<lparr>uniquePrefix := p\<rparr>) = table_ok st l tbl"
  by (simp_all add: table_ok_def tracked_def)

lemma U32ToString_digs: "U32ToString n 10 (Suc 0) fill = Some (digs 10 (unat n))"
  by (simp add: U32ToString_def digits_loop_digs)

lemma apply_op_ok:
  assumes ok: "table_ok st l tbl" and adm: "admissible st l op"
  shows "\<exists>tbl'. apply_op st tbl op = Some tbl' \<and> table_ok st l tbl'"
proof (cases op)
  case (DropUnique n)
  with RemoveUniqueName_ok [OF ok, of n] show ?thesis by auto
next
  case (Request a u fl lis)
  with AddAlias_ok [OF ok, of a u fl lis] adm show ?thesis by auto
next
  case (Release a u lis)
  with RemoveAlias_ok [OF ok, of a u lis] show ?thesis by auto
next
  case (SetVirtual a nw req)
  with SetVirtualAlias_ok [OF ok, of a nw req] adm show ?thesis by (cases nw) auto
next
  case (DropVirtual n)
  obtain e where "FindEndpoint st tbl n = Some e"
    using FindEndpoint_returns [OF table_okD(2) [OF ok]] by blast
  with DropVirtual ok show ?thesis
    by (auto simp: RemoveVirtualAliases_def remove_virtual_loop_ok split: option.split)
next
  case (RefreshVirtual n)
  with adm have e: "FindEndpoint st tbl n = Some (map_option fst (map_of (uniqueNames tbl) n))"
    by (simp add: FindEndpoint_unique)
  with RefreshVirtual ok show ?thesis
    by (cases "map_of (uniqueNames tbl) n")
       (auto simp: UpdateVirtualAliases_def dest!: nt_live_uniqueD [OF table_okD(2) [OF ok]]
          intro: update_virtual_loop_ok)
next
  case (Listen l')
  with ok show ?thesis by (simp add: AddListener_def table_ok_def tracked_def set_insort_key)
next
  case (Unlisten l')
  with ok adm show ?thesis by (simp add: RemoveListener_def table_ok_def tracked_def in_set_remove1)
qed (use ok adm in \<open>simp_all add: AddUniqueName_ok GenerateUniqueName_def U32ToString_digs SetGUID_def Let_def\<close>)

interpretation name_table: invariant_machine "apply_op st" "table_ok st l" "admissible st l"
  by unfold_locales (rule apply_op_ok)

lemma table_ok_new: "table_ok st l (AddListener l new_NameTable)"
  by (simp add: table_ok_def tracked_def nt_inv_def nt_keys_def nt_live_def aliases_ok_def AddListener_def
      new_NameTable_def owner_cf_def fun_eq_iff)

subsection \<open>Generated names\<close>

lemma char_of_not_period: "n < 256 \<Longrightarrow> n \<noteq> 46 \<Longrightarrow> char_of n \<noteq> CHR ''.''"
  for n :: nat
  by (simp add: char_of_eq_iff take_bit_eq_mod)

lemma guid_char_not_period: "guid_char b \<noteq> CHR ''.''"
  using char_of_not_period [of "unat (b AND 63) + 48"] char_of_not_period [of "55 + unat (b AND 63)"]
    char_of_not_period [of "61 + unat (b AND 63)"]
  by (auto simp: guid_char_def Let_def)

lemma index_of_append: "c \<notin> set xs \<Longrightarrow> index_of c (xs @ c # ys) = Some (length xs)"
  by (induction xs) auto

lemma index_of_None: "c \<notin> set xs \<Longrightarrow> index_of c xs = None"
  by (induction xs) auto

lemma digs_10_no_period: "CHR ''.'' \<notin> set (digs 10 n)"
  using good_digits_digs [of 10 "CHR ''.''" n] by (auto simp: good_digit_def CharToU8_def char_code_literals chars)

lemma StringToU32_digs:
  assumes "n \<noteq> 0"
  shows "StringToU32 (digs 10 (unat n)) 0 0 = n"
proof -
  let ?s = "digs 10 (unat n)"
  have "unat n \<noteq> 0" using assms by (simp add: unat_eq_0)
  then have "CharToU8 (hd ?s) \<noteq> 0" using hd_digs_zero [of 10] by force
  moreover have "peek ?s = hd ?s" using digs_not_Nil by (simp add: peek_def split: list.split)
  ultimately have "peek ?s \<noteq> CHR ''0''" by (auto simp: CharToU8_zero)
  moreover have "\<forall>c \<in> set ?s. good_digit 10 c" using good_digits_digs [of 10] by simp
  ultimately show ?thesis
    using foldl_digs [of 10 "unat n"] by (simp add: StringToU32_def string_to_u32_loop_good)
qed

definition guid_prefix :: "byte list \<Rightarrow> string" where
  "guid_prefix g = '':'' @ ToShortString g @ ''.''"

lemma generated_name_valid:
  assumes "uniquePrefix tbl = guid_prefix g" and "n \<noteq> 0" and "n \<le> uniqueId tbl"
  shows "IsValidLocalUniqueName tbl (guid_prefix g @ digs 10 (unat n))"
proof -
  let ?d = "digs 10 (unat n)"
  have len: "length (ToShortString g) = 8" by (simp add: ToShortString_def SHORT_SIZE_def)
  have "CHR ''.'' \<notin> set ('':'' @ ToShortString g)"
    using guid_char_not_period [THEN not_sym] by (auto simp: ToShortString_def)
  from index_of_append [OF this, of ?d] len have "index_of (CHR ''.'') (guid_prefix g @ ?d) = Some 9"
    by (simp add: guid_prefix_def)
  moreover have "drop 10 (guid_prefix g @ ?d) = ?d" "take 10 (guid_prefix g @ ?d) = guid_prefix g"
    using len by (simp_all add: guid_prefix_def)
  ultimately show ?thesis
    using assms index_of_None [OF digs_10_no_period] StringToU32_digs [OF assms(2)]
    by (simp add: IsValidLocalUniqueName_def SHORT_SIZE_def find_first_of_def Let_def)
qed

fun generate_names :: "nat \<Rightarrow> NameTable \<Rightarrow> (string list \<times> NameTable) option" where
  "generate_names 0 tbl = Some ([], tbl)"
| "generate_names (Suc k) tbl = do {
     (n, tbl1) \<leftarrow> GenerateUniqueName tbl;
     (ns, tbl2) \<leftarrow> generate_names k tbl1;
     Some (n # ns, tbl2) }"

lemma generate_names_digs:
  "generate_names k tbl =
     Some (map (\<lambda>i. uniquePrefix tbl @ digs 10 (unat (uniqueId tbl + word_of_nat i))) [1..<Suc k],
           tbl\<lparr>uniqueId := uniqueId tbl + word_of_nat k\<rparr>)"
proof (induction k arbitrary: tbl)
  case (Suc k)
  have "[1..<Suc (Suc k)] = 1 # map Suc [1..<Suc k]"
    by (subst upt_conv_Cons) (simp_all add: map_Suc_upt del: upt_Suc)
  then show ?case
    by (simp add: GenerateUniqueName_def U32ToString_digs Suc Let_def add.assoc del: upt_Suc)
qed simp

subsection \<open>Properties\<close>

text \<open>
  C1. Whatever sequence of operations the router performs on a fresh name table, each of them
  returns, and a listener that was registered at the start knows from the
  \<open>NameOwnerChanged\<close> calls alone who owns every name: replaying them gives the owner
  that \<open>FindEndpoint\<close> finds.
\<close>

theorem name_owner_events_complete:
  assumes "list_all (admissible st l) ops"
  shows "\<exists>tbl. run_steps (apply_op st) (AddListener l new_NameTable) ops = Some tbl \<and>
     owner st tbl = foldl (heard l) Map.empty (calls tbl)"
  using name_table.run_inv [OF table_ok_new assms] owner_eq table_okD(2)
  by (fastforce simp: table_ok_def tracked_def)

definition demo_store :: store where
  "demo_store h =
     \<lparr>GetUniqueName = (if h = 1 then '':r.1'' else if h = 2 then '':r.2'' else if h = 3 then '':r.3'' else '':s.1''),
      GetEndpointType = (if h > 3 then ENDPOINT_TYPE_VIRTUAL else ENDPOINT_TYPE_REMOTE),
      isValid = True, b2bTransfers = []\<rparr>"

theorem name_owner_events_complete_witness:
  "\<exists>tbl. run_steps (apply_op demo_store) (AddListener 7 new_NameTable)
       [Unique 1, Unique 2, SetVirtual ''a.b'' (Some 4) 4, Request ''a.b'' '':r.1'' 0 None,
        Request ''a.b'' '':r.2'' 0 None, DropUnique '':r.1''] = Some tbl \<and>
     owner demo_store tbl = foldl (heard 7) Map.empty (calls tbl)"
  by (rule name_owner_events_complete) (simp add: demo_store_def)

text \<open>
  C23. In every table that admissible operations make of a fresh one, \<open>RemoveUniqueName\<close>
  returns and leaves the unique name without an owner. If the name was registered and its
  endpoint was not queued twice for the same alias, it is left in no queue either. (When it was
  queued twice, an entry can remain, see below.)
\<close>

theorem remove_unique_name_clean:
  assumes "list_all (admissible st l) ops" and "peek n = CHR '':''"
  shows "\<exists>tbl tbl'. run_steps (apply_op st) (AddListener l new_NameTable) ops = Some tbl \<and>
     RemoveUniqueName st n tbl = Some tbl' \<and> owner st tbl' n = None \<and>
     (map_of (uniqueNames tbl) n \<noteq> None \<and> queued_once n tbl \<longrightarrow> (\<forall>a. n \<notin> set (GetQueuedNames tbl' a)))"
proof -
  obtain tbl where r: "run_steps (apply_op st) (AddListener l new_NameTable) ops = Some tbl" "table_ok st l tbl"
    using name_table.run_inv [OF table_ok_new assms(1)] by blast
  obtain tbl' where t: "RemoveUniqueName st n tbl = Some tbl'" "table_ok st l tbl'" "map_of (uniqueNames tbl') n = None"
    "map_of (uniqueNames tbl) n \<noteq> None \<and> queued_once n tbl \<longrightarrow>
       (\<forall>a q. map_of (aliasNames tbl') a = Some q \<longrightarrow> times_queued n q = 0)"
    using RemoveUniqueName_ok [OF r(2), of n] by blast
  have "owner st tbl' n = None"
    using t(3) assms(2) owner_eq [OF table_okD(2) [OF t(2)]] by (simp add: owner_cf_def)
  moreover have "n \<notin> set (GetQueuedNames tbl' a)" if "map_of (uniqueNames tbl) n \<noteq> None \<and> queued_once n tbl" for a
    using t(4) that
    by (cases "map_of (aliasNames tbl') a") (auto simp: GetQueuedNames_def times_queued_def filter_empty_conv)
  ultimately show ?thesis using r(1) t(1) by blast
qed

lemma queued_once_list:
  "list_all (\<lambda>(a, q). times_queued n q \<le> 1) (aliasNames tbl) \<Longrightarrow> queued_once n tbl"
  by (auto simp: queued_once_def list_all_iff dest!: map_of_SomeD)

lemma queue_of_two:
  "case run_steps (apply_op demo_store) (AddListener 7 new_NameTable)
       [Unique 1, Unique 2, Request ''a.b'' '':r.1'' 0 None, Request ''a.b'' '':r.2'' 0 None] of
     None \<Rightarrow> False
   | Some tbl \<Rightarrow> map_of (uniqueNames tbl) '':r.1'' \<noteq> None \<and>
       list_all (\<lambda>(a, q). times_queued '':r.1'' q \<le> 1) (aliasNames tbl) \<and>
       GetQueuedNames tbl ''a.b'' = ['':r.1'', '':r.2'']"
  unfolding times_queued_def by code_simp

theorem remove_unique_name_clean_witness:
  "\<exists>tbl tbl'. run_steps (apply_op demo_store) (AddListener 7 new_NameTable)
       [Unique 1, Unique 2, Request ''a.b'' '':r.1'' 0 None, Request ''a.b'' '':r.2'' 0 None] = Some tbl \<and>
     GetQueuedNames tbl ''a.b'' = ['':r.1'', '':r.2''] \<and>
     RemoveUniqueName demo_store '':r.1'' tbl = Some tbl' \<and> owner demo_store tbl' '':r.1'' = None \<and>
     (\<forall>a. '':r.1'' \<notin> set (GetQueuedNames tbl' a))"
proof -
  have adm: "list_all (admissible demo_store 7)
      [Unique 1, Unique 2, Request ''a.b'' '':r.1'' 0 None, Request ''a.b'' '':r.2'' 0 None]"
    and colon: "peek '':r.1'' = CHR '':''"
    by (simp_all add: demo_store_def)
  from remove_unique_name_clean [OF adm colon]
  obtain tbl tbl' where t: "run_steps (apply_op demo_store) (AddListener 7 new_NameTable)
       [Unique 1, Unique 2, Request ''a.b'' '':r.1'' 0 None, Request ''a.b'' '':r.2'' 0 None] = Some tbl"
    and t': "RemoveUniqueName demo_store '':r.1'' tbl = Some tbl'" "owner demo_store tbl' '':r.1'' = None"
    "map_of (uniqueNames tbl) '':r.1'' \<noteq> None \<and> queued_once '':r.1'' tbl \<longrightarrow>
       (\<forall>a. '':r.1'' \<notin> set (GetQueuedNames tbl' a))"
    by (elim exE conjE)
  have "map_of (uniqueNames tbl) '':r.1'' \<noteq> None" "queued_once '':r.1'' tbl"
    "GetQueuedNames tbl ''a.b'' = ['':r.1'', '':r.2'']"
    using queue_of_two unfolding t option.case by (blast intro: queued_once_list)+
  with t t' show ?thesis by blast
qed

text \<open>
  An endpoint that asks for an alias twice is queued twice, and its disconnection removes
  one entry only. When the owner then releases the alias, the stale entry makes
  \<open>RemoveAlias\<close> drop the whole queue: the next endpoint in line, connected and
  waiting, does not get the name and nobody owns it.
\<close>

theorem stale_queue_entry_loses_name:
  "(case run_steps (apply_op demo_store) new_NameTable
      [Unique 1, Unique 2, Unique 3, Request ''a.b'' '':r.1'' 0 None, Request ''a.b'' '':r.2'' 0 None,
       Request ''a.b'' '':r.2'' 0 None, Request ''a.b'' '':r.3'' 0 None, DropUnique '':r.2''] of
      None \<Rightarrow> False
    | Some tbl \<Rightarrow>
        GetQueuedNames tbl ''a.b'' = ['':r.1'', '':r.2'', '':r.3''] \<and>
        (case RemoveAlias demo_store ''a.b'' '':r.1'' None tbl of
           None \<Rightarrow> False
         | Some (d, tbl') \<Rightarrow>
             d = DBUS_RELEASE_NAME_REPLY_RELEASED \<and> GetQueuedNames tbl' ''a.b'' = [] \<and>
             owner demo_store tbl' ''a.b'' = None))"
  by code_simp

text \<open>
  Starting from a fresh table with a GUID, the first \<open>2 ^ 32 - 1\<close> generated unique
  names are pairwise different, and \<open>IsValidLocalUniqueName\<close> recognises each of them. It
  does so although no endpoint is connected at all: the comment in \<^verbatim>\<open>NameTable.h\<close> says
  that it is true of the names of locally connected endpoints, but it only looks at the prefix
  and the number.
\<close>

theorem generated_names_distinct_valid:
  assumes "k < 2 ^ 32"
  shows "\<exists>names tbl. generate_names k (SetGUID guid new_NameTable) = Some (names, tbl) \<and>
     length names = k \<and> distinct names \<and> list_all (IsValidLocalUniqueName tbl) names \<and>
     uniqueNames tbl = []"
proof -
  let ?start = "SetGUID guid new_NameTable"
  let ?name = "\<lambda>i. guid_prefix guid @ digs 10 (unat (word_of_nat i :: u32))"
  let ?t = "?start\<lparr>uniqueId := word_of_nat k\<rparr>"
  have nz: "(word_of_nat i :: u32) \<noteq> 0 \<and> unat (word_of_nat i :: u32) = i" if "i \<in> {1..<Suc k}" for i
    using that assms by (auto simp: unat_of_nat word_of_nat_eq_0_iff dest: nat_dvd_not_less)
  have t0: "uniqueId ?start = 0" "uniquePrefix ?start = guid_prefix guid"
    by (simp_all add: SetGUID_def new_NameTable_def guid_prefix_def)
  have gen: "generate_names k ?start = Some (map ?name [1..<Suc k], ?t)"
    by (simp only: generate_names_digs t0 add_0)
  have "inj_on ?name {1..<Suc k}"
  proof (rule inj_onI)
    fix i j assume ij: "i \<in> {1..<Suc k}" "j \<in> {1..<Suc k}" "?name i = ?name j"
    then have "(word_of_nat i :: u32) = word_of_nat j"
      using StringToU32_digs [of "word_of_nat i"] StringToU32_digs [of "word_of_nat j"] nz by (metis same_append_eq)
    then show "i = j" using nz ij by metis
  qed
  then have "distinct (map ?name [1..<Suc k])" by (simp add: distinct_map del: upt_Suc)
  moreover have "list_all (IsValidLocalUniqueName ?t) (map ?name [1..<Suc k])"
  proof -
    have "IsValidLocalUniqueName ?t (?name i)" if "i \<in> {1..<Suc k}" for i
    proof (rule generated_name_valid)
      show "uniquePrefix ?t = guid_prefix guid" by (simp add: SetGUID_def guid_prefix_def)
      show "(word_of_nat i :: u32) \<noteq> 0" using nz [OF that] by blast
      have "unat (word_of_nat k :: u32) = k" using assms by (simp add: unat_of_nat)
      with nz [OF that] that show "(word_of_nat i :: u32) \<le> uniqueId ?t" by (simp add: word_le_nat_alt)
    qed
    then show ?thesis by (auto simp: list_all_iff simp del: upt_Suc)
  qed
  moreover have "uniqueNames ?t = []" by (simp add: SetGUID_def new_NameTable_def)
  ultimately show ?thesis
    using gen by (intro exI [of _ "map ?name [1..<Suc k]"] exI [of _ ?t]) (simp del: upt_Suc)
qed

theorem generated_names_distinct_valid_witness:
  "\<exists>names tbl. generate_names 1000 (SetGUID (replicate 16 7) new_NameTable) = Some (names, tbl) \<and>
     length names = 1000 \<and> distinct names \<and> list_all (IsValidLocalUniqueName tbl) names \<and> uniqueNames tbl = []"
  by (rule generated_names_distinct_valid) simp

end
