(* ===== verification/Match_Rules.thy ===== *)
theory Match_Rules
  imports Name_Table
begin

text \<open>
  Match rules, \<^verbatim>\<open>alljoyn_core/src/Rule.cc\<close> and \<^verbatim>\<open>Rule.h\<close>, the table that keeps
  them per endpoint, \<^verbatim>\<open>alljoyn_core/router/RuleTable.cc\<close>, and the loop of
  \<^verbatim>\<open>DaemonRouter::PushMessage\<close> that sends a broadcast message to the endpoints whose
  rules match it.
\<close>

subsection \<open>Rules\<close>

datatype AllJoynMessageType =
    MESSAGE_INVALID | MESSAGE_METHOD_CALL | MESSAGE_METHOD_RET | MESSAGE_ERROR | MESSAGE_SIGNAL

datatype sessionless_filter = SESSIONLESS_NOT_SPECIFIED | SESSIONLESS_FALSE | SESSIONLESS_TRUE

record Rule =
  type :: AllJoynMessageType
  sender :: string
  iface :: string
  member :: string
  path :: string
  destination :: string
  sessionless :: sessionless_filter
  implements :: "string list"
  args :: "(nat \<times> string) list"

definition empty_Rule :: Rule where
  "empty_Rule =
     \<lparr>type = MESSAGE_INVALID, sender = [], iface = [], member = [], path = [], destination = [],
      sessionless = SESSIONLESS_NOT_SPECIFIED, implements = [], args = []\<rparr>"

text \<open>The comparison leaves \<^verbatim>\<open>sessionless\<close> out.\<close>

definition Rule_eq :: "Rule \<Rightarrow> Rule \<Rightarrow> bool" where
  "Rule_eq r o' \<longleftrightarrow>
     type r = type o' \<and> sender r = sender o' \<and> iface r = iface o' \<and> member r = member o' \<and>
     path r = path o' \<and> destination r = destination o' \<and> implements r = implements o' \<and> args r = args o'"

text \<open>Two strings agree in their first \<open>n\<close> characters, \<^verbatim>\<open>strncmp(a, b, n) == 0\<close>.\<close>

fun strncmp_eq :: "nat \<Rightarrow> string \<Rightarrow> string \<Rightarrow> bool" where
  "strncmp_eq 0 a b = True"
| "strncmp_eq (Suc n) a b \<longleftrightarrow> peek a = peek b \<and> (peek a = NUL \<or> strncmp_eq n (tl a) (tl b))"

text \<open>\<^verbatim>\<open>qcc::String(str, strLen)\<close>: a length of 0 means the whole of a C string.\<close>

definition String_of :: "string \<Rightarrow> nat \<Rightarrow> string" where
  "String_of s n = (if n = 0 then s else take n s)"

definition set_put :: "'a :: linorder \<Rightarrow> 'a list \<Rightarrow> 'a list" where
  "set_put x xs = (if x \<in> set xs then xs else insort x xs)"

text \<open>
  One key of the specification. \<open>pos\<close> is the text from the key on, \<open>eq\<close> the offset of
  its equals sign, \<open>beg\<close> the text after the opening quote and \<open>n\<close> the number of
  characters to the closing one.
\<close>

definition rule_key :: "string \<Rightarrow> nat \<Rightarrow> string \<Rightarrow> nat \<Rightarrow> Rule \<Rightarrow> Rule option" where
  "rule_key pos eq beg n r =
     (if strncmp_eq 4 ''type'' pos then
        (if strncmp_eq n ''signal'' beg then Some (r\<lparr>type := MESSAGE_SIGNAL\<rparr>)
         else if strncmp_eq n ''method_call'' beg then Some (r\<lparr>type := MESSAGE_METHOD_CALL\<rparr>)
         else if strncmp_eq n ''method_return'' beg then Some (r\<lparr>type := MESSAGE_METHOD_RET\<rparr>)
         else if strncmp_eq n ''error'' beg then Some (r\<lparr>type := MESSAGE_ERROR\<rparr>)
         else None)
      else if strncmp_eq 6 ''sender'' pos then Some (r\<lparr>sender := String_of beg n\<rparr>)
      else if strncmp_eq 9 ''interface'' pos then Some (r\<lparr>iface := String_of beg n\<rparr>)
      else if strncmp_eq 6 ''member'' pos then Some (r\<lparr>member := String_of beg n\<rparr>)
      else if strncmp_eq 4 ''path'' pos then Some (r\<lparr>path := String_of beg n\<rparr>)
      else if strncmp_eq 11 ''destination'' pos then Some (r\<lparr>destination := String_of beg n\<rparr>)
      else if strncmp_eq 11 ''sessionless'' pos then
        Some (r\<lparr>sessionless :=
          (if peek beg = CHR ''t'' \<or> peek beg = CHR ''T'' then SESSIONLESS_TRUE else SESSIONLESS_FALSE)\<rparr>)
      else if strncmp_eq 3 ''arg'' pos then
        (let argIndex = StringToU32 (String_of (drop 3 pos) (eq - 3)) 10 64 in
         if argIndex < 64
         then Some (r\<lparr>args := map_put (unat argIndex) (if n > 0 then String_of beg n else []) (args r)\<rparr>)
         else None)
      else if strncmp_eq 10 ''implements'' pos then
        Some (r\<lparr>implements := set_put (String_of beg n) (implements r)\<rparr>)
      else None)"

text \<open>The positions in one round of the loop, or \<open>None\<close> where the code reports an error.\<close>

definition rule_item :: "string \<Rightarrow> (nat \<times> string \<times> nat \<times> string) option" where
  "rule_item pos =
     (let endPos = (case index_of (CHR '','') pos of Some i \<Rightarrow> i | None \<Rightarrow> length pos) in
      case index_of (CHR ''='') pos of
        None \<Rightarrow> None
      | Some eq \<Rightarrow>
          if eq \<ge> endPos then None
          else (case index_of (CHR 0x27) (drop (eq + 1) pos) of
                  None \<Rightarrow> None
                | Some q \<Rightarrow>
                    (let beg = drop (eq + 1 + q + 1) pos in
                     if beg = [] then None
                     else (case index_of (CHR 0x27) beg of
                             None \<Rightarrow> None
                           | Some n \<Rightarrow> Some (eq, beg, n, drop (endPos + 1) pos)))))"

lemma rule_item_rest: "rule_item pos = Some (eq, beg, n, rest) \<Longrightarrow> length rest < length pos"
  by (cases pos) (auto simp: rule_item_def Let_def split: option.splits if_splits dest: index_of_less)

function parse_rule_loop :: "string \<Rightarrow> Rule \<Rightarrow> QStatus \<times> Rule" where
  "parse_rule_loop pos r =
     (if pos = [] then (ER_OK, r)
      else (case rule_item pos of
              None \<Rightarrow> (ER_FAIL, r)
            | Some (eq, beg, n, rest) \<Rightarrow>
                (case rule_key pos eq beg n r of
                   None \<Rightarrow> (ER_FAIL, r)
                 | Some r' \<Rightarrow> parse_rule_loop rest r')))"
  by pat_completeness auto
termination
  by (relation "measure (\<lambda>(pos, r). length pos)") (auto dest: rule_item_rest)

declare parse_rule_loop.simps [simp del]

definition parse_Rule :: "string \<Rightarrow> QStatus \<times> Rule" where
  "parse_Rule ruleSpec = parse_rule_loop ruleSpec empty_Rule"

subsection \<open>Printing\<close>

fun typeStr :: "AllJoynMessageType \<Rightarrow> string" where
  "typeStr MESSAGE_INVALID = []"
| "typeStr MESSAGE_METHOD_CALL = ''method_call''"
| "typeStr MESSAGE_METHOD_RET = ''method_return''"
| "typeStr MESSAGE_ERROR = ''error''"
| "typeStr MESSAGE_SIGNAL = ''signal''"

definition add_item :: "string \<Rightarrow> string \<Rightarrow> string \<Rightarrow> string" where
  "add_item key val rule =
     (if rule = [] then [] else rule @ '','') @ key @ ''='' @ [CHR 0x27] @ val @ [CHR 0x27]"

fun add_args :: "(nat \<times> string) list \<Rightarrow> string \<Rightarrow> string option" where
  "add_args [] rule = Some rule"
| "add_args ((i, v) # as) rule = do {
     s \<leftarrow> U32ToString (word_of_nat i) 10 1 (CHR '' '');
     add_args as (add_item (''arg'' @ s) v rule) }"

definition Rule_ToString :: "Rule \<Rightarrow> string option" where
  "Rule_ToString r = do {
     let s0 = (if type r \<noteq> MESSAGE_INVALID then add_item ''type'' (typeStr (type r)) [] else []);
     let s1 = (if sender r \<noteq> [] then add_item ''sender'' (sender r) s0 else s0);
     let s2 = (if iface r \<noteq> [] then add_item ''interface'' (iface r) s1 else s1);
     let s3 = (if member r \<noteq> [] then add_item ''member'' (member r) s2 else s2);
     let s4 = (if path r \<noteq> [] then add_item ''path'' (path r) s3 else s3);
     let s5 = (if destination r \<noteq> [] then add_item ''destination'' (destination r) s4 else s4);
     s6 \<leftarrow> add_args (args r) s5;
     let s7 = fold (add_item ''implements'') (implements r) s6;
     Some (if sessionless r \<noteq> SESSIONLESS_NOT_SPECIFIED then add_item ''sessionless'' ''t'' s7 else s7) }"

subsection \<open>Matching\<close>

text \<open>
  What the matcher asks of a message. Unmarshalling the arguments gives a list of them, of
  which only the strings matter, or fails; for an announcement the third argument lists
  the objects with their interfaces.
\<close>

datatype arg = StringArg string | UInt32Arg u32 | OtherArg

record message =
  GetType :: AllJoynMessageType
  GetSender :: string
  GetInterface :: string
  GetMemberName :: string
  GetObjectPath :: string
  GetDestination :: string
  GetSessionId :: u32
  GetFlags :: byte
  unmarshalled :: "arg list option"
  announced :: "(string \<times> string list) list option"

definition ALLJOYN_FLAG_SESSIONLESS :: byte where "ALLJOYN_FLAG_SESSIONLESS = 0x10"

definition IsSessionless :: "message \<Rightarrow> bool" where
  "IsSessionless msg \<longleftrightarrow> GetFlags msg AND ALLJOYN_FLAG_SESSIONLESS \<noteq> 0"

definition arg_matches :: "arg list \<Rightarrow> nat \<times> string \<Rightarrow> bool" where
  "arg_matches as iv \<longleftrightarrow>
     (case iv of (i, v) \<Rightarrow> i < length as \<and> (case as ! i of StringArg s \<Rightarrow> s = v | _ \<Rightarrow> False))"

definition IsMatch :: "Rule \<Rightarrow> message \<Rightarrow> bool" where
  "IsMatch r msg \<longleftrightarrow>
     (if type r \<noteq> MESSAGE_INVALID \<and> type r \<noteq> GetType msg then False
      else if sender r \<noteq> [] \<and> sender r \<noteq> GetSender msg then False
      else if iface r \<noteq> [] \<and> iface r \<noteq> GetInterface msg then False
      else if member r \<noteq> [] \<and> member r \<noteq> GetMemberName msg then False
      else if path r \<noteq> [] \<and> path r \<noteq> GetObjectPath msg then False
      else if destination r \<noteq> [] \<and> destination r \<noteq> GetDestination msg then False
      else if args r \<noteq> [] \<and>
              (case unmarshalled msg of None \<Rightarrow> True | Some as \<Rightarrow> \<not> list_all (arg_matches as) (args r)) then False
      else if implements r \<noteq> [] \<and>
              (GetInterface msg \<noteq> ''org.alljoyn.About'' \<or> GetMemberName msg \<noteq> ''Announce'' \<or>
               (case announced msg of
                  None \<Rightarrow> True
                | Some objs \<Rightarrow>
                    length (filter (\<lambda>im. \<exists>i \<in> set (concat (map snd objs)). \<not> WildcardMatch i im) (implements r))
                      \<noteq> length (implements r))) then False
      else \<not> (sessionless r = SESSIONLESS_TRUE \<and> \<not> IsSessionless msg \<or>
              sessionless r = SESSIONLESS_FALSE \<and> IsSessionless msg))"

subsection \<open>The table\<close>

text \<open>A multimap ordered by endpoint; a new rule goes behind the endpoint's others.\<close>

type_synonym RuleTable = "(ep \<times> Rule) list"

fun AddRule :: "ep \<Rightarrow> Rule \<Rightarrow> RuleTable \<Rightarrow> RuleTable" where
  "AddRule e r [] = [(e, r)]"
| "AddRule e r ((e', r') # rs) = (if e < e' then (e, r) # (e', r') # rs else (e', r') # AddRule e r rs)"

text \<open>
  Iterators are positions: the rules of an endpoint lie from the first element that is not
  below it to the first one above it. The loop over them ends at the second iterator, which
  is never before the first.
\<close>

definition equal_range :: "ep \<Rightarrow> RuleTable \<Rightarrow> nat \<times> nat" where
  "equal_range e rs = (length (takeWhile (\<lambda>x. fst x < e) rs), length (takeWhile (\<lambda>x. fst x \<le> e) rs))"

definition erase_range :: "nat \<Rightarrow> nat \<Rightarrow> RuleTable \<Rightarrow> RuleTable" where
  "erase_range lo hi rs = take lo rs @ drop hi rs"

function remove_rule_loop :: "Rule \<Rightarrow> nat \<Rightarrow> nat \<Rightarrow> RuleTable \<Rightarrow> QStatus \<times> RuleTable" where
  "remove_rule_loop r lo hi rs =
     (if lo < hi
      then (if Rule_eq (snd (rs ! lo)) r then (ER_OK, erase_range lo (lo + 1) rs)
            else remove_rule_loop r (lo + 1) hi rs)
      else (ER_BUS_MATCH_RULE_NOT_FOUND, rs))"
  by pat_completeness auto
termination
  by (relation "measure (\<lambda>(r, lo, hi, rs). hi - lo)") auto

declare remove_rule_loop.simps [simp del]

definition RemoveRule :: "ep \<Rightarrow> Rule \<Rightarrow> RuleTable \<Rightarrow> QStatus \<times> RuleTable" where
  "RemoveRule e r rs = (case equal_range e rs of (lo, hi) \<Rightarrow> remove_rule_loop r lo hi rs)"

definition RemoveAllRules :: "ep \<Rightarrow> RuleTable \<Rightarrow> RuleTable" where
  "RemoveAllRules e rs =
     (case equal_range e rs of (lo, hi) \<Rightarrow> if lo \<noteq> length rs then erase_range lo hi rs else rs)"

text \<open>\<open>allowed\<close> is the test on the destination before the message is sent there.\<close>

function broadcast :: "(ep \<Rightarrow> bool) \<Rightarrow> message \<Rightarrow> RuleTable \<Rightarrow> ep list" where
  "broadcast allowed msg [] = []"
| "broadcast allowed msg ((dest, r) # rs) =
     (if IsMatch r msg
      then (if allowed dest then [dest] else []) @ broadcast allowed msg (dropWhile (\<lambda>x. fst x \<le> dest) rs)
      else broadcast allowed msg rs)"
  by pat_completeness auto
termination
proof (relation "measure (\<lambda>(a, m, rs). length rs)", goal_cases)
  case (2 allowed msg dest r rs)
  then show ?case by (simp add: length_dropWhile_le less_Suc_eq_le)
qed simp_all

subsection \<open>A rule as the list of its items\<close>

datatype ritem =
    IType AllJoynMessageType | ISender string | IIface string | IMember string | IPath string
  | IDest string | IArg nat string | IImpl string | ISess

fun item_key :: "ritem \<Rightarrow> string" where
  "item_key (IType t) = ''type''"
| "item_key (ISender v) = ''sender''"
| "item_key (IIface v) = ''interface''"
| "item_key (IMember v) = ''member''"
| "item_key (IPath v) = ''path''"
| "item_key (IDest v) = ''destination''"
| "item_key (IArg i v) = ''arg'' @ digs 10 i"
| "item_key (IImpl v) = ''implements''"
| "item_key ISess = ''sessionless''"

fun item_val :: "ritem \<Rightarrow> string" where
  "item_val (IType t) = typeStr t"
| "item_val (ISender v) = v"
| "item_val (IIface v) = v"
| "item_val (IMember v) = v"
| "item_val (IPath v) = v"
| "item_val (IDest v) = v"
| "item_val (IArg i v) = v"
| "item_val (IImpl v) = v"
| "item_val ISess = ''t''"

fun item_apply :: "ritem \<Rightarrow> Rule \<Rightarrow> Rule" where
  "item_apply (IType t) r = r\<lparr>type := t\<rparr>"
| "item_apply (ISender v) r = r\<lparr>sender := v\<rparr>"
| "item_apply (IIface v) r = r\<lparr>iface := v\<rparr>"
| "item_apply (IMember v) r = r\<lparr>member := v\<rparr>"
| "item_apply (IPath v) r = r\<lparr>path := v\<rparr>"
| "item_apply (IDest v) r = r\<lparr>destination := v\<rparr>"
| "item_apply (IArg i v) r = r\<lparr>args := map_put i v (args r)\<rparr>"
| "item_apply (IImpl v) r = r\<lparr>implements := set_put v (implements r)\<rparr>"
| "item_apply ISess r = r\<lparr>sessionless := SESSIONLESS_TRUE\<rparr>"

definition clean :: "string \<Rightarrow> bool" where
  "clean s \<longleftrightarrow> CHR '','' \<notin> set s \<and> CHR 0x27 \<notin> set s"

fun item_ok :: "ritem \<Rightarrow> bool" where
  "item_ok (IType t) \<longleftrightarrow> t \<noteq> MESSAGE_INVALID"
| "item_ok (IArg i v) \<longleftrightarrow> i < 64 \<and> clean v"
| "item_ok ISess \<longleftrightarrow> True"
| "item_ok it \<longleftrightarrow> item_val it \<noteq> [] \<and> clean (item_val it)"

definition item_text :: "ritem \<Rightarrow> string" where
  "item_text it = item_key it @ ''='' @ [CHR 0x27] @ item_val it @ [CHR 0x27]"

fun join :: "ritem list \<Rightarrow> string" where
  "join [] = []"
| "join [it] = item_text it"
| "join (it # it' # its) = item_text it @ '','' @ join (it' # its)"

lemma digs10_special: "c \<in> {CHR '','', CHR ''='', CHR 0x27} \<Longrightarrow> c \<notin> set (digs 10 n)"
  using good_digits_digs [of 10 c n] by (auto simp: good_digit_def CharToU8_def char_code_literals chars)

lemma item_key_clean:
  "c \<in> {CHR '','', CHR ''='', CHR 0x27} \<Longrightarrow> c \<notin> set (item_key it)"
  by (cases it) (auto simp: digs10_special)

lemma item_val_clean: "item_ok it \<Longrightarrow> clean (item_val it)"
proof (cases it)
  case (IType t)
  then show ?thesis by (cases t) (simp_all add: clean_def)
qed (auto simp: clean_def)

lemma index_of_app: "c \<notin> set xs \<Longrightarrow> index_of c (xs @ ys) = map_option (\<lambda>i. length xs + i) (index_of c ys)"
  by (induction xs; cases "index_of c ys") auto

lemma rule_item_text:
  assumes ok: "item_ok it" and t: "t = [] \<or> t = CHR '','' # t'"
  shows "rule_item (item_text it @ t) =
     Some (length (item_key it), item_val it @ CHR 0x27 # t, length (item_val it), if t = [] then [] else t')"
proof -
  have v: "CHR '','' \<notin> set (item_val it)" "CHR 0x27 \<notin> set (item_val it)"
    using item_val_clean [OF ok] by (auto simp: clean_def)
  have "index_of (CHR '','') (item_text it @ t) = map_option (\<lambda>i. length (item_text it) + i) (index_of (CHR '','') t)"
    using v item_key_clean [of "CHR '',''" it] by (intro index_of_app) (simp add: item_text_def)
  moreover have "index_of (CHR ''='') (item_text it @ t) = Some (length (item_key it))"
    using item_key_clean [of "CHR ''=''" it] by (simp add: item_text_def index_of_app)
  moreover have "index_of (CHR 0x27) (item_val it @ CHR 0x27 # t) = Some (length (item_val it))"
    using v by (simp add: index_of_app)
  ultimately show ?thesis
    using t by (auto simp: rule_item_def item_text_def Let_def numeral_eq_Suc)
qed

lemma StringToU32_digs10:
  assumes "i < 64"
  shows "StringToU32 (digs 10 i) 10 64 = word_of_nat i"
  using good_digits_digs [of 10 _ i] foldl_digs [of 10 i]
  by (simp add: StringToU32_def string_to_u32_loop_good)

lemma strncmp_eq_numeral:
  "strncmp_eq (numeral n) a b \<longleftrightarrow>
     peek a = peek b \<and> (peek a = NUL \<or> strncmp_eq (pred_numeral n) (tl a) (tl b))"
  by (simp add: numeral_eq_Suc)

lemma strncmp_eq_self: "strncmp_eq (length v) v (v @ t)"
  by (induction v) auto

lemma rule_key_text:
  assumes ok: "item_ok it"
  shows "rule_key (item_text it @ t) (length (item_key it)) (item_val it @ CHR 0x27 # t) (length (item_val it)) r =
     Some (item_apply it r)"
proof (cases it)
  case (IType ty)
  with ok show ?thesis
    by (cases ty) (simp_all add: rule_key_def item_text_def strncmp_eq_numeral NUL_def)
next
  case (IArg i v)
  have "word_of_nat i < (64 :: u32)" "unat (word_of_nat i :: u32) = i"
    using IArg ok by (simp_all add: word_less_nat_alt unat_of_nat)
  with IArg ok digs_not_Nil [of 10 i] show ?thesis
    by (simp add: rule_key_def item_text_def strncmp_eq_numeral NUL_def String_of_def StringToU32_digs10 Let_def)
qed (use ok in \<open>simp_all add: rule_key_def item_text_def strncmp_eq_numeral NUL_def String_of_def\<close>)

lemma item_text_not_Nil [simp]: "item_text it \<noteq> []"
  by (simp add: item_text_def)

lemma parse_join: "list_all item_ok its \<Longrightarrow> parse_rule_loop (join its) r = (ER_OK, fold item_apply its r)"
proof (induction its arbitrary: r rule: join.induct)
  case 1
  then show ?case by (simp add: parse_rule_loop.simps)
next
  case (2 it)
  with rule_item_text [of it "[]"] rule_key_text [of it "[]"] show ?case
    by (subst parse_rule_loop.simps) (simp add: parse_rule_loop.simps [of "[]"])
next
  case (3 it it' its)
  with rule_item_text [of it "CHR '','' # join (it' # its)"] rule_key_text [of it "CHR '','' # join (it' # its)"]
  show ?case by (subst parse_rule_loop.simps) simp
qed

text \<open>The items of a rule, in the order in which they are printed.\<close>

definition rule_items :: "Rule \<Rightarrow> ritem list" where
  "rule_items r =
     (if type r \<noteq> MESSAGE_INVALID then [IType (type r)] else []) @
     (if sender r \<noteq> [] then [ISender (sender r)] else []) @
     (if iface r \<noteq> [] then [IIface (iface r)] else []) @
     (if member r \<noteq> [] then [IMember (member r)] else []) @
     (if path r \<noteq> [] then [IPath (path r)] else []) @
     (if destination r \<noteq> [] then [IDest (destination r)] else []) @
     map (\<lambda>(i, v). IArg i v) (args r) @ map IImpl (implements r) @
     (if sessionless r \<noteq> SESSIONLESS_NOT_SPECIFIED then [ISess] else [])"

definition wf_Rule :: "Rule \<Rightarrow> bool" where
  "wf_Rule r \<longleftrightarrow>
     clean (sender r) \<and> clean (iface r) \<and> clean (member r) \<and> clean (path r) \<and> clean (destination r) \<and>
     list_all (\<lambda>(i, v). i < 64 \<and> clean v) (args r) \<and> sorted_wrt (<) (map fst (args r)) \<and>
     list_all (\<lambda>v. v \<noteq> [] \<and> clean v) (implements r) \<and> sorted_wrt (<) (implements r)"

lemma rule_items_ok: "wf_Rule r \<Longrightarrow> list_all item_ok (rule_items r)"
  by (auto simp: wf_Rule_def rule_items_def list_all_iff)

definition add_ritem :: "ritem \<Rightarrow> string \<Rightarrow> string" where
  "add_ritem it = add_item (item_key it) (item_val it)"

lemma fold_add_ritem:
  "fold add_ritem its s = (if its = [] then s else if s = [] then join its else s @ '','' @ join its)"
proof (induction its arbitrary: s)
  case (Cons it its)
  have "add_ritem it s = (if s = [] then item_text it else s @ '','' @ item_text it)"
    by (simp add: add_ritem_def add_item_def item_text_def)
  with Cons show ?case by (cases its) simp_all
qed simp

lemma add_args_items:
  "list_all (\<lambda>(i, v). i < 64 \<and> clean v) as \<Longrightarrow> add_args as s = Some (fold add_ritem (map (\<lambda>(i, v). IArg i v) as) s)"
proof (induction "as" arbitrary: s)
  case (Cons a "as")
  obtain i v where a: "a = (i, v)" by force
  with Cons.prems have "unat (word_of_nat i :: u32) = i" by (simp add: unat_of_nat)
  with Cons a show ?case by (simp add: U32ToString_def digits_loop_digs add_ritem_def)
qed simp

lemma ToString_items: "wf_Rule r \<Longrightarrow> Rule_ToString r = Some (join (rule_items r))"
proof -
  assume wf: "wf_Rule r"
  have impl: "fold (add_item ''implements'') vs s = fold add_ritem (map IImpl vs) s" for vs s
    by (induction vs arbitrary: s) (simp_all add: add_ritem_def)
  have "join (rule_items r) = fold add_ritem (rule_items r) []"
    by (simp add: fold_add_ritem)
  then show ?thesis
    using wf add_args_items
    by (simp add: Rule_ToString_def rule_items_def Let_def wf_Rule_def impl add_ritem_def)
qed

lemma map_put_last: "\<forall>x \<in> set xs. fst x < k \<Longrightarrow> map_put k v xs = xs @ [(k, v)]"
  by (induction xs) (auto simp: not_less_iff_gr_or_eq)

lemma fold_map_put:
  "sorted_wrt (<) (map fst (xs @ ys)) \<Longrightarrow> fold (\<lambda>(k, v). map_put k v) ys xs = xs @ ys"
proof (induction ys arbitrary: xs)
  case (Cons y ys)
  obtain k v where y: "y = (k, v)" by force
  with Cons.prems have "map_put k v xs = xs @ [(k, v)]"
    by (intro map_put_last) (auto simp: sorted_wrt_append)
  with Cons y show ?case by simp
qed simp

lemma set_put_last: "\<forall>x \<in> set xs. x < k \<Longrightarrow> set_put k xs = xs @ [k]"
  by (induction xs) (auto simp: set_put_def)

lemma fold_set_put: "sorted_wrt (<) (xs @ ys) \<Longrightarrow> fold set_put ys xs = xs @ ys"
proof (induction ys arbitrary: xs)
  case (Cons y ys)
  then have "set_put y xs = xs @ [y]" by (intro set_put_last) (auto simp: sorted_wrt_append)
  with Cons show ?case by simp
qed simp

lemma fold_item_args:
  "fold item_apply (map (\<lambda>(i, v). IArg i v) as) r = r\<lparr>args := fold (\<lambda>(k, v). map_put k v) as (args r)\<rparr>"
  by (induction "as" arbitrary: r) auto

lemma fold_item_impl:
  "fold item_apply (map IImpl vs) r = r\<lparr>implements := fold set_put vs (implements r)\<rparr>"
  by (induction vs arbitrary: r) auto

lemma fold_rule_items:
  assumes "wf_Rule r"
  shows "fold item_apply (rule_items r) empty_Rule =
     r\<lparr>sessionless := (if sessionless r = SESSIONLESS_NOT_SPECIFIED then SESSIONLESS_NOT_SPECIFIED else SESSIONLESS_TRUE)\<rparr>"
  using assms fold_map_put [of "[]" "args r"] fold_set_put [of "[]" "implements r"]
  by (cases r) (simp add: rule_items_def fold_item_args fold_item_impl empty_Rule_def wf_Rule_def)

subsection \<open>The table as a store of subscriptions\<close>

text \<open>
  What a dispatcher needs of a store of rules: the rules of each endpoint, in the order in
  which they were added; removing a rule removes the first one that compares equal.
\<close>

datatype ('e, 'r) table_op = Add 'e 'r | Remove 'e 'r | RemoveAll 'e

fun remove_first :: "('r \<Rightarrow> bool) \<Rightarrow> 'r list \<Rightarrow> 'r list" where
  "remove_first P [] = []"
| "remove_first P (r # rs) = (if P r then rs else r # remove_first P rs)"

fun lists_op :: "('r \<Rightarrow> 'r \<Rightarrow> bool) \<Rightarrow> ('e, 'r) table_op \<Rightarrow> ('e \<Rightarrow> 'r list) \<Rightarrow> ('e \<Rightarrow> 'r list)" where
  "lists_op eq (Add e r) f = f(e := f e @ [r])"
| "lists_op eq (Remove e r) f = f(e := remove_first (\<lambda>r'. eq r' r) (f e))"
| "lists_op eq (RemoveAll e) f = f(e := [])"

locale subscriptions =
  fixes rules_of :: "'s \<Rightarrow> 'e \<Rightarrow> 'r list"
    and eq :: "'r \<Rightarrow> 'r \<Rightarrow> bool"
    and add :: "'e \<Rightarrow> 'r \<Rightarrow> 's \<Rightarrow> 's"
    and remove :: "'e \<Rightarrow> 'r \<Rightarrow> 's \<Rightarrow> QStatus \<times> 's"
    and drop_all :: "'e \<Rightarrow> 's \<Rightarrow> 's"
  assumes rules_of_add: "rules_of (add e r s) = lists_op eq (Add e r) (rules_of s)"
    and rules_of_remove: "rules_of (snd (remove e r s)) = lists_op eq (Remove e r) (rules_of s)"
    and status_remove: "fst (remove e r s) =
          (if list_ex (\<lambda>r'. eq r' r) (rules_of s e) then ER_OK else ER_BUS_MATCH_RULE_NOT_FOUND)"
    and rules_of_drop_all: "rules_of (drop_all e s) = lists_op eq (RemoveAll e) (rules_of s)"
begin

lemma rules_of_history:
  "rules_of (fold (\<lambda>x s. case x of Add e r \<Rightarrow> add e r s | Remove e r \<Rightarrow> snd (remove e r s)
                            | RemoveAll e \<Rightarrow> drop_all e s) ops s) =
     fold (lists_op eq) ops (rules_of s)"
proof (induction ops arbitrary: s)
  case (Cons x ops)
  then show ?case by (cases x) (simp_all add: rules_of_add rules_of_remove rules_of_drop_all del: lists_op.simps)
qed simp

lemma removed_at_once: "\<not> list_ex (\<lambda>r'. eq r' r) (rules_of (drop_all e s) e)"
  by (simp add: rules_of_drop_all)

end

definition rules_of :: "RuleTable \<Rightarrow> ep \<Rightarrow> Rule list" where
  "rules_of rs e = map snd (filter (\<lambda>x. fst x = e) rs)"

lemma rules_of_Cons: "rules_of (x # rs) e = (if fst x = e then snd x # rules_of rs e else rules_of rs e)"
  by (simp add: rules_of_def)

text \<open>\<open>AddRule\<close> keeps the table ordered by endpoint.\<close>

abbreviation ordered :: "RuleTable \<Rightarrow> bool" where
  "ordered rs \<equiv> sorted (map fst rs)"

lemma rules_of_later: "\<forall>x \<in> set rs. e < fst x \<Longrightarrow> rules_of rs e = []"
  by (auto simp: rules_of_def filter_empty_conv)

lemma rules_of_AddRule: "ordered rs \<Longrightarrow> rules_of (AddRule e r rs) = lists_op eq (Add e r) (rules_of rs)"
proof (induction e r rs rule: AddRule.induct)
  case (2 e r a b rs)
  show ?case
  proof (cases "e < a")
    case True
    with "2.prems" have "rules_of ((a, b) # rs) e = []" by (intro rules_of_later) auto
    with True show ?thesis by (auto simp: rules_of_Cons fun_eq_iff)
  qed (use 2 in \<open>auto simp: rules_of_Cons fun_eq_iff\<close>)
qed (auto simp: rules_of_def fun_eq_iff)

lemma set_AddRule: "set (AddRule e r rs) = insert (e, r) (set rs)"
  by (induction e r rs rule: AddRule.induct) auto

lemma ordered_AddRule: "ordered rs \<Longrightarrow> ordered (AddRule e r rs)"
  by (induction e r rs rule: AddRule.induct) (auto simp: set_AddRule)

text \<open>An ordered table is the rules below an endpoint, its own rules, and the rules above it.\<close>

lemma ordered_split:
  assumes "ordered rs"
  obtains below own above where "rs = below @ map (Pair e) own @ above"
    and "\<forall>x \<in> set below. fst x < e" and "\<forall>x \<in> set above. e < fst x" and "own = rules_of rs e"
    and "equal_range e rs = (length below, length below + length own)"
proof -
  let ?b = "filter (\<lambda>x. fst x < e) rs" and ?o = "filter (\<lambda>x. fst x = e) rs" and ?a = "filter (\<lambda>x. e < fst x) rs"
  have rs: "rs = ?b @ ?o @ ?a"
    using assms
  proof (induction rs)
    case (Cons x rs)
    then have IH: "rs = filter (\<lambda>x. fst x < e) rs @ filter (\<lambda>x. fst x = e) rs @ filter (\<lambda>x. e < fst x) rs"
      and later: "\<forall>y \<in> set rs. fst x \<le> fst y" by simp_all
    consider "fst x < e" | "fst x = e" | "e < fst x" by linarith
    then show ?case
    proof cases
      case 1
      then show ?thesis using IH by simp
    next
      case 2
      with later have "filter (\<lambda>x. fst x < e) rs = []" by (auto simp: filter_empty_conv)
      with 2 IH show ?thesis by simp
    next
      case 3
      with later have "filter (\<lambda>x. fst x < e) rs = []" "filter (\<lambda>x. fst x = e) rs = []"
        by (fastforce simp: filter_empty_conv)+
      with 3 IH show ?thesis by simp
    qed
  qed simp
  have own: "?o = map (Pair e) (rules_of rs e)"
    by (induction rs) (auto simp: rules_of_def)
  have "takeWhile (\<lambda>x. fst x < e) rs = ?b" "takeWhile (\<lambda>x. fst x \<le> e) rs = ?b @ ?o"
  proof -
    have "takeWhile (\<lambda>x. fst x < e) (?b @ ?o @ ?a) = ?b @ takeWhile (\<lambda>x. fst x < e) (?o @ ?a)"
      by (intro takeWhile_append2) simp
    also have "takeWhile (\<lambda>x. fst x < e) (?o @ ?a) = []"
      unfolding takeWhile_eq_Nil_iff
    proof (cases "?o @ ?a")
      case (Cons x xs)
      then have "x \<in> set (?o @ ?a)" by simp
      then have "\<not> fst x < e" by auto
      with Cons show "?o @ ?a = [] \<or> \<not> fst (hd (?o @ ?a)) < e" by simp
    qed simp
    finally show "takeWhile (\<lambda>x. fst x < e) rs = ?b" using rs by simp
    have "takeWhile (\<lambda>x. fst x \<le> e) ((?b @ ?o) @ ?a) = (?b @ ?o) @ takeWhile (\<lambda>x. fst x \<le> e) ?a"
      by (intro takeWhile_append2) auto
    also have "takeWhile (\<lambda>x. fst x \<le> e) ?a = []"
      by (cases ?a) (auto simp: filter_eq_Cons_iff)
    finally show "takeWhile (\<lambda>x. fst x \<le> e) rs = ?b @ ?o" using rs by simp
  qed
  then have "equal_range e rs = (length ?b, length ?b + length (rules_of rs e))"
    using arg_cong [OF own, of length] by (simp add: equal_range_def)
  with rs own show thesis
    by (intro that [of ?b "rules_of rs e" ?a]) auto
qed

lemma rules_of_append: "rules_of (xs @ ys) e = rules_of xs e @ rules_of ys e"
  by (simp add: rules_of_def)

lemma rules_of_own: "rules_of (map (Pair e) own) e' = (if e' = e then own else [])"
  by (induction own) (auto simp: rules_of_def)

lemma rules_of_other: "\<forall>x \<in> set xs. fst x \<noteq> e \<Longrightarrow> rules_of xs e = []"
  by (auto simp: rules_of_def filter_empty_conv)

lemma RemoveAllRules_split:
  assumes "equal_range e (earlier @ map (Pair e) own @ later) = (length earlier, length earlier + length own)"
  shows "RemoveAllRules e (earlier @ map (Pair e) own @ later) = earlier @ later"
  using assms by (auto simp: RemoveAllRules_def erase_range_def)

lemma remove_rule_loop_split:
  "remove_rule_loop r (length earlier) (length earlier + length own) (earlier @ map (Pair e) own @ later) =
     (if list_ex (\<lambda>r'. Rule_eq r' r) own then ER_OK else ER_BUS_MATCH_RULE_NOT_FOUND,
      earlier @ map (Pair e) (remove_first (\<lambda>r'. Rule_eq r' r) own) @ later)"
proof (induction own arbitrary: earlier)
  case Nil
  then show ?case by (simp add: remove_rule_loop.simps)
next
  case (Cons x own)
  have "(earlier @ map (Pair e) (x # own) @ later) ! length earlier = (e, x)"
    by (simp add: nth_append)
  then show ?case
    using Cons [of "earlier @ [(e, x)]"]
    by (subst remove_rule_loop.simps) (simp add: erase_range_def)
qed

lemma RemoveRule_split:
  assumes "equal_range e (earlier @ map (Pair e) own @ later) = (length earlier, length earlier + length own)"
  shows "RemoveRule e r (earlier @ map (Pair e) own @ later) =
     (if list_ex (\<lambda>r'. Rule_eq r' r) own then ER_OK else ER_BUS_MATCH_RULE_NOT_FOUND,
      earlier @ map (Pair e) (remove_first (\<lambda>r'. Rule_eq r' r) own) @ later)"
  using assms by (simp add: RemoveRule_def remove_rule_loop_split)

lemma rules_of_split:
  assumes "\<forall>x \<in> set earlier. fst x < e" and "\<forall>x \<in> set later. e < fst x"
  shows "rules_of (earlier @ map (Pair e) xs @ later) = (rules_of (earlier @ later))(e := xs)"
proof -
  have "rules_of earlier e = []" "rules_of later e = []"
    using assms by (auto intro!: rules_of_other)
  then show ?thesis by (auto simp: fun_eq_iff rules_of_append rules_of_own)
qed

lemma ordered_split_append:
  assumes "ordered (earlier @ map (Pair e) own @ later)" and "\<forall>x \<in> set earlier. fst x < e" and "\<forall>x \<in> set later. e < fst x"
  shows "ordered (earlier @ map (Pair e) xs @ later)"
proof -
  have "a \<le> a'" if "(a, b) \<in> set earlier" "(a', b') \<in> set later" for a b a' b'
    using that assms(2,3) by fastforce
  then show ?thesis
    using assms by (auto simp: sorted_append comp_def map_replicate_const less_imp_le)
qed

lemma RemoveAllRules_facts:
  assumes "ordered rs"
  shows "rules_of (RemoveAllRules e rs) = lists_op eq (RemoveAll e) (rules_of rs)" and "ordered (RemoveAllRules e rs)"
proof -
  obtain earlier own later where s: "rs = earlier @ map (Pair e) own @ later"
    "\<forall>x \<in> set earlier. fst x < e" "\<forall>x \<in> set later. e < fst x"
    "equal_range e rs = (length earlier, length earlier + length own)"
    using assms by (rule ordered_split)
  then have r: "RemoveAllRules e rs = earlier @ map (Pair e) [] @ later"
    using RemoveAllRules_split by simp
  show "ordered (RemoveAllRules e rs)"
    unfolding r using ordered_split_append s(1-3) assms by blast
  show "rules_of (RemoveAllRules e rs) = lists_op eq (RemoveAll e) (rules_of rs)"
    unfolding r unfolding s(1) rules_of_split [OF s(2,3)] by simp
qed

lemma RemoveRule_facts:
  assumes "ordered rs"
  shows "rules_of (snd (RemoveRule e r rs)) = lists_op Rule_eq (Remove e r) (rules_of rs)"
    and "ordered (snd (RemoveRule e r rs))"
    and "fst (RemoveRule e r rs) =
       (if list_ex (\<lambda>r'. Rule_eq r' r) (rules_of rs e) then ER_OK else ER_BUS_MATCH_RULE_NOT_FOUND)"
proof -
  obtain earlier own later where s: "rs = earlier @ map (Pair e) own @ later"
    "\<forall>x \<in> set earlier. fst x < e" "\<forall>x \<in> set later. e < fst x"
    "equal_range e rs = (length earlier, length earlier + length own)"
    using assms by (rule ordered_split)
  have r: "RemoveRule e r rs =
      (if list_ex (\<lambda>r'. Rule_eq r' r) own then ER_OK else ER_BUS_MATCH_RULE_NOT_FOUND,
       earlier @ map (Pair e) (remove_first (\<lambda>r'. Rule_eq r' r) own) @ later)"
    using RemoveRule_split s(1,4) by blast
  have own: "rules_of rs e = own"
    unfolding s(1) using rules_of_split [OF s(2,3)] by simp
  show "ordered (snd (RemoveRule e r rs))"
    unfolding r using ordered_split_append [OF _ s(2,3)] s(1) assms by simp
  show "rules_of (snd (RemoveRule e r rs)) = lists_op Rule_eq (Remove e r) (rules_of rs)"
    unfolding r unfolding s(1) using rules_of_split [OF s(2,3)] by simp
  show "fst (RemoveRule e r rs) =
       (if list_ex (\<lambda>r'. Rule_eq r' r) (rules_of rs e) then ER_OK else ER_BUS_MATCH_RULE_NOT_FOUND)"
    unfolding r own by simp
qed

text \<open>The tables that occur, as a type, so that the laws hold without a side condition.\<close>

typedef rule_table = "{rs :: RuleTable. ordered rs}"
  by (rule exI [of _ "[]"]) simp

setup_lifting type_definition_rule_table

lift_definition empty_table :: rule_table is "[]" by simp
lift_definition table_rules :: "rule_table \<Rightarrow> ep \<Rightarrow> Rule list" is rules_of .
lift_definition table_add :: "ep \<Rightarrow> Rule \<Rightarrow> rule_table \<Rightarrow> rule_table" is AddRule by (rule ordered_AddRule)
lift_definition table_remove :: "ep \<Rightarrow> Rule \<Rightarrow> rule_table \<Rightarrow> QStatus \<times> rule_table" is RemoveRule
  by (auto simp: pred_prod_beta RemoveRule_facts)
lift_definition table_drop_all :: "ep \<Rightarrow> rule_table \<Rightarrow> rule_table" is RemoveAllRules by (rule RemoveAllRules_facts)

interpretation rule_table: subscriptions table_rules Rule_eq table_add table_remove table_drop_all
proof
  show "table_rules (table_add e r s) = lists_op Rule_eq (Add e r) (table_rules s)" for e r s
    by transfer (rule rules_of_AddRule)
  show "table_rules (snd (table_remove e r s)) = lists_op Rule_eq (Remove e r) (table_rules s)" for e r s
    by transfer (rule RemoveRule_facts)
  show "fst (table_remove e r s) =
      (if list_ex (\<lambda>r'. Rule_eq r' r) (table_rules s e) then ER_OK else ER_BUS_MATCH_RULE_NOT_FOUND)" for e r s
    by transfer (rule RemoveRule_facts)
  show "table_rules (table_drop_all e s) = lists_op Rule_eq (RemoveAll e) (table_rules s)" for e s
    by transfer (rule RemoveAllRules_facts)
qed

fun table_step :: "(ep, Rule) table_op \<Rightarrow> rule_table \<Rightarrow> rule_table" where
  "table_step (Add e r) t = table_add e r t"
| "table_step (Remove e r) t = snd (table_remove e r t)"
| "table_step (RemoveAll e) t = table_drop_all e t"

lemma table_step_case:
  "table_step x t = (case x of Add e r \<Rightarrow> table_add e r t | Remove e r \<Rightarrow> snd (table_remove e r t)
                           | RemoveAll e \<Rightarrow> table_drop_all e t)"
  by (cases x) simp_all

subsection \<open>Broadcasts\<close>

lemma ordered_dropWhile:
  "ordered rs \<Longrightarrow> dropWhile (\<lambda>x. fst x \<le> d) rs = filter (\<lambda>x. d < fst x) rs"
proof (induction rs)
  case (Cons x rs)
  show ?case
  proof (cases "fst x \<le> d")
    case False
    with Cons.prems have "\<forall>y \<in> set (x # rs). d < fst y" by fastforce
    then show ?thesis using False by (simp add: filter_id_conv)
  qed (use Cons in auto)
qed simp

lemma broadcast_spec:
  "ordered rs \<Longrightarrow>
   sorted_wrt (<) (broadcast allowed msg rs) \<and>
   set (broadcast allowed msg rs) = {e. allowed e \<and> (\<exists>r. (e, r) \<in> set rs \<and> IsMatch r msg)}"
proof (induction allowed msg rs rule: broadcast.induct)
  case (2 allowed msg d r rs)
  show ?case
  proof (cases "IsMatch r msg")
    case False
    with 2 show ?thesis by auto
  next
    case True
    let ?later = "filter (\<lambda>x. d < fst x) rs"
    have later: "dropWhile (\<lambda>x. fst x \<le> d) rs = ?later" "ordered ?later" "\<forall>x \<in> set rs. d \<le> fst x"
      using "2.prems" by (auto simp: ordered_dropWhile intro: sorted_filter)
    with 2 True have IH: "sorted_wrt (<) (broadcast allowed msg ?later)"
      "set (broadcast allowed msg ?later) = {e. allowed e \<and> (\<exists>r. (e, r) \<in> set ?later \<and> IsMatch r msg)}"
      by auto
    have "{e. allowed e \<and> (\<exists>r'. (e, r') \<in> set ((d, r) # rs) \<and> IsMatch r' msg)} =
        (if allowed d then {d} else {}) \<union> {e. allowed e \<and> (\<exists>r. (e, r) \<in> set ?later \<and> IsMatch r msg)}"
      using True later(3) by (force simp: le_less)
    with IH later(1) True show ?thesis by auto
  qed
qed simp

lemma Rule_eq_refl [simp]: "Rule_eq r r"
  by (simp add: Rule_eq_def)

lemma remove_first_last: "\<not> list_ex P rs \<Longrightarrow> P r \<Longrightarrow> remove_first P (rs @ [r]) = rs"
  by (induction rs) auto

subsection \<open>Properties\<close>

text \<open>
  C25. A rule whose texts hold no comma and no quote survives printing and parsing, except
  that a filter for messages that are not sessionless comes back as its opposite:
  \<open>ToString\<close> prints \<open>sessionless='t'\<close> for both.
\<close>

theorem rule_print_parse:
  assumes "wf_Rule r"
  shows "map_option parse_Rule (Rule_ToString r) =
     Some (ER_OK, r\<lparr>sessionless := (if sessionless r = SESSIONLESS_FALSE then SESSIONLESS_TRUE else sessionless r)\<rparr>)"
  using assms fold_rule_items [OF assms] parse_join [OF rule_items_ok [OF assms], of empty_Rule]
  by (cases "sessionless r") (simp_all add: ToString_items parse_Rule_def)

theorem rule_print_parse_witness:
  "map_option parse_Rule (Rule_ToString (empty_Rule
       \<lparr>type := MESSAGE_SIGNAL, iface := ''org.alljoyn.About'', args := [(0, ''x''), (10, [])],
        implements := [''a.b*''], sessionless := SESSIONLESS_TRUE\<rparr>)) =
     Some (ER_OK, empty_Rule
       \<lparr>type := MESSAGE_SIGNAL, iface := ''org.alljoyn.About'', args := [(0, ''x''), (10, [])],
        implements := [''a.b*''], sessionless := SESSIONLESS_TRUE\<rparr>)"
  by (subst rule_print_parse) (simp_all add: wf_Rule_def clean_def empty_Rule_def)

definition demo_message :: message where
  "demo_message =
     \<lparr>GetType = MESSAGE_SIGNAL, GetSender = '':r.1'', GetInterface = ''a.b'', GetMemberName = ''m'',
      GetObjectPath = ''/a'', GetDestination = [], GetSessionId = 0, GetFlags = 0,
      unmarshalled = None, announced = None\<rparr>"

definition demo_rules :: RuleTable where
  "demo_rules = AddRule 2 (empty_Rule\<lparr>member := ''x''\<rparr>) (AddRule 5 empty_Rule
     (AddRule 2 empty_Rule (AddRule 2 (empty_Rule\<lparr>member := ''m''\<rparr>) [])))"

text \<open>
  C26. The multimap of the rules, in which the rules of an endpoint are found by
  \<open>equal_range\<close>, behaves as one list of rules for each endpoint: whatever rules were
  added and removed before and whatever endpoints dropped all of theirs, each endpoint has
  the rules it added, in that order, without the first equal one for every \<open>RemoveRule\<close>
  and without any before its last \<open>RemoveAllRules\<close>, untouched by the other endpoints;
  and \<open>RemoveRule\<close> succeeds exactly when the endpoint has an equal rule.
\<close>

theorem rule_table_refines_lists:
  "table_rules (fold table_step ops empty_table) = fold (lists_op Rule_eq) ops (\<lambda>_. []) \<and>
   fst (table_remove e r (fold table_step ops empty_table)) =
     (if list_ex (\<lambda>r'. Rule_eq r' r) (fold (lists_op Rule_eq) ops (\<lambda>_. []) e)
      then ER_OK else ER_BUS_MATCH_RULE_NOT_FOUND)"
proof -
  have "table_rules empty_table = (\<lambda>_. [])"
    by transfer (simp add: rules_of_def fun_eq_iff)
  then have "table_rules (fold table_step ops empty_table) = fold (lists_op Rule_eq) ops (\<lambda>_. [])"
    using rule_table.rules_of_history [of ops empty_table] by (simp add: table_step_case [abs_def])
  then show ?thesis
    by (simp add: rule_table.status_remove)
qed

text \<open>
  The comparison of rules ignores the sessionless filter. When an endpoint has a rule,
  adds the same rule for sessionless messages only and removes that one again, the table
  loses the first rule: an ordinary broadcast that reached the endpoint before no longer does.
\<close>

theorem remove_rule_ignores_sessionless:
  "let r = empty_Rule; rS = empty_Rule\<lparr>sessionless := SESSIONLESS_TRUE\<rparr> in
   RemoveRule 2 rS (AddRule 2 rS [(2, r)]) = (ER_OK, [(2, rS)]) \<and>
   broadcast (\<lambda>_. True) demo_message [(2, r)] = [2] \<and>
   broadcast (\<lambda>_. True) demo_message [(2, rS)] = []"
  by code_simp

text \<open>
  An empty value is not taken as such. The sender of the specification
  \<open>sender='',member='m'\<close> becomes the whole rest of the text, because a string of length 0
  is built from the terminating NUL instead; and \<open>type=''\<close> selects signals, because every
  text agrees with \<open>signal\<close> in its first 0 characters.
\<close>

theorem rule_empty_value_misread:
  "let q = [CHR 0x27] in
   parse_Rule (''sender='' @ q @ q @ '',member='' @ q @ ''m'' @ q) =
     (ER_OK, empty_Rule\<lparr>sender := q @ '',member='' @ q @ ''m'' @ q, member := ''m''\<rparr>) \<and>
   parse_Rule (''type='' @ q @ q) = (ER_OK, empty_Rule\<lparr>type := MESSAGE_SIGNAL\<rparr>)"
  by code_simp

end
