(* ===== verification/Key_Blob.thy ===== *)
theory Key_Blob
  imports AJ_Prelude
begin

text \<open>
  Key blobs, \<^verbatim>\<open>common/src/KeyBlob.cc\<close> and \<^verbatim>\<open>KeyBlob.h\<close>, stored to and loaded
  from strings (\<^verbatim>\<open>StringSink.h\<close>, \<^verbatim>\<open>StringSource.cc\<close>). A pull may deliver fewer
  bytes than asked for and still succeed; the variables and buffers of \<open>Load\<close> then
  keep what they held, which for fresh ones is an input (\<open>junk\<close>). Random bytes, the
  keyed hash and the clock are inputs too.
\<close>

unbundle bit_operations_syntax

subsection \<open>Sources\<close>

definition PullBytes :: "byte list \<Rightarrow> nat \<Rightarrow> QStatus \<times> byte list \<times> byte list" where
  "PullBytes src reqBytes =
     (let actualBytes = min reqBytes (length src) in
      if 0 < actualBytes then (ER_OK, take actualBytes src, drop actualBytes src)
      else if src = [] then (ER_EOF, [], src) else (ER_OK, [], src))"

text \<open>What a buffer holds after a pull into it.\<close>

definition into :: "byte list \<Rightarrow> byte list \<Rightarrow> byte list" where
  "into buf bs = bs @ drop (length bs) buf"

subsection \<open>The blob\<close>

text \<open>The type of a loaded blob is any byte, so the enumeration is its codes.\<close>

definition EMPTY :: byte where "EMPTY = 0"
definition GENERIC :: byte where "GENERIC = 1"
definition AES :: byte where "AES = 2"
definition PRIVATE :: byte where "PRIVATE = 3"
definition PEM :: byte where "PEM = 4"
definition PUBLIC :: byte where "PUBLIC = 5"
definition SPKI_CERT :: byte where "SPKI_CERT = 6"
definition DSA_PRIVATE :: byte where "DSA_PRIVATE = 7"
definition DSA_PUBLIC :: byte where "DSA_PUBLIC = 8"
definition INVALID :: byte where "INVALID = 9"

datatype Role = NO_ROLE | INITIATOR | RESPONDER

datatype AssociationMode = ASSOCIATE_NONE | ASSOCIATE_HEAD | ASSOCIATE_MEMBER | ASSOCIATE_BOTH

record Timespec =
  seconds :: u64
  mseconds :: u16

text \<open>\<open>size\<close> is the length of the data; for an empty blob neither is ever read.\<close>

record KeyBlob =
  kb_version :: byte
  blobType :: byte
  expiration :: Timespec
  kb_data :: "byte list"
  tag :: string
  role :: Role
  associationMode :: AssociationMode
  association :: "byte list"

text \<open>A new blob gets a random GUID as its association.\<close>

definition new_KeyBlob :: "byte \<Rightarrow> byte list \<Rightarrow> KeyBlob" where
  "new_KeyBlob v g =
     \<lparr>kb_version = v, blobType = EMPTY, expiration = \<lparr>seconds = 0, mseconds = 0\<rparr>, kb_data = [], tag = [],
      role = NO_ROLE, associationMode = ASSOCIATE_NONE, association = g\<rparr>"

definition kb_IsValid :: "KeyBlob \<Rightarrow> bool" where
  "kb_IsValid k \<longleftrightarrow> blobType k \<noteq> EMPTY"

definition GetSize :: "KeyBlob \<Rightarrow> nat" where
  "GetSize k = (if blobType k = EMPTY then 0 else length (kb_data k))"

definition GetAntiRole :: "KeyBlob \<Rightarrow> Role" where
  "GetAntiRole k = (if role k = NO_ROLE then role k else if role k = RESPONDER then INITIATOR else RESPONDER)"

definition MAX_TAG_LEN :: nat where
  "MAX_TAG_LEN = 255"

definition SetTag :: "string \<Rightarrow> Role \<Rightarrow> KeyBlob \<Rightarrow> KeyBlob" where
  "SetTag t r k = k\<lparr>tag := take MAX_TAG_LEN t, role := r\<rparr>"

definition SetAssociation :: "byte list \<Rightarrow> KeyBlob \<Rightarrow> KeyBlob" where
  "SetAssociation g k =
     k\<lparr>associationMode := (if associationMode k = ASSOCIATE_HEAD then ASSOCIATE_BOTH else ASSOCIATE_MEMBER),
       association := g\<rparr>"

definition Erase :: "KeyBlob \<Rightarrow> KeyBlob" where
  "Erase k =
     (if blobType k \<noteq> EMPTY
      then k\<lparr>tag := [], blobType := EMPTY, kb_data := [], expiration := expiration k\<lparr>seconds := 0\<rparr>, role := NO_ROLE\<rparr>
      else k)\<lparr>associationMode := ASSOCIATE_NONE\<rparr>"

text \<open>Lengths are cut to the 16 bits of \<open>size\<close>: the rest of the data is never seen again.\<close>

definition cut16 :: "byte list \<Rightarrow> byte list" where
  "cut16 bs = take (length bs mod 2 ^ 16) bs"

definition Rand :: "byte list \<Rightarrow> byte \<Rightarrow> KeyBlob \<Rightarrow> KeyBlob" where
  "Rand random initType k =
     (let k1 = Erase k in
      if initType \<noteq> EMPTY then k1\<lparr>blobType := initType, kb_data := cut16 random\<rparr> else k1)"

definition kb_Set :: "byte list option \<Rightarrow> byte \<Rightarrow> KeyBlob \<Rightarrow> QStatus \<times> KeyBlob" where
  "kb_Set key initType k =
     (case key of
        None \<Rightarrow> (ER_BAD_ARG_1, k)
      | Some bs \<Rightarrow>
          if bs = [] then (ER_BAD_ARG_2, k)
          else if initType \<ge> INVALID then (ER_BAD_ARG_3, k)
          else (let k1 = Erase k in
                (ER_OK, if initType \<noteq> EMPTY then k1\<lparr>blobType := initType, kb_data := cut16 bs\<rparr> else k1)))"

text \<open>
  \<open>hmac\<close> is the hash keyed with the secret, of the string \<open>keyblob\<close> with its NUL, the
  remaining length and the type.
\<close>

definition DIGEST_SIZE :: nat where
  "DIGEST_SIZE = 20"

function derive_loop :: "(byte list \<Rightarrow> byte list) \<Rightarrow> byte \<Rightarrow> nat \<Rightarrow> byte list" where
  "derive_loop hmac t len =
     (if len = 0 then []
      else (let digest = hmac (map char_byte ''keyblob'' @ [0] @ le64 (word_of_nat len) @ [t, 0, 0, 0]) in
            if len < DIGEST_SIZE then take len digest
            else take DIGEST_SIZE digest @ derive_loop hmac t (len - DIGEST_SIZE)))"
  by pat_completeness auto
termination
  by (relation "measure (\<lambda>(h, t, len). len)") (auto simp: DIGEST_SIZE_def)

declare derive_loop.simps [simp del]

definition Derive :: "(byte list \<Rightarrow> byte list) \<Rightarrow> nat \<Rightarrow> byte \<Rightarrow> KeyBlob \<Rightarrow> KeyBlob" where
  "Derive hmac len initType k =
     (if initType \<noteq> EMPTY
      then (Erase k)\<lparr>role := NO_ROLE, associationMode := ASSOCIATE_NONE, blobType := initType,
             kb_data := cut16 (derive_loop hmac initType len)\<rparr>
      else k\<lparr>kb_data := [], role := NO_ROLE, blobType := EMPTY, associationMode := ASSOCIATE_NONE\<rparr>)"

text \<open>\<open>None\<close> is the failed assertion.\<close>

definition kb_assign :: "KeyBlob \<Rightarrow> KeyBlob \<Rightarrow> KeyBlob option" where
  "kb_assign k other =
     (if blobType other \<ge> INVALID then None
      else Some (if blobType other \<noteq> EMPTY then other else (Erase k)\<lparr>kb_version := kb_version other\<rparr>))"

definition Xor :: "byte list \<Rightarrow> KeyBlob \<Rightarrow> nat \<times> KeyBlob" where
  "Xor bs k =
     (if blobType k \<noteq> EMPTY \<and> bs \<noteq> [] then
        (let sz = min (length (kb_data k)) (length bs) in
         (sz, k\<lparr>kb_data := map2 (\<lambda>a b. a XOR b) (take sz (kb_data k)) (take sz bs) @ drop sz (kb_data k)\<rparr>))
      else (0, k))"

definition Timespec_le :: "Timespec \<Rightarrow> Timespec \<Rightarrow> bool" where
  "Timespec_le a b \<longleftrightarrow> seconds a < seconds b \<or> seconds a = seconds b \<and> mseconds a \<le> mseconds b"

definition HasExpired :: "Timespec \<Rightarrow> KeyBlob \<Rightarrow> bool" where
  "HasExpired now k \<longleftrightarrow> (if seconds (expiration k) = 0 then False else Timespec_le (expiration k) now)"

subsection \<open>Storing\<close>

definition EXPIRES_FLAG :: u16 where "EXPIRES_FLAG = 0x80"
definition VERSION_FLAG :: u16 where "VERSION_FLAG = 0x40"
definition HEADER_NODE :: u16 where "HEADER_NODE = 0x20"
definition V0_MAX_TAG_LEN :: u16 where "V0_MAX_TAG_LEN = 0x3F"

definition store_flags :: "KeyBlob \<Rightarrow> u16" where
  "store_flags k =
     (let f1 = (if kb_version k = 0
                then push_bit 8 (ucast (blobType k)) OR word_of_nat (length (tag k))
                else push_bit 8 (ucast (blobType k)) OR VERSION_FLAG OR ucast (kb_version k));
          f2 = (if seconds (expiration k) \<noteq> 0 then f1 OR EXPIRES_FLAG else f1)
      in if kb_version k \<noteq> 0 \<and> associationMode k \<in> {ASSOCIATE_HEAD, ASSOCIATE_BOTH}
         then f2 OR HEADER_NODE else f2)"

definition Store :: "KeyBlob \<Rightarrow> byte list" where
  "Store k =
     le16 (store_flags k) @
     (if blobType k \<noteq> EMPTY then
        (if store_flags k AND EXPIRES_FLAG \<noteq> 0
         then le64 (seconds (expiration k)) @ le16 (mseconds (expiration k)) else []) @
        (if kb_version k \<noteq> 0 then [word_of_nat (length (tag k))] else []) @
        map char_byte (tag k) @
        le16 (word_of_nat (length (kb_data k))) @
        kb_data k @
        (if kb_version k \<noteq> 0
         then (if associationMode k \<in> {ASSOCIATE_MEMBER, ASSOCIATE_BOTH} then 16 # association k else [0])
         else [])
      else [])"

subsection \<open>Loading\<close>

text \<open>
  The local variables of \<open>Load\<close>: the status, the blob, the rest of the source and the
  16-bit temporary as bytes. Each step is skipped where the code skips it.
\<close>

record loading =
  l_status :: QStatus
  l_blob :: KeyBlob
  l_src :: "byte list"
  l_u16 :: "byte list"

definition load_expiry :: "byte list \<Rightarrow> u16 \<Rightarrow> loading \<Rightarrow> loading" where
  "load_expiry u64_junk flags l =
     (if l_status l = ER_OK \<and> flags AND EXPIRES_FLAG \<noteq> 0 then
        (case PullBytes (l_src l) 8 of (st, bs, src) \<Rightarrow>
           (let k = l_blob l; k1 = k\<lparr>expiration := expiration k\<lparr>seconds := of_le64 (into u64_junk bs)\<rparr>\<rparr> in
            if st = ER_OK then
              (case PullBytes src 2 of (st2, bs2, src2) \<Rightarrow>
                 (let u = into (l_u16 l) bs2 in
                  \<lparr>l_status = st2, l_blob = k1\<lparr>expiration := expiration k1\<lparr>mseconds := of_le16 u\<rparr>\<rparr>,
                   l_src = src2, l_u16 = u\<rparr>))
            else l\<lparr>l_status := st, l_blob := k1, l_src := src\<rparr>))
      else l)"

definition load_tag :: "u16 \<Rightarrow> byte \<Rightarrow> loading \<Rightarrow> loading" where
  "load_tag flags kbVersion l =
     (if kbVersion = 0 then
        (case PullBytes (l_src l) (unat (flags AND V0_MAX_TAG_LEN)) of (st, bs, src) \<Rightarrow>
           l\<lparr>l_status := st, l_src := src,
             l_blob := (if st = ER_OK then (l_blob l)\<lparr>tag := map byte_char bs @ tag (l_blob l)\<rparr> else l_blob l)\<rparr>)
      else if kbVersion = 1 then
        (case PullBytes (l_src l) 1 of (st, bs, src) \<Rightarrow>
           if st = ER_OK then
             (case PullBytes src (unat (hd bs)) of (st2, bs2, src2) \<Rightarrow>
                l\<lparr>l_status := st2, l_src := src2,
                  l_blob := (if st2 = ER_OK then (l_blob l)\<lparr>tag := map byte_char bs2 @ tag (l_blob l)\<rparr> else l_blob l)\<rparr>)
           else l\<lparr>l_status := st, l_src := src\<rparr>)
      else l)"

definition load_data :: "(nat \<Rightarrow> byte list) \<Rightarrow> byte \<Rightarrow> loading \<Rightarrow> loading" where
  "load_data data_junk kbVersion l =
     (if l_status l = ER_OK then
        (case PullBytes (l_src l) 2 of (st, bs, src) \<Rightarrow>
           (let u = into (l_u16 l) bs; size = unat (of_le16 u);
                st1 = (if kbVersion = 0 \<and> size > 4096 then ER_CORRUPT_KEYBLOB else st)
            in if st1 = ER_OK then
                 (case PullBytes src size of (st2, bs2, src2) \<Rightarrow>
                    \<lparr>l_status = st2,
                     l_blob = (l_blob l)\<lparr>kb_data := (if st2 = ER_OK then into (data_junk size) bs2 else [])\<rparr>,
                     l_src = src2, l_u16 = u\<rparr>)
               else l\<lparr>l_status := st1, l_src := src, l_u16 := u\<rparr>))
      else l)"

definition load_assoc :: "byte list \<Rightarrow> byte \<Rightarrow> loading \<Rightarrow> loading" where
  "load_assoc guid_junk kbVersion l =
     (if l_status l = ER_OK \<and> kbVersion > 0 then
        (case PullBytes (l_src l) 1 of (st, bs, src) \<Rightarrow>
           if st = ER_OK \<and> hd bs > 0 then
             (if hd bs \<noteq> 16 then l\<lparr>l_status := ER_CORRUPT_KEYBLOB, l_src := src\<rparr>
              else (case PullBytes src 16 of (st2, bs2, src2) \<Rightarrow>
                (let k1 = (if st2 = ER_OK then (l_blob l)\<lparr>association := into guid_junk bs2\<rparr> else l_blob l) in
                 l\<lparr>l_status := st2, l_src := src2,
                   l_blob := k1\<lparr>associationMode :=
                     (if associationMode k1 = ASSOCIATE_HEAD then ASSOCIATE_BOTH else ASSOCIATE_MEMBER)\<rparr>\<rparr>)))
           else l\<lparr>l_status := st, l_src := src\<rparr>)
      else l)"

record load_junk =
  j_u16 :: "byte list"
  j_u64 :: "byte list"
  j_data :: "nat \<Rightarrow> byte list"
  j_guid :: "byte list"

definition Load :: "load_junk \<Rightarrow> KeyBlob \<Rightarrow> byte list \<Rightarrow> QStatus \<times> KeyBlob \<times> byte list" where
  "Load junk k source =
     (case PullBytes source 2 of (st, bs, src) \<Rightarrow>
        (let u = into (j_u16 junk) bs; flags = of_le16 u;
             k1 = (Erase k)\<lparr>blobType := ucast (drop_bit 8 flags)\<rparr>
         in if st = ER_OK then
              (let st1 = (if blobType k1 \<ge> INVALID then ER_CORRUPT_KEYBLOB else ER_OK);
                   k2 = (if st1 = ER_OK \<and> flags AND HEADER_NODE \<noteq> 0 then k1\<lparr>associationMode := ASSOCIATE_HEAD\<rparr> else k1);
                   l1 = load_expiry (j_u64 junk) flags \<lparr>l_status = st1, l_blob = k2, l_src = src, l_u16 = u\<rparr>;
                   kbVersion = (if l_status l1 = ER_OK \<and> flags AND VERSION_FLAG \<noteq> 0 then ucast flags AND 0xF else 0);
                   l4 = load_assoc (j_guid junk) kbVersion (load_data (j_data junk) kbVersion (load_tag flags kbVersion l1))
               in (l_status l4,
                   if l_status l4 \<noteq> ER_OK then (l_blob l4)\<lparr>blobType := EMPTY\<rparr> else l_blob l4, l_src l4))
            else (st, k1\<lparr>blobType := EMPTY\<rparr>, src)))"

subsection \<open>Loading what was stored\<close>

lemma PullBytes_append [simp]:
  "bs @ rest \<noteq> [] \<Longrightarrow> n = length bs \<Longrightarrow> PullBytes (bs @ rest) n = (ER_OK, bs, rest)"
  by (cases bs) (auto simp: PullBytes_def Let_def)

lemma PullBytes_Cons [simp]: "PullBytes (b # rest) (Suc 0) = (ER_OK, [b], rest)"
  by (simp add: PullBytes_def)

lemma into_full [simp]: "length buf \<le> length bs \<Longrightarrow> into buf bs = bs"
  by (simp add: into_def)

text \<open>The low byte of the flags; the high byte is the type.\<close>

definition option_byte :: "KeyBlob \<Rightarrow> byte" where
  "option_byte k =
     (if kb_version k = 0 then word_of_nat (length (tag k)) else 0x40 OR kb_version k) OR
     (if seconds (expiration k) \<noteq> 0 then 0x80 else 0) OR
     (if kb_version k \<noteq> 0 \<and> associationMode k \<in> {ASSOCIATE_HEAD, ASSOCIATE_BOTH} then 0x20 else 0)"

lemma word_of_nat_ucast: "n < 256 \<Longrightarrow> (word_of_nat n :: u16) = ucast (word_of_nat n :: byte)"
  by (simp add: word_eq_iff_unsigned unsigned_of_nat unsigned_ucast_eq take_bit_nat_eq_self)

lemma u16_of_bytes_alt: "u16_of_bytes t l = push_bit 8 (ucast t) OR ucast l"
  unfolding u16_of_bytes_def u16_0xff_mask by (rule bit_word_eqI) (auto simp: bit_simps dest: bit_imp_le_length)

lemma store_flags_bytes:
  assumes "length (tag k) < 256"
  shows "store_flags k = u16_of_bytes (blobType k) (option_byte k)"
  using assms
  by (simp add: store_flags_def option_byte_def u16_of_bytes_alt Let_def word_of_nat_ucast unsigned_or_eq
      EXPIRES_FLAG_def VERSION_FLAG_def HEADER_NODE_def or.assoc)

lemma flags_and: "u16_of_bytes t l AND ucast (m :: byte) = ucast (l AND m)"
  unfolding u16_of_bytes_alt by (rule bit_word_eqI) (auto simp: bit_simps dest: bit_imp_le_length)

lemma unat_ucast_up: "unat (ucast (x :: byte) :: u16) = unat x"
proof -
  have "unat x < 2 ^ 16" using unsigned_less [of x, where ?'a = nat] by simp
  then show ?thesis by (simp add: unsigned_ucast_eq take_bit_nat_eq_self)
qed

lemma ucast_up_0: "(ucast (x :: byte) :: u16) = 0 \<longleftrightarrow> x = 0"
  using unat_ucast_up [of x] by (auto simp: unat_eq_zero)

lemma flag_tests:
  "u16_of_bytes t l AND EXPIRES_FLAG = 0 \<longleftrightarrow> l AND 0x80 = 0"
  "u16_of_bytes t l AND VERSION_FLAG = 0 \<longleftrightarrow> l AND 0x40 = 0"
  "u16_of_bytes t l AND HEADER_NODE = 0 \<longleftrightarrow> l AND 0x20 = 0"
  "unat (u16_of_bytes t l AND V0_MAX_TAG_LEN) = unat (l AND 0x3F)"
  using flags_and [of t l "0x80"] flags_and [of t l "0x40"] flags_and [of t l "0x20"] flags_and [of t l "0x3F"]
  by (simp_all add: EXPIRES_FLAG_def VERSION_FLAG_def HEADER_NODE_def V0_MAX_TAG_LEN_def
      unat_ucast_up ucast_up_0)

lemma flag_bytes:
  "ucast (u16_of_bytes t l) = l" "ucast (drop_bit 8 (u16_of_bytes t l)) = t"
  unfolding u16_of_bytes_alt by (rule bit_word_eqI; auto simp: bit_simps dest: bit_imp_le_length)+

lemma le16_flags: "le16 (u16_of_bytes t l) = [l, t]"
  by (simp add: le16_def u16_lo_def u16_hi_def flag_bytes)

text \<open>What survives: the role is never stored, and version 0 has no room for more.\<close>

definition storable :: "KeyBlob \<Rightarrow> bool" where
  "storable k \<longleftrightarrow>
     blobType k \<noteq> EMPTY \<and> blobType k < INVALID \<and> role k = NO_ROLE \<and> kb_data k \<noteq> [] \<and>
     (seconds (expiration k) = 0 \<longrightarrow> mseconds (expiration k) = 0) \<and>
     (kb_version k = 0 \<and> length (tag k) < 32 \<and> length (kb_data k) \<le> 4096 \<and> associationMode k = ASSOCIATE_NONE \<or>
      kb_version k = 1 \<and> length (tag k) < 256 \<and> length (kb_data k) < 65536 \<and>
      (associationMode k \<in> {ASSOCIATE_MEMBER, ASSOCIATE_BOTH} \<longrightarrow> length (association k) = 16))"

definition junk_ok :: "load_junk \<Rightarrow> bool" where
  "junk_ok j \<longleftrightarrow> length (j_u16 j) = 2 \<and> length (j_u64 j) = 8 \<and> length (j_guid j) = 16 \<and> (\<forall>n. length (j_data j n) = n)"

lemma option_byte_v1:
  assumes "kb_version k = 1"
  shows "option_byte k AND 0x80 = 0 \<longleftrightarrow> seconds (expiration k) = 0" "option_byte k AND 0x40 \<noteq> 0"
    "option_byte k AND 0x20 = 0 \<longleftrightarrow> associationMode k \<notin> {ASSOCIATE_HEAD, ASSOCIATE_BOTH}"
    "option_byte k AND 0xF = 1"
  using assms by (auto simp: option_byte_def)

lemma small_byte:
  assumes "n < 32"
  shows "(word_of_nat n :: byte) AND 0x80 = 0" "(word_of_nat n :: byte) AND 0x40 = 0"
    "(word_of_nat n :: byte) AND 0x20 = 0" "(word_of_nat n :: byte) AND 0x3F = word_of_nat n"
proof -
  have "list_all (\<lambda>n. (word_of_nat n :: byte) AND 0x80 = 0 \<and> (word_of_nat n :: byte) AND 0x40 = 0 \<and>
    (word_of_nat n :: byte) AND 0x20 = 0 \<and> (word_of_nat n :: byte) AND 0x3F = word_of_nat n) [0..<32]"
    by code_simp
  with assms show "(word_of_nat n :: byte) AND 0x80 = 0" "(word_of_nat n :: byte) AND 0x40 = 0"
    "(word_of_nat n :: byte) AND 0x20 = 0" "(word_of_nat n :: byte) AND 0x3F = word_of_nat n"
    by (simp_all add: list_all_iff)
qed

lemma option_byte_v0:
  assumes "kb_version k = 0" and "length (tag k) < 32"
  shows "option_byte k AND 0x80 = 0 \<longleftrightarrow> seconds (expiration k) = 0" "option_byte k AND 0x40 = 0"
    "option_byte k AND 0x20 = 0" "unat (option_byte k AND 0x3F) = length (tag k)"
  using assms by (auto simp: option_byte_def bit.conj_disj_distrib2 small_byte unat_of_nat)

text \<open>Each step of the loader on the bytes that the corresponding step of the writer wrote.\<close>

lemma load_expiry_stored:
  assumes "flags AND EXPIRES_FLAG = 0 \<longleftrightarrow> seconds (expiration k) = 0" and "length u64_junk = 8" and "length u = 2"
    and "seconds (expiration k) = 0 \<longrightarrow> mseconds (expiration k) = 0"
    and "expiration b = \<lparr>seconds = 0, mseconds = 0\<rparr>"
  shows "\<exists>u'. length u' = 2 \<and>
    load_expiry u64_junk flags
      \<lparr>l_status = ER_OK, l_blob = b,
       l_src = (if seconds (expiration k) \<noteq> 0 then le64 (seconds (expiration k)) @ le16 (mseconds (expiration k)) else []) @ rest,
       l_u16 = u\<rparr> =
      \<lparr>l_status = ER_OK, l_blob = b\<lparr>expiration := expiration k\<rparr>, l_src = rest, l_u16 = u'\<rparr>"
proof (cases "seconds (expiration k) = 0")
  case True
  then show ?thesis using assms by (auto simp: load_expiry_def intro!: Timespec.equality)
next
  case False
  then show ?thesis using assms
    by (auto simp: load_expiry_def Let_def intro!: exI [of _ "le16 (mseconds (expiration k))"])
qed

lemma load_tag_v0:
  assumes "unat (flags AND V0_MAX_TAG_LEN) = length t" and "l_src l = map char_byte t @ rest" and "rest \<noteq> []"
    and "tag (l_blob l) = []" and "l_status l = ER_OK"
  shows "load_tag flags 0 l = l\<lparr>l_src := rest, l_blob := (l_blob l)\<lparr>tag := t\<rparr>\<rparr>"
  using assms by (simp add: load_tag_def)

lemma load_tag_v1:
  assumes "length t < 256" and "l_src l = word_of_nat (length t) # map char_byte t @ rest" and "rest \<noteq> []"
    and "tag (l_blob l) = []" and "l_status l = ER_OK"
  shows "load_tag flags 1 l = l\<lparr>l_src := rest, l_blob := (l_blob l)\<lparr>tag := t\<rparr>\<rparr>"
  using assms by (simp add: load_tag_def unat_of_nat)

lemma load_data_stored:
  assumes "l_src l = le16 (word_of_nat (length d)) @ d @ rest" and "d \<noteq> []" and "length d < 65536"
    and "v = 0 \<longrightarrow> length d \<le> 4096" and "l_status l = ER_OK" and "length (l_u16 l) = 2"
    and "\<And>n. length (data_junk n) = n"
  shows "load_data data_junk v l =
    l\<lparr>l_src := rest, l_blob := (l_blob l)\<lparr>kb_data := d\<rparr>, l_u16 := le16 (word_of_nat (length d))\<rparr>"
  using assms by (cases "v = 0") (simp_all add: load_data_def unat_of_nat Let_def)

lemma load_assoc_stored:
  assumes "l_status l = ER_OK" and "length guid_junk = 16"
    and "m \<in> {ASSOCIATE_MEMBER, ASSOCIATE_BOTH} \<longrightarrow> length g = 16"
    and "l_src l = (if m \<in> {ASSOCIATE_MEMBER, ASSOCIATE_BOTH} then 16 # g else [0]) @ rest"
    and "associationMode (l_blob l) = (if m \<in> {ASSOCIATE_HEAD, ASSOCIATE_BOTH} then ASSOCIATE_HEAD else ASSOCIATE_NONE)"
  shows "load_assoc guid_junk 1 l = l\<lparr>l_src := rest,
     l_blob := (l_blob l)\<lparr>associationMode := m,
       association := (if m \<in> {ASSOCIATE_MEMBER, ASSOCIATE_BOTH} then g else association (l_blob l))\<rparr>\<rparr>"
proof -
  have "g \<noteq> []" if "length g = 16" using that by auto
  then show ?thesis
    using assms by (cases m) (auto simp: load_assoc_def intro!: loading.equality KeyBlob.equality)
qed

lemma Store_shape:
  assumes "storable k"
  shows "Store k = [option_byte k, blobType k] @
     (if seconds (expiration k) \<noteq> 0 then le64 (seconds (expiration k)) @ le16 (mseconds (expiration k)) else []) @
     (if kb_version k = 0 then [] else [word_of_nat (length (tag k))]) @ map char_byte (tag k) @
     le16 (word_of_nat (length (kb_data k))) @ kb_data k @
     (if kb_version k = 0 then []
      else if associationMode k \<in> {ASSOCIATE_MEMBER, ASSOCIATE_BOTH} then 16 # association k else [0])"
  using assms
  by (auto simp: storable_def Store_def store_flags_bytes le16_flags flag_tests option_byte_v0 option_byte_v1)

lemma of_le16_pair [simp]: "of_le16 [l, t] = u16_of_bytes t l"
  by (simp add: of_le16_def)

text \<open>The loader behind the flags, and where it stands after the expiration.\<close>

definition load_start :: "load_junk \<Rightarrow> KeyBlob \<Rightarrow> AssociationMode \<Rightarrow> byte list \<Rightarrow> byte list \<Rightarrow> loading" where
  "load_start junk k m g src =
     load_expiry (j_u64 junk) (u16_of_bytes (blobType k) (option_byte k))
       \<lparr>l_status = ER_OK,
        l_blob = (new_KeyBlob (kb_version k) g)\<lparr>blobType := blobType k, associationMode := m\<rparr>,
        l_src = (if seconds (expiration k) \<noteq> 0
                 then le64 (seconds (expiration k)) @ le16 (mseconds (expiration k)) else []) @ src,
        l_u16 = [option_byte k, blobType k]\<rparr>"

definition load_mid :: "KeyBlob \<Rightarrow> AssociationMode \<Rightarrow> byte list \<Rightarrow> byte list \<Rightarrow> byte list \<Rightarrow> loading" where
  "load_mid k m g src u =
     \<lparr>l_status = ER_OK,
      l_blob = (new_KeyBlob (kb_version k) g)\<lparr>blobType := blobType k, associationMode := m, expiration := expiration k\<rparr>,
      l_src = src, l_u16 = u\<rparr>"

lemma load_start_stored:
  assumes "storable k" and "junk_ok junk"
  shows "\<exists>u. length u = 2 \<and> load_start junk k m g src = load_mid k m g src u"
proof -
  have "u16_of_bytes (blobType k) (option_byte k) AND EXPIRES_FLAG = 0 \<longleftrightarrow> seconds (expiration k) = 0"
    using assms(1) by (auto simp: storable_def flag_tests option_byte_v0 option_byte_v1)
  from load_expiry_stored [OF this, of "j_u64 junk" "[option_byte k, blobType k]"
      "(new_KeyBlob (kb_version k) g)\<lparr>blobType := blobType k, associationMode := m\<rparr>" src]
  show ?thesis
    using assms by (simp add: load_start_def load_mid_def new_KeyBlob_def storable_def junk_ok_def)
qed

lemma Load_stages:
  assumes "storable k" and "junk_ok junk"
  shows "Load junk (new_KeyBlob (kb_version k) g)
     ([option_byte k, blobType k] @
      (if seconds (expiration k) \<noteq> 0 then le64 (seconds (expiration k)) @ le16 (mseconds (expiration k)) else []) @ src) =
    (let v = (if option_byte k AND 0x40 = 0 then 0 else option_byte k AND 0xF);
         m = (if option_byte k AND 0x20 = 0 then ASSOCIATE_NONE else ASSOCIATE_HEAD);
         l = load_assoc (j_guid junk) v (load_data (j_data junk) v
               (load_tag (u16_of_bytes (blobType k) (option_byte k)) v (load_start junk k m g src)))
     in (l_status l, if l_status l \<noteq> ER_OK then (l_blob l)\<lparr>blobType := EMPTY\<rparr> else l_blob l, l_src l))"
proof -
  have pull: "PullBytes (option_byte k # blobType k # xs) 2 = (ER_OK, [option_byte k, blobType k], xs)" for xs
    by (simp add: PullBytes_def)
  have t: "\<not> INVALID \<le> blobType k" "length (j_u16 junk) = 2"
    using assms by (auto simp: storable_def junk_ok_def)
  have "l_status (load_start junk k m g src) = ER_OK" for m
    using load_start_stored [OF assms, of m g src] by (auto simp: load_mid_def)
  moreover have "Load junk (new_KeyBlob (kb_version k) g)
     ([option_byte k, blobType k] @
      (if seconds (expiration k) \<noteq> 0 then le64 (seconds (expiration k)) @ le16 (mseconds (expiration k)) else []) @ src) =
    (let l1 = load_start junk k (if option_byte k AND 0x20 = 0 then ASSOCIATE_NONE else ASSOCIATE_HEAD) g src;
         v = (if l_status l1 = ER_OK \<and> option_byte k AND 0x40 \<noteq> 0 then option_byte k AND 0xF else 0);
         l = load_assoc (j_guid junk) v (load_data (j_data junk) v
               (load_tag (u16_of_bytes (blobType k) (option_byte k)) v l1))
     in (l_status l, if l_status l \<noteq> ER_OK then (l_blob l)\<lparr>blobType := EMPTY\<rparr> else l_blob l, l_src l))"
    using t by (cases "option_byte k AND 0x20 = 0")
      (simp_all add: Load_def pull Erase_def flag_bytes flag_tests load_start_def new_KeyBlob_def Let_def)
  ultimately show ?thesis by (simp add: Let_def)
qed

text \<open>Tag and data, behind the expiration.\<close>

lemma load_tag_data:
  assumes "storable k" and "junk_ok junk" and "length u = 2"
    and "v = 0 \<and> kb_version k = 0 \<and> src = src' \<or> v = 1 \<and> kb_version k = 1 \<and> src = word_of_nat (length (tag k)) # src'"
    and "src' = map char_byte (tag k) @ le16 (word_of_nat (length (kb_data k))) @ kb_data k @ rest"
  shows "load_data (j_data junk) v (load_tag (u16_of_bytes (blobType k) (option_byte k)) v (load_mid k m g src u)) =
    \<lparr>l_status = ER_OK, l_blob = k\<lparr>associationMode := m, association := g\<rparr>, l_src = rest,
     l_u16 = le16 (word_of_nat (length (kb_data k)))\<rparr>"
proof -
  let ?rest = "le16 (word_of_nat (length (kb_data k))) @ kb_data k @ rest"
  let ?l = "(load_mid k m g ?rest u)\<lparr>l_blob := (l_blob (load_mid k m g ?rest u))\<lparr>tag := tag k\<rparr>\<rparr>"
  have "load_tag (u16_of_bytes (blobType k) (option_byte k)) v (load_mid k m g src u) = ?l"
    using assms(1,4,5)
      load_tag_v0 [of "u16_of_bytes (blobType k) (option_byte k)" "tag k" "load_mid k m g src' u" ?rest]
      load_tag_v1 [of "tag k" "load_mid k m g src u" ?rest "u16_of_bytes (blobType k) (option_byte k)"]
    by (auto simp: load_mid_def new_KeyBlob_def flag_tests option_byte_v0 storable_def)
  moreover have "load_data (j_data junk) v ?l = ?l\<lparr>l_src := rest, l_blob := (l_blob ?l)\<lparr>kb_data := kb_data k\<rparr>,
      l_u16 := le16 (word_of_nat (length (kb_data k)))\<rparr>"
    using assms by (intro load_data_stored) (auto simp: load_mid_def storable_def junk_ok_def)
  ultimately show ?thesis
    using assms(1) by (simp add: load_mid_def new_KeyBlob_def storable_def KeyBlob.equality)
qed

subsection \<open>Properties\<close>

text \<open>
  C19. A key blob that holds what its version can express survives storing and loading: the
  loader succeeds, reads exactly the bytes that were stored, and gives the same type, data,
  tag, expiration and association, whatever its variables held before.
\<close>

theorem keyblob_store_load:
  assumes "storable k" and "junk_ok junk"
  shows "Load junk (new_KeyBlob (kb_version k) g) (Store k @ rest) =
    (ER_OK, k\<lparr>association := (if associationMode k \<in> {ASSOCIATE_MEMBER, ASSOCIATE_BOTH} then association k else g)\<rparr>, rest)"
proof (cases "kb_version k = 0")
  case True
  then have v: "length (tag k) < 32" "length (kb_data k) \<le> 4096" "associationMode k = ASSOCIATE_NONE"
    using assms(1) by (auto simp: storable_def)
  let ?src = "map char_byte (tag k) @ le16 (word_of_nat (length (kb_data k))) @ kb_data k @ rest"
  obtain u where u: "length u = 2" "load_start junk k ASSOCIATE_NONE g ?src = load_mid k ASSOCIATE_NONE g ?src u"
    using load_start_stored [OF assms, of ASSOCIATE_NONE g ?src] by blast
  show ?thesis
    using Load_stages [OF assms, of g ?src] load_tag_data [OF assms u(1), of 0 ?src ?src rest ASSOCIATE_NONE g] True v u(2)
    by (simp add: Store_shape [OF assms(1)] option_byte_v0 load_assoc_def)
next
  case False
  then have v: "kb_version k = 1" "length (tag k) < 256" "length (kb_data k) < 65536"
    "associationMode k \<in> {ASSOCIATE_MEMBER, ASSOCIATE_BOTH} \<longrightarrow> length (association k) = 16"
    using assms(1) by (auto simp: storable_def)
  let ?m = "if associationMode k \<in> {ASSOCIATE_HEAD, ASSOCIATE_BOTH} then ASSOCIATE_HEAD else ASSOCIATE_NONE"
  let ?assoc = "(if associationMode k \<in> {ASSOCIATE_MEMBER, ASSOCIATE_BOTH} then 16 # association k else [0]) @ rest"
  let ?src = "word_of_nat (length (tag k)) # map char_byte (tag k) @ le16 (word_of_nat (length (kb_data k))) @
      kb_data k @ ?assoc"
  obtain u where u: "length u = 2" "load_start junk k ?m g ?src = load_mid k ?m g ?src u"
    using load_start_stored [OF assms, of ?m g ?src] by blast
  let ?l = "\<lparr>l_status = ER_OK, l_blob = k\<lparr>associationMode := ?m, association := g\<rparr>, l_src = ?assoc,
      l_u16 = le16 (word_of_nat (length (kb_data k)))\<rparr>"
  have l: "load_data (j_data junk) 1 (load_tag (u16_of_bytes (blobType k) (option_byte k)) 1
      (load_start junk k ?m g ?src)) = ?l"
    unfolding u(2) using assms u(1) v(1) by (intro load_tag_data) auto
  have "load_assoc (j_guid junk) 1 ?l = ?l\<lparr>l_src := rest, l_blob := (l_blob ?l)\<lparr>associationMode := associationMode k,
      association := (if associationMode k \<in> {ASSOCIATE_MEMBER, ASSOCIATE_BOTH} then association k else g)\<rparr>\<rparr>"
    using load_assoc_stored [of ?l "j_guid junk" "associationMode k" "association k" rest] assms(2) v(4)
    by (simp add: junk_ok_def)
  note a = this
  have e: "Store k @ rest = [option_byte k, blobType k] @
      (if seconds (expiration k) \<noteq> 0 then le64 (seconds (expiration k)) @ le16 (mseconds (expiration k)) else []) @ ?src"
    using v(1) by (simp add: Store_shape [OF assms(1)])
  have o: "(if option_byte k AND 0x40 = 0 then 0 else option_byte k AND 0xF) = 1"
    "(if option_byte k AND 0x20 = 0 then ASSOCIATE_NONE else ASSOCIATE_HEAD) = ?m"
    using v(1) by (simp_all add: option_byte_v1)
  show ?thesis
    unfolding e Load_stages [OF assms] o Let_def l a by simp
qed

text \<open>A concrete blob of version 1 with an expiration, an association and a tag.\<close>

definition sample_blob :: KeyBlob where
  "sample_blob =
     \<lparr>kb_version = 1, blobType = AES, expiration = \<lparr>seconds = 1400000000, mseconds = 250\<rparr>,
      kb_data = [1, 2, 3, 4], tag = ''GroupKey'', role = NO_ROLE, associationMode = ASSOCIATE_BOTH,
      association = replicate 16 7\<rparr>"

definition sample_junk :: load_junk where
  "sample_junk = \<lparr>j_u16 = [1, 2], j_u64 = replicate 8 3, j_data = (\<lambda>n. replicate n 4), j_guid = replicate 16 5\<rparr>"

theorem keyblob_store_load_witness:
  "Load sample_junk (new_KeyBlob (kb_version sample_blob) []) (Store sample_blob @ [9]) = (ER_OK, sample_blob, [9])"
proof -
  have "storable sample_blob" "junk_ok sample_junk"
    by (simp_all add: storable_def sample_blob_def AES_def EMPTY_def INVALID_def junk_ok_def sample_junk_def)
  from keyblob_store_load [OF this, of "[]" "[9]"] show ?thesis by (simp add: sample_blob_def)
qed

text \<open>
  The loader lets a blob of an unknown type through. The check of the type sets an error,
  but a blob without a version flag then reads its tag, and the status of that read replaces
  the error: the bytes of a blob of type 9 load successfully, as do those of every other
  type byte, with the type as it stands.
\<close>

theorem keyblob_bad_type_accepted:
  "Load sample_junk (new_KeyBlob 1 []) [0, t, 1, 0, 42] =
     (ER_OK, (new_KeyBlob 1 [])\<lparr>blobType := t, kb_data := [42]\<rparr>, [])"
proof -
  let ?f = "u16_of_bytes t 0"
  let ?l = "\<lparr>l_status = if INVALID \<le> t then ER_CORRUPT_KEYBLOB else ER_OK, l_blob = (new_KeyBlob 1 [])\<lparr>blobType := t\<rparr>,
      l_src = [1, 0, 42], l_u16 = [0, t]\<rparr>"
  have pull: "PullBytes [0, t, 1, 0, 42] 2 = (ER_OK, [0, t], [1, 0, 42])" by (simp add: PullBytes_def)
  have size: "unat (u16_of_bytes 0 1) = 1" by (simp add: u16_of_bytes_def)
  have "into (j_u16 sample_junk) [0, t] = [0, t]" "Erase (new_KeyBlob 1 []) = new_KeyBlob 1 []"
    by (simp_all add: sample_junk_def Erase_def new_KeyBlob_def)
  then have "Load sample_junk (new_KeyBlob 1 []) [0, t, 1, 0, 42] =
     (let l = load_assoc (j_guid sample_junk) 0 (load_data (j_data sample_junk) 0 (load_tag ?f 0
         (load_expiry (j_u64 sample_junk) ?f ?l)))
      in (l_status l, if l_status l \<noteq> ER_OK then (l_blob l)\<lparr>blobType := EMPTY\<rparr> else l_blob l, l_src l))"
    by (simp add: Load_def pull flag_bytes flag_tests Let_def)
  also have "load_expiry (j_u64 sample_junk) ?f ?l = ?l"
    by (simp add: load_expiry_def flag_tests)
  also have "load_tag ?f 0 ?l = ?l\<lparr>l_status := ER_OK\<rparr>"
    by (simp add: load_tag_def flag_tests PullBytes_def)
  also have "load_data (j_data sample_junk) 0 (?l\<lparr>l_status := ER_OK\<rparr>) =
      \<lparr>l_status = ER_OK, l_blob = (new_KeyBlob 1 [])\<lparr>blobType := t, kb_data := [42]\<rparr>, l_src = [], l_u16 = [1, 0]\<rparr>"
    using size by (simp add: load_data_def PullBytes_def into_def sample_junk_def)
  finally show ?thesis by (simp add: load_assoc_def)
qed

end
