(* ===== verification/Peer_State.thy ===== *)
theory Peer_State
  imports Match_Rules Key_Blob
begin

text \<open>
  What a bus attachment remembers of its peers, \<^verbatim>\<open>alljoyn_core/src/PeerState.cc\<close> and
  \<^verbatim>\<open>PeerState.h\<close>: the window of serial numbers that guards against replayed messages,
  the estimate of the clock offset, the authorizations, and the table from bus names to
  peer states. Two names of one peer share its state, so the table holds handles. The
  clock, the random bytes of a new key and what a new object finds in the members its
  constructor leaves alone are inputs. \<open>None\<close> is a failed assertion.
\<close>

unbundle bit_operations_syntax

subsection \<open>The state of one peer\<close>

datatype PeerKeyType = PEER_SESSION_KEY | PEER_GROUP_KEY

fun key_index :: "PeerKeyType \<Rightarrow> nat" where
  "key_index PEER_SESSION_KEY = 0"
| "key_index PEER_GROUP_KEY = 1"

record PeerState =
  clockOffset :: u32
  firstClockAdjust :: bool
  lastDriftAdjustTime :: u32
  isSecure :: bool
  authEvent :: "nat option"
  peer_guid :: "byte list"
  authVersion :: u32
  authorizations :: "byte list"
  keys :: "KeyBlob list"
  window :: "u32 list"

definition winSize :: nat where
  "winSize = 128"

text \<open>\<open>g\<close>: the random GUIDs of a new object, \<open>v\<close>: its uninitialised version.\<close>

definition new_PeerState :: "byte list \<times> u32 \<Rightarrow> PeerState" where
  "new_PeerState i =
     (case i of (g, v) \<Rightarrow>
     \<lparr>clockOffset = 0x7FFFFFFF, firstClockAdjust = True, lastDriftAdjustTime = 0,
      isSecure = False, authEvent = None, peer_guid = g, authVersion = v, authorizations = replicate 4 0,
      keys = [new_KeyBlob 1 g, new_KeyBlob 1 g], window = replicate winSize 0\<rparr>)"

definition SetGuidAndAuthVersion :: "byte list \<Rightarrow> u32 \<Rightarrow> PeerState \<Rightarrow> PeerState" where
  "SetGuidAndAuthVersion g v p = p\<lparr>peer_guid := g, authVersion := v\<rparr>"

definition SetAuthEvent :: "nat option \<Rightarrow> PeerState \<Rightarrow> PeerState" where
  "SetAuthEvent e p = p\<lparr>authEvent := e\<rparr>"

text \<open>
  The clock offset is a signed 32-bit number; differences and the drift correction wrap as
  two's complement. \<open>local\<close> is the reading of the local clock.
\<close>

definition EstimateTimestamp :: "u32 \<Rightarrow> u32 \<Rightarrow> PeerState \<Rightarrow> u32 \<times> PeerState" where
  "EstimateTimestamp local remote p =
     (let delta = local - remote;
          oldOffset = clockOffset p;
          p1 = (if local - lastDriftAdjustTime p > 10000
                then p\<lparr>lastDriftAdjustTime := local, clockOffset := clockOffset p + 1\<rparr> else p);
          p2 = (if sint (oldOffset - delta) > 0 \<or> firstClockAdjust p1
                then p1\<lparr>clockOffset := delta, firstClockAdjust := False\<rparr> else p1)
      in (remote + clockOffset p2, p2))"

text \<open>The macro, with its sums at 32 bits.\<close>

definition IN_RANGE :: "u32 \<Rightarrow> u32 \<Rightarrow> u32 \<Rightarrow> bool" where
  "IN_RANGE val start sz \<longleftrightarrow>
     (start \<le> start + sz \<and> val \<ge> start \<and> val < start + sz) \<or>
     (start > start + sz \<and> \<not> (val \<ge> start + sz \<and> val < start))"

definition IsValidSerial :: "u32 \<Rightarrow> PeerState \<Rightarrow> bool \<times> PeerState" where
  "IsValidSerial serial p =
     (if serial \<noteq> 0 then
        (let i = unat serial mod winSize; entry = window p ! i in
         if entry \<noteq> serial \<and> IN_RANGE serial entry 0x7FFFFFFF
         then (True, p\<lparr>window := (window p)[i := serial]\<rparr>)
         else (False, p))
      else (False, p))"

definition ALLOW_SECURE_TX :: byte where "ALLOW_SECURE_TX = 1"
definition ALLOW_SECURE_RX :: byte where "ALLOW_SECURE_RX = 2"

fun type_index :: "AllJoynMessageType \<Rightarrow> nat" where
  "type_index MESSAGE_METHOD_CALL = 0"
| "type_index MESSAGE_METHOD_RET = 1"
| "type_index MESSAGE_ERROR = 2"
| "type_index MESSAGE_SIGNAL = 3"
| "type_index MESSAGE_INVALID = 4"

definition IsAuthorized :: "AllJoynMessageType \<Rightarrow> byte \<Rightarrow> PeerState \<Rightarrow> bool" where
  "IsAuthorized msgType access p =
     (if msgType = MESSAGE_INVALID then False
      else if isSecure p then authorizations p ! type_index msgType AND access = access
      else True)"

definition SetAuthorization :: "AllJoynMessageType \<Rightarrow> byte \<Rightarrow> PeerState \<Rightarrow> PeerState" where
  "SetAuthorization msgType access p =
     (if msgType \<noteq> MESSAGE_INVALID then
        (let i = type_index msgType in
         p\<lparr>authorizations := (authorizations p)
            [i := (if access \<noteq> 0 then authorizations p ! i OR access else 0)]\<rparr>)
      else p)"

definition SetKey :: "KeyBlob \<Rightarrow> PeerKeyType \<Rightarrow> PeerState \<Rightarrow> PeerState option" where
  "SetKey key keyType p =
     map_option (\<lambda>k. p\<lparr>keys := (keys p)[key_index keyType := k], isSecure := kb_IsValid key\<rparr>)
       (kb_assign (keys p ! key_index keyType) key)"

definition ClearKeys :: "PeerState \<Rightarrow> PeerState" where
  "ClearKeys p = p\<lparr>keys := map Erase (keys p), isSecure := False\<rparr>"

text \<open>\<open>key\<close> is the caller's blob, which is assigned to before the check of its expiration.\<close>

definition GetKey :: "Timespec \<Rightarrow> PeerKeyType \<Rightarrow> KeyBlob \<Rightarrow> PeerState \<Rightarrow> (QStatus \<times> KeyBlob \<times> PeerState) option" where
  "GetKey now keyType key p =
     (if isSecure p then
        map_option (\<lambda>k. if HasExpired now k then (ER_BUS_KEY_EXPIRED, k, ClearKeys p) else (ER_OK, k, p))
          (kb_assign key (keys p ! key_index keyType))
      else Some (ER_BUS_KEY_UNAVAILABLE, key, p))"

subsection \<open>The table of peers\<close>

record PeerStateTable =
  peerMap :: "(string \<times> nat) list"
  peers :: "nat \<Rightarrow> PeerState"
  next_peer :: nat
  fresh :: "nat \<Rightarrow> byte list \<times> u32"

text \<open>A default-constructed peer state is a new object.\<close>

definition alloc :: "PeerStateTable \<Rightarrow> nat \<times> PeerStateTable" where
  "alloc t = (next_peer t, t\<lparr>peers := (peers t)(next_peer t := new_PeerState (fresh t (next_peer t))), next_peer := Suc (next_peer t)\<rparr>)"

text \<open>\<^verbatim>\<open>peerMap[name]\<close>\<close>

definition peer_at :: "string \<Rightarrow> PeerStateTable \<Rightarrow> nat \<times> PeerStateTable" where
  "peer_at name t =
     (case map_of (peerMap t) name of
        Some h \<Rightarrow> (h, t)
      | None \<Rightarrow> (case alloc t of (h, t1) \<Rightarrow> (h, t1\<lparr>peerMap := map_put name h (peerMap t1)\<rparr>)))"

definition GetPeerState :: "string \<Rightarrow> bool \<Rightarrow> PeerStateTable \<Rightarrow> nat \<times> PeerStateTable" where
  "GetPeerState busName createIfUnknown t =
     (if map_of (peerMap t) busName \<noteq> None \<or> createIfUnknown then peer_at busName t else alloc t)"

definition GetPeerState_alias :: "string \<Rightarrow> string \<Rightarrow> PeerStateTable \<Rightarrow> (nat \<times> PeerStateTable) option" where
  "GetPeerState_alias uniqueName aliasName t =
     (if peek uniqueName \<noteq> CHR '':'' then None
      else Some (case map_of (peerMap t) uniqueName of
        None \<Rightarrow>
          (case peer_at aliasName t of (result, t1) \<Rightarrow>
             (result, t1\<lparr>peerMap := map_put uniqueName result (peerMap t1)\<rparr>))
      | Some result \<Rightarrow> (result, t\<lparr>peerMap := map_put aliasName result (peerMap t)\<rparr>)))"

definition IsKnownPeer :: "string \<Rightarrow> PeerStateTable \<Rightarrow> bool" where
  "IsKnownPeer busName t \<longleftrightarrow> map_of (peerMap t) busName \<noteq> None"

definition IsAlias :: "string \<Rightarrow> string \<Rightarrow> PeerStateTable \<Rightarrow> bool \<times> PeerStateTable" where
  "IsAlias name1 name2 t =
     (if name1 = name2 then (True, t)
      else (case GetPeerState name1 True t of (h1, t1) \<Rightarrow>
              (case GetPeerState name2 True t1 of (h2, t2) \<Rightarrow> (h1 = h2, t2))))"

definition DelPeerState :: "string \<Rightarrow> PeerStateTable \<Rightarrow> PeerStateTable" where
  "DelPeerState busName t = t\<lparr>peerMap := AList.delete busName (peerMap t)\<rparr>"

definition GetGroupKey :: "Timespec \<Rightarrow> KeyBlob \<Rightarrow> PeerStateTable \<Rightarrow> (KeyBlob \<times> PeerStateTable) option" where
  "GetGroupKey now key t =
     (case GetPeerState [] True t of (h, t1) \<Rightarrow>
        map_option (\<lambda>(status, k, p).
            (k, t1\<lparr>peers := (peers t1)(h := SetAuthorization MESSAGE_SIGNAL ALLOW_SECURE_TX p)\<rparr>))
          (GetKey now PEER_SESSION_KEY key (peers t1 h)))"

text \<open>A new group key of version 0, of random bytes.\<close>

definition group_key :: "byte list \<Rightarrow> byte list \<Rightarrow> KeyBlob" where
  "group_key random g = SetTag ''GroupKey'' NO_ROLE (Rand random AES (new_KeyBlob 0 g))"

definition Clear :: "byte list \<Rightarrow> byte list \<Rightarrow> PeerStateTable \<Rightarrow> PeerStateTable option" where
  "Clear random g t =
     (case alloc (t\<lparr>peerMap := []\<rparr>) of (h, t1) \<Rightarrow>
        map_option (\<lambda>p. t1\<lparr>peers := (peers t1)(h := p), peerMap := map_put [] h (peerMap t1)\<rparr>)
          (SetKey (group_key random g) PEER_SESSION_KEY (peers t1 h)))"

subsection \<open>Serial numbers\<close>

text \<open>The macro is a test on the distance around the circle of 32-bit numbers.\<close>

lemma unat_bound32: "unat (w :: u32) < 2 ^ 32"
  using unsigned_less [of w] by simp

lemma unat_add32: "unat (a + b :: u32) = (if unat a + unat b < 2 ^ 32 then unat a + unat b else unat a + unat b - 2 ^ 32)"
  by (simp add: unat_plus_if')

lemma unat_sub32: "unat (a - b :: u32) = (if unat b \<le> unat a then unat a - unat b else unat a + 2 ^ 32 - unat b)"
  by (simp add: unat_sub_if')

lemma IN_RANGE_distance: "IN_RANGE val start sz \<longleftrightarrow> val - start < sz"
  using unat_bound32 [of val] unat_bound32 [of start] unat_bound32 [of sz]
  unfolding IN_RANGE_def word_less_nat_alt word_le_nat_alt unat_add32 unat_sub32
  by (simp split: if_split) linarith

lemma window_entry:
  "length (window p) = winSize \<Longrightarrow> unat s mod winSize < length (window p)"
  by (simp add: winSize_def)

text \<open>The serial numbers that are accepted, and the state after them.\<close>

fun serials :: "u32 list \<Rightarrow> PeerState \<Rightarrow> bool list \<times> PeerState" where
  "serials [] p = ([], p)"
| "serials (s # ss) p = (case IsValidSerial s p of (b, p1) \<Rightarrow> (case serials ss p1 of (bs, p2) \<Rightarrow> (b # bs, p2)))"

lemma IsValidSerial_window:
  assumes "IsValidSerial s p = (b, p')" and "length (window p) = winSize"
  shows "length (window p') = winSize \<and>
    (\<forall>i. window p' ! i = (if b \<and> i = unat s mod winSize then s else window p ! i))"
  using assms window_entry [of p s]
  by (auto simp: IsValidSerial_def Let_def nth_list_update split: if_splits)

lemma IsValidSerial_accepts:
  "fst (IsValidSerial s p) \<longleftrightarrow>
     s \<noteq> 0 \<and> window p ! (unat s mod winSize) \<noteq> s \<and> s - window p ! (unat s mod winSize) < 0x7FFFFFFF"
  by (simp add: IsValidSerial_def IN_RANGE_distance Let_def)

text \<open>
  As long as the serial numbers that follow are not more than half the circle ahead of
  \<open>s\<close>, the entry of its slot stays in that half.
\<close>

lemma serials_slot:
  assumes "length (window p) = winSize" and "unat (window p ! i - s) \<le> 2 ^ 31"
    and "list_all (\<lambda>t. unat (t - s) \<le> 2 ^ 31) ts"
  shows "unat (window (snd (serials ts p)) ! i - s) \<le> 2 ^ 31"
  using assms
proof (induction ts arbitrary: p)
  case (Cons t ts)
  obtain b p1 where v: "IsValidSerial t p = (b, p1)" by force
  note w = IsValidSerial_window [OF v Cons.prems(1)]
  then have "unat (window p1 ! i - s) \<le> 2 ^ 31" using Cons.prems by simp
  then have "unat (window (snd (serials ts p1)) ! i - s) \<le> 2 ^ 31"
    using Cons.prems w by (intro Cons.IH) auto
  with v show ?case by (cases "serials ts p1") simp
qed simp

lemma half_circle_rejects:
  assumes "unat (e - s) \<le> 2 ^ 31" and "s - e < (0x7FFFFFFF :: u32)"
  shows "e = s"
proof -
  have "unat (s - e) < 2 ^ 31 - 1" using assms(2) by (simp add: word_less_nat_alt)
  with assms(1) unat_bound32 [of s] unat_bound32 [of e] have "unat e = unat s"
    unfolding unat_sub32 by (simp split: if_splits)
  then show ?thesis by (simp add: word_unat_eq_iff)
qed

text \<open>In-order arrival up to the size of the window.\<close>

definition in_window :: "u32 \<Rightarrow> u32 \<Rightarrow> bool" where
  "in_window a b \<longleftrightarrow> a \<noteq> b \<and> unat a < unat b + winSize"

definition slots :: "PeerState \<Rightarrow> bool" where
  "slots p \<longleftrightarrow> length (window p) = winSize \<and>
     (\<forall>i < winSize. window p ! i = 0 \<or> unat (window p ! i) mod winSize = i)"

lemma same_slot_before:
  fixes a b :: nat
  assumes "a mod 128 = b mod 128" and "a \<noteq> b" and "a < b + 128"
  shows "a < b"
proof (rule ccontr)
  assume "\<not> a < b"
  with assms have d: "128 dvd a - b" "0 < a - b" "a - b < 128"
    by (auto simp: mod_eq_dvd_iff_nat)
  then show False using dvd_imp_le [OF d(1,2)] by simp
qed

lemma in_window_accepted:
  assumes "slots p" and "\<forall>e \<in> set (window p). e = 0 \<or> in_window e s"
    and "s \<noteq> 0" and "unat s < 2 ^ 31 - 1"
  shows "fst (IsValidSerial s p)"
proof -
  let ?i = "unat s mod winSize"
  let ?e = "window p ! ?i"
  have i: "?i < winSize" by (simp add: winSize_def)
  then have e: "?e = 0 \<or> in_window ?e s" and r: "?e = 0 \<or> unat ?e mod winSize = ?i"
    using assms(1,2) by (auto simp: slots_def)
  have "?e \<noteq> s \<and> unat ?e \<le> unat s"
  proof (cases "?e = 0")
    case False
    with e r have w: "in_window ?e s" "unat ?e mod winSize = ?i" by simp_all
    then have "unat ?e < unat s"
      using same_slot_before [of "unat ?e" "unat s"] by (simp add: in_window_def winSize_def word_unat_eq_iff)
    with w show ?thesis by (simp add: in_window_def)
  qed (use assms(3) in auto)
  moreover from this have "s - ?e < 0x7FFFFFFF"
    using assms(4) by (simp add: word_less_nat_alt unat_sub32)
  ultimately show ?thesis using assms(3) by (simp add: IsValidSerial_accepts)
qed

lemma serials_in_window:
  assumes "slots p" and "\<forall>e \<in> set (window p). e = 0 \<or> (\<forall>s \<in> set ss. in_window e s)"
    and "sorted_wrt in_window ss" and "list_all (\<lambda>s. s \<noteq> 0 \<and> unat s < 2 ^ 31 - 1) ss"
  shows "fst (serials ss p) = replicate (length ss) True"
  using assms
proof (induction ss arbitrary: p)
  case (Cons s ss)
  have acc: "fst (IsValidSerial s p)" using Cons.prems by (intro in_window_accepted) auto
  then obtain p1 where v: "IsValidSerial s p = (True, p1)" by (metis prod.collapse)
  have len: "length (window p) = winSize" using Cons.prems(1) by (simp add: slots_def)
  note w = IsValidSerial_window [OF v len]
  have "slots p1" using w Cons.prems(1) by (auto simp: slots_def)
  moreover have "\<forall>e \<in> set (window p1). e = 0 \<or> (\<forall>s \<in> set ss. in_window e s)"
  proof
    fix e assume "e \<in> set (window p1)"
    then obtain i where i: "i < winSize" "e = window p1 ! i" using w by (metis in_set_conv_nth)
    then have "e = s \<or> e \<in> set (window p)" using w len by (metis nth_mem)
    then show "e = 0 \<or> (\<forall>s \<in> set ss. in_window e s)" using Cons.prems(2,3) by auto
  qed
  ultimately have "fst (serials ss p1) = replicate (length ss) True"
    using Cons.prems by (intro Cons.IH) auto
  with v show ?case by (cases "serials ss p1") simp
qed simp

lemma sint_succ_le:
  assumes "sint (x :: u32) \<le> 0"
  shows "sint (x + 1) \<le> 1"
proof -
  have b: "- (2 ^ 31) \<le> sint x" using sint_ge [of x] by simp
  have "sint (word_of_int (sint x + 1) :: u32) = sint x + 1"
    using b assms by (subst sint_sbintrunc') (simp add: signed_take_bit_int_eq_self)
  moreover have "word_of_int (sint x + 1) = x + 1" by simp
  ultimately show ?thesis using assms by simp
qed

subsection \<open>Properties\<close>

text \<open>
  C4. A replayed message is refused: once a serial number has been accepted it is not accepted
  again, whatever other serial numbers arrive in between, as long as those are at most
  \<open>2 ^ 31\<close> ahead of it.
\<close>

theorem replay_rejected:
  assumes "length (window p) = winSize" and "fst (IsValidSerial s p)"
    and "list_all (\<lambda>t. unat (t - s) \<le> 2 ^ 31) ts"
  shows "\<not> fst (IsValidSerial s (snd (serials ts (snd (IsValidSerial s p)))))"
proof -
  let ?i = "unat s mod winSize"
  obtain p1 where v: "IsValidSerial s p = (True, p1)" using assms(2) by (metis prod.collapse)
  note w = IsValidSerial_window [OF v assms(1)]
  have "unat (window (snd (serials ts p1)) ! ?i - s) \<le> 2 ^ 31"
    using w assms(3) by (intro serials_slot) auto
  then show ?thesis using v half_circle_rejects [of "window (snd (serials ts p1)) ! ?i" s]
    by (auto simp: IsValidSerial_accepts)
qed

theorem replay_rejected_witness:
  "\<not> fst (IsValidSerial 5 (snd (serials [6, 133, 7] (snd (IsValidSerial 5 (new_PeerState ([], 0)))))))"
  by (rule replay_rejected)
     (simp_all add: new_PeerState_def winSize_def IsValidSerial_def IN_RANGE_def)

text \<open>
  C24. No message of a new peer is lost to the check: if the messages since the state of the
  peer was made carry different serial numbers, all below \<open>2 ^ 31 - 1\<close> and none zero, and
  none arrives after one whose number is 128 or more larger, every one of them is accepted.
\<close>

theorem window_accepts_reordered:
  assumes "sorted_wrt in_window ss" and "list_all (\<lambda>s. s \<noteq> 0 \<and> unat s < 2 ^ 31 - 1) ss"
  shows "fst (serials ss (new_PeerState i)) = replicate (length ss) True"
  using assms by (intro serials_in_window) (auto simp: slots_def new_PeerState_def split: prod.split)

theorem window_accepts_reordered_witness:
  "fst (serials [3, 1, 2, 129, 130, 4] (new_PeerState ([], 0))) = replicate (length [3, 1, 2, 129, 130, 4 :: u32]) True"
  by (rule window_accepts_reordered) (simp_all add: in_window_def winSize_def)

text \<open>
  C27. The estimate of a remote time stamp is the local time at the first message, and later it
  is never more than one millisecond ahead of the local clock.
\<close>

theorem estimate_not_ahead:
  "fst (EstimateTimestamp now remote (p\<lparr>firstClockAdjust := True\<rparr>)) = now \<and>
   sint (fst (EstimateTimestamp now remote p) - now) \<le> 1"
proof -
  define d where "d = clockOffset p - (now - remote)"
  define e where "e = fst (EstimateTimestamp now remote p)"
  have exact: "sint d > 0 \<or> firstClockAdjust p \<Longrightarrow> e = now"
    by (auto simp: e_def d_def EstimateTimestamp_def Let_def)
  have "e - now \<in> {0, d, d + 1}"
    by (auto simp: e_def d_def EstimateTimestamp_def Let_def algebra_simps)
  then have "sint (e - now) \<le> 1" if "\<not> sint d > 0"
    using that sint_succ_le [of d] by (auto simp del: diff_eq_eq)
  with exact have "sint (e - now) \<le> 1" by (cases "sint d > 0") simp_all
  then show ?thesis by (simp add: e_def EstimateTimestamp_def Let_def)
qed

text \<open>
  Asking for the state of a peer by its unique name and an alias makes the two names share
  one state: the one known under the unique name, else the one known under the alias, else
  a new one. No other name is affected, and \<open>IsAlias\<close> says so afterwards without
  changing the table.
\<close>

theorem peer_alias_shares_state:
  "case GetPeerState_alias u a t of
     None \<Rightarrow> peek u \<noteq> CHR '':''
   | Some (h, t') \<Rightarrow>
     map_of (peerMap t') = (map_of (peerMap t))(a \<mapsto> h, u \<mapsto> h) \<and>
     h = (case (map_of (peerMap t) u, map_of (peerMap t) a) of
            (Some h1, _) \<Rightarrow> h1 | (None, Some h2) \<Rightarrow> h2 | (None, None) \<Rightarrow> next_peer t) \<and>
     IsAlias u a t' = (True, t')"
  by (auto simp: GetPeerState_alias_def peer_at_def alloc_def IsAlias_def GetPeerState_def fun_eq_iff split: option.splits)

text \<open>
  Granting a right to a peer grants that right for that type of message, takes away no
  right it had, and gives none for another type.
\<close>

theorem authorization_granted:
  assumes "length (authorizations p) = 4" and "ty \<noteq> MESSAGE_INVALID" and "acc \<noteq> 0"
  shows "IsAuthorized ty acc (SetAuthorization ty acc p) \<and>
     (IsAuthorized ty' acc' p \<longrightarrow> IsAuthorized ty' acc' (SetAuthorization ty acc p)) \<and>
     (ty' \<noteq> ty \<longrightarrow> IsAuthorized ty' acc' (SetAuthorization ty acc p) = IsAuthorized ty' acc' p)"
proof -
  have i: "type_index ty < 4" using assms(2) by (cases ty) simp_all
  have inj: "type_index ty = type_index ty' \<longleftrightarrow> ty = ty'" by (cases ty; cases ty') simp_all
  have or: "(x OR acc) AND acc = acc" "x AND b = b \<Longrightarrow> (x OR acc) AND b = b" for x b
    by (simp_all add: bit_eq_iff bit_simps) blast
  show ?thesis
    using assms i inj or by (auto simp: IsAuthorized_def SetAuthorization_def Let_def nth_list_update)
qed

theorem authorization_granted_witness:
  "IsAuthorized MESSAGE_SIGNAL ALLOW_SECURE_TX
     (SetAuthorization MESSAGE_SIGNAL ALLOW_SECURE_TX ((new_PeerState ([], 0))\<lparr>isSecure := True\<rparr>)) \<and>
   \<not> IsAuthorized MESSAGE_ERROR ALLOW_SECURE_TX
     (SetAuthorization MESSAGE_SIGNAL ALLOW_SECURE_TX ((new_PeerState ([], 0))\<lparr>isSecure := True\<rparr>))"
proof -
  let ?p = "(new_PeerState ([], 0))\<lparr>isSecure := True\<rparr>"
  have "length (authorizations ?p) = 4" "ALLOW_SECURE_TX \<noteq> 0"
    by (simp_all add: new_PeerState_def ALLOW_SECURE_TX_def)
  moreover have "\<not> IsAuthorized MESSAGE_ERROR ALLOW_SECURE_TX ?p"
    by (simp add: new_PeerState_def ALLOW_SECURE_TX_def IsAuthorized_def)
  ultimately show ?thesis
    using authorization_granted [of ?p MESSAGE_SIGNAL ALLOW_SECURE_TX MESSAGE_ERROR ALLOW_SECURE_TX] by simp
qed

text \<open>
  C28. After the table is cleared with 16 random bytes, the group key can be had as long as it
  is asked for: it is an AES key of these bytes with the tag \<open>GroupKey\<close>, it does not
  expire, and the group peer may send encrypted signals with it.
\<close>

theorem group_key_after_clear:
  assumes "length random = 16"
  shows "\<exists>t1 t2 key. Clear random g t = Some t1 \<and> GetGroupKey now k t1 = Some (key, t2) \<and>
     blobType key = AES \<and> kb_data key = random \<and> tag key = ''GroupKey'' \<and>
     (\<exists>h. GetPeerState [] True t2 = (h, t2) \<and> isSecure (peers t2 h) \<and>
        IsAuthorized MESSAGE_SIGNAL ALLOW_SECURE_TX (peers t2 h))"
proof -
  have k: "group_key random g = (new_KeyBlob 0 g)\<lparr>blobType := AES, kb_data := random, tag := ''GroupKey''\<rparr>"
    using assms by (simp add: group_key_def SetTag_def Rand_def Erase_def cut16_def new_KeyBlob_def MAX_TAG_LEN_def
        AES_def EMPTY_def)
  show ?thesis
    unfolding Clear_def k
    by (auto simp: GetGroupKey_def GetPeerState_def peer_at_def alloc_def SetKey_def kb_assign_def GetKey_def
        HasExpired_def kb_IsValid_def new_KeyBlob_def new_PeerState_def AES_def EMPTY_def INVALID_def IsAuthorized_def
        SetAuthorization_def ALLOW_SECURE_TX_def split: prod.split)
qed

theorem group_key_after_clear_witness:
  "\<exists>t1 t2 key. Clear (replicate 16 7) [] \<lparr>peerMap = [], peers = (\<lambda>_. new_PeerState ([], 0)), next_peer = 0,
        fresh = (\<lambda>_. ([], 0))\<rparr> = Some t1 \<and>
     GetGroupKey \<lparr>seconds = 5, mseconds = 0\<rparr> (new_KeyBlob 1 []) t1 = Some (key, t2) \<and>
     blobType key = AES \<and> kb_data key = replicate 16 7 \<and> tag key = ''GroupKey'' \<and>
     (\<exists>h. GetPeerState [] True t2 = (h, t2) \<and> isSecure (peers t2 h) \<and>
        IsAuthorized MESSAGE_SIGNAL ALLOW_SECURE_TX (peers t2 h))"
  by (rule group_key_after_clear) simp

end
