(* ===== verification/Signatures.thy ===== *)
theory Signatures
  imports String_Util
begin

text \<open>
  Type signatures, \<^verbatim>\<open>alljoyn_core/src/SignatureUtils.cc\<close>: the tables on type ids, the
  parser of complete types with its fixed stack of open containers, and the writer of a
  signature for given values with its fixed text buffer. Type ids are the characters that
  stand for them in a signature. Reads and writes outside the fixed arrays, and a loop that
  does not end, are results of their own.
\<close>

unbundle bit_operations_syntax

subsection \<open>Type ids\<close>

abbreviation ALLJOYN_STRUCT_OPEN :: char where "ALLJOYN_STRUCT_OPEN \<equiv> CHR ''(''"
abbreviation ALLJOYN_STRUCT_CLOSE :: char where "ALLJOYN_STRUCT_CLOSE \<equiv> CHR '')''"
abbreviation ALLJOYN_DICT_ENTRY_OPEN :: char where "ALLJOYN_DICT_ENTRY_OPEN \<equiv> CHR ''{''"
abbreviation ALLJOYN_DICT_ENTRY_CLOSE :: char where "ALLJOYN_DICT_ENTRY_CLOSE \<equiv> CHR ''}''"
abbreviation ALLJOYN_ARRAY :: char where "ALLJOYN_ARRAY \<equiv> CHR ''a''"

definition basic_types :: string where
  "basic_types = ''ynqbiudtxosgh''"

definition IsBasicType :: "char \<Rightarrow> bool" where
  "IsBasicType typeId \<longleftrightarrow> typeId \<in> set basic_types"

text \<open>The characters that are a complete type on their own; the parser has the same list twice.\<close>

definition leaf_types :: string where
  "leaf_types = ''*ynqbiudtxosgvrh''"

lemma leaf_not_bracket [simp]:
  "c \<in> set leaf_types \<Longrightarrow>
     c \<noteq> NUL \<and> c \<noteq> ALLJOYN_STRUCT_OPEN \<and> c \<noteq> ALLJOYN_STRUCT_CLOSE \<and>
     c \<noteq> ALLJOYN_DICT_ENTRY_OPEN \<and> c \<noteq> ALLJOYN_DICT_ENTRY_CLOSE \<and> c \<noteq> ALLJOYN_ARRAY"
  by (auto simp: leaf_types_def NUL_def)

lemma basic_leaf: "IsBasicType c \<Longrightarrow> c \<in> set leaf_types"
  by (auto simp: IsBasicType_def basic_types_def leaf_types_def)

subsection \<open>The parser of complete types\<close>

datatype container = STRUCT | DICT_ENTRY | ARRAY

text \<open>
  The stack of open containers, innermost first: type and member count. The count is a
  \<^verbatim>\<open>uint8_t\<close>. The array has 64 entries.
\<close>

type_synonym cstack = "(container \<times> nat) list"

definition inc8 :: "nat \<Rightarrow> nat" where
  "inc8 n = (n + 1) mod 256"

record parser =
  stack :: cstack
  structDepth :: nat
  arrayDepth :: nat
  numMembers :: nat

definition inc_members :: "cstack \<Rightarrow> cstack" where
  "inc_members st = (case st of [] \<Rightarrow> [] | (t, m) # r \<Rightarrow> (t, inc8 m) # r)"

definition PushContainer :: "container \<Rightarrow> parser \<Rightarrow> parser" where
  "PushContainer t p = p\<lparr>stack := (t, 0) # stack p\<rparr>"

definition PopContainer :: "parser \<Rightarrow> parser" where
  "PopContainer p = p\<lparr>stack := inc_members (if length (stack p) > 1 then tl (stack p) else stack p)\<rparr>"

definition outer :: "parser \<Rightarrow> container \<times> nat" where
  "outer p = hd (stack p)"

text \<open>
  One pass through the \<^verbatim>\<open>switch\<close>: the status, the new state and the rest of the
  signature. \<open>container\<close> is the type of the container that is parsed as a whole.
\<close>

definition parse_switch :: "container \<Rightarrow> char \<Rightarrow> string \<Rightarrow> parser \<Rightarrow> QStatus \<times> parser \<times> string" where
  "parse_switch container typeId sigPtr p =
     (if typeId = NUL then
        (if structDepth p + arrayDepth p > 0 then ER_BUS_BAD_SIGNATURE else ER_OK, p, sigPtr)
      else if typeId \<in> set leaf_types then
        (ER_OK, p\<lparr>stack := inc_members (stack p)\<rparr>, sigPtr)
      else if typeId = ALLJOYN_ARRAY then
        (let p1 = p\<lparr>arrayDepth := arrayDepth p + 1\<rparr> in
         if arrayDepth p1 > 32 then (ER_BUS_BAD_SIGNATURE, p1, sigPtr)
         else (ER_OK, PushContainer ARRAY p1, sigPtr))
      else if typeId = ALLJOYN_DICT_ENTRY_OPEN then
        (let p1 = p\<lparr>structDepth := structDepth p + 1\<rparr> in
         if structDepth p1 > 32 then (ER_BUS_BAD_SIGNATURE, p1, sigPtr)
         else if fst (outer p1) = ARRAY then
           (if IsBasicType (peek sigPtr)
            then (let p2 = PushContainer DICT_ENTRY p1
                  in (ER_OK, p2\<lparr>stack := inc_members (stack p2)\<rparr>, tl sigPtr))
            else (ER_BUS_BAD_SIGNATURE, p1, tl sigPtr))
         else (ER_BUS_BAD_SIGNATURE, p1, sigPtr))
      else if typeId = ALLJOYN_DICT_ENTRY_CLOSE then
        (if outer p = (DICT_ENTRY, 2)
         then (ER_OK, PopContainer (p\<lparr>structDepth := structDepth p - 1\<rparr>), sigPtr)
         else (ER_BUS_BAD_SIGNATURE, p, sigPtr))
      else if typeId = ALLJOYN_STRUCT_OPEN then
        (let p1 = p\<lparr>structDepth := structDepth p + 1\<rparr> in
         if structDepth p1 > 32 then (ER_BUS_BAD_SIGNATURE, p1, sigPtr)
         else (ER_OK, PushContainer STRUCT p1, sigPtr))
      else if typeId = ALLJOYN_STRUCT_CLOSE then
        (if fst (outer p) = STRUCT \<and> snd (outer p) > 0
         then (let p1 = p\<lparr>structDepth := structDepth p - 1\<rparr>;
                   p2 = (if structDepth p1 = 0 \<and> container = STRUCT
                         then p1\<lparr>numMembers := snd (outer p1)\<rparr> else p1)
               in (ER_OK, PopContainer p2, sigPtr))
         else (ER_BUS_BAD_SIGNATURE, p, sigPtr))
      else (ER_BUS_BAD_SIGNATURE, p, sigPtr))"

lemma parse_switch_rest:
  "parse_switch container c s p = (status, p1, s1) \<Longrightarrow> length s1 \<le> length s"
  by (auto simp: parse_switch_def Let_def split: if_splits)

text \<open>
  The inner loop that closes every array whose element is complete. With an array depth of
  0 it would spin for ever: \<open>None\<close>.
\<close>

fun close_arrays :: "nat \<Rightarrow> cstack \<Rightarrow> (nat \<times> cstack) option" where
  "close_arrays ad [] = Some (ad, [])"
| "close_arrays ad [(t, m)] =
     (if t = ARRAY \<and> m = 1
      then (if ad > 0 then Some (ad - 1, [(t, inc8 m)]) else None)
      else Some (ad, [(t, m)]))"
| "close_arrays ad ((t, m) # (t', m') # r) =
     (if t = ARRAY \<and> m = 1
      then (if ad > 0 then close_arrays (ad - 1) ((t', inc8 m') # r) else None)
      else Some (ad, (t, m) # (t', m') # r))"

text \<open>
  The outcome: the loop of the parser spins, the stack of 64 containers overflows, or the
  parser is done with a status, the rest of the signature and the member count of the
  outermost struct.
\<close>

datatype outcome = Spins | Overflow | Done QStatus string nat

function parse_loop :: "container \<Rightarrow> parser \<Rightarrow> string \<Rightarrow> outcome" where
  "parse_loop container p sigPtr =
     (case parse_switch container (peek sigPtr) (tl sigPtr) p of
        (status, p1, sigPtr1) \<Rightarrow>
          if length (stack p1) > 64 then Overflow
          else (case close_arrays (arrayDepth p1) (stack p1) of
             None \<Rightarrow> Spins
           | Some (ad, st) \<Rightarrow>
               let p2 = p1\<lparr>arrayDepth := ad, stack := st\<rparr> in
               if structDepth p2 + arrayDepth p2 = 0 then Done status sigPtr1 (numMembers p2)
               else if status = ER_OK \<and> sigPtr \<noteq> [] then parse_loop container p2 sigPtr1
               else Done status sigPtr1 (numMembers p2)))"
  by pat_completeness auto
termination
proof (relation "measure (\<lambda>(c, p, s). length s)", goal_cases)
  case (2 container p sigPtr)
  then show ?case
    by (cases sigPtr) (auto dest!: parse_switch_rest [OF sym])
qed simp

text \<open>
  At the end of the signature the code continues only while the status is good, which it is
  not there: both depths are positive sums inside the loop. The test for an empty rest
  therefore never decides, and only makes the recursion visibly finite.
\<close>

declare parse_loop.simps [simp del]

definition ParseContainerSignature :: "container \<Rightarrow> string \<Rightarrow> outcome" where
  "ParseContainerSignature container sigPtr =
     parse_loop container
       \<lparr>stack = [(container, 0)],
        structDepth = (if container = ARRAY then 0 else 1),
        arrayDepth = (if container = ARRAY then 1 else 0),
        numMembers = 0\<rparr> sigPtr"

definition ParseCompleteType :: "string \<Rightarrow> outcome" where
  "ParseCompleteType sigPtr =
     (let c = peek sigPtr; rest = tl sigPtr in
      if c \<in> set leaf_types then Done ER_OK rest 0
      else if c = ALLJOYN_DICT_ENTRY_OPEN then ParseContainerSignature DICT_ENTRY rest
      else if c = ALLJOYN_STRUCT_OPEN then ParseContainerSignature STRUCT rest
      else if c = ALLJOYN_ARRAY then ParseContainerSignature ARRAY rest
      else Done ER_BUS_BAD_SIGNATURE rest 0)"

lemma parse_loop_rest: "parse_loop c p s = Done st rest n \<Longrightarrow> length rest \<le> length (tl s)"
proof (induction c p s rule: parse_loop.induct)
  case (1 c p s)
  obtain st1 p1 s1 where sw: "parse_switch c (peek s) (tl s) p = (st1, p1, s1)"
    by (metis prod_cases3)
  have len: "length s1 \<le> length (tl s)"
    using parse_switch_rest [OF sw] .
  have rec: "length rest \<le> length (tl s1)"
    if "\<not> 64 < length (stack p1)" "close_arrays (arrayDepth p1) (stack p1) = Some (ad, sk)"
      "\<not> structDepth p1 + ad = 0" "st1 = ER_OK \<and> s \<noteq> []"
      "parse_loop c (p1\<lparr>arrayDepth := ad, stack := sk\<rparr>) s1 = Done st rest n" for ad sk
    using "1.IH" [OF sw [symmetric] refl that(1,2) refl refl] that(3-5) by simp
  show ?case
    using "1.prems" sw len
    by (subst (asm) parse_loop.simps)
       (auto simp: Let_def split: if_splits option.splits dest!: rec)
qed

lemma ParseCompleteType_rest: "ParseCompleteType s = Done st rest n \<Longrightarrow> length rest \<le> length (tl s)"
  by (auto simp: ParseCompleteType_def ParseContainerSignature_def Let_def
        split: if_splits dest!: parse_loop_rest)

text \<open>
  The two loops over the complete types of a signature. A parser that does not come back
  makes them not come back either.
\<close>

function count_types_loop :: "string \<Rightarrow> nat \<Rightarrow> nat option" where
  "count_types_loop s count =
     (if s = [] then Some count
      else (case ParseCompleteType s of
              Done status rest n \<Rightarrow>
                if status = ER_OK then count_types_loop rest (inc8 count) else Some count
            | _ \<Rightarrow> None))"
  by pat_completeness auto
termination
proof (relation "measure (\<lambda>(s, c). length s)", goal_cases)
  case (2 s count)
  then show ?case using ParseCompleteType_rest by (cases s) fastforce+
qed simp

definition CountCompleteTypes :: "string option \<Rightarrow> nat option" where
  "CountCompleteTypes signature = (case signature of None \<Rightarrow> Some 0 | Some s \<Rightarrow> count_types_loop s 0)"

function valid_types_loop :: "string \<Rightarrow> bool option" where
  "valid_types_loop s =
     (if s = [] then Some True
      else (case ParseCompleteType s of
              Done status rest n \<Rightarrow> if status \<noteq> ER_OK then Some False else valid_types_loop rest
            | _ \<Rightarrow> None))"
  by pat_completeness auto
termination
proof (relation "measure length", goal_cases)
  case (2 s)
  then show ?case using ParseCompleteType_rest by (cases s) fastforce+
qed simp

declare count_types_loop.simps [simp del] valid_types_loop.simps [simp del]

definition IsValidSignature :: "string option \<Rightarrow> bool option" where
  "IsValidSignature signature =
     (case signature of
        None \<Rightarrow> Some False
      | Some s \<Rightarrow> map_option (\<lambda>b. b \<and> length s \<le> 255) (valid_types_loop s))"

definition IsCompleteType :: "string \<Rightarrow> bool option" where
  "IsCompleteType signature =
     (case ParseCompleteType signature of
        Done status rest n \<Rightarrow> Some (status = ER_OK \<and> rest = []) | _ \<Rightarrow> None)"

end
