(* ===== verification/Signature_Grammar.thy ===== *)
theory Signature_Grammar
  imports Signatures
begin

text \<open>
  The grammar of type signatures and the proof that the parser with its fixed stack accepts
  exactly the signatures of the grammar. Between the two stands a parser on a stack that
  keeps, for every open container, the types read so far (\<open>gparse\<close>): the code's parser
  refines it by forgetting those types and keeping their number only.
\<close>

subsection \<open>Types and their text\<close>

datatype sigty = Leaf char | Arr sigty | Str "sigty list" | Dict "sigty list"

fun show_ty :: "sigty \<Rightarrow> string" where
  "show_ty (Leaf c) = [c]"
| "show_ty (Arr t) = ALLJOYN_ARRAY # show_ty t"
| "show_ty (Str ts) = ALLJOYN_STRUCT_OPEN # concat (map show_ty ts) @ [ALLJOYN_STRUCT_CLOSE]"
| "show_ty (Dict ts) = ALLJOYN_DICT_ENTRY_OPEN # concat (map show_ty ts) @ [ALLJOYN_DICT_ENTRY_CLOSE]"

text \<open>
  Which types are well formed, \<open>inarr\<close> saying whether the type is the element of an array:
  only there may a dictionary entry stand, and its key must be a basic type. Members are
  counted as the code counts them, in eight bits.
\<close>

fun wt :: "bool \<Rightarrow> sigty \<Rightarrow> bool" where
  "wt inarr (Leaf c) \<longleftrightarrow> c \<in> set leaf_types"
| "wt inarr (Arr t) \<longleftrightarrow> wt True t"
| "wt inarr (Str ts) \<longleftrightarrow> length ts mod 256 > 0 \<and> (\<forall>t \<in> set ts. wt False t)"
| "wt inarr (Dict ts) \<longleftrightarrow>
     inarr \<and> length ts mod 256 = 2 \<and> (\<exists>k us. ts = Leaf k # us \<and> IsBasicType k) \<and> (\<forall>t \<in> set ts. wt False t)"

text \<open>At the top a dictionary entry may stand alone, and its key may be any type.\<close>

fun wt_top :: "sigty \<Rightarrow> bool" where
  "wt_top (Dict ts) \<longleftrightarrow> length ts mod 256 = 2 \<and> (\<forall>t \<in> set ts. wt False t)"
| "wt_top t \<longleftrightarrow> wt False t"

text \<open>The nesting limits: at most \<open>s\<close> structs and entries, at most \<open>a\<close> arrays.\<close>

fun fits :: "nat \<Rightarrow> nat \<Rightarrow> sigty \<Rightarrow> bool" where
  "fits s a (Leaf c) \<longleftrightarrow> True"
| "fits s a (Arr t) \<longleftrightarrow> a > 0 \<and> fits s (a - 1) t"
| "fits s a (Str ts) \<longleftrightarrow> s > 0 \<and> (\<forall>t \<in> set ts. fits (s - 1) a t)"
| "fits s a (Dict ts) \<longleftrightarrow> s > 0 \<and> (\<forall>t \<in> set ts. fits (s - 1) a t)"

text \<open>
  The same grammar with members counted exactly; it differs from the above only where a
  container has 256 members or more.
\<close>

fun wf_ty :: "bool \<Rightarrow> sigty \<Rightarrow> bool" where
  "wf_ty inarr (Leaf c) \<longleftrightarrow> c \<in> set leaf_types"
| "wf_ty inarr (Arr t) \<longleftrightarrow> wf_ty True t"
| "wf_ty inarr (Str ts) \<longleftrightarrow> ts \<noteq> [] \<and> (\<forall>t \<in> set ts. wf_ty False t)"
| "wf_ty inarr (Dict ts) \<longleftrightarrow>
     inarr \<and> length ts = 2 \<and> (\<exists>k us. ts = Leaf k # us \<and> IsBasicType k) \<and> (\<forall>t \<in> set ts. wf_ty False t)"

fun wf_top :: "sigty \<Rightarrow> bool" where
  "wf_top (Dict ts) \<longleftrightarrow> length ts = 2 \<and> (\<forall>t \<in> set ts. wf_ty False t)"
| "wf_top t \<longleftrightarrow> wf_ty False t"

definition complete_type :: "sigty \<Rightarrow> bool" where
  "complete_type t \<longleftrightarrow> wf_top t \<and> fits 32 32 t"

text \<open>
  The complete types of the D-Bus specification: no wildcard and no bare \<open>r\<close>, and a
  dictionary entry only as the element of an array and with a basic key. The code accepts
  these and somewhat more.
\<close>

definition dbus_leaves :: string where
  "dbus_leaves = ''ynqbiudtxosgvh''"

fun dbus_ty :: "bool \<Rightarrow> sigty \<Rightarrow> bool" where
  "dbus_ty inarr (Leaf c) \<longleftrightarrow> c \<in> set dbus_leaves"
| "dbus_ty inarr (Arr t) \<longleftrightarrow> dbus_ty True t"
| "dbus_ty inarr (Str ts) \<longleftrightarrow> ts \<noteq> [] \<and> (\<forall>t \<in> set ts. dbus_ty False t)"
| "dbus_ty inarr (Dict ts) \<longleftrightarrow>
     inarr \<and> length ts = 2 \<and> (\<exists>k us. ts = Leaf k # us \<and> IsBasicType k) \<and> (\<forall>t \<in> set ts. dbus_ty False t)"

definition dbus_type :: "sigty \<Rightarrow> bool" where
  "dbus_type t \<longleftrightarrow> dbus_ty False t \<and> fits 32 32 t"

subsection \<open>A parser that keeps what it has read\<close>

type_synonym gstack = "(container \<times> sigty list) list"

definition nS :: "gstack \<Rightarrow> nat" where
  "nS gs = length (filter (\<lambda>f. fst f \<noteq> ARRAY) gs)"

definition nA :: "gstack \<Rightarrow> nat" where
  "nA gs = length (filter (\<lambda>f. fst f = ARRAY) gs)"

lemma nS_simps [simp]: "nS [] = 0" "nS (f # gs) = (if fst f = ARRAY then 0 else 1) + nS gs"
  by (simp_all add: nS_def)

lemma nA_simps [simp]: "nA [] = 0" "nA (f # gs) = (if fst f = ARRAY then 1 else 0) + nA gs"
  by (simp_all add: nA_def)

lemma nS_nA_length: "nS gs + nA gs = length gs"
  by (induction gs) auto

text \<open>Add a complete type to the innermost container; a full array is complete itself.\<close>

fun gadd :: "sigty \<Rightarrow> gstack \<Rightarrow> sigty + gstack" where
  "gadd t [] = Inl t"
| "gadd t ((c, ts) # r) = (if c = ARRAY then gadd (Arr t) r else Inr ((c, ts @ [t]) # r))"

function gparse :: "gstack \<Rightarrow> string \<Rightarrow> (sigty \<times> string) option" where
  "gparse gs [] = None"
| "gparse gs (x # s) =
     (if x \<in> set leaf_types then
        (case gadd (Leaf x) gs of Inl T \<Rightarrow> Some (T, s) | Inr gs' \<Rightarrow> gparse gs' s)
      else if x = ALLJOYN_ARRAY then
        (if nA gs + 1 > 32 then None else gparse ((ARRAY, []) # gs) s)
      else if x = ALLJOYN_DICT_ENTRY_OPEN then
        (if nS gs + 1 > 32 \<or> fst (hd gs) \<noteq> ARRAY \<or> \<not> IsBasicType (peek s) then None
         else gparse ((DICT_ENTRY, [Leaf (peek s)]) # gs) (tl s))
      else if x = ALLJOYN_DICT_ENTRY_CLOSE then
        (if fst (hd gs) = DICT_ENTRY \<and> length (snd (hd gs)) mod 256 = 2
         then (case gadd (Dict (snd (hd gs))) (tl gs) of Inl T \<Rightarrow> Some (T, s) | Inr gs' \<Rightarrow> gparse gs' s)
         else None)
      else if x = ALLJOYN_STRUCT_OPEN then
        (if nS gs + 1 > 32 then None else gparse ((STRUCT, []) # gs) s)
      else if x = ALLJOYN_STRUCT_CLOSE then
        (if fst (hd gs) = STRUCT \<and> length (snd (hd gs)) mod 256 > 0
         then (case gadd (Str (snd (hd gs))) (tl gs) of Inl T \<Rightarrow> Some (T, s) | Inr gs' \<Rightarrow> gparse gs' s)
         else None)
      else None)"
  by pat_completeness auto
termination
  by (relation "measure (\<lambda>(gs, s). length s)") auto

declare gparse.simps(2) [simp del]

subsection \<open>The code's parser refines it\<close>

definition abs_stack :: "gstack \<Rightarrow> cstack" where
  "abs_stack gs = map (\<lambda>f. (fst f, length (snd f) mod 256)) gs"

lemma abs_stack_simps [simp]:
  "abs_stack [] = []" "abs_stack ((c, ts) # gs) = (c, length ts mod 256) # abs_stack gs"
  "length (abs_stack gs) = length gs" "abs_stack gs = [] \<longleftrightarrow> gs = []"
  by (simp_all add: abs_stack_def)

text \<open>Open arrays hold nothing yet: they close with their first element.\<close>

definition arrays_open :: "gstack \<Rightarrow> bool" where
  "arrays_open gs \<longleftrightarrow> (\<forall>f \<in> set gs. fst f = ARRAY \<longrightarrow> snd f = [])"

lemma arrays_open_simps [simp]:
  "arrays_open []" "arrays_open ((c, ts) # gs) \<longleftrightarrow> (c = ARRAY \<longrightarrow> ts = []) \<and> arrays_open gs"
  by (auto simp: arrays_open_def)

definition pstate :: "gstack \<Rightarrow> nat \<Rightarrow> parser" where
  "pstate gs nm = \<lparr>stack = abs_stack gs, structDepth = nS gs, arrayDepth = nA gs, numMembers = nm\<rparr>"

lemma close_arrays_gadd:
  assumes "gs \<noteq> []" and "arrays_open gs"
  shows "(\<exists>gs'. gadd t gs = Inr gs' \<and> arrays_open gs' \<and> gs' \<noteq> [] \<and> nS gs' = nS gs \<and> 0 < nS gs' \<and>
            length gs' \<le> length gs \<and>
            close_arrays (nA gs) (inc_members (abs_stack gs)) = Some (nA gs', abs_stack gs')) \<or>
         (\<exists>T st. gadd t gs = Inl T \<and> nS gs = 0 \<and>
            close_arrays (nA gs) (inc_members (abs_stack gs)) = Some (0, st))"
  using assms
proof (induction t gs rule: gadd.induct)
  case (2 t c ts r)
  show ?case
  proof (cases "c = ARRAY")
    case False
    have "close_arrays n ((c, m) # st) = Some (n, (c, m) # st)" for n m st
      using False by (cases st) auto
    then show ?thesis
      using False 2 by (simp add: inc_members_def inc8_def mod_Suc_eq)
  next
    case True
    then have ts: "ts = []" using 2 by simp
    show ?thesis
    proof (cases r)
      case Nil
      then show ?thesis using True ts by (simp add: inc_members_def inc8_def)
    next
      case (Cons f r')
      obtain c' ts' where f: "f = (c', ts')" by force
      have step: "close_arrays (nA ((c, ts) # r)) (inc_members (abs_stack ((c, ts) # r))) =
          close_arrays (nA r) (inc_members (abs_stack r))"
        using True ts Cons f by (simp add: inc_members_def inc8_def)
      have "gadd t ((c, ts) # r) = gadd (Arr t) r" and "nS ((c, ts) # r) = nS r"
        using True by simp_all
      moreover have "r \<noteq> []" "arrays_open r"
        using Cons 2 by simp_all
      ultimately show ?thesis
        using "2.IH" [OF True] unfolding step by auto
    qed
  qed
qed simp

lemma close_arrays_idle:
  "arrays_open gs \<Longrightarrow> close_arrays n (abs_stack gs) = Some (n, abs_stack gs)"
  by (cases gs rule: list.exhaust [case_names Nil Cons]; cases "tl gs") auto

text \<open>The effect of one character on the code's parser when a type has become complete.\<close>

lemma parse_loop_complete:
  assumes sw: "parse_switch c x s (pstate gs nm) =
      (ER_OK, (pstate r nm')\<lparr>stack := inc_members (abs_stack r)\<rparr>, s')"
    and r: "r \<noteq> []" "arrays_open r" "length r \<le> 64"
  shows "parse_loop c (pstate gs nm) (x # s) =
     (case gadd t r of
        Inl T \<Rightarrow> Done ER_OK s' nm'
      | Inr gs' \<Rightarrow> parse_loop c (pstate gs' nm') s')"
proof -
  have len: "length (inc_members (abs_stack r)) = length r"
    using r(1) by (cases r) (auto simp: inc_members_def)
  from close_arrays_gadd [OF r(1,2), of t] show ?thesis
    using r(3) len sw
    by (subst parse_loop.simps) (auto simp: pstate_def)
qed

lemma parse_loop_bad:
  assumes "parse_switch c (peek s) (tl s) (pstate gs nm) = (ER_BUS_BAD_SIGNATURE, p1, s1)"
    and "stack p1 = abs_stack gs" and "arrays_open gs" and "length gs \<le> 64"
  shows "\<exists>rest n. parse_loop c (pstate gs nm) s = Done ER_BUS_BAD_SIGNATURE rest n"
  using assms by (subst parse_loop.simps) (simp add: close_arrays_idle Let_def)

lemma parse_loop_push:
  assumes "parse_switch c x s (pstate gs nm) = (ER_OK, pstate gs' nm, s1)"
    and "gs' \<noteq> []" and "arrays_open gs'" and "length gs' \<le> 64"
  shows "parse_loop c (pstate gs nm) (x # s) = parse_loop c (pstate gs' nm) s1"
proof -
  have "nS gs' + nA gs' \<noteq> 0"
    using assms(2) by (simp add: nS_nA_length)
  with assms show ?thesis
    by (subst parse_loop.simps) (auto simp: close_arrays_idle pstate_def)
qed

text \<open>A container that closes: the innermost frame is popped and counted in the next one.\<close>

lemma parse_loop_close:
  assumes sw: "parse_switch c x s (pstate ((k, ts) # r) nm) =
      (ER_OK, PopContainer ((pstate ((k, ts) # r) nm)\<lparr>structDepth := nS r, numMembers := nm'\<rparr>), s)"
    and k: "k \<noteq> ARRAY" and r: "arrays_open r" "length r \<le> 63"
  shows "parse_loop c (pstate ((k, ts) # r) nm) (x # s) =
     (case gadd t r of Inl T \<Rightarrow> Done ER_OK s nm' | Inr gs' \<Rightarrow> parse_loop c (pstate gs' nm') s)"
proof (cases "r = []")
  case True
  then show ?thesis
    using sw k by (subst parse_loop.simps) (simp add: pstate_def PopContainer_def inc_members_def)
next
  case False
  have "PopContainer ((pstate ((k, ts) # r) nm)\<lparr>structDepth := nS r, numMembers := nm'\<rparr>) =
      (pstate r nm')\<lparr>stack := inc_members (abs_stack r)\<rparr>"
    using k False by (simp add: pstate_def PopContainer_def)
  then show ?thesis
    using sw False r by (intro parse_loop_complete) simp_all
qed

text \<open>The stacks that the parser meets.\<close>

definition good :: "gstack \<Rightarrow> bool" where
  "good gs \<longleftrightarrow> gs \<noteq> [] \<and> arrays_open gs \<and> nS gs \<le> 32 \<and> nA gs \<le> 32"

lemma good_length: "good gs \<Longrightarrow> length gs \<le> 64"
  using nS_nA_length [of gs] by (simp add: good_def)

lemma gadd_good:
  assumes "gadd t r = Inr gs'" and "arrays_open r" and "nS r \<le> 32" and "nA r \<le> 32"
  shows "good gs'"
proof -
  have "r \<noteq> []" using assms(1) by auto
  with close_arrays_gadd [OF this assms(2), of t] assms(1)
  have "gs' \<noteq> []" "arrays_open gs'" "nS gs' = nS r" "length gs' \<le> length r"
    by auto
  then show ?thesis
    using assms(3,4) nS_nA_length [of gs'] nS_nA_length [of r] by (auto simp: good_def)
qed

lemma good_tl: "good ((k, ts) # r) \<Longrightarrow> arrays_open r \<and> nS r \<le> 32 \<and> nA r \<le> 32"
  by (auto simp: good_def split: if_splits)

text \<open>
  What the parser does with each kind of character, next to what \<open>gparse\<close> does.
\<close>

definition agrees :: "outcome \<Rightarrow> (sigty \<times> string) option \<Rightarrow> bool" where
  "agrees out res \<longleftrightarrow>
     (case res of
        None \<Rightarrow> \<exists>rest n. out = Done ER_BUS_BAD_SIGNATURE rest n
      | Some (T, rest) \<Rightarrow> \<exists>n. out = Done ER_OK rest n)"

lemma agrees_simps [simp]:
  "agrees (Done ER_OK rest n) (Some (T, rest))"
  "agrees out None \<longleftrightarrow> (\<exists>rest n. out = Done ER_BUS_BAD_SIGNATURE rest n)"
  by (auto simp: agrees_def)

lemma agrees_gadd:
  assumes "\<And>gs'. gadd t r = Inr gs' \<Longrightarrow> agrees (parse_loop c (pstate gs' n) s) (gparse gs' s)"
  shows "agrees (case gadd t r of Inl T \<Rightarrow> Done ER_OK s n | Inr gs' \<Rightarrow> parse_loop c (pstate gs' n) s)
          (case gadd t r of Inl T \<Rightarrow> Some (T, s) | Inr gs' \<Rightarrow> gparse gs' s)"
  using assms by (cases "gadd t r") auto

lemmas switch_defs = parse_switch_def pstate_def Let_def leaf_types_def NUL_def outer_def
  PushContainer_def inc_members_def inc8_def

lemma step_bad:
  assumes "good gs"
    and "\<exists>p1 s1. parse_switch c (peek s) (tl s) (pstate gs nm) = (ER_BUS_BAD_SIGNATURE, p1, s1) \<and>
                 stack p1 = abs_stack gs"
  shows "agrees (parse_loop c (pstate gs nm) s) None"
  using assms good_length [OF assms(1)] parse_loop_bad [of c s gs nm] by (auto simp: good_def)

lemma step_leaf:
  assumes "good gs" and "x \<in> set leaf_types"
  shows "parse_loop c (pstate gs nm) (x # s) =
     (case gadd (Leaf x) gs of Inl T \<Rightarrow> Done ER_OK s nm | Inr gs' \<Rightarrow> parse_loop c (pstate gs' nm) s)"
proof -
  have "parse_switch c x s (pstate gs nm) = (ER_OK, (pstate gs nm)\<lparr>stack := inc_members (abs_stack gs)\<rparr>, s)"
    using assms(2) by (auto simp: parse_switch_def pstate_def)
  then show ?thesis
    using assms(1) good_length [OF assms(1)] by (intro parse_loop_complete) (simp_all add: good_def)
qed

lemma step_array:
  assumes "good gs" and "nA gs + 1 \<le> 32"
  shows "parse_loop c (pstate gs nm) (ALLJOYN_ARRAY # s) = parse_loop c (pstate ((ARRAY, []) # gs) nm) s"
    and "good ((ARRAY, []) # gs)"
proof -
  show g: "good ((ARRAY, []) # gs)" using assms by (simp add: good_def)
  show "parse_loop c (pstate gs nm) (ALLJOYN_ARRAY # s) = parse_loop c (pstate ((ARRAY, []) # gs) nm) s"
    using assms(2) g good_length [OF g]
    by (intro parse_loop_push) (simp_all add: good_def switch_defs)
qed

lemma step_struct_open:
  assumes "good gs" and "nS gs + 1 \<le> 32"
  shows "parse_loop c (pstate gs nm) (ALLJOYN_STRUCT_OPEN # s) = parse_loop c (pstate ((STRUCT, []) # gs) nm) s"
    and "good ((STRUCT, []) # gs)"
proof -
  show g: "good ((STRUCT, []) # gs)" using assms by (simp add: good_def)
  show "parse_loop c (pstate gs nm) (ALLJOYN_STRUCT_OPEN # s) = parse_loop c (pstate ((STRUCT, []) # gs) nm) s"
    using assms(2) g good_length [OF g]
    by (intro parse_loop_push) (simp_all add: good_def switch_defs)
qed

lemma step_dict_open:
  assumes "good gs" and "nS gs + 1 \<le> 32" and "fst (hd gs) = ARRAY" and "IsBasicType (peek s)"
  shows "parse_loop c (pstate gs nm) (ALLJOYN_DICT_ENTRY_OPEN # s) =
           parse_loop c (pstate ((DICT_ENTRY, [Leaf (peek s)]) # gs) nm) (tl s)"
    and "good ((DICT_ENTRY, [Leaf (peek s)]) # gs)"
proof -
  show g: "good ((DICT_ENTRY, [Leaf (peek s)]) # gs)" using assms by (simp add: good_def)
  obtain ts r where gs: "gs = (ARRAY, ts) # r"
    using assms(1,3) by (cases gs) (auto simp: good_def)
  show "parse_loop c (pstate gs nm) (ALLJOYN_DICT_ENTRY_OPEN # s) =
          parse_loop c (pstate ((DICT_ENTRY, [Leaf (peek s)]) # gs) nm) (tl s)"
    using assms(2,4) g good_length [OF g] gs
    by (intro parse_loop_push) (simp_all add: good_def switch_defs)
qed

lemma step_struct_close:
  assumes "good ((STRUCT, ts) # r)" and "length ts mod 256 > 0"
    and "n = (if nS r = 0 \<and> c = STRUCT then length ts mod 256 else nm)"
  shows "parse_loop c (pstate ((STRUCT, ts) # r) nm) (ALLJOYN_STRUCT_CLOSE # s) =
     (case gadd (Str ts) r of Inl T \<Rightarrow> Done ER_OK s n | Inr gs' \<Rightarrow> parse_loop c (pstate gs' n) s)"
proof -
  have "parse_switch c ALLJOYN_STRUCT_CLOSE s (pstate ((STRUCT, ts) # r) nm) =
      (ER_OK, PopContainer ((pstate ((STRUCT, ts) # r) nm)\<lparr>structDepth := nS r, numMembers := n\<rparr>), s)"
    using assms(2,3) by (simp add: switch_defs)
  then show ?thesis
    using good_tl [OF assms(1)] good_length [OF assms(1)] by (intro parse_loop_close) simp_all
qed

lemma step_dict_close:
  assumes "good ((DICT_ENTRY, ts) # r)" and "length ts mod 256 = 2"
  shows "parse_loop c (pstate ((DICT_ENTRY, ts) # r) nm) (ALLJOYN_DICT_ENTRY_CLOSE # s) =
     (case gadd (Dict ts) r of Inl T \<Rightarrow> Done ER_OK s nm | Inr gs' \<Rightarrow> parse_loop c (pstate gs' nm) s)"
proof -
  have "parse_switch c ALLJOYN_DICT_ENTRY_CLOSE s (pstate ((DICT_ENTRY, ts) # r) nm) =
      (ER_OK, PopContainer ((pstate ((DICT_ENTRY, ts) # r) nm)\<lparr>structDepth := nS r, numMembers := nm\<rparr>), s)"
    using assms(2) by (simp add: switch_defs)
  then show ?thesis
    using good_tl [OF assms(1)] good_length [OF assms(1)] by (intro parse_loop_close) simp_all
qed

text \<open>The equations of \<open>gparse\<close>, character by character.\<close>

lemma gparse_leaf:
  "x \<in> set leaf_types \<Longrightarrow>
   gparse gs (x # s) = (case gadd (Leaf x) gs of Inl T \<Rightarrow> Some (T, s) | Inr gs' \<Rightarrow> gparse gs' s)"
  by (simp add: gparse.simps)

lemma gparse_array:
  "gparse gs (ALLJOYN_ARRAY # s) = (if nA gs + 1 \<le> 32 then gparse ((ARRAY, []) # gs) s else None)"
  by (simp add: gparse.simps leaf_types_def)

lemma gparse_struct_open:
  "gparse gs (ALLJOYN_STRUCT_OPEN # s) = (if nS gs + 1 \<le> 32 then gparse ((STRUCT, []) # gs) s else None)"
  by (simp add: gparse.simps leaf_types_def)

lemma gparse_dict_open:
  "gparse gs (ALLJOYN_DICT_ENTRY_OPEN # s) =
     (if nS gs + 1 \<le> 32 \<and> fst (hd gs) = ARRAY \<and> IsBasicType (peek s)
      then gparse ((DICT_ENTRY, [Leaf (peek s)]) # gs) (tl s) else None)"
  by (simp add: gparse.simps leaf_types_def)

lemma gparse_struct_close:
  "gparse ((k, ts) # r) (ALLJOYN_STRUCT_CLOSE # s) =
     (if k = STRUCT \<and> length ts mod 256 > 0
      then (case gadd (Str ts) r of Inl T \<Rightarrow> Some (T, s) | Inr gs' \<Rightarrow> gparse gs' s) else None)"
  by (simp add: gparse.simps leaf_types_def)

lemma gparse_dict_close:
  "gparse ((k, ts) # r) (ALLJOYN_DICT_ENTRY_CLOSE # s) =
     (if k = DICT_ENTRY \<and> length ts mod 256 = 2
      then (case gadd (Dict ts) r of Inl T \<Rightarrow> Some (T, s) | Inr gs' \<Rightarrow> gparse gs' s) else None)"
  by (simp add: gparse.simps leaf_types_def)

lemmas gparse_eqs = gparse_array gparse_struct_open gparse_dict_open gparse_struct_close gparse_dict_close

lemma parse_loop_gparse:
  "good gs \<Longrightarrow> agrees (parse_loop c (pstate gs nm) s) (gparse gs s)"
proof (induction "length s" arbitrary: gs nm s rule: less_induct)
  case less
  note IH = less.hyps
  obtain k ts r where gs: "gs = (k, ts) # r" using less.prems by (cases gs) (auto simp: good_def)
  note tl = good_tl [OF less.prems [unfolded gs]]
  note bad = step_bad [OF less.prems, of c s nm]
  show ?case
  proof (cases s)
    case Nil
    then show ?thesis using bad gs by (simp add: parse_switch_def pstate_def)
  next
    case (Cons x u)
    have rec: "agrees (parse_loop c (pstate gs' n) v) (gparse gs' v)" if "good gs'" "length v \<le> length u" for gs' n v
      using that Cons by (intro IH) simp_all
    have add: "agrees (case gadd t q of Inl T \<Rightarrow> Done ER_OK u n | Inr gs' \<Rightarrow> parse_loop c (pstate gs' n) u)
          (case gadd t q of Inl T \<Rightarrow> Some (T, u) | Inr gs' \<Rightarrow> gparse gs' u)"
      if "arrays_open q \<and> nS q \<le> 32 \<and> nA q \<le> 32" for t q n
      using that by (intro agrees_gadd rec gadd_good) auto
    consider "x \<in> set leaf_types" | "x = ALLJOYN_ARRAY" | "x = ALLJOYN_DICT_ENTRY_OPEN"
      | "x = ALLJOYN_DICT_ENTRY_CLOSE" | "x = ALLJOYN_STRUCT_OPEN" | "x = ALLJOYN_STRUCT_CLOSE"
      | "x \<notin> set leaf_types" "x \<notin> {ALLJOYN_ARRAY, ALLJOYN_DICT_ENTRY_OPEN, ALLJOYN_DICT_ENTRY_CLOSE,
          ALLJOYN_STRUCT_OPEN, ALLJOYN_STRUCT_CLOSE}"
      by blast
    then show ?thesis
    proof cases
      case 1
      then show ?thesis
        using less.prems add [where q = gs and t = "Leaf x" and n = nm] Cons
        by (simp add: step_leaf gparse_leaf good_def)
    next
      case 2
      have ?thesis if "nA gs + 1 \<le> 32"
        using that 2 Cons less.prems gs rec by (simp add: gparse_eqs step_array)
      moreover have ?thesis if "\<not> (nA gs + 1 \<le> 32)"
        using that 2 Cons bad gs by (auto simp: gparse_eqs switch_defs)
      ultimately show ?thesis by blast
    next
      case 3
      have ?thesis if "nS gs + 1 \<le> 32 \<and> fst (hd gs) = ARRAY \<and> IsBasicType (peek u)"
        using that 3 Cons less.prems gs rec by (simp add: gparse_eqs step_dict_open)
      moreover have ?thesis if "\<not> (nS gs + 1 \<le> 32 \<and> fst (hd gs) = ARRAY \<and> IsBasicType (peek u))"
        using that 3 Cons bad gs by (auto simp: gparse_eqs switch_defs)
      ultimately show ?thesis by blast
    next
      case 4
      have ?thesis if "k = DICT_ENTRY \<and> length ts mod 256 = 2"
        using that 4 Cons less.prems gs add [OF tl, where t = "Dict ts" and n = nm] by (simp add: gparse_eqs step_dict_close)
      moreover have ?thesis if "\<not> (k = DICT_ENTRY \<and> length ts mod 256 = 2)"
        using that 4 Cons bad gs by (auto simp: gparse_eqs switch_defs)
      ultimately show ?thesis by blast
    next
      case 5
      have ?thesis if "nS gs + 1 \<le> 32"
        using that 5 Cons less.prems gs rec by (simp add: gparse_eqs step_struct_open)
      moreover have ?thesis if "\<not> (nS gs + 1 \<le> 32)"
        using that 5 Cons bad gs by (auto simp: gparse_eqs switch_defs)
      ultimately show ?thesis by blast
    next
      case 6
      have ?thesis if "k = STRUCT \<and> length ts mod 256 > 0"
        using that 6 Cons less.prems gs add [OF tl, where t = "Str ts"] step_struct_close [of ts r _ c nm u] by (auto simp: gparse_eqs)
      moreover have ?thesis if "\<not> (k = STRUCT \<and> length ts mod 256 > 0)"
        using that 6 Cons bad gs by (auto simp: gparse_eqs switch_defs)
      ultimately show ?thesis by blast
    next
      case 7
      with Cons bad gs show ?thesis
        by (simp add: parse_switch_def pstate_def gparse.simps)
    qed
  qed
qed

text \<open>A struct that is parsed as a whole comes back with the number of its members.\<close>

definition rooted :: "gstack \<Rightarrow> bool" where
  "rooted gs \<longleftrightarrow> gs \<noteq> [] \<and> fst (last gs) = STRUCT"

lemma gadd_rooted: "rooted gs \<Longrightarrow> \<exists>gs'. gadd t gs = Inr gs' \<and> rooted gs'"
  by (induction t gs rule: gadd.induct) (auto simp: rooted_def split: if_splits)

definition member_count :: "sigty \<Rightarrow> nat" where
  "member_count T = (case T of Str ts \<Rightarrow> length ts mod 256 | _ \<Rightarrow> 0)"

lemma rooted_Cons: "rooted (f # gs) \<longleftrightarrow> (if gs = [] then fst f = STRUCT else rooted gs)"
  by (simp add: rooted_def)

lemma parse_loop_members:
  "good gs \<Longrightarrow> rooted gs \<Longrightarrow> gparse gs s = Some (T, rest) \<Longrightarrow>
   parse_loop STRUCT (pstate gs nm) s = Done ER_OK rest (member_count T)"
proof (induction "length s" arbitrary: gs nm s rule: less_induct)
  case less
  obtain k ts r where gs: "gs = (k, ts) # r" using less.prems by (cases gs) (auto simp: good_def)
  note tl = good_tl [OF less.prems(1) [unfolded gs]]
  have push: "rooted (f # gs)" for f using less.prems(2) gs by (simp add: rooted_def)
  obtain x u where s: "s = x # u" using less.prems(3) by (cases s) auto
  have rec: "parse_loop STRUCT (pstate gs' n) v = Done ER_OK rest (member_count T)"
    if "good gs'" "rooted gs'" "gparse gs' v = Some (T, rest)" "length v \<le> length u" for gs' n v
    using that s by (intro less.hyps) simp_all
  have add: "(case gadd t q of Inl T \<Rightarrow> Done ER_OK u n | Inr gs' \<Rightarrow> parse_loop STRUCT (pstate gs' n) u) =
      Done ER_OK rest (member_count T)"
    if h: "arrays_open q \<and> nS q \<le> 32 \<and> nA q \<le> 32" "rooted q"
      "(case gadd t q of Inl T \<Rightarrow> Some (T, u) | Inr gs' \<Rightarrow> gparse gs' u) = Some (T, rest)" for t q n
  proof -
    obtain gs' where g: "gadd t q = Inr gs'" "rooted gs'" using gadd_rooted [OF h(2)] by blast
    then show ?thesis using h gadd_good [OF g(1)] rec [of gs'] by simp
  qed
  consider "x \<in> set leaf_types" | "x = ALLJOYN_ARRAY" | "x = ALLJOYN_DICT_ENTRY_OPEN"
    | "x = ALLJOYN_DICT_ENTRY_CLOSE" | "x = ALLJOYN_STRUCT_OPEN" | "x = ALLJOYN_STRUCT_CLOSE"
    using less.prems(3) s by (fastforce simp: gparse.simps split: if_splits)
  then show ?case
  proof cases
    case 1
    then show ?thesis
      using less.prems s add [where q = gs and t = "Leaf x" and n = nm]
      by (simp add: step_leaf gparse_leaf good_def)
  next
    case 2
    then show ?thesis
      using less.prems s rec [where gs' = "(ARRAY, []) # gs" and v = u]
      by (auto simp: gparse_eqs step_array push split: if_splits)
  next
    case 3
    then show ?thesis
      using less.prems s rec [where gs' = "(DICT_ENTRY, [Leaf (peek u)]) # gs" and v = "tl u"]
      by (auto simp: gparse_eqs step_dict_open push split: if_splits)
  next
    case 4
    then have k: "k = DICT_ENTRY \<and> length ts mod 256 = 2"
      "(case gadd (Dict ts) r of Inl T \<Rightarrow> Some (T, u) | Inr gs' \<Rightarrow> gparse gs' u) = Some (T, rest)"
      using less.prems(3) s gs by (auto simp: gparse_eqs split: if_splits)
    then have "rooted r" using less.prems(2) gs by (auto simp: rooted_Cons split: if_splits)
    then show ?thesis
      using less.prems(1) k s gs 4 add [OF tl, where t = "Dict ts" and n = nm] by (simp add: step_dict_close)
  next
    case 5
    then show ?thesis
      using less.prems s rec [where gs' = "(STRUCT, []) # gs" and v = u]
      by (auto simp: gparse_eqs step_struct_open push split: if_splits)
  next
    case 6
    then have k: "k = STRUCT \<and> length ts mod 256 > 0"
      "(case gadd (Str ts) r of Inl T \<Rightarrow> Some (T, u) | Inr gs' \<Rightarrow> gparse gs' u) = Some (T, rest)"
      using less.prems(3) s gs by (auto simp: gparse_eqs split: if_splits)
    let ?n = "if nS r = 0 then length ts mod 256 else nm"
    have step: "parse_loop STRUCT (pstate gs nm) s =
        (case gadd (Str ts) r of Inl T \<Rightarrow> Done ER_OK u ?n | Inr gs' \<Rightarrow> parse_loop STRUCT (pstate gs' ?n) u)"
      using step_struct_close [of ts r ?n STRUCT nm u] less.prems(1) gs s 6 k by simp
    show ?thesis
    proof (cases "r = []")
      case True
      then show ?thesis using step k by (auto simp: member_count_def)
    next
      case False
      then have "rooted r" using less.prems(2) gs by (simp add: rooted_Cons)
      then show ?thesis using step add [OF tl, where t = "Str ts" and n = ?n] k by simp
    qed
  qed
qed

subsection \<open>The reference parser reads the grammar\<close>

fun opener :: "container \<Rightarrow> char" where
  "opener STRUCT = ALLJOYN_STRUCT_OPEN"
| "opener DICT_ENTRY = ALLJOYN_DICT_ENTRY_OPEN"
| "opener ARRAY = ALLJOYN_ARRAY"

text \<open>The text that has been read when the stack is \<open>gs\<close>.\<close>

fun ustr :: "gstack \<Rightarrow> string" where
  "ustr [] = []"
| "ustr ((c, ts) # r) = ustr r @ opener c # concat (map show_ty ts)"

fun ginv :: "gstack \<Rightarrow> bool" where
  "ginv [] \<longleftrightarrow> True"
| "ginv ((c, ts) # r) \<longleftrightarrow>
     ginv r \<and> nS ((c, ts) # r) \<le> 32 \<and> nA ((c, ts) # r) \<le> 32 \<and>
     (\<forall>t \<in> set ts. wt False t \<and> fits (32 - nS ((c, ts) # r)) (32 - nA ((c, ts) # r)) t) \<and>
     (c = ARRAY \<longrightarrow> ts = []) \<and>
     (c = DICT_ENTRY \<and> r \<noteq> [] \<longrightarrow> fst (hd r) = ARRAY \<and> (\<exists>k us. ts = Leaf k # us \<and> IsBasicType k))"

lemma ginv_bounds: "ginv gs \<Longrightarrow> nS gs \<le> 32 \<and> nA gs \<le> 32"
  by (cases gs) auto

definition addable :: "sigty \<Rightarrow> gstack \<Rightarrow> bool" where
  "addable t gs \<longleftrightarrow>
     (if gs = [] then wt_top t else wt (fst (hd gs) = ARRAY) t) \<and> fits (32 - nS gs) (32 - nA gs) t"

definition read_ok :: "string \<Rightarrow> sigty \<Rightarrow> bool" where
  "read_ok u T \<longleftrightarrow> show_ty T = u \<and> wt_top T \<and> fits 32 32 T"

lemma gadd_sound:
  assumes "ginv gs" and "addable t gs"
  shows "case gadd t gs of
           Inl T \<Rightarrow> read_ok (ustr gs @ show_ty t) T
         | Inr gs' \<Rightarrow> ginv gs' \<and> gs' \<noteq> [] \<and> ustr gs' = ustr gs @ show_ty t"
  using assms
proof (induction t gs rule: gadd.induct)
  case (1 t)
  then show ?case by (simp add: addable_def read_ok_def)
next
  case (2 t c ts r)
  show ?case
  proof (cases "c = ARRAY")
    case True
    with 2 have "addable (Arr t) r"
      by (cases t) (auto simp: addable_def diff_diff_add [symmetric])
    with True 2 show ?thesis by (simp split: sum.splits)
  next
    case False
    with 2 show ?thesis by (auto simp: addable_def)
  qed
qed

lemma close_addable:
  assumes "ginv ((k, ts) # r)"
  shows "k = STRUCT \<Longrightarrow> length ts mod 256 > 0 \<Longrightarrow> addable (Str ts) r"
    and "k = DICT_ENTRY \<Longrightarrow> length ts mod 256 = 2 \<Longrightarrow> addable (Dict ts) r"
  using assms by (auto simp: addable_def diff_diff_add [symmetric])

lemma gparse_sound:
  "gparse gs s = Some (T, rest) \<Longrightarrow> ginv gs \<Longrightarrow> gs \<noteq> [] \<Longrightarrow>
   \<exists>u. ustr gs @ s = u @ rest \<and> read_ok u T"
proof (induction "length s" arbitrary: gs s rule: less_induct)
  case less
  note IH = less.hyps
  obtain k ts r where gs: "gs = (k, ts) # r" using less.prems(3) by (cases gs) auto
  note bounds = ginv_bounds [OF less.prems(2)]
  obtain x v where s: "s = x # v" using less.prems(1) by (cases s) auto
  have rec: "\<exists>u. ustr gs' @ w = u @ rest \<and> read_ok u T"
    if "gparse gs' w = Some (T, rest)" "ginv gs'" "gs' \<noteq> []" "length w \<le> length v" for gs' w
    using that s by (intro IH) simp_all
  have add: "\<exists>u. (ustr q @ show_ty t) @ v = u @ rest \<and> read_ok u T"
    if "(case gadd t q of Inl T \<Rightarrow> Some (T, v) | Inr gs' \<Rightarrow> gparse gs' v) = Some (T, rest)" "ginv q" "addable t q" for t q
  proof (cases "gadd t q")
    case (Inl T')
    then show ?thesis using gadd_sound [OF that(2,3)] that(1) by auto
  next
    case (Inr gs')
    then show ?thesis using gadd_sound [OF that(2,3)] that(1) rec [of gs' v] by auto
  qed
  consider "x \<in> set leaf_types" | "x = ALLJOYN_ARRAY" | "x = ALLJOYN_DICT_ENTRY_OPEN"
    | "x = ALLJOYN_DICT_ENTRY_CLOSE" | "x = ALLJOYN_STRUCT_OPEN" | "x = ALLJOYN_STRUCT_CLOSE"
    using less.prems(1) s by (auto simp: gparse.simps split: if_splits)
  then show ?case
  proof cases
    case 1
    with add [of "Leaf x" gs] less.prems s bounds show ?thesis
      by (simp add: gparse_leaf addable_def)
  next
    case 2
    with rec [of "(ARRAY, []) # gs" v] less.prems s bounds show ?thesis
      by (auto simp: gparse_eqs split: if_splits)
  next
    case 3
    with rec [of "(DICT_ENTRY, [Leaf (peek v)]) # gs" "tl v"] less.prems s bounds show ?thesis
      by (cases v) (auto simp: gparse_eqs basic_leaf IsBasicType_def basic_types_def NUL_def split: if_splits)
  next
    case 4
    with add [of "Dict ts" r] less.prems s bounds gs close_addable(2) [of k ts r] show ?thesis
      by (auto simp: gparse_eqs split: if_splits)
  next
    case 5
    with rec [of "(STRUCT, []) # gs" v] less.prems s bounds show ?thesis
      by (auto simp: gparse_eqs split: if_splits)
  next
    case 6
    with add [of "Str ts" r] less.prems s bounds gs close_addable(1) [of k ts r] show ?thesis
      by (auto simp: gparse_eqs split: if_splits)
  qed
qed

lemma gparse_members:
  assumes "\<And>t gs rest. t \<in> set us \<Longrightarrow> addable t gs \<Longrightarrow> gs \<noteq> [] \<Longrightarrow>
      gparse gs (show_ty t @ rest) = (case gadd t gs of Inl T \<Rightarrow> Some (T, rest) | Inr gs' \<Rightarrow> gparse gs' rest)"
    and "k \<noteq> ARRAY" and "\<forall>t \<in> set us. addable t ((k, ds) # gs)"
  shows "gparse ((k, ds) # gs) (concat (map show_ty us) @ rest) = gparse ((k, ds @ us) # gs) rest"
  using assms
proof (induction us arbitrary: ds)
  case (Cons t us)
  have "addable t' ((k, ds @ [t]) # gs)" if "t' \<in> set us" for t'
    using Cons.prems(3) that by (simp add: addable_def)
  with Cons show ?case by simp
qed simp

lemma gparse_show:
  "addable t gs \<Longrightarrow> gs \<noteq> [] \<Longrightarrow>
   gparse gs (show_ty t @ rest) = (case gadd t gs of Inl T \<Rightarrow> Some (T, rest) | Inr gs' \<Rightarrow> gparse gs' rest)"
proof (induction t arbitrary: gs rest)
  case (Leaf c)
  then show ?case by (simp add: gparse_leaf addable_def)
next
  case (Arr t)
  then have "addable t ((ARRAY, []) # gs)" and "nA gs + 1 \<le> 32"
    by (auto simp: addable_def diff_diff_add [symmetric])
  with Arr.IH show ?case by (simp add: gparse_eqs)
next
  case (Str ts)
  then have "\<forall>t \<in> set ts. addable t ((STRUCT, []) # gs)" and n: "nS gs + 1 \<le> 32" "length ts mod 256 > 0"
    by (auto simp: addable_def diff_diff_add [symmetric])
  with gparse_members [of ts STRUCT "[]" gs "ALLJOYN_STRUCT_CLOSE # rest"] Str.IH n show ?case
    by (simp add: gparse_eqs)
next
  case (Dict ts)
  then obtain k us where ts: "ts = Leaf k # us" "IsBasicType k"
    by (auto simp: addable_def)
  have "\<forall>t \<in> set us. addable t ((DICT_ENTRY, [Leaf k]) # gs)" and n: "nS gs + 1 \<le> 32"
    "length ts mod 256 = 2" "fst (hd gs) = ARRAY"
    using Dict.prems ts by (auto simp: addable_def diff_diff_add [symmetric])
  with gparse_members [of us DICT_ENTRY "[Leaf k]" gs "ALLJOYN_DICT_ENTRY_CLOSE # rest"] Dict.IH ts show ?case
    by (simp add: gparse_eqs)
qed

subsection \<open>Complete types and signatures\<close>

abbreviation reads_top :: "sigty \<Rightarrow> bool" where
  "reads_top T \<equiv> wt_top T \<and> fits 32 32 T"

lemma ParseContainerSignature_agrees:
  "agrees (ParseContainerSignature c s) (gparse [(c, [])] s)"
proof -
  have "good [(c, [])]" by (cases c) (auto simp: good_def)
  moreover have "ParseContainerSignature c s = parse_loop c (pstate [(c, [])] 0) s"
    by (cases c) (simp_all add: ParseContainerSignature_def pstate_def)
  ultimately show ?thesis using parse_loop_gparse [of "[(c, [])]" c 0 s] by simp
qed

lemma ParseContainerSignature_sound:
  assumes "ParseContainerSignature c s = Done ER_OK rest n"
  shows "\<exists>T. opener c # s = show_ty T @ rest \<and> reads_top T"
proof -
  obtain T where "gparse [(c, [])] s = Some (T, rest)"
    using ParseContainerSignature_agrees [of c s] assms
    by (auto simp: agrees_def split: option.splits prod.splits)
  moreover have "ginv [(c, [])]" by (cases c) auto
  ultimately show ?thesis
    using gparse_sound [of "[(c, [])]" s T rest] by (auto simp: read_ok_def)
qed

lemma gparse_body:
  assumes "k \<noteq> ARRAY" and "\<forall>t \<in> set ts. wt False t \<and> fits 31 32 t"
  shows "gparse [(k, [])] (concat (map show_ty ts) @ rest) = gparse [(k, ts)] rest"
  using gparse_members [of ts k "[]" "[]" rest] gparse_show assms by (simp add: addable_def)

lemma gparse_complete:
  assumes "reads_top T" and "show_ty T = opener c # u"
  shows "gparse [(c, [])] (u @ rest) = Some (T, rest)"
proof (cases T)
  case (Leaf x)
  then show ?thesis using assms by (cases c) (auto simp: leaf_types_def)
next
  case (Arr t)
  then have c: "c = ARRAY" "u = show_ty t" using assms by (cases c; auto)+
  with Arr assms have "addable t [(ARRAY, [])]" by (simp add: addable_def)
  then show ?thesis using gparse_show [of t "[(ARRAY, [])]" rest] c Arr by simp
next
  case (Str ts)
  then have c: "c = STRUCT" "u = concat (map show_ty ts) @ [ALLJOYN_STRUCT_CLOSE]"
    using assms by (cases c; auto)+
  then show ?thesis
    using gparse_body [of STRUCT ts "ALLJOYN_STRUCT_CLOSE # rest"] assms Str by (simp add: gparse_eqs)
next
  case (Dict ts)
  then have c: "c = DICT_ENTRY" "u = concat (map show_ty ts) @ [ALLJOYN_DICT_ENTRY_CLOSE]"
    using assms by (cases c; auto)+
  then show ?thesis
    using gparse_body [of DICT_ENTRY ts "ALLJOYN_DICT_ENTRY_CLOSE # rest"] assms Dict by (simp add: gparse_eqs)
qed

lemma ParseContainerSignature_complete:
  assumes "reads_top T" and "opener c # s = show_ty T @ rest"
  shows "\<exists>n. ParseContainerSignature c s = Done ER_OK rest n"
proof -
  obtain u where u: "show_ty T = opener c # u" "s = u @ rest"
    using assms(2) by (cases T) (auto simp: Cons_eq_append_conv)
  then show ?thesis
    using ParseContainerSignature_agrees [of c s] gparse_complete [OF assms(1) u(1), of rest]
    by (simp add: agrees_def)
qed

lemma ParseContainerSignature_members:
  assumes "wt_top (Str ts)" "fits 32 32 (Str ts)"
  shows "ParseContainerSignature STRUCT (concat (map show_ty ts) @ ALLJOYN_STRUCT_CLOSE # rest) =
      Done ER_OK rest (length ts mod 256)"
proof -
  have "gparse [(STRUCT, [])] ((concat (map show_ty ts) @ [ALLJOYN_STRUCT_CLOSE]) @ rest) = Some (Str ts, rest)"
    using assms by (intro gparse_complete) auto
  moreover have "good [(STRUCT, [])]" "rooted [(STRUCT, [])]"
    by (auto simp: good_def rooted_def)
  moreover have "ParseContainerSignature STRUCT s = parse_loop STRUCT (pstate [(STRUCT, [])] 0) s" for s
    by (simp add: ParseContainerSignature_def pstate_def)
  ultimately show ?thesis
    using parse_loop_members [of "[(STRUCT, [])]" _ "Str ts" rest 0] by (simp add: member_count_def)
qed

lemma ParseContainerSignature_ok:
  "(\<exists>n. ParseContainerSignature c s = Done ER_OK rest n) \<longleftrightarrow>
   (\<exists>T. opener c # s = show_ty T @ rest \<and> reads_top T)"
  using ParseContainerSignature_sound ParseContainerSignature_complete by metis

lemma show_ty_hd:
  "reads_top T \<Longrightarrow> \<exists>x u. show_ty T = x # u \<and> (x \<in> set leaf_types \<and> u = [] \<and> T = Leaf x \<or>
     (\<exists>c. x = opener c) \<and> x \<notin> set leaf_types)"
  by (cases T) (auto simp: leaf_types_def intro: exI [of _ ARRAY] exI [of _ STRUCT] exI [of _ DICT_ENTRY])

lemma opener_cases: "x = opener c \<longleftrightarrow>
    (c = ARRAY \<and> x = ALLJOYN_ARRAY \<or> c = STRUCT \<and> x = ALLJOYN_STRUCT_OPEN \<or> c = DICT_ENTRY \<and> x = ALLJOYN_DICT_ENTRY_OPEN)"
  by (cases c) auto

lemma ParseCompleteType_ok:
  "(\<exists>n. ParseCompleteType s = Done ER_OK rest n) \<longleftrightarrow> (\<exists>T. s = show_ty T @ rest \<and> reads_top T)"
proof -
  consider "peek s \<in> set leaf_types" | c where "peek s = opener c" "peek s \<notin> set leaf_types"
    | "peek s \<notin> set leaf_types" "\<forall>c. peek s \<noteq> opener c"
    by blast
  then show ?thesis
  proof cases
    case 1
    then obtain x v where s: "s = x # v" by (cases s) (auto simp: leaf_types_def NUL_def)
    have "(\<exists>T. s = show_ty T @ rest \<and> reads_top T) \<longleftrightarrow> rest = v"
    proof
      assume "\<exists>T. s = show_ty T @ rest \<and> reads_top T"
      then obtain T where T: "s = show_ty T @ rest" "reads_top T" by blast
      with show_ty_hd [OF T(2)] 1 s show "rest = v" by auto
    next
      assume "rest = v"
      with 1 s show "\<exists>T. s = show_ty T @ rest \<and> reads_top T" by (intro exI [of _ "Leaf x"]) simp
    qed
    then show ?thesis using 1 s by (auto simp: ParseCompleteType_def)
  next
    case 2
    then obtain v where s: "s = opener c # v" by (cases s; cases c) (auto simp: NUL_def)
    have "ParseCompleteType s = ParseContainerSignature c v"
      using s by (cases c) (simp_all add: ParseCompleteType_def leaf_types_def)
    then show ?thesis using ParseContainerSignature_ok s by simp
  next
    case 3
    then have "ParseCompleteType s = Done ER_BUS_BAD_SIGNATURE (tl s) 0"
      by (auto simp: ParseCompleteType_def Let_def opener_cases)
    moreover have "\<not> (\<exists>T. s = show_ty T @ rest \<and> reads_top T)"
      using 3 show_ty_hd by fastforce
    ultimately show ?thesis by simp
  qed
qed

lemma ParseCompleteType_returns:
  "\<exists>rest n. ParseCompleteType s = Done ER_OK rest n \<or> ParseCompleteType s = Done ER_BUS_BAD_SIGNATURE rest n"
proof -
  have "\<exists>rest n. ParseContainerSignature c u = Done ER_OK rest n \<or>
      ParseContainerSignature c u = Done ER_BUS_BAD_SIGNATURE rest n" for c u
    using ParseContainerSignature_agrees [of c u] by (auto simp: agrees_def split: option.splits)
  then show ?thesis by (simp add: ParseCompleteType_def Let_def)
qed

lemma show_ty_nonempty [simp]: "show_ty T \<noteq> []"
  by (cases T) auto

lemma valid_types_loop_spec:
  "valid_types_loop s = Some (\<exists>ts. s = concat (map show_ty ts) \<and> (\<forall>T \<in> set ts. reads_top T))"
proof (induction s rule: valid_types_loop.induct)
  case (1 s)
  consider "s = []" | rest n where "s \<noteq> []" "ParseCompleteType s = Done ER_OK rest n"
    | rest n where "s \<noteq> []" "ParseCompleteType s = Done ER_BUS_BAD_SIGNATURE rest n"
    using ParseCompleteType_returns by blast
  then show ?case
  proof cases
    case 1
    then show ?thesis by (subst valid_types_loop.simps) (auto intro: exI [of _ "[]"])
  next
    case 2
    have iff: "(\<exists>T. s = show_ty T @ r \<and> reads_top T) \<longleftrightarrow> r = rest" for r
      using ParseCompleteType_ok [of s r] 2 by auto
    have "valid_types_loop s = valid_types_loop rest"
      using 2 by (subst valid_types_loop.simps) simp
    moreover have "(\<exists>ts. s = concat (map show_ty ts) \<and> (\<forall>T \<in> set ts. reads_top T)) \<longleftrightarrow>
        (\<exists>ts. rest = concat (map show_ty ts) \<and> (\<forall>T \<in> set ts. reads_top T))" (is "?l \<longleftrightarrow> ?r")
    proof
      assume ?l
      then obtain ts where ts: "s = concat (map show_ty ts)" "\<forall>T \<in> set ts. reads_top T" by blast
      with 2(1) obtain T us where "ts = T # us" by (cases ts) auto
      with ts iff show ?r by auto
    next
      assume ?r
      then obtain us where us: "rest = concat (map show_ty us)" "\<forall>T \<in> set us. reads_top T" by blast
      obtain T where "s = show_ty T @ rest" "reads_top T" using iff by blast
      with us show ?l by (intro exI [of _ "T # us"]) auto
    qed
    ultimately show ?thesis using "1.IH" [OF 2(1,2)] by simp
  next
    case 3
    have no: "\<not> (\<exists>T. s = show_ty T @ r \<and> reads_top T)" for r
      using ParseCompleteType_ok [of s r] 3 by simp
    have "\<not> (\<exists>ts. s = concat (map show_ty ts) \<and> (\<forall>T \<in> set ts. reads_top T))"
    proof clarify
      fix ts assume ts: "s = concat (map show_ty ts)" "\<forall>T \<in> set ts. reads_top T"
      with 3(1) obtain T us where "ts = T # us" by (cases ts) auto
      with ts no show False by auto
    qed
    moreover have "valid_types_loop s = Some False"
      using 3 by (subst valid_types_loop.simps) simp
    ultimately show ?thesis by simp
  qed
qed

subsection \<open>Within 255 characters the eight-bit member count is exact\<close>

lemma length_show_members: "length ts \<le> length (concat (map show_ty ts))"
proof (induction ts)
  case (Cons t ts)
  then show ?case by (cases "show_ty t") simp_all
qed simp

lemma show_member_le: "t \<in> set ts \<Longrightarrow> length (show_ty t) \<le> length (concat (map show_ty ts))"
  by (induction ts) auto

lemma wt_wf_ty: "length (show_ty t) \<le> 255 \<Longrightarrow> wt inarr t = wf_ty inarr t"
proof (induction t arbitrary: inarr)
  case (Str ts)
  have "\<forall>t \<in> set ts. wt False t = wf_ty False t"
    using Str show_member_le [of _ ts] by fastforce
  with Str.prems length_show_members [of ts] show ?case by auto
next
  case (Dict ts)
  have "\<forall>t \<in> set ts. wt False t = wf_ty False t"
    using Dict show_member_le [of _ ts] by fastforce
  with Dict.prems length_show_members [of ts] show ?case by auto
qed simp_all

lemma wt_wf_top:
  assumes "length (show_ty t) \<le> 255"
  shows "wt_top t = wf_top t"
proof (cases t)
  case (Dict ts)
  have "\<forall>t \<in> set ts. wt False t = wf_ty False t"
  proof
    fix t' assume "t' \<in> set ts"
    then show "wt False t' = wf_ty False t'"
      using Dict assms show_member_le [of t' ts] by (intro wt_wf_ty) simp
  qed
  with Dict assms length_show_members [of ts] show ?thesis by auto
qed (use assms wt_wf_ty in \<open>auto simp del: wt.simps wf_ty.simps\<close>)

text \<open>The types of D-Bus among those that the code accepts.\<close>

lemma dbus_ty_wf:
  "dbus_ty inarr t \<longleftrightarrow> wf_ty inarr t \<and> CHR ''*'' \<notin> set (show_ty t) \<and> CHR ''r'' \<notin> set (show_ty t)"
proof (induction t arbitrary: inarr)
  case (Leaf c)
  show ?case by (auto simp: dbus_leaves_def leaf_types_def)
qed auto

lemma dbus_type_iff:
  "dbus_type t \<longleftrightarrow> complete_type t \<and> CHR ''*'' \<notin> set (show_ty t) \<and> CHR ''r'' \<notin> set (show_ty t) \<and>
     (\<forall>ts. t \<noteq> Dict ts)"
  unfolding dbus_type_def complete_type_def dbus_ty_wf by (cases t) auto

text \<open>
  C2. A signature is valid exactly when it has at most 255 characters and is a sequence of
  types of the code's grammar, nested at most 32 structs and 32 arrays deep. That grammar is wider
  than the one of D-Bus: the D-Bus types among its types are exactly those without the
  wildcard and without a bare \<open>r\<close> that are not a dictionary entry standing alone. (Inside
  arrays the entries have two members and a basic key, as in D-Bus; standing alone they
  have two members and any key.)
\<close>

theorem valid_signature_grammar:
  "IsValidSignature (Some s) =
     Some (length s \<le> 255 \<and> (\<exists>ts. s = concat (map show_ty ts) \<and> list_all complete_type ts)) \<and>
   (list_all dbus_type types \<longleftrightarrow>
      list_all complete_type types \<and> CHR ''*'' \<notin> set (concat (map show_ty types)) \<and>
      CHR ''r'' \<notin> set (concat (map show_ty types)) \<and> (\<forall>us. Dict us \<notin> set types))"
proof -
  have "(\<forall>T \<in> set ts. reads_top T) = list_all complete_type ts" if "length (concat (map show_ty ts)) \<le> 255" for ts
    using that show_member_le [of _ ts] wt_wf_top
    by (fastforce simp: list_all_iff complete_type_def)
  then have "IsValidSignature (Some s) =
      Some (length s \<le> 255 \<and> (\<exists>ts. s = concat (map show_ty ts) \<and> list_all complete_type ts))"
    by (auto simp: IsValidSignature_def valid_types_loop_spec)
  then show ?thesis
    by (auto simp: list_all_iff dbus_type_iff)
qed

text \<open>
  C22. The signature parser always comes back, and with one of two answers: its stack of 64
  containers never overflows and its array loop never spins, whatever the input is. It accepts
  exactly the texts that begin with a type of the code's grammar nested at most 32
  structs and 32 arrays deep, and the rest it leaves is what follows that type. In this grammar
  (\<open>wt_top\<close>) a dictionary entry may stand alone with any key, the wildcard and a bare
  \<open>r\<close> are types, and members are counted in eight bits, all unlike D-Bus.
\<close>

theorem parse_complete_type_total:
  "\<exists>status rest n. ParseCompleteType s = Done status rest n \<and>
     (status = ER_OK \<and> (\<exists>T. s = show_ty T @ rest \<and> wt_top T \<and> fits 32 32 T) \<or>
      status = ER_BUS_BAD_SIGNATURE \<and> \<not> (\<exists>T r. s = show_ty T @ r \<and> wt_top T \<and> fits 32 32 T))"
proof -
  obtain rest n where "ParseCompleteType s = Done ER_OK rest n \<or> ParseCompleteType s = Done ER_BUS_BAD_SIGNATURE rest n"
    using ParseCompleteType_returns by blast
  then show ?thesis
  proof
    assume ok: "ParseCompleteType s = Done ER_OK rest n"
    then have "\<exists>T. s = show_ty T @ rest \<and> reads_top T" using ParseCompleteType_ok by blast
    with ok show ?thesis by blast
  next
    assume bad: "ParseCompleteType s = Done ER_BUS_BAD_SIGNATURE rest n"
    then have "\<not> (\<exists>T. s = show_ty T @ r \<and> reads_top T)" for r using ParseCompleteType_ok [of s r] by simp
    with bad show ?thesis by blast
  qed
qed

end
