(* ===== verification/IP_Address.thy ===== *)
theory IP_Address
  imports String_Util
begin

text \<open>
  The text form of internet addresses, \<^verbatim>\<open>common/src/IPAddress.cc\<close>: four and sixteen
  bytes to text and back. The parsers leave the caller's buffer alone until they have read
  the whole text. \<open>StringToIPv6\<close> collects its groups in two 64-bit words per side; a
  write behind them is a result of its own.
\<close>

unbundle bit_operations_syntax

subsection \<open>IPv4\<close>

fun octet_digits :: "nat \<Rightarrow> nat list \<Rightarrow> nat list" where
  "octet_digits val num = (if val > 0 then octet_digits (val div 10) (val mod 10 # num) else num)"

declare octet_digits.simps [simp del]

definition octet_text :: "byte \<Rightarrow> string" where
  "octet_text b = map U8ToChar (if unat b > 0 then octet_digits (unat b) [] else [0])"

fun dotted_octets :: "byte list \<Rightarrow> string" where
  "dotted_octets [] = []"
| "dotted_octets [b] = octet_text b"
| "dotted_octets (b # bs) = octet_text b @ ''.'' @ dotted_octets bs"

definition IPv4_SIZE :: nat where
  "IPv4_SIZE = 4"

definition IPv4ToString :: "byte list \<Rightarrow> string" where
  "IPv4ToString addr = dotted_octets (take IPv4_SIZE addr)"

text \<open>At most eleven digits: the 64-bit accumulator never overflows.\<close>

definition AccumulateDigits :: "string \<Rightarrow> nat \<Rightarrow> nat option" where
  "AccumulateDigits digits radix =
     (if radix = 16 then Some (foldl (\<lambda>temp c. (push_bit 4 temp) OR CharToU8 c) 0 digits)
      else if radix = 10 then
        (if list_all IsDecimalDigit digits then Some (foldl (\<lambda>temp c. temp * 10 + CharToU8 c) 0 digits) else None)
      else if radix = 8 then
        (if list_all IsOctalDigit digits then Some (foldl (\<lambda>temp c. (push_bit 3 temp) OR CharToU8 c) 0 digits) else None)
      else None)"

definition mode_radix :: "nat \<Rightarrow> nat" where
  "mode_radix digitsMode = (if digitsMode = 0 then 10 else if digitsMode = 1 then 16 else 8)"

definition ipv4_part :: "string \<Rightarrow> nat \<Rightarrow> nat list \<Rightarrow> nat list option" where
  "ipv4_part digits digitsMode parts =
     (if length parts \<ge> 4 then None
      else (case AccumulateDigits digits (mode_radix digitsMode) of
              None \<Rightarrow> None
            | Some temp \<Rightarrow> if temp > 0xFFFFFFFF then None else Some (parts @ [temp])))"

fun ipv4_loop :: "string \<Rightarrow> string \<Rightarrow> nat \<Rightarrow> nat list \<Rightarrow> (string \<times> nat \<times> nat list) option" where
  "ipv4_loop [] digits digitsMode parts = Some (digits, digitsMode, parts)"
| "ipv4_loop (c # rest) digits digitsMode parts =
     (if c = CHR ''.'' then
        (if digits = [] then None
         else (case ipv4_part digits digitsMode parts of
                 None \<Rightarrow> None
               | Some parts' \<Rightarrow> ipv4_loop rest [] 0 parts'))
      else if c = CHR ''0'' then
        (case rest of
           n # rest' \<Rightarrow>
             if n = CHR ''x'' then (if digits \<noteq> [] then None else ipv4_loop rest' digits 1 parts)
             else if digits = [] \<and> IsOctalDigit n then ipv4_loop rest digits 2 parts
             else if length digits \<ge> 11 then None
             else ipv4_loop rest (digits @ [c]) digitsMode parts
         | [] \<Rightarrow> if length digits \<ge> 11 then None else ipv4_loop rest (digits @ [c]) digitsMode parts)
      else if IsHexDigit c then
        (if digitsMode = 0 \<and> \<not> IsDecimalDigit c then None
         else if digitsMode = 1 \<and> \<not> IsHexDigit c then None
         else if digitsMode = 2 \<and> \<not> IsOctalDigit c then None
         else if length digits \<ge> 11 then None
         else ipv4_loop rest (digits @ [c]) digitsMode parts)
      else None)"

definition low_byte :: "nat \<Rightarrow> byte" where
  "low_byte n = word_of_nat (n mod 256)"

text \<open>The bytes that the little-endian build writes.\<close>

definition ipv4_pack :: "nat list \<Rightarrow> byte list option" where
  "ipv4_pack parts =
     (case parts of
        [a] \<Rightarrow> Some [low_byte (drop_bit 24 a), low_byte (drop_bit 16 a), low_byte (drop_bit 8 a), low_byte a]
      | [a, b] \<Rightarrow>
          if a > 0xFF \<or> b > 0xFFFFFF then None
          else Some [low_byte a, low_byte (drop_bit 16 a), low_byte (drop_bit 8 a), low_byte a]
      | [a, b, c] \<Rightarrow>
          if a > 0xFF \<or> b > 0xFF \<or> c > 0xFFFF then None
          else Some [low_byte a, low_byte b, low_byte (drop_bit 8 a), low_byte a]
      | [a, b, c, d] \<Rightarrow>
          if a > 0xFF \<or> b > 0xFF \<or> c > 0xFF \<or> d > 0xFF then None
          else Some [low_byte a, low_byte b, low_byte c, low_byte d]
      | _ \<Rightarrow> None)"

text \<open>\<open>None\<close> is \<^verbatim>\<open>ER_PARSE_ERROR\<close>, with the buffer left alone.\<close>

definition StringToIPv4 :: "string \<Rightarrow> byte list option" where
  "StringToIPv4 address =
     (case ipv4_loop address [] 0 [] of
        None \<Rightarrow> None
      | Some (digits, digitsMode, parts) \<Rightarrow>
          (case (if digits \<noteq> [] then ipv4_part digits digitsMode parts else Some parts) of
             None \<Rightarrow> None
           | Some parts' \<Rightarrow> ipv4_pack parts'))"

subsection \<open>IPv6 to text\<close>

text \<open>
  The scan for runs of zero groups, groups counted from 1. A run that reaches the end of
  the address is considered only when there was none before it.
\<close>

record zero_scan =
  firstGroupZero :: int
  lastGroupZero :: int
  minFirstGroupZero :: int
  maxLastGroupZero :: int

definition scan_group :: "bool \<Rightarrow> int \<Rightarrow> zero_scan \<Rightarrow> zero_scan" where
  "scan_group zero k z =
     (if zero then
        z\<lparr>firstGroupZero := (if firstGroupZero z = -1 then k else firstGroupZero z), lastGroupZero := k\<rparr>
      else
        (let z1 = (if firstGroupZero z \<noteq> -1 \<and> lastGroupZero z \<noteq> -1 \<and>
                      (minFirstGroupZero z = -1 \<and> maxLastGroupZero z = -1 \<or>
                       lastGroupZero z - firstGroupZero z > maxLastGroupZero z - minFirstGroupZero z)
                   then z\<lparr>minFirstGroupZero := firstGroupZero z, maxLastGroupZero := lastGroupZero z\<rparr> else z)
         in z1\<lparr>firstGroupZero := -1, lastGroupZero := -1\<rparr>))"

fun scan_zeros :: "byte list \<Rightarrow> int \<Rightarrow> zero_scan \<Rightarrow> zero_scan" where
  "scan_zeros (a # b # r) k z = scan_zeros r (k + 1) (scan_group (a = 0 \<and> b = 0) k z)"
| "scan_zeros _ k z = z"

definition zero_run :: "byte list \<Rightarrow> int \<times> int" where
  "zero_run addr =
     (let z = scan_zeros addr 1
            \<lparr>firstGroupZero = -1, lastGroupZero = -1, minFirstGroupZero = -1, maxLastGroupZero = -1\<rparr>
      in if minFirstGroupZero z = -1 \<and> maxLastGroupZero z = -1
         then (firstGroupZero z, lastGroupZero z) else (minFirstGroupZero z, maxLastGroupZero z))"

definition hex_group :: "byte \<Rightarrow> byte \<Rightarrow> string" where
  "hex_group hi lo =
     (let h1 = unat hi div 16; h2 = unat hi mod 16; l1 = unat lo div 16; l2 = unat lo mod 16;
          s1 = (if h1 \<noteq> 0 then [U8ToChar h1] else []);
          s2 = (if h2 \<noteq> 0 \<or> s1 \<noteq> [] then s1 @ [U8ToChar h2] else s1);
          s3 = (if l1 \<noteq> 0 \<or> s2 \<noteq> [] then s2 @ [U8ToChar l1] else s2)
      in s3 @ [U8ToChar l2])"

text \<open>
  \<open>k\<close> is the number of the group, \<open>(f, l)\<close> the run that is left out, \<open>(-1, -1)\<close> for
  none: the code's offsets are \<^verbatim>\<open>(k - 1) << 1\<close>, which is out of reach for -1.
\<close>

fun ipv6_groups :: "byte list \<Rightarrow> int \<Rightarrow> int \<Rightarrow> int \<Rightarrow> string" where
  "ipv6_groups (a # b # r) k f l =
     (if f \<noteq> -1 \<and> f \<le> k \<and> k \<le> l
      then (if k = f then ''::'' else []) @ ipv6_groups r (k + 1) f l
      else hex_group a b @ (if k + 1 \<noteq> f \<and> r \<noteq> [] then '':'' else []) @ ipv6_groups r (k + 1) f l)"
| "ipv6_groups _ k f l = []"

definition IPv6ToString :: "byte list \<Rightarrow> string" where
  "IPv6ToString addr =
     (case zero_run addr of (f, l) \<Rightarrow>
        if f = 1 \<and> l = 5 \<and> addr ! 10 = 0xFF \<and> addr ! 11 = 0xFF
        then ''::ffff:'' @ dotted_octets (drop 12 addr)
        else ipv6_groups addr 1 f l)"

subsection \<open>Text to IPv6\<close>

record ip6 =
  leftBits :: "64 word list"
  rightBits :: "64 word list"
  leftBitCount :: nat
  rightBitCount :: nat
  groupExpansionCount :: nat
  groupProcessed :: bool
  octetCount :: nat
  leftCounter :: bool
  digits6 :: string
  parseModeAny :: bool

definition ip6_start :: ip6 where
  "ip6_start =
     \<lparr>leftBits = [0, 0], rightBits = [0, 0], leftBitCount = 0, rightBitCount = 0, groupExpansionCount = 0,
      groupProcessed = False, octetCount = 0, leftCounter = False, digits6 = [], parseModeAny = True\<rparr>"

text \<open>\<open>None\<close>: the index is outside the array of two words.\<close>

definition SetBits :: "64 word list \<Rightarrow> nat \<Rightarrow> nat \<Rightarrow> 64 word list option" where
  "SetBits set' offset bits =
     (let index = offset div 64 in
      if index \<ge> 2 then None
      else Some (set'[index := (set' ! index) OR push_bit (offset mod 64) (word_of_nat bits)]))"

datatype 'a ip6_result = Parsed 'a | Parse_error | Overrun

fun bind6 :: "'a ip6_result \<Rightarrow> ('a \<Rightarrow> 'b ip6_result) \<Rightarrow> 'b ip6_result" where
  "bind6 (Parsed x) f = f x"
| "bind6 Parse_error f = Parse_error"
| "bind6 Overrun f = Overrun"

definition store_bits :: "nat \<Rightarrow> nat \<Rightarrow> ip6 \<Rightarrow> ip6 ip6_result" where
  "store_bits temp width s =
     (if leftCounter s
      then (case SetBits (leftBits s) (leftBitCount s) temp of
              None \<Rightarrow> Overrun
            | Some b \<Rightarrow> Parsed (s\<lparr>leftBits := b, leftBitCount := leftBitCount s + width, digits6 := []\<rparr>))
      else (case SetBits (rightBits s) (rightBitCount s) temp of
              None \<Rightarrow> Overrun
            | Some b \<Rightarrow> Parsed (s\<lparr>rightBits := b, rightBitCount := rightBitCount s + width, digits6 := []\<rparr>)))"

definition store_group :: "ip6 \<Rightarrow> ip6 ip6_result" where
  "store_group s =
     (case AccumulateDigits (digits6 s) 16 of
        None \<Rightarrow> Parse_error
      | Some temp \<Rightarrow> store_bits temp 16 s)"

definition store_octet :: "ip6 \<Rightarrow> ip6 ip6_result" where
  "store_octet s =
     (if digits6 s = [] then Parse_error
      else (case AccumulateDigits (digits6 s) 10 of
              None \<Rightarrow> Parse_error
            | Some temp \<Rightarrow> if temp > 0xFF then Parse_error else store_bits temp 8 s))"

definition add_digit6 :: "char \<Rightarrow> ip6 \<Rightarrow> ip6 ip6_result" where
  "add_digit6 c s = (if length (digits6 s) \<ge> 4 then Parse_error else Parsed (s\<lparr>digits6 := c # digits6 s\<rparr>))"

text \<open>
  The loop walks the text backwards, so it is given reversed: the second character is
  \<^verbatim>\<open>address[i - 1]\<close>.
\<close>

fun ipv6_loop :: "string \<Rightarrow> ip6 \<Rightarrow> ip6 ip6_result" where
  "ipv6_loop [] s = Parsed s"
| "ipv6_loop (c # rest) s =
     (if parseModeAny s then
        (if c = CHR '':'' then
           (case rest of
              c' # rest' \<Rightarrow>
                if c' = CHR '':'' then
                  (let s1 = s\<lparr>groupExpansionCount := groupExpansionCount s + 1\<rparr> in
                   if groupExpansionCount s1 > 1 then Parse_error
                   else bind6 (if digits6 s1 \<noteq> [] then store_group s1 else Parsed s1)
                          (\<lambda>s2. ipv6_loop rest' (s2\<lparr>leftCounter := True\<rparr>)))
                else if digits6 s = [] then Parse_error
                else bind6 (store_group s) (\<lambda>s1. ipv6_loop rest (s1\<lparr>groupProcessed := True\<rparr>))
            | [] \<Rightarrow>
                if digits6 s = [] then Parse_error
                else bind6 (store_group s) (\<lambda>s1. ipv6_loop rest (s1\<lparr>groupProcessed := True\<rparr>)))
         else if IsHexDigit c then bind6 (add_digit6 c s) (ipv6_loop rest)
         else if c = CHR ''.'' then
           (let s1 = s\<lparr>octetCount := octetCount s + 1\<rparr> in
            if octetCount s1 > 4 then Parse_error
            else if groupProcessed s1 \<or> groupExpansionCount s1 > 0 then Parse_error
            else bind6 (store_octet s1) (\<lambda>s2. ipv6_loop rest (s2\<lparr>parseModeAny := False\<rparr>)))
         else Parse_error)
      else
        (if IsDecimalDigit c then bind6 (add_digit6 c s) (ipv6_loop rest)
         else if c = CHR ''.'' \<or> c = CHR '':'' then
           (let s1 = s\<lparr>octetCount := octetCount s + 1\<rparr> in
            if c = CHR '':'' \<and> octetCount s1 \<noteq> 4 then Parse_error
            else (let s2 = (if c = CHR '':'' then s1\<lparr>parseModeAny := True\<rparr> else s1) in
                  if octetCount s2 > 4 then Parse_error
                  else bind6 (store_octet s2) (ipv6_loop rest)))
         else Parse_error))"

text \<open>Bytes of the two words, lowest first, in steps of 16 bits.\<close>

definition bits_bytes :: "64 word list \<Rightarrow> nat \<Rightarrow> byte list" where
  "bits_bytes bits count =
     map (\<lambda>j. ucast (drop_bit (8 * (j mod 8)) (bits ! (j div 8)))) [0..<2 * ((count + 15) div 16)]"

fun place :: "nat \<Rightarrow> byte list \<Rightarrow> byte list \<Rightarrow> byte list" where
  "place index [] buf = buf"
| "place index (b # bs) buf = place (index - 1) bs (buf[index := b])"

text \<open>
  The status and what has become of the buffer: untouched (\<open>None\<close>), or the sixteen bytes
  written. An address that turns out too short is refused only after the buffer was zeroed.
\<close>

definition StringToIPv6 :: "string \<Rightarrow> (QStatus \<times> byte list option) ip6_result" where
  "StringToIPv6 address =
     (case bind6 (ipv6_loop (rev address) ip6_start)
             (\<lambda>s. if \<not> parseModeAny s then Parse_error
                  else if digits6 s \<noteq> [] then store_group s else Parsed s) of
        Overrun \<Rightarrow> Overrun
      | Parse_error \<Rightarrow> Parsed (ER_PARSE_ERROR, None)
      | Parsed s \<Rightarrow>
          (let zeros = replicate 16 0; r = rightBitCount s; l = leftBitCount s;
               right = bits_bytes (rightBits s) r; left = bits_bytes (leftBits s) l
           in if r > 0 \<and> l > 0 then Parsed (ER_OK, Some (place (l div 8 - 1) left (place 15 right zeros)))
              else if r = 0 \<and> l = 0 then
                Parsed (if groupExpansionCount s > 0 then ER_OK else ER_PARSE_ERROR, Some zeros)
              else if l > 0 then
                (if groupExpansionCount s > 0 then Parsed (ER_OK, Some (place (l div 8 - 1) left zeros))
                 else if l \<noteq> 128 then Parsed (ER_PARSE_ERROR, Some zeros)
                 else Parsed (ER_OK, Some (place 15 left zeros)))
              else
                (if groupExpansionCount s = 0 \<and> r \<noteq> 128 then Parsed (ER_PARSE_ERROR, Some zeros)
                 else Parsed (ER_OK, Some (place 15 right zeros)))))"

subsection \<open>Reading back dotted decimals\<close>

lemma octet_digits_small:
  "n < 256 \<Longrightarrow> 0 < n \<Longrightarrow> octet_digits n [] =
     (if n < 10 then [n] else if n < 100 then [n div 10, n mod 10] else [n div 100, n div 10 mod 10, n mod 10])"
proof -
  assume n: "n < 256" "0 < n"
  have step: "octet_digits k ds = octet_digits (k div 10) (k mod 10 # ds)" if "0 < k" for k ds
    using that by (subst octet_digits.simps) simp
  have stop: "octet_digits 0 ds = ds" for ds
    by (subst octet_digits.simps) simp
  consider "n < 10" | "10 \<le> n" "n < 100" | "100 \<le> n" by linarith
  then show ?thesis
  proof cases
    case 1
    then show ?thesis using step [OF n(2), of "[]"] stop by simp
  next
    case 2
    then have "0 < n div 10" "n div 10 < 10" by auto
    with 2 show ?thesis using step [OF n(2), of "[]"] step [of "n div 10" "[n mod 10]"] stop by simp
  next
    case 3
    then have "0 < n div 10" "0 < n div 10 div 10" "n div 10 div 10 < 10" "n div 10 div 10 = n div 100"
      using n by (auto simp: div_mult2_eq [symmetric])
    with 3 show ?thesis
      using step [OF n(2), of "[]"] step [of "n div 10" "[n mod 10]"]
        step [of "n div 10 div 10" "[n div 10 mod 10, n mod 10]"] stop by simp
  qed
qed

lemma digit_char:
  assumes "d < 10"
  shows "IsDecimalDigit (U8ToChar d)" "IsHexDigit (U8ToChar d)" "U8ToChar d \<noteq> CHR ''.''"
    "U8ToChar d = CHR ''0'' \<longleftrightarrow> d = 0" "U8ToChar d \<noteq> CHR ''x''"
proof -
  have c: "char_code (U8ToChar d) = d + 48" using assms by (simp add: U8ToChar_def char_code_literals)
  then show "IsDecimalDigit (U8ToChar d)" "IsHexDigit (U8ToChar d)"
    using assms by (simp_all add: IsDecimalDigit_def IsHexDigit_def char_code_literals)
  show "U8ToChar d \<noteq> CHR ''.''" "U8ToChar d \<noteq> CHR ''x''"
    using c assms by (auto simp: char_code_def)
  show "U8ToChar d = CHR ''0'' \<longleftrightarrow> d = 0"
    using c assms by (auto simp: char_code_literals U8ToChar_def char_of_def bit_0)
qed

lemma octet_shape:
  obtains d where "d < 10" "octet_text b = [U8ToChar d]" "unat b = d"
  | d e where "0 < d" "d < 10" "e < 10" "octet_text b = [U8ToChar d, U8ToChar e]" "unat b = 10 * d + e"
  | d e f where "0 < d" "d < 10" "e < 10" "f < 10" "octet_text b = [U8ToChar d, U8ToChar e, U8ToChar f]"
      "unat b = 100 * d + 10 * e + f"
proof -
  have n: "unat b < 256" using unsigned_less [of b, where ?'a = nat] by simp
  consider "unat b < 10" | "10 \<le> unat b" "unat b < 100" | "100 \<le> unat b" by linarith
  then show thesis
  proof cases
    case 1
    then show thesis using that(1) [of "unat b"] n by (cases "unat b = 0") (auto simp: octet_text_def octet_digits_small)
  next
    case 2
    then show thesis using that(2) [of "unat b div 10" "unat b mod 10"] n
      by (auto simp: octet_text_def octet_digits_small)
  next
    case 3
    have "unat b div 10 = 10 * (unat b div 100) + unat b div 10 mod 10"
      using div_mult_mod_eq [of "unat b div 10" 10] by (simp add: div_mult2_eq [symmetric])
    then have e: "unat b = 100 * (unat b div 100) + 10 * (unat b div 10 mod 10) + unat b mod 10"
      using mult_div_mod_eq [of 10 "unat b"] by linarith
    have t: "octet_text b = [U8ToChar (unat b div 100), U8ToChar (unat b div 10 mod 10), U8ToChar (unat b mod 10)]"
      using 3 n by (simp add: octet_text_def octet_digits_small)
    show thesis by (rule that(3) [OF _ _ _ _ t e]) (use 3 n in auto)
  qed
qed

lemma ipv4_loop_octet:
  assumes "rest = [] \<or> rest = CHR ''.'' # rest'"
  shows "ipv4_loop (octet_text b @ rest) [] 0 parts = ipv4_loop rest (octet_text b) 0 parts"
proof -
  have dot: "\<not> IsOctalDigit (CHR ''.'')" by (simp add: chars)
  show ?thesis
    using assms by (elim disjE; cases b rule: octet_shape; simp add: digit_char dot)
qed

lemma octet_text_not_Nil [simp]: "octet_text b \<noteq> []"
  by (cases b rule: octet_shape) auto

lemma ipv4_part_octet:
  "length parts < 4 \<Longrightarrow> ipv4_part (octet_text b) 0 parts = Some (parts @ [unat b])"
  by (cases b rule: octet_shape) (auto simp: ipv4_part_def mode_radix_def AccumulateDigits_def digit_char)

lemma replicate_16: "replicate 16 x = [x, x, x, x, x, x, x, x, x, x, x, x, x, x, x, x]"
  by (simp add: numeral_eq_Suc)

lemma low_byte_unat [simp]: "low_byte (unat b) = b"
proof -
  have "unat b mod 256 = unat b" using unsigned_less [of b, where ?'a = nat] by simp
  then show ?thesis by (simp add: low_byte_def)
qed

lemma unat_octet: "\<not> unat (b :: byte) > 0xFF"
  using unsigned_less [of b, where ?'a = nat] by simp

lemma StringToIPv4_dotted: "StringToIPv4 (dotted_octets [a, b, c, d]) = Some [a, b, c, d]"
  by (simp add: StringToIPv4_def ipv4_loop_octet ipv4_loop_octet [of "[]", simplified] ipv4_part_octet ipv4_pack_def unat_octet)

subsection \<open>Properties\<close>

text \<open>
  C35. The text of an IPv4 address reads back as the same four bytes.
\<close>

theorem ipv4_text_roundtrip:
  assumes "length addr = 4"
  shows "StringToIPv4 (IPv4ToString addr) = Some addr"
proof -
  obtain a b c d where "addr = [a, b, c, d]"
    using assms by (auto simp: length_Suc_conv numeral_eq_Suc)
  then show ?thesis by (simp add: IPv4ToString_def IPv4_SIZE_def StringToIPv4_dotted del: dotted_octets.simps)
qed

theorem ipv4_text_roundtrip_witness:
  "StringToIPv4 (IPv4ToString [192, 168, 0, 1]) = Some [192, 168, 0, 1]"
  by (rule ipv4_text_roundtrip) simp

text \<open>
  In the short forms of an IPv4 address the last part is lost: the code fills its bytes
  from the first part again. The text \<open>10.1\<close> gives 10.0.0.10 instead of 10.0.0.1 and
  \<open>10.1.2\<close> gives 10.1.0.10 instead of 10.1.0.2.
\<close>

theorem ipv4_short_forms_wrong:
  "StringToIPv4 ''10.1'' = Some [10, 0, 0, 10] \<and> StringToIPv4 ''10.1.2'' = Some [10, 1, 0, 10] \<and>
   StringToIPv4 ''167772161'' = Some [10, 0, 0, 1]"
  by (simp add: StringToIPv4_def ipv4_part_def mode_radix_def AccumulateDigits_def ipv4_pack_def low_byte_def chars)

text \<open>An address as the list of its groups.\<close>

fun colon_text :: "string list \<Rightarrow> string" where
  "colon_text [] = []"
| "colon_text [g] = g"
| "colon_text (g # gs) = g @ CHR '':'' # colon_text gs"

definition hex_group_ok :: "string \<Rightarrow> bool" where
  "hex_group_ok g \<longleftrightarrow> g \<noteq> [] \<and> length g \<le> 4 \<and> list_all IsHexDigit g"

lemma colon_text_snoc:
  "gs \<noteq> [] \<Longrightarrow> rev (colon_text (gs @ [g])) = rev g @ CHR '':'' # rev (colon_text gs)"
  by (induction gs rule: colon_text.induct) auto

lemma hex_not_colon: "IsHexDigit c \<Longrightarrow> c \<noteq> CHR '':''"
  by (auto simp: chars)

lemma rev_colon_text:
  "gs \<noteq> [] \<Longrightarrow> list_all hex_group_ok gs \<Longrightarrow> \<exists>c rest. rev (colon_text gs) = c # rest \<and> c \<noteq> CHR '':''"
proof (cases gs rule: rev_cases)
  case (snoc hs g)
  assume "list_all hex_group_ok gs"
  with snoc obtain c r where g: "rev g = c # r" "IsHexDigit c"
    by (cases "rev g") (auto simp: hex_group_ok_def list_all_iff)
  then show ?thesis
    using snoc colon_text_snoc [of hs g] by (cases "hs = []") (auto dest: hex_not_colon)
qed simp

lemma ipv6_loop_digits:
  "parseModeAny s \<Longrightarrow> list_all IsHexDigit xs \<Longrightarrow> length xs + length (digits6 s) \<le> 4 \<Longrightarrow>
   ipv6_loop (xs @ rest) s = ipv6_loop rest (s\<lparr>digits6 := rev xs @ digits6 s\<rparr>)"
proof (induction xs arbitrary: s)
  case (Cons c xs)
  then show ?case by (auto simp: add_digit6_def dest: hex_not_colon)
qed simp

text \<open>After \<open>k\<close> groups on the right-hand side the next one goes to bit \<open>16 * k\<close>.\<close>

lemma store_group_right:
  assumes "\<not> leftCounter s" and "rightBitCount s = 16 * k"
  shows "if k \<ge> 8 then store_group s = Overrun
         else \<exists>b. store_group s = Parsed (s\<lparr>rightBits := b, rightBitCount := 16 * Suc k, digits6 := []\<rparr>)"
  using assms by (auto simp: store_group_def store_bits_def SetBits_def AccumulateDigits_def Let_def add.commute [of 16])

definition finish6 :: "ip6 \<Rightarrow> ip6 ip6_result" where
  "finish6 s = (if \<not> parseModeAny s then Parse_error else if digits6 s \<noteq> [] then store_group s else Parsed s)"

lemma groups_overrun:
  "\<lbrakk>gs \<noteq> []; list_all hex_group_ok gs; k + length gs \<ge> 9; \<not> leftCounter s; parseModeAny s; digits6 s = [];
    rightBitCount s = 16 * k\<rbrakk> \<Longrightarrow> bind6 (ipv6_loop (rev (colon_text gs)) s) finish6 = Overrun"
proof (induction gs arbitrary: k s rule: rev_induct)
  case (snoc g gs)
  then have g: "g \<noteq> []" "length (rev g) + length (digits6 s) \<le> 4" "list_all IsHexDigit (rev g)"
    by (simp_all add: hex_group_ok_def)
  let ?s = "s\<lparr>digits6 := g\<rparr>"
  note loop = ipv6_loop_digits [OF snoc.prems(5) g(3,2)]
  note st = store_group_right [of ?s k]
  show ?case
  proof (cases "gs = []")
    case True
    then show ?thesis
      using loop [of "[]"] st snoc.prems g(1) by (simp add: finish6_def)
  next
    case False
    then obtain c rest where r: "rev (colon_text gs) = c # rest" "c \<noteq> CHR '':''"
      using rev_colon_text [of gs] snoc.prems(2) by auto
    have step: "ipv6_loop (rev (colon_text (gs @ [g]))) s =
        bind6 (store_group ?s) (\<lambda>s1. ipv6_loop (rev (colon_text gs)) (s1\<lparr>groupProcessed := True\<rparr>))"
      using loop [of "CHR '':'' # rev (colon_text gs)"] snoc.prems(5,6) g(1) r colon_text_snoc [OF False, of g]
      by simp
    show ?thesis
    proof (cases "k \<ge> 8")
      case True
      then show ?thesis unfolding step using st snoc.prems by simp
    next
      case small: False
      then obtain b where b: "store_group ?s = Parsed (?s\<lparr>rightBits := b, rightBitCount := 16 * Suc k, digits6 := []\<rparr>)"
        using st snoc.prems by auto
      show ?thesis
        unfolding step b bind6.simps
        by (rule snoc.IH [of "Suc k"]) (use snoc.prems False in auto)
    qed
  qed
qed simp

text \<open>
  \<open>StringToIPv6\<close> does not count the groups: every address of nine or more groups of one
  to four hexadecimal digits makes it write behind its two 64-bit words. With a \<open>::\<close> among
  them nine groups can even be accepted, as the second conjunct shows.
\<close>

theorem ipv6_group_overrun:
  assumes "length gs \<ge> 9" and "list_all hex_group_ok gs"
  shows "StringToIPv6 (colon_text gs) = Overrun \<and>
   StringToIPv6 ''1:2:3:4::5:6:7:8:9'' = Parsed (ER_OK, Some [0,1, 0,2, 0,3, 0,4, 0,6, 0,7, 0,8, 0,9])"
proof
  have "bind6 (ipv6_loop (rev (colon_text gs)) ip6_start) finish6 = Overrun"
    using assms by (intro groups_overrun [of _ 0]) (auto simp: ip6_start_def)
  then show "StringToIPv6 (colon_text gs) = Overrun"
    by (simp add: StringToIPv6_def finish6_def [abs_def])
qed (simp add: StringToIPv6_def ip6_start_def Let_def add_digit6_def store_group_def AccumulateDigits_def
  store_bits_def SetBits_def bits_bytes_def replicate_16 upt_rec chars)

theorem ipv6_group_overrun_witness:
  "StringToIPv6 (colon_text [''1'', ''2'', ''3'', ''4'', ''5'', ''6'', ''7'', ''8'', ''9'']) = Overrun"
  by (rule ipv6_group_overrun [THEN conjunct1]) (simp_all add: hex_group_ok_def chars)

end
