(* ===== verification/Ns_Protocol.thy ===== *)
theory Ns_Protocol
  imports IP_Address "HOL-Library.Monad_Syntax"
begin

text \<open>
  The messages of the name service, \<^verbatim>\<open>alljoyn_core/router/ns/IpNsProtocol.cc\<close>: strings,
  who-has questions, is-at answers and the packets that carry them, in message versions 0
  and 1, with the size they announce, the bytes they write and how they are read back. A
  writer returns \<open>None\<close> where the code stops at an assertion or an address overruns
  its buffer. Bytes that a writer skips because an address does not parse keep the old
  contents of the buffer, \<open>old\<close>. A reader keeps what it has stored in the object when
  it gives up: \<open>Stop\<close>.
\<close>

unbundle bit_operations_syntax

subsection \<open>Strings\<close>

definition StringData_GetSerializedSize :: "string \<Rightarrow> nat" where
  "StringData_GetSerializedSize s = 1 + length s"

text \<open>The length is cut to one byte; the characters are all written.\<close>

definition StringData_Serialize :: "string \<Rightarrow> byte list" where
  "StringData_Serialize s = word_of_nat (length s) # map char_byte s"

definition StringData_Deserialize :: "byte list \<Rightarrow> string \<times> nat" where
  "StringData_Deserialize buffer =
     (case buffer of
        [] \<Rightarrow> ([], 0)
      | b # rest \<Rightarrow>
          (let m_size = unat b in
           if length rest < m_size then ([], 0)
           else (map byte_char (take m_size rest), 1 + m_size)))"

subsection \<open>Answers\<close>

record IsAt =
  version :: byte
  transportMask :: u16
  flagG :: bool
  flagC :: bool
  flagT :: bool
  flagU :: bool
  flagS :: bool
  flagF :: bool
  flagR4 :: bool
  flagU4 :: bool
  flagR6 :: bool
  flagU6 :: bool
  port :: u16
  guid :: string
  ipv4 :: string
  ipv6 :: string
  reliableIPv4Address :: string
  reliableIPv4Port :: u16
  unreliableIPv4Address :: string
  unreliableIPv4Port :: u16
  reliableIPv6Address :: string
  reliableIPv6Port :: u16
  unreliableIPv6Address :: string
  unreliableIPv6Port :: u16
  names :: "string list"

text \<open>The constructor leaves the transport mask as it finds it, \<open>tmask\<close>.\<close>

definition new_IsAt :: "u16 \<Rightarrow> IsAt" where
  "new_IsAt tmask =
     \<lparr>version = 0, transportMask = tmask, flagG = False, flagC = False, flagT = False, flagU = False,
      flagS = False, flagF = False, flagR4 = False, flagU4 = False, flagR6 = False, flagU6 = False,
      port = 0, guid = [], ipv4 = [], ipv6 = [], reliableIPv4Address = [], reliableIPv4Port = 0,
      unreliableIPv4Address = [], unreliableIPv4Port = 0, reliableIPv6Address = [], reliableIPv6Port = 0,
      unreliableIPv6Address = [], unreliableIPv6Port = 0, names = []\<rparr>"

definition SetGuid :: "string \<Rightarrow> IsAt \<Rightarrow> IsAt" where
  "SetGuid g x = x\<lparr>guid := g, flagG := True\<rparr>"

definition SetPort :: "u16 \<Rightarrow> IsAt \<Rightarrow> IsAt" where
  "SetPort p x = x\<lparr>port := p\<rparr>"

definition ClearIPv4 :: "IsAt \<Rightarrow> IsAt" where
  "ClearIPv4 x = x\<lparr>ipv4 := [], flagF := False\<rparr>"

definition SetIPv4 :: "string \<Rightarrow> IsAt \<Rightarrow> IsAt" where
  "SetIPv4 a x = x\<lparr>ipv4 := a, flagF := True\<rparr>"

definition ClearIPv6 :: "IsAt \<Rightarrow> IsAt" where
  "ClearIPv6 x = x\<lparr>ipv6 := [], flagS := False\<rparr>"

definition SetIPv6 :: "string \<Rightarrow> IsAt \<Rightarrow> IsAt" where
  "SetIPv6 a x = x\<lparr>ipv6 := a, flagS := True\<rparr>"

definition ClearReliableIPv4 :: "IsAt \<Rightarrow> IsAt" where
  "ClearReliableIPv4 x = x\<lparr>reliableIPv4Address := [], reliableIPv4Port := 0, flagR4 := False\<rparr>"

definition SetReliableIPv4 :: "string \<Rightarrow> u16 \<Rightarrow> IsAt \<Rightarrow> IsAt" where
  "SetReliableIPv4 a p x = x\<lparr>reliableIPv4Address := a, reliableIPv4Port := p, flagR4 := True\<rparr>"

definition ClearUnreliableIPv4 :: "IsAt \<Rightarrow> IsAt" where
  "ClearUnreliableIPv4 x = x\<lparr>unreliableIPv4Address := [], unreliableIPv4Port := 0, flagU4 := False\<rparr>"

definition SetUnreliableIPv4 :: "string \<Rightarrow> u16 \<Rightarrow> IsAt \<Rightarrow> IsAt" where
  "SetUnreliableIPv4 a p x = x\<lparr>unreliableIPv4Address := a, unreliableIPv4Port := p, flagU4 := True\<rparr>"

definition ClearReliableIPv6 :: "IsAt \<Rightarrow> IsAt" where
  "ClearReliableIPv6 x = x\<lparr>reliableIPv6Address := [], reliableIPv6Port := 0, flagR6 := False\<rparr>"

definition SetReliableIPv6 :: "string \<Rightarrow> u16 \<Rightarrow> IsAt \<Rightarrow> IsAt" where
  "SetReliableIPv6 a p x = x\<lparr>reliableIPv6Address := a, reliableIPv6Port := p, flagR6 := True\<rparr>"

definition ClearUnreliableIPv6 :: "IsAt \<Rightarrow> IsAt" where
  "ClearUnreliableIPv6 x = x\<lparr>unreliableIPv6Address := [], unreliableIPv6Port := 0, flagU6 := False\<rparr>"

definition SetUnreliableIPv6 :: "string \<Rightarrow> u16 \<Rightarrow> IsAt \<Rightarrow> IsAt" where
  "SetUnreliableIPv6 a p x = x\<lparr>unreliableIPv6Address := a, unreliableIPv6Port := p, flagU6 := True\<rparr>"

definition Reset :: "IsAt \<Rightarrow> IsAt" where
  "Reset x = x\<lparr>names := []\<rparr>"

definition AddName :: "string \<Rightarrow> IsAt \<Rightarrow> IsAt" where
  "AddName n x = x\<lparr>names := names x @ [n]\<rparr>"

definition RemoveName :: "nat \<Rightarrow> IsAt \<Rightarrow> IsAt" where
  "RemoveName index x =
     (if index < length (names x) then x\<lparr>names := take index (names x) @ drop (Suc index) (names x)\<rparr> else x)"

definition msgVersion :: "byte \<Rightarrow> byte" where
  "msgVersion v = v AND 0xf"

definition names_size :: "string list \<Rightarrow> nat" where
  "names_size ns = sum_list (map StringData_GetSerializedSize ns)"

definition IsAt_GetSerializedSize :: "IsAt \<Rightarrow> nat option" where
  "IsAt_GetSerializedSize x =
     (if msgVersion (version x) = 0 then
        Some (4 + (if flagF x then 4 else 0) + (if flagS x then 16 else 0) +
              (if flagG x then StringData_GetSerializedSize (guid x) else 0) + names_size (names x))
      else if msgVersion (version x) = 1 then
        Some (4 + (if flagR4 x then 6 else 0) + (if flagU4 x then 6 else 0) +
              (if flagR6 x then 18 else 0) + (if flagU6 x then 18 else 0) +
              (if flagG x then StringData_GetSerializedSize (guid x) else 0) + names_size (names x))
      else None)"

text \<open>
  Writers append to the bytes written so far; the position in the buffer is \<open>off\<close> plus
  their number.
\<close>

definition flag :: "bool \<Rightarrow> byte \<Rightarrow> byte" where
  "flag b m = (if b then m else 0)"

definition w_addr4 :: "(nat \<Rightarrow> byte) \<Rightarrow> nat \<Rightarrow> string \<Rightarrow> byte list \<Rightarrow> byte list option" where
  "w_addr4 old off a acc =
     Some (acc @ (case StringToIPv4 a of
                    Some bs \<Rightarrow> bs
                  | None \<Rightarrow> map old [off + length acc..<off + length acc + 4]))"

definition w_addr6 :: "(nat \<Rightarrow> byte) \<Rightarrow> nat \<Rightarrow> string \<Rightarrow> byte list \<Rightarrow> byte list option" where
  "w_addr6 old off a acc =
     (case StringToIPv6 a of
        Parsed (_, Some bs) \<Rightarrow> Some (acc @ bs)
      | Parsed (_, None) \<Rightarrow> Some (acc @ map old [off + length acc..<off + length acc + 16])
      | _ \<Rightarrow> None)"

definition w_port :: "u16 \<Rightarrow> byte list \<Rightarrow> byte list option" where
  "w_port p acc = Some (acc @ [u16_hi p, u16_lo p])"

definition w_string :: "string \<Rightarrow> byte list \<Rightarrow> byte list option" where
  "w_string s acc = Some (acc @ StringData_Serialize s)"

definition w_names :: "string list \<Rightarrow> byte list \<Rightarrow> byte list option" where
  "w_names ns acc = Some (acc @ concat (map StringData_Serialize ns))"

definition w_if :: "bool \<Rightarrow> (byte list \<Rightarrow> byte list option) \<Rightarrow> byte list \<Rightarrow> byte list option" where
  "w_if b w acc = (if b then w acc else Some acc)"

definition IsAt_Serialize_v0 :: "(nat \<Rightarrow> byte) \<Rightarrow> nat \<Rightarrow> IsAt \<Rightarrow> byte list option" where
  "IsAt_Serialize_v0 old off x =
     (if length (names x) < 256 then do {
        let typeAndFlags = 0x40 OR flag (flagG x) 0x20 OR flag (flagC x) 0x10 OR flag (flagT x) 0x8 OR
                           flag (flagU x) 0x4 OR flag (flagS x) 0x2 OR flag (flagF x) 0x1;
        let b0 = [typeAndFlags, word_of_nat (length (names x)), u16_hi (port x), u16_lo (port x)];
        b1 \<leftarrow> w_if (flagF x) (w_addr4 old off (ipv4 x)) b0;
        b2 \<leftarrow> w_if (flagS x) (w_addr6 old off (ipv6 x)) b1;
        b3 \<leftarrow> w_if (flagG x) (w_string (guid x)) b2;
        w_names (names x) b3 }
      else None)"

definition IsAt_Serialize_v1 :: "(nat \<Rightarrow> byte) \<Rightarrow> nat \<Rightarrow> IsAt \<Rightarrow> byte list option" where
  "IsAt_Serialize_v1 old off x =
     (if length (names x) < 256 then do {
        let typeAndFlags = 0x40 OR flag (flagG x) 0x20 OR flag (flagC x) 0x10 OR flag (flagR4 x) 0x8 OR
                           flag (flagU4 x) 0x4 OR flag (flagR6 x) 0x2 OR flag (flagU6 x) 0x1;
        let b0 = [typeAndFlags, word_of_nat (length (names x)), u16_hi (transportMask x), u16_lo (transportMask x)];
        b1 \<leftarrow> w_if (flagR4 x) (\<lambda>b. w_addr4 old off (reliableIPv4Address x) b \<bind> w_port (reliableIPv4Port x)) b0;
        b2 \<leftarrow> w_if (flagU4 x) (\<lambda>b. w_addr4 old off (unreliableIPv4Address x) b \<bind> w_port (unreliableIPv4Port x)) b1;
        b3 \<leftarrow> w_if (flagR6 x) (\<lambda>b. w_addr6 old off (reliableIPv6Address x) b \<bind> w_port (reliableIPv6Port x)) b2;
        b4 \<leftarrow> w_if (flagU6 x) (\<lambda>b. w_addr6 old off (unreliableIPv6Address x) b \<bind> w_port (unreliableIPv6Port x)) b3;
        b5 \<leftarrow> w_if (flagG x) (w_string (guid x)) b4;
        w_names (names x) b5 }
      else None)"

definition IsAt_Serialize :: "(nat \<Rightarrow> byte) \<Rightarrow> nat \<Rightarrow> IsAt \<Rightarrow> byte list option" where
  "IsAt_Serialize old off x =
     (if msgVersion (version x) = 0 then IsAt_Serialize_v0 old off x
      else if msgVersion (version x) = 1 then IsAt_Serialize_v1 old off x
      else None)"

subsection \<open>Reading\<close>

text \<open>\<open>Go\<close> has the object, the rest of the buffer and the number of bytes read.\<close>

datatype 'a rd = Stop 'a | Go 'a "byte list" nat

fun rd_bind :: "'a rd \<Rightarrow> ('a \<Rightarrow> byte list \<Rightarrow> nat \<Rightarrow> 'a rd) \<Rightarrow> 'a rd" where
  "rd_bind (Stop x) f = Stop x"
| "rd_bind (Go x bs n) f = f x bs n"

fun rd_result :: "'a rd \<Rightarrow> 'a \<times> nat" where
  "rd_result (Stop x) = (x, 0)"
| "rd_result (Go x bs n) = (x, n)"

definition rd_if :: "bool \<Rightarrow> ('a \<Rightarrow> byte list \<Rightarrow> nat \<Rightarrow> 'a rd) \<Rightarrow> 'a \<Rightarrow> byte list \<Rightarrow> nat \<Rightarrow> 'a rd" where
  "rd_if b f x bs n = (if b then f x bs n else Go x bs n)"

text \<open>A field of a known number of bytes, which the buffer has to hold.\<close>

definition rd_field :: "nat \<Rightarrow> (byte list \<Rightarrow> 'a \<Rightarrow> 'a) \<Rightarrow> 'a \<Rightarrow> byte list \<Rightarrow> nat \<Rightarrow> 'a rd" where
  "rd_field k st x bs n = (if length bs < k then Stop x else Go (st (take k bs) x) (drop k bs) (n + k))"

definition rd_string :: "(string \<Rightarrow> 'a \<Rightarrow> 'a) \<Rightarrow> 'a \<Rightarrow> byte list \<Rightarrow> nat \<Rightarrow> 'a rd" where
  "rd_string st x bs n =
     (case StringData_Deserialize bs of (s, k) \<Rightarrow> if k = 0 then Stop x else Go (st s x) (drop k bs) (n + k))"

fun rd_strings :: "nat \<Rightarrow> (string \<Rightarrow> 'a \<Rightarrow> 'a) \<Rightarrow> 'a \<Rightarrow> byte list \<Rightarrow> nat \<Rightarrow> 'a rd" where
  "rd_strings 0 st x bs n = Go x bs n"
| "rd_strings (Suc k) st x bs n = rd_bind (rd_string st x bs n) (rd_strings k st)"

definition set_port4 :: "(string \<Rightarrow> u16 \<Rightarrow> IsAt \<Rightarrow> IsAt) \<Rightarrow> byte list \<Rightarrow> IsAt \<Rightarrow> IsAt" where
  "set_port4 st bs x = st (IPv4ToString (take 4 bs)) (u16_of_bytes (bs ! 4) (bs ! 5)) x"

definition set_port6 :: "(string \<Rightarrow> u16 \<Rightarrow> IsAt \<Rightarrow> IsAt) \<Rightarrow> byte list \<Rightarrow> IsAt \<Rightarrow> IsAt" where
  "set_port6 st bs x = st (IPv6ToString (take 16 bs)) (u16_of_bytes (bs ! 16) (bs ! 17)) x"

definition IsAt_Deserialize_v0 :: "IsAt \<Rightarrow> byte list \<Rightarrow> IsAt \<times> nat" where
  "IsAt_Deserialize_v0 x buffer =
     (if length buffer < 4 then (x, 0)
      else (let f = buffer ! 0 in
        if f AND 0xc0 \<noteq> 0x40 then (x, 0)
        else (let x1 = x\<lparr>flagG := f AND 0x20 \<noteq> 0, flagC := f AND 0x10 \<noteq> 0, flagT := f AND 0x8 \<noteq> 0,
                          flagU := f AND 0x4 \<noteq> 0, flagS := f AND 0x2 \<noteq> 0, flagF := f AND 0x1 \<noteq> 0,
                          port := u16_of_bytes (buffer ! 2) (buffer ! 3)\<rparr>;
                  numberNames = unat (buffer ! 1)
              in rd_result (
                   rd_bind (rd_bind (rd_bind
                     (rd_if (flagF x1) (rd_field 4 (\<lambda>bs x. x\<lparr>ipv4 := IPv4ToString bs\<rparr>)) x1 (drop 4 buffer) 4)
                     (rd_if (flagS x1) (rd_field 16 (\<lambda>bs x. x\<lparr>ipv6 := IPv6ToString bs\<rparr>))))
                     (rd_if (flagG x1) (rd_string SetGuid)))
                     (rd_strings numberNames AddName)))))"

definition IsAt_Deserialize_v1 :: "IsAt \<Rightarrow> byte list \<Rightarrow> IsAt \<times> nat" where
  "IsAt_Deserialize_v1 x buffer =
     (if length buffer < 4 then (x, 0)
      else (let f = buffer ! 0 in
        if f AND 0xc0 \<noteq> 0x40 then (x, 0)
        else (let x1 = x\<lparr>flagG := f AND 0x20 \<noteq> 0, flagC := f AND 0x10 \<noteq> 0, flagR4 := f AND 0x8 \<noteq> 0,
                          flagU4 := f AND 0x4 \<noteq> 0, flagR6 := f AND 0x2 \<noteq> 0, flagU6 := f AND 0x1 \<noteq> 0,
                          transportMask := u16_of_bytes (buffer ! 2) (buffer ! 3)\<rparr>;
                  numberNames = unat (buffer ! 1)
              in rd_result (
                   rd_bind (rd_bind (rd_bind (rd_bind (rd_bind
                     (rd_if (flagR4 x1) (rd_field 6 (set_port4 (\<lambda>a p x. x\<lparr>reliableIPv4Address := a, reliableIPv4Port := p\<rparr>)))
                        x1 (drop 4 buffer) 4)
                     (rd_if (flagU4 x1) (rd_field 6 (set_port4 (\<lambda>a p x. x\<lparr>unreliableIPv4Address := a, unreliableIPv4Port := p\<rparr>)))))
                     (rd_if (flagR6 x1) (rd_field 18 (set_port6 (\<lambda>a p x. x\<lparr>reliableIPv6Address := a, reliableIPv6Port := p\<rparr>)))))
                     (rd_if (flagU6 x1) (rd_field 18 (set_port6 (\<lambda>a p x. x\<lparr>unreliableIPv6Address := a, unreliableIPv6Port := p\<rparr>)))))
                     (rd_if (flagG x1) (rd_string SetGuid)))
                     (rd_strings numberNames AddName)))))"

definition IsAt_Deserialize :: "IsAt \<Rightarrow> byte list \<Rightarrow> (IsAt \<times> nat) option" where
  "IsAt_Deserialize x buffer =
     (if msgVersion (version x) = 0 then Some (IsAt_Deserialize_v0 x buffer)
      else if msgVersion (version x) = 1 then Some (IsAt_Deserialize_v1 x buffer)
      else None)"

subsection \<open>Questions\<close>

record WhoHas =
  q_version :: byte
  q_transportMask :: u16
  q_flagT :: bool
  q_flagU :: bool
  q_flagS :: bool
  q_flagF :: bool
  q_names :: "string list"

definition new_WhoHas :: WhoHas where
  "new_WhoHas =
     \<lparr>q_version = 0, q_transportMask = 0, q_flagT = False, q_flagU = False, q_flagS = False, q_flagF = False,
      q_names = []\<rparr>"

definition WhoHas_Reset :: "WhoHas \<Rightarrow> WhoHas" where
  "WhoHas_Reset x = x\<lparr>q_names := []\<rparr>"

definition WhoHas_AddName :: "string \<Rightarrow> WhoHas \<Rightarrow> WhoHas" where
  "WhoHas_AddName n x = x\<lparr>q_names := q_names x @ [n]\<rparr>"

definition WhoHas_GetSerializedSize :: "WhoHas \<Rightarrow> nat option" where
  "WhoHas_GetSerializedSize x =
     (if msgVersion (q_version x) \<in> {0, 1} then Some (2 + names_size (q_names x)) else None)"

definition WhoHas_Serialize :: "WhoHas \<Rightarrow> byte list option" where
  "WhoHas_Serialize x =
     (let typeAndFlags =
            0x80 OR (if msgVersion (q_version x) = 0
                     then flag (q_flagT x) 0x8 OR flag (q_flagU x) 0x4 OR flag (q_flagS x) 0x2 OR flag (q_flagF x) 0x1
                     else 0x4)
      in if length (q_names x) < 256
         then w_names (q_names x) [typeAndFlags, word_of_nat (length (q_names x))]
         else None)"

definition WhoHas_Deserialize :: "WhoHas \<Rightarrow> byte list \<Rightarrow> (WhoHas \<times> nat) option" where
  "WhoHas_Deserialize x buffer =
     (if length buffer < 2 then Some (x, 0)
      else (let f = buffer ! 0 in
        if f AND 0xc0 \<noteq> 0x80 then Some (x, 0)
        else (let x1 = x\<lparr>q_transportMask := 0\<rparr>;
                  numberNames = unat (buffer ! 1)
              in if msgVersion (q_version x1) = 0 then
                   Some (rd_result (rd_strings numberNames WhoHas_AddName
                     (x1\<lparr>q_flagT := f AND 0x8 \<noteq> 0, q_flagU := f AND 0x4 \<noteq> 0,
                         q_flagS := f AND 0x2 \<noteq> 0, q_flagF := f AND 0x1 \<noteq> 0\<rparr>) (drop 2 buffer) 2))
                 else if msgVersion (q_version x1) = 1 then
                   Some (rd_result (rd_strings numberNames WhoHas_AddName
                     (x1\<lparr>q_flagU := f AND 0x4 \<noteq> 0, q_flagT := False, q_flagS := False, q_flagF := False\<rparr>)
                     (drop 2 buffer) 2))
                 else None)))"

subsection \<open>Packets\<close>

record NSPacket =
  p_version :: byte
  timer :: byte
  questions :: "WhoHas list"
  answers :: "IsAt list"

definition new_NSPacket :: NSPacket where
  "new_NSPacket = \<lparr>p_version = 0, timer = 0, questions = [], answers = []\<rparr>"

definition SetTimer :: "byte \<Rightarrow> NSPacket \<Rightarrow> NSPacket" where
  "SetTimer t p = p\<lparr>timer := t\<rparr>"

definition NSPacket_Reset :: "NSPacket \<Rightarrow> NSPacket" where
  "NSPacket_Reset p = p\<lparr>questions := [], answers := []\<rparr>"

definition AddQuestion :: "WhoHas \<Rightarrow> NSPacket \<Rightarrow> NSPacket" where
  "AddQuestion q p = p\<lparr>questions := questions p @ [q]\<rparr>"

definition AddAnswer :: "IsAt \<Rightarrow> NSPacket \<Rightarrow> NSPacket" where
  "AddAnswer a p = p\<lparr>answers := answers p @ [a]\<rparr>"

definition RemoveAnswer :: "nat \<Rightarrow> NSPacket \<Rightarrow> NSPacket" where
  "RemoveAnswer index p =
     (if index < length (answers p)
      then p\<lparr>answers := take index (answers p) @ drop (Suc index) (answers p)\<rparr> else p)"

fun sum_sizes :: "nat option list \<Rightarrow> nat option" where
  "sum_sizes [] = Some 0"
| "sum_sizes (s # ss) = do { a \<leftarrow> s; b \<leftarrow> sum_sizes ss; Some (a + b) }"

definition NSPacket_GetSerializedSize :: "NSPacket \<Rightarrow> nat option" where
  "NSPacket_GetSerializedSize p = do {
     q \<leftarrow> sum_sizes (map WhoHas_GetSerializedSize (questions p));
     a \<leftarrow> sum_sizes (map IsAt_GetSerializedSize (answers p));
     Some (4 + q + a) }"

fun w_questions :: "WhoHas list \<Rightarrow> byte list \<Rightarrow> byte list option" where
  "w_questions [] acc = Some acc"
| "w_questions (q # qs) acc = do { b \<leftarrow> WhoHas_Serialize q; w_questions qs (acc @ b) }"

fun w_answers :: "(nat \<Rightarrow> byte) \<Rightarrow> IsAt list \<Rightarrow> byte list \<Rightarrow> byte list option" where
  "w_answers old [] acc = Some acc"
| "w_answers old (a # as) acc = do { b \<leftarrow> IsAt_Serialize old (length acc) a; w_answers old as (acc @ b) }"

definition NSPacket_Serialize :: "(nat \<Rightarrow> byte) \<Rightarrow> NSPacket \<Rightarrow> byte list option" where
  "NSPacket_Serialize old p = do {
     b1 \<leftarrow> w_questions (questions p)
       [p_version p, word_of_nat (length (questions p)), word_of_nat (length (answers p)), timer p];
     w_answers old (answers p) b1 }"

text \<open>Both nibbles of the version are set again, which gives the version itself.\<close>

definition SetVersion :: "byte \<Rightarrow> byte \<Rightarrow> byte" where
  "SetVersion nsVersion msgVer = (push_bit 4 nsVersion) OR msgVer"

fun rd_questions :: "nat \<Rightarrow> NSPacket \<Rightarrow> byte list \<Rightarrow> nat \<Rightarrow> NSPacket rd option" where
  "rd_questions 0 p bs n = Some (Go p bs n)"
| "rd_questions (Suc k) p bs n = do {
     (q, s) \<leftarrow> WhoHas_Deserialize
       (new_WhoHas\<lparr>q_version := SetVersion (drop_bit 4 (p_version p)) (msgVersion (p_version p))\<rparr>) bs;
     if s = 0 then Some (Stop p) else rd_questions k (AddQuestion q p) (drop s bs) (n + s) }"

fun rd_answers :: "u16 \<Rightarrow> nat \<Rightarrow> NSPacket \<Rightarrow> byte list \<Rightarrow> nat \<Rightarrow> NSPacket rd option" where
  "rd_answers tmask 0 p bs n = Some (Go p bs n)"
| "rd_answers tmask (Suc k) p bs n = do {
     (a, s) \<leftarrow> IsAt_Deserialize
       (new_IsAt tmask\<lparr>version := SetVersion (drop_bit 4 (p_version p)) (msgVersion (p_version p))\<rparr>) bs;
     if s = 0 then Some (Stop p) else rd_answers tmask k (AddAnswer a p) (drop s bs) (n + s) }"

definition NSPacket_Deserialize :: "u16 \<Rightarrow> NSPacket \<Rightarrow> byte list \<Rightarrow> (NSPacket \<times> nat) option" where
  "NSPacket_Deserialize tmask p buffer =
     (if length buffer < 4 then Some (p, 0)
      else if msgVersion (buffer ! 0) \<noteq> 0 \<and> msgVersion (buffer ! 0) \<noteq> 1 then Some (p, 0)
      else do {
        r \<leftarrow> rd_questions (unat (buffer ! 1)) (SetTimer (buffer ! 3) (p\<lparr>p_version := buffer ! 0\<rparr>)) (drop 4 buffer) 4;
        r2 \<leftarrow> (case r of Stop p1 \<Rightarrow> Some (Stop p1) | Go p1 bs n \<Rightarrow> rd_answers tmask (unat (buffer ! 2)) p1 bs n);
        Some (rd_result r2) })"

end
