(* ===== verification/Ns_Roundtrip.thy ===== *)
theory Ns_Roundtrip
  imports Ns_Protocol
begin

text \<open>
  The wire format of the name service messages, stated as a function from messages to
  bytes, and the proofs that the writers produce it, that the announced sizes are its
  lengths, and that the readers invert it.
\<close>

lemmas IsAt_Serialize_defs = IsAt_Serialize_def IsAt_Serialize_v0_def IsAt_Serialize_v1_def
lemmas IsAt_Deserialize_defs = IsAt_Deserialize_def IsAt_Deserialize_v0_def IsAt_Deserialize_v1_def

subsection \<open>Strings\<close>

lemma StringData_Deserialize_Serialize:
  assumes "length s < 256"
  shows "StringData_Deserialize (StringData_Serialize s @ rest) = (s, length (StringData_Serialize s))"
proof -
  have "unat (word_of_nat (length s) :: byte) = length s" using assms by (simp add: unat_of_nat)
  then show ?thesis by (simp add: StringData_Deserialize_def StringData_Serialize_def)
qed

interpretation strings: wire_format StringData_Serialize StringData_Deserialize "\<lambda>s. length s < 256"
  by unfold_locales (simp_all add: StringData_Deserialize_Serialize, simp add: StringData_Serialize_def)

lemma StringData_bounded: "snd (StringData_Deserialize bs) \<le> length bs"
  by (auto simp: StringData_Deserialize_def Let_def split: list.split)

interpretation strings: bounded_reader StringData_Deserialize
  by unfold_locales (rule StringData_bounded)

lemma length_Serialize [simp]: "length (StringData_Serialize s) = StringData_GetSerializedSize s"
  by (simp add: StringData_Serialize_def StringData_GetSerializedSize_def)

lemma length_names [simp]: "length (concat (map StringData_Serialize ns)) = names_size ns"
  by (simp add: names_size_def length_concat comp_def)

text \<open>The loop over the names, when every name can be read.\<close>

lemma rd_strings_read_items:
  "read_items StringData_Deserialize k bs = Some (ss, m) \<Longrightarrow>
   rd_strings k st x bs n = Go (fold st ss x) (drop m bs) (n + m)"
proof (induction k arbitrary: x bs ss m n)
  case (Suc k)
  then show ?case
    by (auto simp: rd_string_def split: prod.splits if_splits option.splits) (simp add: add.commute)
qed simp

lemma rd_strings_names:
  assumes "list_all (\<lambda>s. length s < 256) ns"
  shows "rd_strings (length ns) st x (concat (map StringData_Serialize ns) @ rest) n =
     Go (fold st ns x) rest (n + names_size ns)"
proof -
  have "read_items StringData_Deserialize (length ns) (concat (map StringData_Serialize ns) @ rest) =
      Some (ns, names_size ns)"
    using strings.read_items_enc [of ns rest] assms by (simp add: list_all_iff)
  then show ?thesis by (simp add: rd_strings_read_items)
qed

lemma unat_count: "k < 256 \<Longrightarrow> unat (word_of_nat k :: byte) = k"
  by (simp add: unat_of_nat)

subsection \<open>Addresses\<close>

text \<open>An address text in the form in which the reader prints it.\<close>

definition canon4 :: "string \<Rightarrow> bool" where
  "canon4 a \<longleftrightarrow> (case StringToIPv4 a of Some bs \<Rightarrow> length bs = 4 \<and> IPv4ToString bs = a | None \<Rightarrow> False)"

definition canon6 :: "string \<Rightarrow> bool" where
  "canon6 a \<longleftrightarrow>
     (case StringToIPv6 a of Parsed (_, Some bs) \<Rightarrow> length bs = 16 \<and> IPv6ToString bs = a | _ \<Rightarrow> False)"

definition addr4 :: "string \<Rightarrow> byte list" where
  "addr4 a = (case StringToIPv4 a of Some bs \<Rightarrow> bs | None \<Rightarrow> [])"

definition addr6 :: "string \<Rightarrow> byte list" where
  "addr6 a = (case StringToIPv6 a of Parsed (_, Some bs) \<Rightarrow> bs | _ \<Rightarrow> [])"

lemma canon4: "canon4 a \<Longrightarrow> length (addr4 a) = 4 \<and> IPv4ToString (addr4 a) = a \<and> StringToIPv4 a = Some (addr4 a)"
  by (auto simp: canon4_def addr4_def split: option.splits)

lemma canon6: "canon6 a \<Longrightarrow> length (addr6 a) = 16 \<and> IPv6ToString (addr6 a) = a \<and>
    (\<exists>status. StringToIPv6 a = Parsed (status, Some (addr6 a)))"
  by (auto simp: canon6_def addr6_def split: option.splits ip6_result.splits prod.splits)

lemma w_addr4_canon: "canon4 a \<Longrightarrow> w_addr4 old off a acc = Some (acc @ addr4 a)"
  by (simp add: w_addr4_def canon4)

lemma w_addr6_canon: "canon6 a \<Longrightarrow> w_addr6 old off a acc = Some (acc @ addr6 a)"
  using canon6 [of a] by (auto simp: w_addr6_def)

subsection \<open>Flags\<close>

lemma isat_flags:
  fixes f :: byte
  assumes "f = 0x40 OR flag g 0x20 OR flag c 0x10 OR flag t 0x8 OR flag u 0x4 OR flag s 0x2 OR flag e 0x1"
  shows "f AND 0xc0 = 0x40" "f AND 0x20 \<noteq> 0 \<longleftrightarrow> g" "f AND 0x10 \<noteq> 0 \<longleftrightarrow> c" "f AND 0x8 \<noteq> 0 \<longleftrightarrow> t"
    "f AND 0x4 \<noteq> 0 \<longleftrightarrow> u" "f AND 0x2 \<noteq> 0 \<longleftrightarrow> s" "f AND 0x1 \<noteq> 0 \<longleftrightarrow> e"
  unfolding assms flag_def
  by (cases g; cases c; cases t; cases u; cases s; cases e; simp)+

subsection \<open>Answers\<close>

definition field4 :: "bool \<Rightarrow> string \<Rightarrow> byte list" where
  "field4 b a = (if b then addr4 a else [])"

definition field6 :: "bool \<Rightarrow> string \<Rightarrow> byte list" where
  "field6 b a = (if b then addr6 a else [])"

definition field4p :: "bool \<Rightarrow> string \<Rightarrow> u16 \<Rightarrow> byte list" where
  "field4p b a p = (if b then addr4 a @ [u16_hi p, u16_lo p] else [])"

definition field6p :: "bool \<Rightarrow> string \<Rightarrow> u16 \<Rightarrow> byte list" where
  "field6p b a p = (if b then addr6 a @ [u16_hi p, u16_lo p] else [])"

definition fieldg :: "bool \<Rightarrow> string \<Rightarrow> byte list" where
  "fieldg b g = (if b then StringData_Serialize g else [])"

text \<open>The wire format of an answer.\<close>

definition isat_bytes :: "IsAt \<Rightarrow> byte list" where
  "isat_bytes x =
     (if msgVersion (version x) = 0 then
        [0x40 OR flag (flagG x) 0x20 OR flag (flagC x) 0x10 OR flag (flagT x) 0x8 OR flag (flagU x) 0x4 OR
           flag (flagS x) 0x2 OR flag (flagF x) 0x1, word_of_nat (length (names x)), u16_hi (port x), u16_lo (port x)] @
        field4 (flagF x) (ipv4 x) @ field6 (flagS x) (ipv6 x) @ fieldg (flagG x) (guid x) @
        concat (map StringData_Serialize (names x))
      else
        [0x40 OR flag (flagG x) 0x20 OR flag (flagC x) 0x10 OR flag (flagR4 x) 0x8 OR flag (flagU4 x) 0x4 OR
           flag (flagR6 x) 0x2 OR flag (flagU6 x) 0x1, word_of_nat (length (names x)),
         u16_hi (transportMask x), u16_lo (transportMask x)] @
        field4p (flagR4 x) (reliableIPv4Address x) (reliableIPv4Port x) @
        field4p (flagU4 x) (unreliableIPv4Address x) (unreliableIPv4Port x) @
        field6p (flagR6 x) (reliableIPv6Address x) (reliableIPv6Port x) @
        field6p (flagU6 x) (unreliableIPv6Address x) (unreliableIPv6Port x) @ fieldg (flagG x) (guid x) @
        concat (map StringData_Serialize (names x)))"

text \<open>
  A field is present with a canonical text or absent and empty. The fields of the other
  version have the values of a new object, whose transport mask is \<open>tmask\<close>.
\<close>

definition opt_ok :: "bool \<Rightarrow> (string \<Rightarrow> bool) \<Rightarrow> string \<Rightarrow> bool" where
  "opt_ok b c a \<longleftrightarrow> (if b then c a else a = [])"

definition names_ok :: "string list \<Rightarrow> bool" where
  "names_ok ns \<longleftrightarrow> length ns < 256 \<and> list_all (\<lambda>s. length s < 256) ns"

definition isat_ok :: "byte \<Rightarrow> u16 \<Rightarrow> IsAt \<Rightarrow> bool" where
  "isat_ok v tmask x \<longleftrightarrow>
     version x = v \<and> names_ok (names x) \<and> opt_ok (flagG x) (\<lambda>s. length s < 256) (guid x) \<and>
     (if msgVersion v = 0 then
        opt_ok (flagF x) canon4 (ipv4 x) \<and> opt_ok (flagS x) canon6 (ipv6 x) \<and>
        transportMask x = tmask \<and> \<not> flagR4 x \<and> \<not> flagU4 x \<and> \<not> flagR6 x \<and> \<not> flagU6 x \<and>
        reliableIPv4Address x = [] \<and> unreliableIPv4Address x = [] \<and> reliableIPv6Address x = [] \<and>
        unreliableIPv6Address x = [] \<and> reliableIPv4Port x = 0 \<and> unreliableIPv4Port x = 0 \<and>
        reliableIPv6Port x = 0 \<and> unreliableIPv6Port x = 0
      else
        msgVersion v = 1 \<and>
        opt_ok (flagR4 x) canon4 (reliableIPv4Address x) \<and> opt_ok (flagU4 x) canon4 (unreliableIPv4Address x) \<and>
        opt_ok (flagR6 x) canon6 (reliableIPv6Address x) \<and> opt_ok (flagU6 x) canon6 (unreliableIPv6Address x) \<and>
        (\<not> flagR4 x \<longrightarrow> reliableIPv4Port x = 0) \<and> (\<not> flagU4 x \<longrightarrow> unreliableIPv4Port x = 0) \<and>
        (\<not> flagR6 x \<longrightarrow> reliableIPv6Port x = 0) \<and> (\<not> flagU6 x \<longrightarrow> unreliableIPv6Port x = 0) \<and>
        port x = 0 \<and> ipv4 x = [] \<and> ipv6 x = [] \<and> \<not> flagT x \<and> \<not> flagU x \<and> \<not> flagS x \<and> \<not> flagF x)"

lemma w_if_addr4: "opt_ok b canon4 a \<Longrightarrow> w_if b (w_addr4 old off a) acc = Some (acc @ field4 b a)"
  by (simp add: w_if_def opt_ok_def field4_def w_addr4_canon split: if_splits)

lemma w_if_addr6: "opt_ok b canon6 a \<Longrightarrow> w_if b (w_addr6 old off a) acc = Some (acc @ field6 b a)"
  by (simp add: w_if_def opt_ok_def field6_def w_addr6_canon split: if_splits)

lemma w_if_addr4p:
  "opt_ok b canon4 a \<Longrightarrow>
   w_if b (\<lambda>acc. w_addr4 old off a acc \<bind> w_port p) acc = Some (acc @ field4p b a p)"
  by (simp add: w_if_def opt_ok_def field4p_def w_addr4_canon w_port_def split: if_splits)

lemma w_if_addr6p:
  "opt_ok b canon6 a \<Longrightarrow>
   w_if b (\<lambda>acc. w_addr6 old off a acc \<bind> w_port p) acc = Some (acc @ field6p b a p)"
  by (simp add: w_if_def opt_ok_def field6p_def w_addr6_canon w_port_def split: if_splits)

lemma w_if_string: "w_if b (w_string g) acc = Some (acc @ fieldg b g)"
  by (simp add: w_if_def w_string_def fieldg_def)

lemmas w_ifs = w_if_addr4 w_if_addr6 w_if_addr4p w_if_addr6p w_if_string

lemma IsAt_Serialize_bytes:
  assumes "isat_ok v tmask x"
  shows "IsAt_Serialize old off x = Some (isat_bytes x)"
  using assms
  by (cases "msgVersion v = 0") (simp_all add: isat_ok_def names_ok_def IsAt_Serialize_defs isat_bytes_def w_ifs w_names_def Let_def)

lemma length_fields:
  "opt_ok b canon4 a \<Longrightarrow> length (field4 b a) = (if b then 4 else 0)"
  "opt_ok b canon6 a \<Longrightarrow> length (field6 b a) = (if b then 16 else 0)"
  "opt_ok b canon4 a \<Longrightarrow> length (field4p b a p) = (if b then 6 else 0)"
  "opt_ok b canon6 a \<Longrightarrow> length (field6p b a p) = (if b then 18 else 0)"
  "length (fieldg b g) = (if b then StringData_GetSerializedSize g else 0)"
  by (auto simp: opt_ok_def field4_def field6_def field4p_def field6p_def fieldg_def dest: canon4 canon6)

lemma IsAt_size_bytes:
  assumes "isat_ok v tmask x"
  shows "IsAt_GetSerializedSize x = Some (length (isat_bytes x))"
  using assms
  by (cases "msgVersion v = 0") (simp_all add: isat_ok_def IsAt_GetSerializedSize_def isat_bytes_def length_fields)

lemma rd_field_exact: "length bs = k \<Longrightarrow> rd_field k st x (bs @ r) n = Go (st bs x) r (n + k)"
  by (simp add: rd_field_def)

lemma rd_ipv4:
  "opt_ok b canon4 a \<Longrightarrow> ipv4 y = [] \<Longrightarrow>
   rd_if b (rd_field 4 (\<lambda>bs x. x\<lparr>ipv4 := IPv4ToString bs\<rparr>)) y (field4 b a @ r) n =
     Go (y\<lparr>ipv4 := a\<rparr>) r (n + length (field4 b a))"
  by (auto simp: rd_if_def field4_def opt_ok_def rd_field_exact canon4 split: if_splits)

lemma rd_ipv6:
  "opt_ok b canon6 a \<Longrightarrow> ipv6 y = [] \<Longrightarrow>
   rd_if b (rd_field 16 (\<lambda>bs x. x\<lparr>ipv6 := IPv6ToString bs\<rparr>)) y (field6 b a @ r) n =
     Go (y\<lparr>ipv6 := a\<rparr>) r (n + length (field6 b a))"
  by (auto simp: rd_if_def field6_def opt_ok_def rd_field_exact canon6 split: if_splits)

lemma rd_port4:
  assumes "opt_ok b canon4 a" and "\<not> b \<longrightarrow> p = 0 \<and> st [] 0 y = y"
  shows "rd_if b (rd_field 6 (set_port4 st)) y (field4p b a p @ r) n = Go (st a p y) r (n + length (field4p b a p))"
proof (cases b)
  case True
  then have c: "canon4 a" using assms(1) by (simp add: opt_ok_def)
  have "take 4 (addr4 a @ [u16_hi p, u16_lo p]) = addr4 a" "(addr4 a @ [u16_hi p, u16_lo p]) ! 4 = u16_hi p"
    "(addr4 a @ [u16_hi p, u16_lo p]) ! 5 = u16_lo p"
    using canon4 [OF c] by (simp_all add: nth_append)
  with True canon4 [OF c] rd_field_exact [of "addr4 a @ [u16_hi p, u16_lo p]" 6 "set_port4 st" y r n] show ?thesis
    by (simp add: rd_if_def field4p_def set_port4_def)
qed (use assms in \<open>simp add: opt_ok_def rd_if_def field4p_def\<close>)

lemma rd_port6:
  assumes "opt_ok b canon6 a" and "\<not> b \<longrightarrow> p = 0 \<and> st [] 0 y = y"
  shows "rd_if b (rd_field 18 (set_port6 st)) y (field6p b a p @ r) n = Go (st a p y) r (n + length (field6p b a p))"
proof (cases b)
  case True
  then have c: "canon6 a" using assms(1) by (simp add: opt_ok_def)
  have "take 16 (addr6 a @ [u16_hi p, u16_lo p]) = addr6 a" "(addr6 a @ [u16_hi p, u16_lo p]) ! 16 = u16_hi p"
    "(addr6 a @ [u16_hi p, u16_lo p]) ! 17 = u16_lo p"
    using canon6 [OF c] by (simp_all add: nth_append)
  with True canon6 [OF c] rd_field_exact [of "addr6 a @ [u16_hi p, u16_lo p]" 18 "set_port6 st" y r n] show ?thesis
    by (simp add: rd_if_def field6p_def set_port6_def)
qed (use assms in \<open>simp add: opt_ok_def rd_if_def field6p_def\<close>)

lemma rd_guid:
  assumes "opt_ok b (\<lambda>s. length s < 256) g" and "guid y = []" and "flagG y = b"
  shows "rd_if b (rd_string SetGuid) y (fieldg b g @ r) n = Go (y\<lparr>guid := g\<rparr>) r (n + length (fieldg b g))"
  using assms StringData_Deserialize_Serialize [of g r]
  by (auto simp: rd_if_def rd_string_def fieldg_def opt_ok_def SetGuid_def StringData_GetSerializedSize_def split: if_splits)

lemma fold_AddName: "fold AddName ns y = y\<lparr>names := names y @ ns\<rparr>"
  by (induction ns arbitrary: y) (simp_all add: AddName_def)

lemma IsAt_Deserialize_bytes_0:
  assumes ok: "isat_ok v tmask x" and v: "msgVersion v = 0"
  shows "IsAt_Deserialize (new_IsAt tmask\<lparr>version := v\<rparr>) (isat_bytes x @ rest) = Some (x, length (isat_bytes x))"
proof -
  define f where "f = 0x40 OR flag (flagG x) 0x20 OR flag (flagC x) 0x10 OR flag (flagT x) 0x8 OR
      flag (flagU x) 0x4 OR flag (flagS x) 0x2 OR flag (flagF x) 0x1"
  note fl = isat_flags [OF f_def]
  have f: "opt_ok (flagF x) canon4 (ipv4 x)" "opt_ok (flagS x) canon6 (ipv6 x)"
    "opt_ok (flagG x) (\<lambda>s. length s < 256) (guid x)" "length (names x) < 256"
    "list_all (\<lambda>s. length s < 256) (names x)"
    using ok v by (auto simp: isat_ok_def names_ok_def)
  have bytes: "isat_bytes x @ rest =
      f # word_of_nat (length (names x)) # u16_hi (port x) # u16_lo (port x) #
        field4 (flagF x) (ipv4 x) @ field6 (flagS x) (ipv6 x) @ fieldg (flagG x) (guid x) @
        concat (map StringData_Serialize (names x)) @ rest"
    using ok v by (simp add: isat_bytes_def isat_ok_def f_def)
  have size: "length (isat_bytes x) = 4 + length (field4 (flagF x) (ipv4 x)) + length (field6 (flagS x) (ipv6 x)) +
      length (fieldg (flagG x) (guid x)) + names_size (names x)"
    using ok v by (simp add: isat_bytes_def isat_ok_def)
  show ?thesis
    unfolding bytes size
    using ok v
    by (simp add: IsAt_Deserialize_defs fl rd_ipv4 rd_ipv6 rd_guid f rd_strings_names unat_count fold_AddName
        new_IsAt_def isat_ok_def IsAt.equality)
qed

lemma IsAt_Deserialize_bytes_1:
  assumes ok: "isat_ok v tmask x" and v: "msgVersion v = 1"
  shows "IsAt_Deserialize (new_IsAt tmask\<lparr>version := v\<rparr>) (isat_bytes x @ rest) = Some (x, length (isat_bytes x))"
proof -
  define f where "f = 0x40 OR flag (flagG x) 0x20 OR flag (flagC x) 0x10 OR flag (flagR4 x) 0x8 OR
      flag (flagU4 x) 0x4 OR flag (flagR6 x) 0x2 OR flag (flagU6 x) 0x1"
  note fl = isat_flags [OF f_def]
  have f: "opt_ok (flagR4 x) canon4 (reliableIPv4Address x)" "opt_ok (flagU4 x) canon4 (unreliableIPv4Address x)"
    "opt_ok (flagR6 x) canon6 (reliableIPv6Address x)" "opt_ok (flagU6 x) canon6 (unreliableIPv6Address x)"
    "\<not> flagR4 x \<longrightarrow> reliableIPv4Port x = 0" "\<not> flagU4 x \<longrightarrow> unreliableIPv4Port x = 0"
    "\<not> flagR6 x \<longrightarrow> reliableIPv6Port x = 0" "\<not> flagU6 x \<longrightarrow> unreliableIPv6Port x = 0"
    "opt_ok (flagG x) (\<lambda>s. length s < 256) (guid x)" "length (names x) < 256"
    "list_all (\<lambda>s. length s < 256) (names x)"
    using ok v by (auto simp: isat_ok_def names_ok_def)
  have bytes: "isat_bytes x @ rest =
      f # word_of_nat (length (names x)) # u16_hi (transportMask x) # u16_lo (transportMask x) #
        field4p (flagR4 x) (reliableIPv4Address x) (reliableIPv4Port x) @
        field4p (flagU4 x) (unreliableIPv4Address x) (unreliableIPv4Port x) @
        field6p (flagR6 x) (reliableIPv6Address x) (reliableIPv6Port x) @
        field6p (flagU6 x) (unreliableIPv6Address x) (unreliableIPv6Port x) @ fieldg (flagG x) (guid x) @
        concat (map StringData_Serialize (names x)) @ rest"
    using ok v by (simp add: isat_bytes_def isat_ok_def f_def)
  have size: "length (isat_bytes x) = 4 + length (field4p (flagR4 x) (reliableIPv4Address x) (reliableIPv4Port x)) +
        length (field4p (flagU4 x) (unreliableIPv4Address x) (unreliableIPv4Port x)) +
        length (field6p (flagR6 x) (reliableIPv6Address x) (reliableIPv6Port x)) +
        length (field6p (flagU6 x) (unreliableIPv6Address x) (unreliableIPv6Port x)) +
        length (fieldg (flagG x) (guid x)) + names_size (names x)"
    using ok v by (simp add: isat_bytes_def isat_ok_def)
  show ?thesis
    unfolding bytes size
    using ok v
    by (simp add: IsAt_Deserialize_defs fl rd_port4 rd_port6 rd_guid f rd_strings_names unat_count fold_AddName
        new_IsAt_def isat_ok_def IsAt.equality)
qed

lemma IsAt_Deserialize_bytes:
  "isat_ok v tmask x \<Longrightarrow>
   IsAt_Deserialize (new_IsAt tmask\<lparr>version := v\<rparr>) (isat_bytes x @ rest) = Some (x, length (isat_bytes x))"
  using IsAt_Deserialize_bytes_0 IsAt_Deserialize_bytes_1 by (cases "msgVersion v = 0") (auto simp: isat_ok_def)

text \<open>The reader as the packet calls it, on a new object of its own version.\<close>

definition read_isat :: "byte \<Rightarrow> u16 \<Rightarrow> byte list \<Rightarrow> IsAt \<times> nat" where
  "read_isat v tmask bs =
     (case IsAt_Deserialize (new_IsAt tmask\<lparr>version := v\<rparr>) bs of Some r \<Rightarrow> r | None \<Rightarrow> (new_IsAt tmask, 0))"

interpretation answers: wire_format isat_bytes "read_isat v tmask" "isat_ok v tmask"
  by unfold_locales (auto simp: read_isat_def IsAt_Deserialize_bytes, simp add: isat_bytes_def split: if_splits)

subsection \<open>Questions\<close>

definition whohas_bytes :: "WhoHas \<Rightarrow> byte list" where
  "whohas_bytes x =
     [0x80 OR (if msgVersion (q_version x) = 0
               then flag (q_flagT x) 0x8 OR flag (q_flagU x) 0x4 OR flag (q_flagS x) 0x2 OR flag (q_flagF x) 0x1
               else 0x4), word_of_nat (length (q_names x))] @
     concat (map StringData_Serialize (q_names x))"

text \<open>The transport mask is never sent, and in version 1 only the U flag is, always set.\<close>

definition whohas_ok :: "byte \<Rightarrow> WhoHas \<Rightarrow> bool" where
  "whohas_ok v x \<longleftrightarrow>
     q_version x = v \<and> names_ok (q_names x) \<and> q_transportMask x = 0 \<and>
     (msgVersion v = 0 \<or> msgVersion v = 1 \<and> q_flagU x \<and> \<not> q_flagT x \<and> \<not> q_flagS x \<and> \<not> q_flagF x)"

lemma WhoHas_Serialize_bytes: "names_ok (q_names x) \<Longrightarrow> WhoHas_Serialize x = Some (whohas_bytes x)"
  by (simp add: names_ok_def WhoHas_Serialize_def whohas_bytes_def w_names_def)

lemma WhoHas_size_bytes: "whohas_ok v x \<Longrightarrow> WhoHas_GetSerializedSize x = Some (length (whohas_bytes x))"
  by (auto simp: whohas_ok_def WhoHas_GetSerializedSize_def whohas_bytes_def)

lemma whohas_flags:
  fixes f :: byte
  assumes "f = 0x80 OR flag t 0x8 OR flag u 0x4 OR flag s 0x2 OR flag e 0x1"
  shows "f AND 0xc0 = 0x80" "f AND 0x8 \<noteq> 0 \<longleftrightarrow> t" "f AND 0x4 \<noteq> 0 \<longleftrightarrow> u" "f AND 0x2 \<noteq> 0 \<longleftrightarrow> s" "f AND 0x1 \<noteq> 0 \<longleftrightarrow> e"
  unfolding assms flag_def by (cases t; cases u; cases s; cases e; simp)+

lemma fold_WhoHas_AddName: "fold WhoHas_AddName ns y = y\<lparr>q_names := q_names y @ ns\<rparr>"
  by (induction ns arbitrary: y) (simp_all add: WhoHas_AddName_def)

lemma WhoHas_Deserialize_bytes:
  assumes ok: "whohas_ok v x"
  shows "WhoHas_Deserialize (new_WhoHas\<lparr>q_version := v\<rparr>) (whohas_bytes x @ rest) = Some (x, length (whohas_bytes x))"
proof -
  have n: "length (q_names x) < 256" "list_all (\<lambda>s. length s < 256) (q_names x)" "q_version x = v"
    using ok by (auto simp: whohas_ok_def names_ok_def)
  show ?thesis
  proof (cases "msgVersion v = 0")
    case True
    define f where "f = 0x80 OR flag (q_flagT x) 0x8 OR flag (q_flagU x) 0x4 OR flag (q_flagS x) 0x2 OR flag (q_flagF x) 0x1"
    have bytes: "whohas_bytes x = f # word_of_nat (length (q_names x)) # concat (map StringData_Serialize (q_names x))"
      using True n by (simp add: whohas_bytes_def f_def)
    show ?thesis
      using True n ok whohas_flags [OF f_def] unfolding bytes
      by (simp add: WhoHas_Deserialize_def rd_strings_names unat_count fold_WhoHas_AddName new_WhoHas_def whohas_ok_def
          WhoHas.equality)
  next
    case False
    then show ?thesis
      using n ok by (simp add: WhoHas_Deserialize_def whohas_bytes_def rd_strings_names unat_count fold_WhoHas_AddName
          new_WhoHas_def whohas_ok_def WhoHas.equality)
  qed
qed

definition read_whohas :: "byte \<Rightarrow> byte list \<Rightarrow> WhoHas \<times> nat" where
  "read_whohas v bs =
     (case WhoHas_Deserialize (new_WhoHas\<lparr>q_version := v\<rparr>) bs of Some r \<Rightarrow> r | None \<Rightarrow> (new_WhoHas, 0))"

interpretation questions: wire_format whohas_bytes "read_whohas v" "whohas_ok v"
  by unfold_locales (auto simp: read_whohas_def WhoHas_Deserialize_bytes, simp add: whohas_bytes_def)

subsection \<open>Packets\<close>

definition packet_bytes :: "NSPacket \<Rightarrow> byte list" where
  "packet_bytes p =
     [p_version p, word_of_nat (length (questions p)), word_of_nat (length (answers p)), timer p] @
     concat (map whohas_bytes (questions p)) @ concat (map isat_bytes (answers p))"

definition packet_ok :: "u16 \<Rightarrow> NSPacket \<Rightarrow> bool" where
  "packet_ok tmask p \<longleftrightarrow>
     msgVersion (p_version p) \<in> {0, 1} \<and> length (questions p) < 256 \<and> length (answers p) < 256 \<and>
     list_all (whohas_ok (p_version p)) (questions p) \<and> list_all (isat_ok (p_version p) tmask) (answers p)"

lemma SetVersion_same [simp]: "SetVersion (drop_bit 4 v) (msgVersion v) = v"
proof -
  have m: "(0xf :: byte) = mask 4" by (simp add: mask_eq_exp_minus_1)
  show ?thesis
    unfolding SetVersion_def msgVersion_def m by (rule bit_word_eqI) (auto simp: bit_simps)
qed

lemma w_questions_bytes:
  "list_all (whohas_ok v) qs \<Longrightarrow> w_questions qs acc = Some (acc @ concat (map whohas_bytes qs))"
  by (induction qs arbitrary: acc) (simp_all add: WhoHas_Serialize_bytes whohas_ok_def)

lemma w_answers_bytes:
  "list_all (isat_ok v tmask) as \<Longrightarrow> w_answers old as acc = Some (acc @ concat (map isat_bytes as))"
  by (induction "as" arbitrary: acc) (simp_all add: IsAt_Serialize_bytes [of v tmask])

lemma NSPacket_Serialize_bytes:
  "packet_ok tmask p \<Longrightarrow> NSPacket_Serialize old p = Some (packet_bytes p)"
  by (simp add: packet_ok_def NSPacket_Serialize_def packet_bytes_def w_questions_bytes [of "p_version p"]
      w_answers_bytes [of "p_version p" tmask])

lemma sum_sizes_Some:
  "list_all (\<lambda>x. g x = Some (length (f x))) xs \<Longrightarrow> sum_sizes (map g xs) = Some (length (concat (map f xs)))"
  by (induction xs) simp_all

lemma NSPacket_size_bytes:
  assumes "packet_ok tmask p"
  shows "NSPacket_GetSerializedSize p = Some (length (packet_bytes p))"
proof -
  have "list_all (\<lambda>x. WhoHas_GetSerializedSize x = Some (length (whohas_bytes x))) (questions p)"
    "list_all (\<lambda>x. IsAt_GetSerializedSize x = Some (length (isat_bytes x))) (answers p)"
    using assms by (auto simp: packet_ok_def list_all_iff intro: WhoHas_size_bytes IsAt_size_bytes)
  then show ?thesis
    by (simp add: NSPacket_GetSerializedSize_def packet_bytes_def sum_sizes_Some)
qed

lemma versions_returned:
  "msgVersion v \<in> {0, 1} \<Longrightarrow>
     WhoHas_Deserialize (new_WhoHas\<lparr>q_version := v\<rparr>) bs = Some (read_whohas v bs)"
  "msgVersion v \<in> {0, 1} \<Longrightarrow>
     IsAt_Deserialize (new_IsAt tmask\<lparr>version := v\<rparr>) bs = Some (read_isat v tmask bs)"
  by (auto simp: read_whohas_def WhoHas_Deserialize_def read_isat_def IsAt_Deserialize_def Let_def)

lemma rd_questions_read_items:
  "read_items (read_whohas (p_version p)) k bs = Some (xs, m) \<Longrightarrow> msgVersion (p_version p) \<in> {0, 1} \<Longrightarrow>
   rd_questions k p bs n = Some (Go (p\<lparr>questions := questions p @ xs\<rparr>) (drop m bs) (n + m))"
proof (induction k arbitrary: p bs xs m n)
  case (Suc k)
  obtain x j where x: "read_whohas (p_version p) bs = (x, j)" by force
  with Suc.prems obtain ys i where "j \<noteq> 0" "read_items (read_whohas (p_version p)) k (drop j bs) = Some (ys, i)"
    "xs = x # ys" "m = j + i"
    by (auto split: if_splits option.splits)
  with Suc.IH [of "AddQuestion x p" "drop j bs" ys i "n + j"] Suc.prems x show ?case
    by (simp add: versions_returned AddQuestion_def add.assoc add.commute)
qed simp

lemma rd_answers_read_items:
  "read_items (read_isat (p_version p) tmask) k bs = Some (xs, m) \<Longrightarrow> msgVersion (p_version p) \<in> {0, 1} \<Longrightarrow>
   rd_answers tmask k p bs n = Some (Go (p\<lparr>answers := answers p @ xs\<rparr>) (drop m bs) (n + m))"
proof (induction k arbitrary: p bs xs m n)
  case (Suc k)
  obtain x j where x: "read_isat (p_version p) tmask bs = (x, j)" by force
  with Suc.prems obtain ys i where "j \<noteq> 0" "read_items (read_isat (p_version p) tmask) k (drop j bs) = Some (ys, i)"
    "xs = x # ys" "m = j + i"
    by (auto split: if_splits option.splits)
  with Suc.IH [of "AddAnswer x p" "drop j bs" ys i "n + j"] Suc.prems x show ?case
    by (simp add: versions_returned AddAnswer_def add.assoc add.commute)
qed simp

lemma NSPacket_Deserialize_bytes:
  assumes ok: "packet_ok tmask p"
  shows "NSPacket_Deserialize tmask new_NSPacket (packet_bytes p @ rest) = Some (p, length (packet_bytes p))"
proof -
  let ?qs = "concat (map whohas_bytes (questions p))" and ?as = "concat (map isat_bytes (answers p))"
  have v: "msgVersion (p_version p) \<in> {0, 1}" and n: "length (questions p) < 256" "length (answers p) < 256"
    using ok by (simp_all add: packet_ok_def)
  have q: "read_items (read_whohas (p_version p)) (length (questions p)) (?qs @ ?as @ rest) = Some (questions p, length ?qs)"
    and a: "read_items (read_isat (p_version p) tmask) (length (answers p)) (?as @ rest) = Some (answers p, length ?as)"
    using ok questions.read_items_enc [of "questions p" "p_version p"] answers.read_items_enc [of "answers p" "p_version p" tmask]
    by (simp_all add: packet_ok_def list_all_iff)
  let ?h = "SetTimer (timer p) (new_NSPacket\<lparr>p_version := p_version p\<rparr>)"
  have "rd_questions (length (questions p)) ?h (?qs @ ?as @ rest) 4 =
      Some (Go (?h\<lparr>questions := questions p\<rparr>) (?as @ rest) (4 + length ?qs))"
    using rd_questions_read_items [of ?h "length (questions p)" "?qs @ ?as @ rest"] q v
    by (simp add: SetTimer_def new_NSPacket_def)
  moreover have "rd_answers tmask (length (answers p)) (?h\<lparr>questions := questions p\<rparr>) (?as @ rest) (4 + length ?qs) =
      Some (Go (?h\<lparr>questions := questions p, answers := answers p\<rparr>) rest (4 + length ?qs + length ?as))"
    using rd_answers_read_items [of "?h\<lparr>questions := questions p\<rparr>" tmask "length (answers p)" "?as @ rest"] a v
    by (simp add: SetTimer_def new_NSPacket_def)
  moreover have "?h\<lparr>questions := questions p, answers := answers p\<rparr> = p"
    by (simp add: SetTimer_def new_NSPacket_def)
  ultimately show ?thesis
    using v n by (auto simp: NSPacket_Deserialize_def packet_bytes_def unat_count)
qed

subsection \<open>Bounds\<close>

text \<open>What has been read and what is left make up the buffer at every point of a reader.\<close>

fun within :: "nat \<Rightarrow> 'a rd \<Rightarrow> bool" where
  "within N (Stop x) = True"
| "within N (Go x bs n) = (n + length bs = N)"

lemma within_bind:
  "within N r \<Longrightarrow> (\<And>x bs n. n + length bs = N \<Longrightarrow> within N (f x bs n)) \<Longrightarrow> within N (rd_bind r f)"
  by (cases r) auto

lemma within_steps:
  "n + length bs = N \<Longrightarrow> within N (rd_field k st x bs n)"
  "n + length bs = N \<Longrightarrow> within N (rd_string s x bs n)"
  using StringData_bounded [of bs] by (auto simp: rd_field_def rd_string_def split: prod.split)

lemma within_strings: "n + length bs = N \<Longrightarrow> within N (rd_strings k st x bs n)"
  by (induction k arbitrary: x bs n) (auto intro!: within_bind within_steps)

lemma within_if:
  "n + length bs = N \<Longrightarrow> (b \<Longrightarrow> within N (f x bs n)) \<Longrightarrow> within N (rd_if b f x bs n)"
  by (simp add: rd_if_def)

lemma within_result: "within N r \<Longrightarrow> snd (rd_result r) \<le> N"
  by (cases r) auto

lemmas within_intros = within_bind within_if within_steps within_strings

lemma IsAt_bounded: "IsAt_Deserialize x bs = Some (y, n) \<Longrightarrow> n \<le> length bs"
proof -
  have "snd r \<le> length bs" if "IsAt_Deserialize x bs = Some r" for r
    using that unfolding IsAt_Deserialize_defs Let_def
    by (auto split: if_splits intro!: within_result within_intros)
  then show "IsAt_Deserialize x bs = Some (y, n) \<Longrightarrow> n \<le> length bs" by force
qed

lemma WhoHas_bounded: "WhoHas_Deserialize x bs = Some (y, n) \<Longrightarrow> n \<le> length bs"
proof -
  have "snd r \<le> length bs" if "WhoHas_Deserialize x bs = Some r" for r
    using that unfolding WhoHas_Deserialize_def Let_def
    by (auto split: if_splits intro!: within_result within_intros)
  then show "WhoHas_Deserialize x bs = Some (y, n) \<Longrightarrow> n \<le> length bs" by force
qed

interpretation answers: bounded_reader "read_isat v tmask"
proof
  show "snd (read_isat v tmask bs) \<le> length bs" for bs
    using IsAt_bounded by (force simp: read_isat_def split: option.split)
qed

interpretation questions: bounded_reader "read_whohas v"
proof
  show "snd (read_whohas v bs) \<le> length bs" for bs
    using WhoHas_bounded by (force simp: read_whohas_def split: option.split)
qed

text \<open>A loop of the packet reader gives up with fewer items or reads as many as it was told.\<close>

lemma rd_questions_total:
  "msgVersion (p_version p) \<in> {0, 1} \<Longrightarrow>
   (\<exists>p'. rd_questions k p bs n = Some (Stop p')) \<or>
   (\<exists>xs m. length xs = k \<and> m \<le> length bs \<and>
      rd_questions k p bs n = Some (Go (p\<lparr>questions := questions p @ xs\<rparr>) (drop m bs) (n + m)))"
proof (induction k arbitrary: p bs n)
  case (Suc k)
  obtain x j where x: "read_whohas (p_version p) bs = (x, j)" by force
  have j: "j \<le> length bs" using questions.dec_bounded [of "p_version p" bs] x by simp
  from Suc.prems have v: "msgVersion (p_version (AddQuestion x p)) \<in> {0, 1}" by (simp add: AddQuestion_def)
  show ?case
  proof (cases "j = 0")
    case False
    then have step: "rd_questions (Suc k) p bs n = rd_questions k (AddQuestion x p) (drop j bs) (n + j)"
      using Suc.prems x by (simp add: versions_returned)
    from Suc.IH [OF v, of "drop j bs" "n + j"] show ?thesis
    proof (elim disjE exE conjE)
      fix xs m
      assume "length xs = k" "m \<le> length (drop j bs)"
        "rd_questions k (AddQuestion x p) (drop j bs) (n + j) =
           Some (Go (AddQuestion x p\<lparr>questions := questions (AddQuestion x p) @ xs\<rparr>) (drop m (drop j bs)) (n + j + m))"
      then show ?thesis
        unfolding step using j
        by (intro disjI2 exI [of _ "x # xs"] exI [of _ "j + m"]) (simp add: AddQuestion_def add.assoc add.commute)
    qed (use step in auto)
  qed (use Suc.prems x in \<open>simp add: versions_returned\<close>)
qed auto

lemma rd_answers_total:
  "msgVersion (p_version p) \<in> {0, 1} \<Longrightarrow>
   (\<exists>p'. rd_answers tmask k p bs n = Some (Stop p')) \<or>
   (\<exists>xs m. length xs = k \<and> m \<le> length bs \<and>
      rd_answers tmask k p bs n = Some (Go (p\<lparr>answers := answers p @ xs\<rparr>) (drop m bs) (n + m)))"
proof (induction k arbitrary: p bs n)
  case (Suc k)
  obtain x j where x: "read_isat (p_version p) tmask bs = (x, j)" by force
  have j: "j \<le> length bs" using answers.dec_bounded [of "p_version p" tmask bs] x by simp
  from Suc.prems have v: "msgVersion (p_version (AddAnswer x p)) \<in> {0, 1}" by (simp add: AddAnswer_def)
  show ?case
  proof (cases "j = 0")
    case False
    then have step: "rd_answers tmask (Suc k) p bs n = rd_answers tmask k (AddAnswer x p) (drop j bs) (n + j)"
      using Suc.prems x by (simp add: versions_returned)
    from Suc.IH [OF v, of "drop j bs" "n + j"] show ?thesis
    proof (elim disjE exE conjE)
      fix xs m
      assume "length xs = k" "m \<le> length (drop j bs)"
        "rd_answers tmask k (AddAnswer x p) (drop j bs) (n + j) =
           Some (Go (AddAnswer x p\<lparr>answers := answers (AddAnswer x p) @ xs\<rparr>) (drop m (drop j bs)) (n + j + m))"
      then show ?thesis
        unfolding step using j
        by (intro disjI2 exI [of _ "x # xs"] exI [of _ "j + m"]) (simp add: AddAnswer_def add.assoc add.commute)
    qed (use step in auto)
  qed (use Suc.prems x in \<open>simp add: versions_returned\<close>)
qed auto

subsection \<open>Properties\<close>

text \<open>
  C3. A packet of version 0 or 1 that is as the reader would leave it is written without
  hitting an assertion, in exactly the number of bytes it announces, and a new packet object
  that reads a buffer starting with these bytes gets the same packet and the same number. As
  the reader would leave it (\<open>packet_ok\<close>) means: every item has the version of the packet;
  strings and lists fit their length bytes; an address that is present is a text the printers
  make, one that is absent is empty and its port zero; and what the version does not write is
  unset, which for an answer of version 0 are the addresses of version 1 and a transport mask
  other than the one preset in the reader, and for one of version 1 the port, the addresses and
  the T, U, S and F flags of version 0; a question has no transport mask, and in version 1 its
  flags are those the reader sets. Nothing is said of other packets.
\<close>
theorem ns_packet_roundtrip:
  assumes "packet_ok tmask p"
  shows "\<exists>b. NSPacket_Serialize old p = Some b \<and> NSPacket_GetSerializedSize p = Some (length b) \<and>
           NSPacket_Deserialize tmask new_NSPacket (b @ rest) = Some (p, length b)"
  using assms NSPacket_Serialize_bytes NSPacket_size_bytes NSPacket_Deserialize_bytes by blast

text \<open>Every printed IPv4 address is canonical.\<close>

lemma canon4_printed: "canon4 (dotted_octets [a, b, c, d])"
  by (simp add: canon4_def StringToIPv4_dotted IPv4ToString_def IPv4_SIZE_def del: dotted_octets.simps)

lemma canon6_example: "canon6 ''fe80::1''"
  by (simp add: canon6_def StringToIPv6_def ip6_start_def Let_def add_digit6_def store_group_def
      AccumulateDigits_def store_bits_def SetBits_def bits_bytes_def replicate_16 upt_rec chars
      IPv6ToString_def zero_run_def scan_group_def hex_group_def U8ToChar_def char_of_def bit_0)

text \<open>A version 1 packet with a question and an answer that has both kinds of address.\<close>

definition sample_packet :: NSPacket where
  "sample_packet =
     \<lparr>p_version = 0x11, timer = 120,
      questions = [new_WhoHas\<lparr>q_version := 0x11, q_flagU := True, q_names := [''org.alljoyn.About'']\<rparr>],
      answers = [AddName ''org.alljoyn.Bus'' (SetGuid ''4a6f'' (SetReliableIPv6 ''fe80::1'' 9955
        (SetReliableIPv4 (dotted_octets [192, 168, 0, 1]) 9955 (new_IsAt 4\<lparr>version := 0x11\<rparr>))))]\<rparr>"

theorem ns_packet_roundtrip_witness:
  "packet_ok 4 sample_packet \<and>
   (\<exists>b. NSPacket_Serialize (\<lambda>_. 0) sample_packet = Some b \<and>
      NSPacket_GetSerializedSize sample_packet = Some (length b) \<and>
      NSPacket_Deserialize 4 new_NSPacket (b @ []) = Some (sample_packet, length b))"
proof -
  have "packet_ok 4 sample_packet"
    by (simp add: packet_ok_def sample_packet_def whohas_ok_def isat_ok_def new_WhoHas_def new_IsAt_def names_ok_def
        opt_ok_def AddName_def SetGuid_def SetReliableIPv4_def SetReliableIPv6_def msgVersion_def
        canon4_printed canon6_example del: dotted_octets.simps)
  then show ?thesis using ns_packet_roundtrip [of 4 sample_packet "\<lambda>_. 0" "[]"] by blast
qed

text \<open>
  C20. Whatever the bytes are, reading a packet ends without hitting an assertion and never
  claims more bytes than the buffer holds. It reports nothing read, or it has appended
  exactly as many questions and answers as the header counts.
\<close>
theorem ns_deserialize_safe:
  "\<exists>p' n. NSPacket_Deserialize tmask p buffer = Some (p', n) \<and> n \<le> length buffer \<and>
     (n = 0 \<or>
      length (questions p') = length (questions p) + unat (buffer ! 1) \<and>
      length (answers p') = length (answers p) + unat (buffer ! 2))"
proof (cases "4 \<le> length buffer \<and> msgVersion (buffer ! 0) \<in> {0, 1}")
  case True
  let ?h = "SetTimer (buffer ! 3) (p\<lparr>p_version := buffer ! 0\<rparr>)"
  have v: "msgVersion (p_version ?h) \<in> {0, 1}" using True by (simp add: SetTimer_def)
  from rd_questions_total [OF v, of "unat (buffer ! 1)" "drop 4 buffer" 4] show ?thesis
  proof (elim disjE exE conjE)
    fix xs m
    assume q: "length xs = unat (buffer ! 1)" "m \<le> length (drop 4 buffer)"
      "rd_questions (unat (buffer ! 1)) ?h (drop 4 buffer) 4 =
         Some (Go (?h\<lparr>questions := questions ?h @ xs\<rparr>) (drop m (drop 4 buffer)) (4 + m))"
    have v2: "msgVersion (p_version (?h\<lparr>questions := questions ?h @ xs\<rparr>)) \<in> {0, 1}" using v by simp
    from rd_answers_total [OF v2, of tmask "unat (buffer ! 2)" "drop m (drop 4 buffer)" "4 + m"] show ?thesis
      using True q by (auto simp: NSPacket_Deserialize_def SetTimer_def)
  qed (use True in \<open>auto simp: NSPacket_Deserialize_def\<close>)
qed (auto simp: NSPacket_Deserialize_def)

end
