(* ===== verification/Big_Num.thy ===== *)
theory Big_Num
  imports AJ_Prelude
begin

unbundle bit_operations_syntax

text \<open>
  The arbitrary precision integers of \<^verbatim>\<open>common/src/BigNum.cc\<close> and
  \<^verbatim>\<open>common/inc/qcc/BigNum.h\<close>: representation, comparison, addition, subtraction,
  multiplication, shifts and bit length. A number is a sign flag and an array of 32-bit
  digits, least significant first; every loop of the code is a recursion over the digits
  with its 64-bit accumulator kept at its width. \<open>val\<close> is the integer a number stands for,
  and the lemmas show what each operation does to it.

  The reference-counted storage is left out: an object owns the digits that lie below its
  \<^verbatim>\<open>length\<close>, and the digits beyond it are never read as part of the value. An object of
  length 0, which \<^verbatim>\<open>set_bytes\<close> makes of an empty array, has no most significant digit, so
  the results below are about numbers with at least one digit.
\<close>

record BigNum =
  digits :: "u32 list"
  neg :: bool

subsection \<open>Values\<close>

fun dval :: "u32 list \<Rightarrow> nat" where
  "dval [] = 0"
| "dval (d # ds) = unat d + 2 ^ 32 * dval ds"

definition val :: "BigNum \<Rightarrow> int" where
  "val n = (if neg n then - int (dval (digits n)) else int (dval (digits n)))"

text \<open>
  A number is canonical when it has a digit, no leading zeroes and, if it is zero, a
  positive sign.
\<close>

definition haslz :: "BigNum \<Rightarrow> bool" where
  "haslz n \<longleftrightarrow> length (digits n) > 1 \<and> last (digits n) = 0"

definition canonical :: "BigNum \<Rightarrow> bool" where
  "canonical n \<longleftrightarrow> digits n \<noteq> [] \<and> \<not> haslz n \<and> (neg n \<longrightarrow> digits n \<noteq> [0])"

subsection \<open>Construction and leading zeroes\<close>

definition zero :: BigNum where
  "zero = \<lparr>digits = [0], neg = False\<rparr>"

definition of_u32 :: "u32 \<Rightarrow> BigNum" where
  "of_u32 v = \<lparr>digits = [v], neg = False\<rparr>"

definition alloc :: "nat \<Rightarrow> bool \<Rightarrow> BigNum" where
  "alloc len s = \<lparr>digits = replicate len 0, neg = s\<rparr>"

function strip_lz :: "BigNum \<Rightarrow> BigNum" where
  "strip_lz n =
     (if digits n \<noteq> [] \<and> last (digits n) = 0
      then if length (digits n) = 1 then n\<lparr>neg := False\<rparr>
           else strip_lz (n\<lparr>digits := butlast (digits n)\<rparr>)
      else n)"
  by auto
termination
  by (relation "measure (\<lambda>n. length (digits n))") auto

declare strip_lz.simps [simp del]

text \<open>The copy constructor strips the leading zeroes of the copy.\<close>

definition copy :: "BigNum \<Rightarrow> BigNum" where
  "copy n = strip_lz n"

definition zero_ext :: "BigNum \<Rightarrow> nat \<Rightarrow> BigNum option" where
  "zero_ext n sz =
     (if sz \<ge> length (digits n)
      then Some (n\<lparr>digits := digits n @ replicate (sz - length (digits n)) 0\<rparr>)
      else None)"

definition unary_minus :: "BigNum \<Rightarrow> BigNum" where
  "unary_minus n = (let result = copy n in result\<lparr>neg := \<not> neg result\<rparr>)"

definition abs_BigNum :: "BigNum \<Rightarrow> BigNum" where
  "abs_BigNum n = (if neg n then unary_minus n else copy n)"

definition is_even :: "BigNum \<Rightarrow> bool" where
  "is_even n \<longleftrightarrow> digits n ! 0 AND 1 = 0"

definition is_odd :: "BigNum \<Rightarrow> bool" where
  "is_odd n \<longleftrightarrow> digits n ! 0 AND 1 \<noteq> 0"

subsection \<open>Comparison\<close>

text \<open>
  The number of digits that are left when the leading zeroes are dropped; zero has none.
\<close>

function sig_len :: "u32 list \<Rightarrow> nat \<Rightarrow> nat" where
  "sig_len ds len =
     (if len \<noteq> 0 \<and> ds ! (len - 1) = 0 then sig_len ds (len - 1) else len)"
  by auto
termination
  by (relation "measure snd") auto

fun compare_digits :: "u32 list \<Rightarrow> u32 list \<Rightarrow> nat \<Rightarrow> int" where
  "compare_digits a b 0 = 0"
| "compare_digits a b (Suc k) =
     (if a ! k = b ! k then compare_digits a b k
      else if a ! k > b ! k then 1 else -1)"

definition compare :: "BigNum \<Rightarrow> BigNum \<Rightarrow> int" where
  "compare a b =
     (let aLen = sig_len (digits a) (length (digits a));
          bLen = sig_len (digits b) (length (digits b))
      in if (neg a \<and> aLen \<noteq> 0) \<noteq> (neg b \<and> bLen \<noteq> 0) then if neg a then -1 else 1
         else if aLen = bLen then compare_digits (digits a) (digits b) aLen
         else if aLen > bLen then 1 else -1)"

subsection \<open>Addition and subtraction\<close>

text \<open>
  The two addition loops, over the digits that both operands have and over the rest of the
  longer one, and the digit that a last carry adds.
\<close>

fun add_digits :: "u32 list \<Rightarrow> u32 list \<Rightarrow> u64 \<Rightarrow> u32 list" where
  "add_digits (x # xs) (y # ys) carry =
     (let n = ucast x + ucast y + carry
      in ucast n # add_digits xs ys (drop_bit 32 n))"
| "add_digits (x # xs) [] carry =
     (let n = ucast x + carry in ucast n # add_digits xs [] (drop_bit 32 n))"
| "add_digits [] ys carry = (if carry \<noteq> 0 then [ucast carry] else [])"

fun sub_digits :: "u32 list \<Rightarrow> u32 list \<Rightarrow> u64 \<Rightarrow> u32 list" where
  "sub_digits (x # xs) (y # ys) borrow =
     (let n = ucast x - ucast y - borrow
      in ucast n # sub_digits xs ys (drop_bit 63 n))"
| "sub_digits (x # xs) [] borrow =
     (let n = ucast x - borrow in ucast n # sub_digits xs [] (drop_bit 63 n))"
| "sub_digits [] ys borrow = []"

text \<open>
  The search for the most significant digit in which two numbers of one length differ: the
  number of digits up to and including it, 0 when there is none.
\<close>

fun differ_len :: "u32 list \<Rightarrow> u32 list \<Rightarrow> nat \<Rightarrow> nat" where
  "differ_len a b 0 = 0"
| "differ_len a b (Suc k) = (if a ! k = b ! k then differ_len a b k else Suc k)"

definition add_mag :: "BigNum \<Rightarrow> BigNum \<Rightarrow> BigNum" where
  "add_mag a b =
     (if length (digits a) \<ge> length (digits b)
      then \<lparr>digits = add_digits (digits a) (digits b) 0, neg = False\<rparr>
      else \<lparr>digits = add_digits (digits b) (digits a) 0, neg = False\<rparr>)"

definition sub_mag :: "BigNum \<Rightarrow> BigNum \<Rightarrow> BigNum" where
  "sub_mag a b =
     (if length (digits a) > length (digits b)
      then strip_lz \<lparr>digits = sub_digits (digits a) (digits b) 0, neg = False\<rparr>
      else if length (digits a) < length (digits b)
      then strip_lz \<lparr>digits = sub_digits (digits b) (digits a) 0, neg = True\<rparr>
      else let xLen = differ_len (digits a) (digits b) (length (digits a))
           in if xLen = 0 then of_u32 0
              else if digits a ! (xLen - 1) > digits b ! (xLen - 1)
              then strip_lz \<lparr>digits = sub_digits (take xLen (digits a)) (take xLen (digits b)) 0,
                             neg = False\<rparr>
              else strip_lz \<lparr>digits = sub_digits (take xLen (digits b)) (take xLen (digits a)) 0,
                             neg = True\<rparr>)"

text \<open>
  The binary operators call each other until both operands are positive. Nothing bounds
  these calls, so they are a partial function: \<open>None\<close> is the recursion that does not end.
  The flag says which operator is called.
\<close>

partial_function (option) add_sub :: "bool \<Rightarrow> BigNum \<Rightarrow> BigNum \<Rightarrow> BigNum option" where
  "add_sub is_minus a n =
     (if \<not> is_minus then
        if neg n then add_sub True a (unary_minus n)
        else if neg a then add_sub True n (unary_minus a)
        else Some (add_mag a n)
      else
        if neg n then add_sub False a (unary_minus n)
        else if neg a
        then Option.bind (add_sub True n a) (\<lambda>r. Some (unary_minus r))
        else Some (sub_mag a n))"

declare add_sub.simps [code]

definition op_plus :: "BigNum \<Rightarrow> BigNum \<Rightarrow> BigNum option" where
  "op_plus a n = add_sub False a n"

definition op_minus :: "BigNum \<Rightarrow> BigNum \<Rightarrow> BigNum option" where
  "op_minus a n = add_sub True a n"

definition op_plus_int :: "BigNum \<Rightarrow> u32 \<Rightarrow> BigNum option" where
  "op_plus_int a i = (if i = 0 then Some (copy a) else op_plus a (of_u32 i))"

definition op_minus_int :: "BigNum \<Rightarrow> u32 \<Rightarrow> BigNum option" where
  "op_minus_int a i =
     (if haslz a then None
      else if i = 0 then Some (copy a)
      else op_minus a (of_u32 i))"

text \<open>
  The in-place subtraction: the assertion that the magnitude is large enough, the digits of
  the subtrahend from position \<open>shift\<close> on, then the borrow for as long as there is one. A
  borrow that reaches past the last digit is \<open>None\<close>, like a failed assertion.
\<close>

fun borrow_digits :: "u32 list \<Rightarrow> u64 \<Rightarrow> u32 list option" where
  "borrow_digits ls borrow =
     (if borrow = 0 then Some ls
      else case ls of
             [] \<Rightarrow> None
           | l # ls' \<Rightarrow>
               let n = ucast l - borrow
               in map_option (\<lambda>r. ucast n # r) (borrow_digits ls' (drop_bit 63 n)))"

fun sub_inplace :: "u32 list \<Rightarrow> u32 list \<Rightarrow> u64 \<Rightarrow> u32 list option" where
  "sub_inplace ls [] borrow = borrow_digits ls borrow"
| "sub_inplace [] (r # rs) borrow = None"
| "sub_inplace (l # ls) (r # rs) borrow =
     (let n = ucast l - ucast r - borrow
      in map_option (\<lambda>t. ucast n # t) (sub_inplace ls rs (drop_bit 63 n)))"

definition sub :: "BigNum \<Rightarrow> BigNum \<Rightarrow> nat \<Rightarrow> BigNum option" where
  "sub a n shift =
     (if compare (abs_BigNum a) (abs_BigNum n) \<ge> 0
      then map_option
             (\<lambda>t. strip_lz (a\<lparr>digits := take shift (digits a) @ t\<rparr>))
             (sub_inplace (drop shift (digits a)) (digits n) 0)
      else None)"

definition plus_assign :: "BigNum \<Rightarrow> BigNum \<Rightarrow> BigNum option" where
  "plus_assign a n = (if \<not> neg a \<and> neg n then sub a n 0 else op_plus a n)"

definition plus_assign_int :: "BigNum \<Rightarrow> u32 \<Rightarrow> BigNum option" where
  "plus_assign_int a i = plus_assign a (of_u32 i)"

definition minus_assign :: "BigNum \<Rightarrow> BigNum \<Rightarrow> BigNum option" where
  "minus_assign a n =
     (if haslz a \<or> haslz n then None
      else if length (digits a) > length (digits n) \<and> neg a = neg n then sub a n 0
      else op_minus a n)"

definition minus_assign_int :: "BigNum \<Rightarrow> u32 \<Rightarrow> BigNum option" where
  "minus_assign_int a i =
     (if haslz a then None
      else if neg a then op_minus a (of_u32 i)
      else sub a (of_u32 i) 0)"

subsection \<open>Digit arithmetic\<close>

lemma unat_lo32: "unat (ucast (n :: u64) :: u32) = unat n mod 2 ^ 32"
  by (simp add: unsigned_ucast_eq take_bit_eq_mod)

lemma unat_hi32: "unat (drop_bit 32 (n :: u64)) = unat n div 2 ^ 32"
  by (simp add: drop_bit_eq_div unat_div)

lemma unat_hi63: "unat (drop_bit 63 (n :: u64)) = unat n div 2 ^ 63"
  by (simp add: drop_bit_eq_div unat_div)

lemma unat_up [simp]: "unat (ucast (x :: u32) :: u64) = unat x"
  using unsigned_less [of x, where ?'a = nat]
  by (simp add: unsigned_ucast_eq take_bit_eq_mod)

lemma uint_up: "uint (ucast (x :: u32) :: u64) = uint x"
  by (simp only: uint_nat unat_up)

lemma u32_lt: "unat (x :: u32) < 2 ^ 32"
  using unsigned_less [of x, where ?'a = nat] by simp

lemma unat_add64: "unat a + unat b < 2 ^ 64 \<Longrightarrow> unat (a + b :: u64) = unat a + unat b"
  by (simp add: unat_word_ariths)

lemma unat_mult64: "unat a * unat b < 2 ^ 64 \<Longrightarrow> unat (a * b :: u64) = unat a * unat b"
  by (simp add: unat_word_ariths)

text \<open>A 64-bit accumulator is its low digit and its carry.\<close>

lemma lo_hi32: "unat (ucast (n :: u64) :: u32) + 2 ^ 32 * unat (drop_bit 32 n) = unat n"
  unfolding unat_lo32 unat_hi32 by presburger

text \<open>One step of a subtraction: the borrow is 1 exactly when the digit went below zero.\<close>

lemma borrow_range:
  "\<lbrakk>X < 2 ^ 32; Y < 2 ^ 32; B \<le> 1\<rbrakk> \<Longrightarrow>
     - (2 ^ 32) \<le> int X - int Y - int B \<and> int X - int Y - int B < 2 ^ 32"
  by auto

lemma borrow_split:
  assumes "- (2 ^ 32) \<le> v" "v < 2 ^ 32" "N = (if v < 0 then v + 2 ^ 64 else (v :: int))"
  shows "N mod 2 ^ 32 - 2 ^ 32 * (N div 2 ^ 63) = v"
proof (cases "v < 0")
  case True
  have "N mod 2 ^ 32 = (v + 2 ^ 32 + (2 ^ 32 - 1) * 2 ^ 32) mod 2 ^ 32"
    using True assms(3) by (simp add: add.commute)
  also have "\<dots> = (v + 2 ^ 32) mod 2 ^ 32"
    by (rule mod_mult_self1)
  also have "\<dots> = v + 2 ^ 32"
    using True assms(1) by (intro mod_pos_pos_trivial) auto
  finally have "N mod 2 ^ 32 = v + 2 ^ 32" .
  moreover have "N div 2 ^ 63 = 1"
    using True assms by (intro int_div_pos_eq [where r = "v + 2 ^ 63"]) auto
  ultimately show ?thesis by simp
next
  case False
  with assms show ?thesis by simp
qed

lemma sub_step:
  fixes x y :: u32 and b :: u64
  assumes b: "unat b \<le> 1"
  defines "n \<equiv> ucast x - ucast y - b"
  shows "int (unat (ucast n :: u32)) - 2 ^ 32 * int (unat (drop_bit 63 n)) =
         int (unat x) - int (unat y) - int (unat b)"
    and "unat (drop_bit 63 n) \<le> 1"
proof -
  define v where "v = int (unat x) - int (unat y) - int (unat b)"
  have r: "- (2 ^ 32) \<le> v" "v < 2 ^ 32"
    using borrow_range [OF u32_lt u32_lt b] unfolding v_def by auto
  have un: "uint n = v mod 2 ^ 64"
    by (simp add: n_def v_def uint_word_ariths uint_up mod_simps)
  have vm: "v mod 2 ^ 64 = (if v < 0 then v + 2 ^ 64 else v)"
  proof (cases "v < 0")
    case True
    have "v mod 2 ^ 64 = (v + 2 ^ 64) mod 2 ^ 64"
      by simp
    also have "\<dots> = v + 2 ^ 64"
      using True r by (intro mod_pos_pos_trivial) auto
    finally show ?thesis using True by simp
  next
    case False
    then show ?thesis using r by simp
  qed
  have n: "int (unat n) = (if v < 0 then v + 2 ^ 64 else v)"
    using un vm by simp
  show "unat (drop_bit 63 n) \<le> 1"
    using unsigned_less [of n, where ?'a = nat] unfolding unat_hi63 by simp
  show "int (unat (ucast n :: u32)) - 2 ^ 32 * int (unat (drop_bit 63 n)) =
        int (unat x) - int (unat y) - int (unat b)"
    using borrow_split [OF r n] unfolding unat_lo32 unat_hi63 v_def [symmetric]
    by (simp add: zdiv_int zmod_int)
qed

subsection \<open>Values of digit lists\<close>

lemma dval_append: "dval (xs @ ys) = dval xs + 2 ^ (32 * length xs) * dval ys"
  by (induction xs) (simp_all add: power_add algebra_simps)

lemma dval_replicate_0 [simp]: "dval (replicate k 0) = 0"
  by (induction k) simp_all

lemma dval_less: "dval xs < 2 ^ (32 * length xs)"
proof (induction xs)
  case (Cons x xs)
  have "unat x + 2 ^ 32 * dval xs < 2 ^ 32 + 2 ^ 32 * dval xs"
    using u32_lt [of x] by simp
  also have "\<dots> = 2 ^ 32 * Suc (dval xs)"
    by simp
  also have "\<dots> \<le> 2 ^ 32 * 2 ^ (32 * length xs)"
    using Cons by (intro mult_le_mono2) simp
  finally show ?case
    by (simp add: power_add)
qed simp

lemma dval_take_Suc:
  "k < length ds \<Longrightarrow> dval (take (Suc k) ds) = dval (take k ds) + 2 ^ (32 * k) * unat (ds ! k)"
  by (simp add: take_Suc_conv_app_nth dval_append)

lemma dval_take_drop: "dval ds = dval (take k ds) + 2 ^ (32 * length (take k ds)) * dval (drop k ds)"
  using dval_append [of "take k ds" "drop k ds"] by simp

lemma dval_ge_last:
  assumes "ds \<noteq> []" "last ds \<noteq> 0"
  shows "2 ^ (32 * (length ds - 1)) \<le> dval ds"
proof -
  have "dval ds = dval (butlast ds) + 2 ^ (32 * (length ds - 1)) * unat (last ds)"
    using assms(1) dval_append [of "butlast ds" "[last ds]"] by simp
  moreover have "unat (last ds) \<ge> 1"
    using assms(2) by (simp add: Suc_le_eq unat_gt_0)
  ultimately show ?thesis
    by (simp add: le_add2 trans_le_add2)
qed

lemma dval_inj: "length xs = length ys \<Longrightarrow> dval xs = dval ys \<Longrightarrow> xs = ys"
proof (induction xs ys rule: list_induct2)
  case (Cons x xs y ys)
  have "unat x = (unat x + 2 ^ 32 * dval xs) mod 2 ^ 32" "unat y = (unat y + 2 ^ 32 * dval ys) mod 2 ^ 32"
    using u32_lt [of x] u32_lt [of y] by simp_all
  with Cons show ?case by (auto simp: word_unat_eq_iff)
qed simp

subsection \<open>Stripping leading zeroes\<close>

lemma strip_lz_dval [simp]: "dval (digits (strip_lz n)) = dval (digits n)"
proof (induction n rule: strip_lz.induct)
  case (1 n)
  show ?case
  proof (cases "digits n \<noteq> [] \<and> last (digits n) = 0 \<and> length (digits n) \<noteq> 1")
    case True
    then have "dval (digits n) = dval (butlast (digits n) @ [0])"
      by (metis append_butlast_last_id)
    with 1 True show ?thesis by (subst strip_lz.simps) (simp add: dval_append)
  qed (subst strip_lz.simps, auto)
qed

lemma strip_lz_neg: "neg (strip_lz n) \<longleftrightarrow> neg n \<and> digits (strip_lz n) \<noteq> [0]"
proof (induction n rule: strip_lz.induct)
  case (1 n)
  show ?case
  proof (cases "digits n \<noteq> [] \<and> last (digits n) = 0")
    case True
    with 1 show ?thesis
      by (cases "length (digits n) = 1")
        (simp_all add: strip_lz.simps [of n] length_Suc_conv, auto)
  qed (auto simp: strip_lz.simps [of n])
qed

lemma strip_lz_nonempty: "digits n \<noteq> [] \<Longrightarrow> digits (strip_lz n) \<noteq> []"
proof (induction n rule: strip_lz.induct)
  case (1 n)
  then show ?case
    by (cases "digits n" rule: rev_cases) (auto simp: strip_lz.simps [of n])
qed

lemma strip_lz_haslz: "\<not> haslz (strip_lz n)"
proof (induction n rule: strip_lz.induct)
  case (1 n)
  then show ?case
    by (subst strip_lz.simps) (auto simp: haslz_def)
qed

lemma strip_lz_canonical: "digits n \<noteq> [] \<Longrightarrow> canonical (strip_lz n)"
  by (simp add: canonical_def strip_lz_nonempty strip_lz_haslz strip_lz_neg)

lemma strip_lz_val [simp]: "val (strip_lz n) = val n"
  using strip_lz_dval [of n] by (auto simp: val_def strip_lz_neg simp del: strip_lz_dval)

lemma strip_lz_id: "canonical n \<Longrightarrow> strip_lz n = n"
  by (cases "digits n" rule: rev_cases) (auto simp: strip_lz.simps [of n] canonical_def haslz_def)

lemma strip_lz_length: "length (digits (strip_lz n)) \<le> length (digits n)"
proof (induction n rule: strip_lz.induct)
  case (1 n)
  then show ?case
    by (subst strip_lz.simps) (auto simp: length_Suc_conv)
qed

lemma dval_0_iff: "\<lbrakk>ds \<noteq> []; length ds > 1 \<longrightarrow> last ds \<noteq> 0\<rbrakk> \<Longrightarrow> dval ds = 0 \<longleftrightarrow> ds = [0]"
  using dval_ge_last [of ds] by (cases ds rule: rev_cases) (auto simp: unat_eq_zero)

declare of_nat_unat [simp del]

subsection \<open>Comparison\<close>

declare sig_len.simps [simp del]

lemma sig_len_le: "sig_len ds len \<le> len"
  by (induction ds len rule: sig_len.induct) (subst sig_len.simps, force)

lemma sig_len_dval:
  "len \<le> length ds \<Longrightarrow> dval (take (sig_len ds len) ds) = dval (take len ds)"
proof (induction ds len rule: sig_len.induct)
  case (1 ds len)
  show ?case
  proof (cases "len \<noteq> 0 \<and> ds ! (len - 1) = 0")
    case True
    with 1 show ?thesis
      using dval_take_Suc [of "len - 1" ds]
      by (cases len) (simp_all add: sig_len.simps [of ds "Suc _"])
  qed (auto simp: sig_len.simps [of ds len])
qed

lemma sig_len_top: "sig_len ds len \<noteq> 0 \<Longrightarrow> ds ! (sig_len ds len - 1) \<noteq> 0"
proof (induction ds len rule: sig_len.induct)
  case (1 ds len)
  then show ?case
    by (cases "len \<noteq> 0 \<and> ds ! (len - 1) = 0") (auto simp: sig_len.simps [of ds len])
qed

lemma sig_len_lower:
  assumes "k = sig_len ds (length ds)" "k \<noteq> 0"
  shows "2 ^ (32 * (k - 1)) \<le> dval ds"
proof -
  have k: "k \<le> length ds" "ds ! (k - 1) \<noteq> 0"
    using sig_len_le sig_len_top assms by auto
  then have "2 ^ (32 * (k - 1)) \<le> dval (take k ds)"
    using dval_ge_last [of "take k ds"] assms(2)
    by (cases "ds = []") (simp_all add: last_conv_nth min_absorb2)
  then show ?thesis
    using sig_len_dval [of "length ds" ds] assms(1) by simp
qed

lemma sig_len_upper: "dval ds < 2 ^ (32 * sig_len ds (length ds))"
  using dval_less [of "take (sig_len ds (length ds)) ds"] sig_len_dval [of "length ds" ds]
    sig_len_le [of ds "length ds"]
  by (simp add: min_absorb2)

lemma sig_len_0_iff: "sig_len ds (length ds) = 0 \<longleftrightarrow> dval ds = 0"
  using sig_len_lower [OF refl, of ds] sig_len_upper [of ds] by fastforce

lemma sig_len_mono:
  assumes "sig_len a (length a) < sig_len b (length b)"
  shows "dval a < dval b"
proof -
  have "dval a < 2 ^ (32 * sig_len a (length a))"
    by (rule sig_len_upper)
  also have "\<dots> \<le> 2 ^ (32 * (sig_len b (length b) - 1))"
    using assms by (intro power_increasing) auto
  also have "\<dots> \<le> dval b"
    using assms by (intro sig_len_lower) auto
  finally show ?thesis .
qed

text \<open>Of two digit lists of one length, the top digit decides unless it is the same.\<close>

lemma dval_top_less:
  assumes "k < length a" "k < length b" "a ! k < b ! k"
  shows "dval (take (Suc k) a) < dval (take (Suc k) b)"
proof -
  have "dval (take (Suc k) a) < 2 ^ (32 * k) + 2 ^ (32 * k) * unat (a ! k)"
    using dval_less [of "take k a"] assms by (simp add: dval_take_Suc)
  also have "\<dots> = 2 ^ (32 * k) * Suc (unat (a ! k))"
    by simp
  also have "\<dots> \<le> 2 ^ (32 * k) * unat (b ! k)"
    using assms(3) by (intro mult_le_mono2) (simp add: word_less_nat_alt)
  also have "\<dots> \<le> dval (take (Suc k) b)"
    using assms by (simp add: dval_take_Suc)
  finally show ?thesis .
qed

lemma compare_digits_sgn:
  "k \<le> length a \<Longrightarrow> k \<le> length b \<Longrightarrow>
   compare_digits a b k = sgn (int (dval (take k a)) - int (dval (take k b)))"
proof (induction k)
  case (Suc k)
  consider "a ! k = b ! k" | "a ! k < b ! k" | "b ! k < a ! k"
    by (meson linorder_neqE)
  then show ?case
  proof cases
    case 1
    with Suc show ?thesis by (simp add: dval_take_Suc)
  next
    case 2
    with Suc.prems show ?thesis using dval_top_less [of k a b] by (auto simp: sgn_if)
  next
    case 3
    with Suc.prems show ?thesis using dval_top_less [of k b a] by (auto simp: sgn_if)
  qed
qed simp

text \<open>What the code compares after the signs: the magnitudes.\<close>

lemma compare_magnitudes:
  "(let aLen = sig_len a (length a); bLen = sig_len b (length b)
    in if aLen = bLen then compare_digits a b aLen else if aLen > bLen then 1 else -1)
   = sgn (int (dval a) - int (dval b))"
proof -
  consider "sig_len a (length a) = sig_len b (length b)"
    | "sig_len a (length a) < sig_len b (length b)"
    | "sig_len b (length b) < sig_len a (length a)"
    by linarith
  then show ?thesis
  proof cases
    case 1
    then show ?thesis
      using compare_digits_sgn [of "sig_len a (length a)" a b] sig_len_le [of a "length a"]
        sig_len_le [of b "length b"] sig_len_dval [of "length a" a] sig_len_dval [of "length b" b]
      by simp
  next
    case 2
    then show ?thesis using sig_len_mono [of a b] by (simp add: sgn_if)
  next
    case 3
    then show ?thesis using sig_len_mono [of b a] by (simp add: sgn_if)
  qed
qed

lemma compare_alt:
  "compare a b =
     (if (neg a \<and> val a \<noteq> 0) \<noteq> (neg b \<and> val b \<noteq> 0) then if neg a then -1 else 1
      else sgn (int (dval (digits a)) - int (dval (digits b))))"
proof -
  have "sig_len (digits n) (length (digits n)) = 0 \<longleftrightarrow> val n = 0" for n
    by (simp only: sig_len_0_iff val_def) simp
  then show ?thesis
    unfolding compare_magnitudes [symmetric] compare_def Let_def by (simp only: )
qed

lemma compare_nonneg: "\<not> neg a \<Longrightarrow> \<not> neg b \<Longrightarrow> compare a b = sgn (val a - val b)"
  by (simp add: compare_alt val_def)

lemma compare_ok: "\<not> (neg a \<and> neg b) \<Longrightarrow> compare a b = sgn (val a - val b)"
  by (auto simp: compare_alt val_def sgn_if)

lemma compare_both_neg:
  "\<lbrakk>neg a; neg b; val a \<noteq> 0; val b \<noteq> 0\<rbrakk> \<Longrightarrow> compare a b = sgn (val b - val a)"
  by (simp add: compare_alt val_def)

subsection \<open>Canonical numbers\<close>

lemma canonical_0_iff: "canonical n \<Longrightarrow> val n = 0 \<longleftrightarrow> digits n = [0]"
  using dval_0_iff [of "digits n"] by (auto simp: canonical_def haslz_def val_def)

lemma canonical_neg: "canonical n \<Longrightarrow> neg n \<longleftrightarrow> val n < 0"
  using canonical_0_iff [of n] by (auto simp: val_def canonical_def split: if_splits)

lemma canonical_length_mono:
  assumes "canonical x" "canonical y" "dval (digits x) \<le> dval (digits y)"
  shows "length (digits x) \<le> length (digits y)"
proof (rule ccontr)
  assume *: "\<not> length (digits x) \<le> length (digits y)"
  have "dval (digits y) < 2 ^ (32 * length (digits y))"
    by (rule dval_less)
  also have "\<dots> \<le> 2 ^ (32 * (length (digits x) - 1))"
    using * by (intro power_increasing) auto
  also have "\<dots> \<le> dval (digits x)"
  proof (rule dval_ge_last)
    show "digits x \<noteq> []" using assms by (simp add: canonical_def)
    have "length (digits x) > 1"
      using * assms(2) by (cases "digits y") (auto simp: canonical_def)
    then show "last (digits x) \<noteq> 0"
      using assms(1) by (simp add: canonical_def haslz_def)
  qed
  finally show False using assms(3) by simp
qed

lemma canonical_eq:
  assumes "canonical a" "canonical b" "val a = val b"
  shows "a = b"
proof -
  have d: "dval (digits a) = dval (digits b)" and n: "neg a = neg b"
    using assms canonical_neg [of a] canonical_neg [of b] by (auto simp: val_def split: if_splits)
  have "digits a = digits b"
    using canonical_length_mono [of a b] canonical_length_mono [of b a] assms d
    by (intro dval_inj) auto
  with n show ?thesis by simp
qed

subsection \<open>Addition\<close>

text \<open>
  In both loops the digits that the shorter operand does not have count as zero, so one
  equation covers them.
\<close>

definition lsd :: "u32 list \<Rightarrow> u32" where
  "lsd ys = (case ys of [] \<Rightarrow> 0 | y # _ \<Rightarrow> y)"

lemma dval_lsd: "dval ys = unat (lsd ys) + 2 ^ 32 * dval (tl ys)"
  by (cases ys) (simp_all add: lsd_def)

lemma add_digits_Cons:
  "add_digits (x # xs) ys c =
     ucast (ucast x + ucast (lsd ys) + c) #
     add_digits xs (tl ys) (drop_bit 32 (ucast x + ucast (lsd ys) + c))"
  by (cases ys) (simp_all add: lsd_def Let_def)

lemma sub_digits_Cons:
  "sub_digits (x # xs) ys b =
     ucast (ucast x - ucast (lsd ys) - b) #
     sub_digits xs (tl ys) (drop_bit 63 (ucast x - ucast (lsd ys) - b))"
  by (cases ys) (simp_all add: lsd_def Let_def)

lemma add_step:
  fixes x y :: u32 and c :: u64
  assumes "unat c \<le> 1"
  shows "unat (ucast (ucast x + ucast y + c) :: u32) +
           2 ^ 32 * unat (drop_bit 32 (ucast x + ucast y + c)) = unat x + unat y + unat c"
    and "unat (drop_bit 32 (ucast x + ucast y + c)) \<le> 1"
proof -
  have n: "unat (ucast x + ucast y + c) = unat x + unat y + unat c"
    using u32_lt [of x] u32_lt [of y] assms by (simp add: unat_add64)
  show "unat (ucast (ucast x + ucast y + c) :: u32) +
           2 ^ 32 * unat (drop_bit 32 (ucast x + ucast y + c)) = unat x + unat y + unat c"
    unfolding lo_hi32 by (rule n)
  show "unat (drop_bit 32 (ucast x + ucast y + c)) \<le> 1"
    using u32_lt [of x] u32_lt [of y] assms unfolding unat_hi32 n by simp
qed

lemma length_tl_le: "length ys \<le> length (x # xs) \<Longrightarrow> length (tl ys) \<le> length xs"
  by (cases ys) auto

lemma add_digits_val:
  "\<lbrakk>length ys \<le> length xs; unat c \<le> 1\<rbrakk> \<Longrightarrow>
   dval (add_digits xs ys c) = dval xs + dval ys + unat c"
proof (induction xs arbitrary: ys c)
  case (Cons x xs)
  note s = add_step [OF Cons.prems(2), of x "lsd ys"]
  have "dval (add_digits xs (tl ys) (drop_bit 32 (ucast x + ucast (lsd ys) + c))) =
        dval xs + dval (tl ys) + unat (drop_bit 32 (ucast x + ucast (lsd ys) + c))"
    using Cons.IH [OF length_tl_le [OF Cons.prems(1)] s(2)] .
  with s(1) dval_lsd [of ys] show ?case
    by (simp add: add_digits_Cons)
qed (auto simp: unat_lo32)

lemma add_digits_nonempty: "xs \<noteq> [] \<Longrightarrow> add_digits xs ys c \<noteq> []"
  by (cases xs) (simp_all add: add_digits_Cons)

lemma add_digits_top:
  "\<lbrakk>length ys \<le> length xs; unat c \<le> 1\<rbrakk> \<Longrightarrow>
   length (add_digits xs ys c) = length xs \<or>
   length (add_digits xs ys c) = Suc (length xs) \<and> last (add_digits xs ys c) \<noteq> 0"
proof (induction xs arbitrary: ys c)
  case Nil
  then show ?case
    by (auto simp: unat_lo32 word_unat_eq_iff)
next
  case (Cons x xs)
  note s = add_step [OF Cons.prems(2), of x "lsd ys"]
  show ?case
    using Cons.IH [OF length_tl_le [OF Cons.prems(1)] s(2)] by (auto simp: add_digits_Cons)
qed

lemma dval_last_0:
  "\<lbrakk>ds \<noteq> []; last ds = 0\<rbrakk> \<Longrightarrow> dval ds < 2 ^ (32 * (length ds - 1))"
  using dval_less [of "butlast ds"] dval_append [of "butlast ds" "[last ds]"]
  by (metis append_butlast_last_id dval.simps length_butlast mult_0_right add_0_right unat_0)

subsection \<open>Subtraction\<close>

lemma sub_digits_step:
  "\<lbrakk>length ys \<le> length xs; unat b \<le> 1\<rbrakk> \<Longrightarrow>
   length (sub_digits xs ys b) = length xs \<and>
   (\<exists>out\<in>{0, 1}. int (dval (sub_digits xs ys b)) =
      int (dval xs) - int (dval ys) - int (unat b) + 2 ^ (32 * length xs) * out)"
proof (induction xs arbitrary: ys b)
  case Nil
  then have "b = 0 \<or> b = 1" by (auto simp: word_unat_eq_iff)
  with Nil show ?case by auto
next
  case (Cons x xs)
  define n where "n = (ucast x - ucast (lsd ys) - b :: u64)"
  note s = sub_step [OF Cons.prems(2), of x "lsd ys", folded n_def]
  obtain out where out: "out \<in> {0, 1}"
    "int (dval (sub_digits xs (tl ys) (drop_bit 63 n))) =
       int (dval xs) - int (dval (tl ys)) - int (unat (drop_bit 63 n)) + 2 ^ (32 * length xs) * out"
    "length (sub_digits xs (tl ys) (drop_bit 63 n)) = length xs"
    using Cons.IH [OF length_tl_le [OF Cons.prems(1)] s(2)] by auto
  have "int (dval (sub_digits (x # xs) ys b)) =
        int (unat (ucast n :: u32)) + 2 ^ 32 * int (dval (sub_digits xs (tl ys) (drop_bit 63 n)))"
    by (simp add: sub_digits_Cons n_def)
  also have "\<dots> = int (unat x) + 2 ^ 32 * int (dval xs) -
      (int (unat (lsd ys)) + 2 ^ 32 * int (dval (tl ys))) - int (unat b) + 2 ^ (32 * length (x # xs)) * out"
    using s(1) out(2) by (simp add: algebra_simps power_add)
  also have "\<dots> = int (dval (x # xs)) - int (dval ys) - int (unat b) + 2 ^ (32 * length (x # xs)) * out"
    using dval_lsd [of ys] by simp
  finally show ?case
    using out(1,3) by (auto simp: sub_digits_Cons n_def)
qed

lemma sub_digits_val:
  assumes "length ys \<le> length xs" "dval ys \<le> dval xs"
  shows "dval (sub_digits xs ys 0) = dval xs - dval ys" "length (sub_digits xs ys 0) = length xs"
proof -
  from sub_digits_step [OF assms(1), of 0] obtain out where
    out: "out \<in> {0, 1}" "length (sub_digits xs ys 0) = length xs"
    "int (dval (sub_digits xs ys 0)) = int (dval xs) - int (dval ys) + 2 ^ (32 * length xs) * out"
    by auto
  show "length (sub_digits xs ys 0) = length xs" by (rule out(2))
  have "int (dval (sub_digits xs ys 0)) < 2 ^ (32 * length xs)"
    using dval_less [of "sub_digits xs ys 0"] out(2) by (metis of_nat_less_iff of_nat_numeral of_nat_power)
  then have "out = 0"
    using out(1,3) assms(2) by auto
  with out(3) show "dval (sub_digits xs ys 0) = dval xs - dval ys"
    by simp
qed

lemma canonicalI:
  "\<lbrakk>digits n \<noteq> []; length (digits n) > 1 \<Longrightarrow> last (digits n) \<noteq> 0; neg n \<Longrightarrow> digits n \<noteq> [0]\<rbrakk> \<Longrightarrow>
   canonical n"
  by (auto simp: canonical_def haslz_def)

lemma canonical_of_u32 [simp]: "canonical (of_u32 v)"
  by (simp add: canonical_def haslz_def of_u32_def)

lemma canonical_zero [simp]: "canonical zero"
  by (simp add: canonical_def haslz_def zero_def)

lemma val_of_u32 [simp]: "val (of_u32 v) = int (unat v)"
  by (simp add: val_def of_u32_def)

lemma val_zero [simp]: "val zero = 0"
  by (simp add: val_def zero_def)

lemma canonical_nonempty: "canonical n \<Longrightarrow> digits n \<noteq> []"
  by (simp add: canonical_def)

lemma copy_val [simp]: "val (copy n) = val n"
  by (simp add: copy_def)

lemma copy_canonical [simp]: "canonical n \<Longrightarrow> copy n = n"
  by (simp add: copy_def strip_lz_id)

lemma unary_minus_val [simp]: "val (unary_minus n) = - val n"
proof -
  have "dval (digits n) = 0" if "digits (strip_lz n) = [0]"
    using that strip_lz_dval [of n] by simp
  then show ?thesis
    by (auto simp: unary_minus_def Let_def val_def copy_def strip_lz_neg)
qed

lemma unary_minus_canonical:
  assumes "digits n \<noteq> []" "val n \<noteq> 0"
  shows "canonical (unary_minus n)"
proof -
  have c: "canonical (copy n)"
    using assms by (simp add: copy_def strip_lz_canonical)
  then show ?thesis
    using canonical_0_iff [OF c] assms(2) by (auto simp: unary_minus_def Let_def canonical_def haslz_def)
qed

lemma unary_minus_neg: "canonical n \<Longrightarrow> neg (unary_minus n) \<longleftrightarrow> \<not> neg n"
  by (simp add: unary_minus_def Let_def)

lemma canonical_val_nonneg: "canonical n \<Longrightarrow> \<not> neg n \<longleftrightarrow> val n \<ge> 0"
  using canonical_neg [of n] by auto

lemma add_mag_ok:
  assumes "canonical a" "canonical n" "\<not> neg a" "\<not> neg n"
  shows "canonical (add_mag a n) \<and> val (add_mag a n) = val a + val n"
proof -
  have *: "canonical \<lparr>digits = add_digits (digits x) (digits y) 0, neg = False\<rparr> \<and>
           dval (add_digits (digits x) (digits y) 0) = dval (digits x) + dval (digits y)"
    if "length (digits y) \<le> length (digits x)" "canonical x" for x y
  proof -
    have v: "dval (add_digits (digits x) (digits y) 0) = dval (digits x) + dval (digits y)"
      using add_digits_val [OF that(1), of 0] by simp
    have "last (add_digits (digits x) (digits y) 0) \<noteq> 0"
      if l: "length (add_digits (digits x) (digits y) 0) > 1"
    proof
      assume 0: "last (add_digits (digits x) (digits y) 0) = 0"
      with add_digits_top [OF \<open>length (digits y) \<le> length (digits x)\<close>, of 0]
      have len: "length (add_digits (digits x) (digits y) 0) = length (digits x)"
        by simp
      with l \<open>canonical x\<close> have "2 ^ (32 * (length (digits x) - 1)) \<le> dval (digits x)"
        by (intro dval_ge_last) (auto simp: canonical_def haslz_def)
      moreover have "dval (add_digits (digits x) (digits y) 0) < 2 ^ (32 * (length (digits x) - 1))"
        using dval_last_0 [OF _ 0] l len by force
      ultimately show False using v by simp
    qed
    with v show ?thesis
      using \<open>canonical x\<close> add_digits_nonempty [OF canonical_nonempty]
      by (auto simp: canonical_def haslz_def)
  qed
  show ?thesis
    using * [of n a] * [of a n] assms by (cases "length (digits n) \<le> length (digits a)")
      (auto simp: add_mag_def val_def)
qed

lemma differ_len_le: "differ_len a b k \<le> k"
  by (induction k) auto

lemma differ_len_take:
  "\<lbrakk>k \<le> length a; k \<le> length b\<rbrakk> \<Longrightarrow>
   drop (differ_len a b k) (take k a) = drop (differ_len a b k) (take k b)"
proof (induction k)
  case (Suc k)
  then show ?case
    using differ_len_le [of a b k]
    by (auto simp: take_Suc_conv_app_nth)
qed simp

lemma differ_len_top: "differ_len a b k \<noteq> 0 \<Longrightarrow> a ! (differ_len a b k - 1) \<noteq> b ! (differ_len a b k - 1)"
  by (induction k) auto

lemma sub_strip:
  assumes "length ys \<le> length xs" "dval ys \<le> dval xs" "xs \<noteq> []"
  shows "canonical (strip_lz \<lparr>digits = sub_digits xs ys 0, neg = s\<rparr>)"
    and "val (strip_lz \<lparr>digits = sub_digits xs ys 0, neg = s\<rparr>) =
         (if s then int (dval ys) - int (dval xs) else int (dval xs) - int (dval ys))"
proof -
  have "sub_digits xs ys 0 \<noteq> []"
    using sub_digits_val(2) [OF assms(1,2)] assms(3) by auto
  then show "canonical (strip_lz \<lparr>digits = sub_digits xs ys 0, neg = s\<rparr>)"
    by (intro strip_lz_canonical) simp
  show "val (strip_lz \<lparr>digits = sub_digits xs ys 0, neg = s\<rparr>) =
         (if s then int (dval ys) - int (dval xs) else int (dval xs) - int (dval ys))"
    using sub_digits_val(1) [OF assms(1,2)] assms(2)
    unfolding strip_lz_val by (simp add: val_def of_nat_diff)
qed

lemma canonical_longer: 
  assumes "canonical a" "canonical b" "length (digits a) < length (digits b)"
  shows "dval (digits a) < dval (digits b)"
  using canonical_length_mono [OF assms(2,1)] assms(3) by linarith

lemma sub_mag_ok:
  assumes "canonical a" "canonical n" "\<not> neg a" "\<not> neg n"
  shows "canonical (sub_mag a n) \<and> val (sub_mag a n) = val a - val n"
proof -
  let ?a = "digits a" and ?n = "digits n"
  have v: "val a = int (dval ?a)" "val n = int (dval ?n)"
    using assms by (simp_all add: val_def)
  have ne: "?a \<noteq> []" "?n \<noteq> []"
    using assms canonical_nonempty by auto
  consider "length ?a > length ?n" | "length ?a < length ?n" | "length ?a = length ?n"
    by linarith
  then show ?thesis
  proof cases
    case 1
    then show ?thesis
      using sub_strip [of ?n ?a False] canonical_longer [OF assms(2,1)] ne
      by (simp add: sub_mag_def v)
  next
    case 2
    then show ?thesis
      using sub_strip [of ?a ?n True] canonical_longer [OF assms(1,2)] ne
      by (simp add: sub_mag_def v)
  next
    case 3
    define k where "k = differ_len ?a ?n (length ?a)"
    have k: "k \<le> length ?a" "drop k ?a = drop k ?n"
      using differ_len_le [of ?a ?n "length ?a"] differ_len_take [of "length ?a" ?a ?n] 3
      by (simp_all add: k_def)
    have split: "int (dval ?a) - int (dval ?n) = int (dval (take k ?a)) - int (dval (take k ?n))"
      using dval_take_drop [of ?a k] dval_take_drop [of ?n k] k 3 by simp
    have eq: "sub_mag a n =
        (if k = 0 then of_u32 0
         else if ?a ! (k - 1) > ?n ! (k - 1)
         then strip_lz \<lparr>digits = sub_digits (take k ?a) (take k ?n) 0, neg = False\<rparr>
         else strip_lz \<lparr>digits = sub_digits (take k ?n) (take k ?a) 0, neg = True\<rparr>)"
      using 3 by (simp add: sub_mag_def Let_def k_def)
    show ?thesis
    proof (cases "k = 0")
      case True
      with split 3 show ?thesis
        by (simp add: eq v)
    next
      case False
      define j where "j = k - 1"
      have j: "k = Suc j" "j < length ?a" "j < length ?n" "?a ! j \<noteq> ?n ! j"
        using False k 3 differ_len_top [of ?a ?n "length ?a"] by (auto simp: j_def k_def)
      show ?thesis
      proof (cases "?a ! j > ?n ! j")
        case True
        then show ?thesis
          using sub_strip [of "take k ?n" "take k ?a" False] dval_top_less [of j ?n ?a] 3 j ne split
          by (simp add: eq v)
      next
        case False
        then have "dval (take k ?a) < dval (take k ?n)"
          using dval_top_less [of j ?a ?n] j by simp
        then have "canonical (strip_lz \<lparr>digits = sub_digits (take k ?n) (take k ?a) 0, neg = True\<rparr>)"
          "val (strip_lz \<lparr>digits = sub_digits (take k ?n) (take k ?a) 0, neg = True\<rparr>) =
           int (dval (take k ?a)) - int (dval (take k ?n))"
          using sub_strip [of "take k ?a" "take k ?n" True] 3 ne \<open>k \<noteq> 0\<close> by auto
        then show ?thesis
          using False \<open>k \<noteq> 0\<close> split unfolding eq v j_def by simp
      qed
    qed
  qed
qed

lemma add_sub_pos_pos:
  "\<lbrakk>\<not> neg a; \<not> neg n\<rbrakk> \<Longrightarrow> add_sub s a n = Some (if s then sub_mag a n else add_mag a n)"
  by (subst add_sub.simps) simp

lemma add_sub_neg: "neg n \<Longrightarrow> add_sub s a n = add_sub (\<not> s) a (unary_minus n)"
  by (subst add_sub.simps) simp

lemma add_sub_plus_neg_pos:
  "\<lbrakk>neg a; \<not> neg n\<rbrakk> \<Longrightarrow> add_sub False a n = add_sub True n (unary_minus a)"
  by (subst add_sub.simps) simp

lemma add_sub_minus_neg_pos:
  "\<lbrakk>neg a; \<not> neg n\<rbrakk> \<Longrightarrow>
   add_sub True a n = Option.bind (add_sub True n a) (\<lambda>r. Some (unary_minus r))"
  by (subst add_sub.simps) simp

text \<open>The operators on canonical numbers are the integer operations.\<close>

definition exact_result :: "bool \<Rightarrow> BigNum \<Rightarrow> BigNum \<Rightarrow> bool" where
  "exact_result s a n \<longleftrightarrow>
     (\<exists>r. add_sub s a n = Some r \<and> canonical r \<and> val r = (if s then val a - val n else val a + val n))"

lemma unary_minus_pos:
  "\<lbrakk>canonical n; neg n\<rbrakk> \<Longrightarrow> canonical (unary_minus n) \<and> \<not> neg (unary_minus n)"
  using unary_minus_canonical [OF canonical_nonempty] canonical_neg [of n] unary_minus_neg by auto

lemma add_sub_exact_pos_pos:
  "\<lbrakk>canonical a; canonical n; \<not> neg a; \<not> neg n\<rbrakk> \<Longrightarrow> exact_result s a n"
  using add_mag_ok [of a n] sub_mag_ok [of a n] by (simp add: exact_result_def add_sub_pos_pos)

lemma add_sub_exact_pos:
  assumes "canonical a" "canonical n" "\<not> neg a"
  shows "exact_result s a n"
proof (cases "neg n")
  case True
  then show ?thesis
    using add_sub_exact_pos_pos [of a "unary_minus n" "\<not> s"] unary_minus_pos [OF assms(2)] assms
    by (cases s) (simp_all add: exact_result_def add_sub_neg)
qed (use add_sub_exact_pos_pos assms in blast)

lemma add_sub_exact_neg_pos:
  assumes "canonical a" "canonical n" "neg a" "\<not> neg n"
  shows "exact_result s a n"
proof (cases s)
  case False
  then show ?thesis
    using add_sub_exact_pos_pos [of n "unary_minus a" True] unary_minus_pos [of a] assms
    by (simp add: exact_result_def add_sub_plus_neg_pos add.commute)
next
  case True
  obtain r where r: "add_sub True n a = Some r" "canonical r" "val r = val n - val a"
    using add_sub_exact_pos [of n a True] assms by (auto simp: exact_result_def)
  have "val r \<noteq> 0"
    using r(3) assms canonical_neg [of a] canonical_neg [of n] by auto
  then have "canonical (unary_minus r)"
    using unary_minus_canonical [OF canonical_nonempty [OF r(2)]] by simp
  then show ?thesis
    using True r assms by (simp add: exact_result_def add_sub_minus_neg_pos)
qed

lemma add_sub_exact:
  assumes "canonical a" "canonical n"
  shows "exact_result s a n"
proof (cases "neg a \<and> neg n")
  case True
  then show ?thesis
    using add_sub_exact_neg_pos [of a "unary_minus n" "\<not> s"] unary_minus_pos [OF assms(2)] assms
    by (cases s) (simp_all add: exact_result_def add_sub_neg)
qed (use add_sub_exact_pos add_sub_exact_neg_pos assms in blast)

text \<open>
  A negative zero, which \<^verbatim>\<open>-BigNum(0)\<close> is, stays one when it is negated, so the operators
  hand it back and forth for ever.
\<close>

definition negative_zero :: "BigNum \<Rightarrow> bool" where
  "negative_zero n \<longleftrightarrow> neg n \<and> digits n \<noteq> [] \<and> dval (digits n) = 0"

lemma strip_lz_zero:
  assumes "digits n \<noteq> []" "dval (digits n) = 0"
  shows "strip_lz n = n\<lparr>digits := [0], neg := False\<rparr>"
proof -
  have c: "canonical (strip_lz n)" "val (strip_lz n) = 0"
    using assms strip_lz_canonical by (simp_all add: val_def)
  then show ?thesis
    using canonical_0_iff [OF c(1)] by (simp add: canonical_def)
qed

lemma unary_minus_zero: "digits n \<noteq> [] \<Longrightarrow> dval (digits n) = 0 \<Longrightarrow> negative_zero (unary_minus n)"
  by (simp add: unary_minus_def copy_def strip_lz_zero negative_zero_def)

lemma add_sub_negative_zero:
  assumes "add_sub s a n = Some r"
  shows "\<not> negative_zero n"
proof (rule add_sub.raw_induct [OF _ assms])
  fix f s a n r
  assume f: "\<And>s a n r. f s a n = Some r \<Longrightarrow> \<not> negative_zero n"
    and r: "(if \<not> s then
        if neg n then f True a (unary_minus n)
        else if neg a then f True n (unary_minus a)
        else Some (add_mag a n)
      else
        if neg n then f False a (unary_minus n)
        else if neg a
        then Option.bind (f True n a) (\<lambda>r. Some (unary_minus r))
        else Some (sub_mag a n)) = Some r"
  show "\<not> negative_zero n"
  proof
    assume "negative_zero n"
    then have "neg n" "negative_zero (unary_minus n)"
      using unary_minus_zero by (auto simp: negative_zero_def)
    with r show False
      using f [of True a "unary_minus n"] f [of False a "unary_minus n"] by (cases s) simp_all
  qed
qed

subsection \<open>In-place operations\<close>

lemma lo32_up: "ucast (ucast (x :: u32) :: u64) = x"
  using u32_lt [of x] by (simp add: word_unat_eq_iff unat_lo32)

lemma hi63_up: "drop_bit 63 (ucast (x :: u32) :: u64) = 0"
  using u32_lt [of x] by (simp add: word_unat_eq_iff unat_hi63)

lemma sub_digits_0 [simp]: "sub_digits xs [] 0 = xs"
  by (induction xs) (simp_all add: Let_def lo32_up hi63_up)

declare borrow_digits.simps [simp del]

lemma borrow_next:
  fixes d l r :: nat
  assumes "int d - 2 ^ 32 * int b' = int l - int r - int b" "d < 2 ^ 32"
    "r + 2 ^ 32 * R + b \<le> l + 2 ^ 32 * L"
  shows "R + b' \<le> L"
proof -
  define B :: int where "B = 2 ^ 32"
  have "int r + B * int R + int b \<le> int l + B * int L"
    using of_nat_mono [OF assms(3), where ?'a = int]
    by (simp only: B_def of_nat_add of_nat_mult of_nat_power of_nat_numeral)
  moreover have "int d < B"
    using assms(2) by (simp add: B_def)
  ultimately have "B * (int R + int b') < B * (int L + 1)"
    using assms(1) [folded B_def] by (simp only: distrib_left)
  then show ?thesis
    by (simp add: B_def)
qed

lemma borrow_digits_ok:
  "\<lbrakk>unat b \<le> 1; unat b \<le> dval ls\<rbrakk> \<Longrightarrow> borrow_digits ls b = Some (sub_digits ls [] b)"
proof (induction ls arbitrary: b)
  case Nil
  then show ?case by (simp add: borrow_digits.simps unat_eq_zero)
next
  case (Cons l ls)
  define n where "n = (ucast l - b :: u64)"
  have s: "int (unat (ucast n :: u32)) - 2 ^ 32 * int (unat (drop_bit 63 n)) = int (unat l) - int (unat b)"
    "unat (drop_bit 63 n) \<le> 1"
    using sub_step [OF Cons.prems(1), of l 0] by (simp_all add: n_def)
  show ?case
  proof (cases "b = 0")
    case False
    have "0 + unat (drop_bit 63 n) \<le> dval ls"
      by (rule borrow_next [where r = 0 and b = "unat b", OF _ u32_lt])
        (use s(1) Cons.prems(2) in simp_all)
    then have "unat (drop_bit 63 n) \<le> dval ls"
      by simp
    then have "borrow_digits ls (drop_bit 63 n) = Some (sub_digits ls [] (drop_bit 63 n))"
      using s(2) by (intro Cons.IH)
    moreover have "borrow_digits (l # ls) b = map_option (\<lambda>r. ucast n # r) (borrow_digits ls (drop_bit 63 n))"
      using False by (subst borrow_digits.simps) (simp add: n_def Let_def)
    moreover have "sub_digits (l # ls) [] b = ucast n # sub_digits ls [] (drop_bit 63 n)"
      by (simp only: sub_digits.simps Let_def n_def)
    ultimately show ?thesis by simp
  qed (simp add: borrow_digits.simps)
qed

lemma sub_inplace_ok:
  "\<lbrakk>unat b \<le> 1; length rs \<le> length ls; dval rs + unat b \<le> dval ls\<rbrakk> \<Longrightarrow>
   sub_inplace ls rs b = Some (sub_digits ls rs b)"
proof (induction ls rs b rule: sub_inplace.induct)
  case (1 ls b)
  then show ?case by (simp add: borrow_digits_ok)
next
  case (3 l ls r rs b)
  define n where "n = (ucast l - ucast r - b :: u64)"
  note s = sub_step [OF 3(2), of l r, folded n_def]
  have "dval rs + unat (drop_bit 63 n) \<le> dval ls"
    using 3(4) by (intro borrow_next [OF s(1) u32_lt]) simp
  then have "sub_inplace ls rs (drop_bit 63 n) = Some (sub_digits ls rs (drop_bit 63 n))"
    using 3(1) [OF n_def] 3(3) s(2) by simp
  moreover have "sub_inplace (l # ls) (r # rs) b =
      map_option (\<lambda>t. ucast n # t) (sub_inplace ls rs (drop_bit 63 n))"
    by (simp only: sub_inplace.simps Let_def n_def)
  moreover have "sub_digits (l # ls) (r # rs) b = ucast n # sub_digits ls rs (drop_bit 63 n)"
    by (simp only: sub_digits.simps Let_def n_def)
  ultimately show ?case by simp
qed simp

lemma abs_dval [simp]: "dval (digits (abs_BigNum n)) = dval (digits n)"
  by (simp add: abs_BigNum_def unary_minus_def copy_def Let_def)

lemma abs_pos:
  assumes "neg n \<longrightarrow> dval (digits n) \<noteq> 0"
  shows "\<not> neg (abs_BigNum n)"
proof (cases "neg n")
  case True
  then have "digits (strip_lz n) \<noteq> [0]"
    using assms strip_lz_dval [of n] by (auto simp del: strip_lz_dval)
  with True show ?thesis
    by (simp add: abs_BigNum_def unary_minus_def copy_def Let_def strip_lz_neg)
qed (simp add: abs_BigNum_def copy_def strip_lz_neg)

lemma abs_ok: "canonical n \<Longrightarrow> canonical (abs_BigNum n) \<and> val (abs_BigNum n) = \<bar>val n\<bar>"
  using unary_minus_pos [of n] by (auto simp: abs_BigNum_def canonical_neg)

lemma compare_abs:
  "\<lbrakk>neg a \<longrightarrow> dval (digits a) \<noteq> 0; neg n \<longrightarrow> dval (digits n) \<noteq> 0\<rbrakk> \<Longrightarrow>
   compare (abs_BigNum a) (abs_BigNum n) = sgn (int (dval (digits a)) - int (dval (digits n)))"
  by (simp add: compare_alt abs_pos)

lemma sub_ok:
  assumes "neg a \<longrightarrow> dval (digits a) \<noteq> 0" "neg n \<longrightarrow> dval (digits n) \<noteq> 0"
    and "length (digits n) \<le> length (digits a)" "dval (digits n) \<le> dval (digits a)"
  shows "sub a n 0 = Some (strip_lz (a\<lparr>digits := sub_digits (digits a) (digits n) 0\<rparr>))"
  using assms sub_inplace_ok [of 0 "digits n" "digits a"]
  by (simp add: sub_def compare_abs sgn_if)

lemma sub_assert:
  assumes "neg a \<longrightarrow> dval (digits a) \<noteq> 0" "neg n \<longrightarrow> dval (digits n) \<noteq> 0"
    and "dval (digits a) < dval (digits n)"
  shows "sub a n k = None"
  using assms by (simp add: sub_def compare_abs sgn_if)

lemma sub_canonical:
  assumes "canonical a" "canonical n" "dval (digits n) \<le> dval (digits a)"
  shows "\<exists>r. sub a n 0 = Some r \<and> canonical r \<and>
             val r = (if neg a then val a + int (dval (digits n)) else val a - int (dval (digits n)))"
proof -
  have l: "length (digits n) \<le> length (digits a)"
    using canonical_length_mono assms by blast
  have nz: "neg x \<longrightarrow> dval (digits x) \<noteq> 0" if "canonical x" for x
    using canonical_neg [OF that] by (auto simp: val_def)
  have "sub a n 0 = Some (strip_lz \<lparr>digits = sub_digits (digits a) (digits n) 0, neg = neg a\<rparr>)"
    unfolding sub_ok [OF nz [OF assms(1)] nz [OF assms(2)] l assms(3)]
    by (rule arg_cong [where f = "\<lambda>n. Some (strip_lz n)"]) simp
  moreover note sub_strip [OF l assms(3) canonical_nonempty [OF assms(1)], of "neg a"]
  ultimately show ?thesis
    by (auto simp only: val_def [of a] split: if_splits)
qed

subsection \<open>Properties of the arithmetic\<close>

lemma canonical_nz: "canonical n \<Longrightarrow> neg n \<longrightarrow> dval (digits n) \<noteq> 0"
  using canonical_neg [of n] by (auto simp: val_def)

lemma mag_le_iff: "dval (digits n) \<le> dval (digits a) \<longleftrightarrow> \<bar>val n\<bar> \<le> \<bar>val a\<bar>"
  by (simp add: val_def)

lemma val_eq_abs: "\<not> neg a \<Longrightarrow> val a = \<bar>val a\<bar>"
  by (simp add: val_def)

lemma sub_cases:
  assumes "canonical a" "canonical n" "\<not> neg a"
  shows "if val a < \<bar>val n\<bar> then sub a n 0 = None
         else \<exists>r. sub a n 0 = Some r \<and> canonical r \<and> val r = val a - \<bar>val n\<bar>"
proof (cases "dval (digits n) \<le> dval (digits a)")
  case True
  have "int (dval (digits n)) = \<bar>val n\<bar>" by (simp add: val_def)
  with True show ?thesis
    using sub_canonical [OF assms(1,2) True] assms(3) val_eq_abs [OF assms(3)] by (auto simp: mag_le_iff)
next
  case False
  then have "sub a n 0 = None"
    using sub_assert [OF canonical_nz [OF assms(1)] canonical_nz [OF assms(2)]] by simp
  with False show ?thesis
    using val_eq_abs [OF assms(3)] by (auto simp: mag_le_iff)
qed

lemma add_sub_exact_val:
  assumes "canonical x" "canonical y"
  shows "\<exists>r. add_sub s x y = Some r \<and> canonical r \<and>
             val r = (if s then val x - val y else val x + val y)"
  using add_sub_exact [OF assms] by (simp add: exact_result_def)

lemma minus_assign_exact:
  assumes "canonical a" "canonical n"
  shows "\<exists>r. minus_assign a n = Some r \<and> canonical r \<and> val r = val a - val n"
proof (cases "length (digits a) > length (digits n) \<and> neg a = neg n")
  case True
  then have le: "dval (digits n) \<le> dval (digits a)"
    using canonical_longer [OF assms(2,1)] by simp
  have "minus_assign a n = sub a n 0"
    using True assms by (simp add: minus_assign_def canonical_def)
  then show ?thesis
    using sub_canonical [OF assms le] True by (auto simp: val_def [of n])
next
  case False
  then have "minus_assign a n = add_sub True a n"
    using assms by (auto simp: minus_assign_def op_minus_def canonical_def)
  then show ?thesis using add_sub_exact_val [OF assms, of True] by simp
qed

text \<open>
  C34. On canonical numbers the compound assignments leave the sum or the difference in the left operand, as a
  canonical number, except that adding a negative number of larger magnitude to a positive
  one, and subtracting a larger integer from a positive one, fail the assertion of the
  in-place subtraction.
\<close>

theorem compound_assignment_exact:
  assumes "canonical a" "canonical n"
  shows "(if \<not> neg a \<and> neg n \<and> val a < \<bar>val n\<bar> then plus_assign a n = None
          else \<exists>r. plus_assign a n = Some r \<and> canonical r \<and> val r = val a + val n) \<and>
         (\<exists>r. minus_assign a n = Some r \<and> canonical r \<and> val r = val a - val n) \<and>
         (if \<not> neg a \<and> val a < int (unat i) then minus_assign_int a i = None
          else \<exists>r. minus_assign_int a i = Some r \<and> canonical r \<and> val r = val a - int (unat i))"
proof (intro conjI)
  show "if \<not> neg a \<and> neg n \<and> val a < \<bar>val n\<bar> then plus_assign a n = None
          else \<exists>r. plus_assign a n = Some r \<and> canonical r \<and> val r = val a + val n"
  proof (cases "\<not> neg a \<and> neg n")
    case True
    then show ?thesis
      using sub_cases [OF assms] canonical_neg [OF assms(2)] by (auto simp: plus_assign_def split: if_splits)
  next
    case False
    then have "plus_assign a n = add_sub False a n" by (auto simp: plus_assign_def op_plus_def)
    then show ?thesis using add_sub_exact_val [OF assms, of False] False by auto
  qed
  show "\<exists>r. minus_assign a n = Some r \<and> canonical r \<and> val r = val a - val n"
    by (rule minus_assign_exact [OF assms])
  have lz: "\<not> haslz a" using assms by (simp add: canonical_def)
  show "if \<not> neg a \<and> val a < int (unat i) then minus_assign_int a i = None
          else \<exists>r. minus_assign_int a i = Some r \<and> canonical r \<and> val r = val a - int (unat i)"
    using sub_cases [OF assms(1) canonical_of_u32, of i]
      add_sub_exact_val [OF assms(1) canonical_of_u32, of True i] lz
    by (cases "neg a") (auto simp: minus_assign_int_def op_minus_def split: if_splits)
qed

theorem compound_assignment_exact_witness:
  "plus_assign \<lparr>digits = [3], neg = False\<rparr> \<lparr>digits = [5], neg = True\<rparr> = None \<and>
   minus_assign_int \<lparr>digits = [3], neg = False\<rparr> 5 = None"
proof -
  have c: "canonical \<lparr>digits = [3], neg = False\<rparr>" "canonical \<lparr>digits = [5], neg = True\<rparr>"
    by (simp_all add: canonical_def haslz_def)
  show ?thesis
    using compound_assignment_exact [OF c, of 5] by (simp add: val_def)
qed

text \<open>
  Comparing canonical numbers gives the sign of their difference, unless both are
  negative: then the magnitudes are compared and the order is reversed.
\<close>

theorem compare_orders:
  assumes "canonical a" "canonical b"
  shows "compare a b = (if neg a \<and> neg b then sgn (val b - val a) else sgn (val a - val b))"
  using compare_ok [of a b] compare_both_neg [of a b] canonical_neg [OF assms(1)] canonical_neg [OF assms(2)]
  by auto

theorem compare_orders_witness:
  "compare \<lparr>digits = [5], neg = True\<rparr> \<lparr>digits = [7], neg = True\<rparr> = -1"
proof -
  have c: "canonical \<lparr>digits = [5], neg = True\<rparr>" "canonical \<lparr>digits = [7], neg = True\<rparr>"
    by (simp_all add: canonical_def haslz_def)
  show ?thesis
    using compare_orders [OF c] by (simp add: val_def)
qed

text \<open>
  C39. Negating zero gives a negative zero, and adding it to or subtracting it from any number
  does not return: the two operators call each other for ever.
\<close>

theorem negated_zero_diverges:
  "op_plus a (unary_minus zero) = None \<and> op_minus a (unary_minus zero) = None"
proof -
  have "negative_zero (unary_minus zero)"
    by (rule unary_minus_zero) (simp_all add: zero_def)
  then show ?thesis
    using add_sub_negative_zero [of _ a "unary_minus zero"]
    unfolding op_plus_def op_minus_def by (metis not_None_eq)
qed

end
