(* ===== verification/Big_Num_Mul.thy ===== *)
theory Big_Num_Mul
  imports Big_Num "HOL-Library.Log_Nat"
begin

unbundle bit_operations_syntax

text \<open>
  Multiplication, shifts, bit length and exponentiation of \<^verbatim>\<open>common/src/BigNum.cc\<close>.
\<close>

subsection \<open>Operations\<close>

text \<open>The position of the most significant bit, by the de Bruijn table of the code.\<close>

definition DeBruijnPos :: "nat list" where
  "DeBruijnPos =
    [0,  9,  1, 10, 13, 21,  2, 29, 11, 14, 16, 18, 22, 25, 3, 30,
     8, 12, 20, 28, 15, 17, 24,  7, 19, 27, 23,  6, 26,  5, 4, 31]"

definition DeBruijnMagic :: u32 where
  "DeBruijnMagic = 0x07C4ACDD"

definition fill_down :: "u32 \<Rightarrow> u32" where
  "fill_down n =
     (let n = n OR drop_bit 1 n;
          n = n OR drop_bit 2 n;
          n = n OR drop_bit 4 n;
          n = n OR drop_bit 8 n
      in n OR drop_bit 16 n)"

definition log2 :: "u32 \<Rightarrow> nat" where
  "log2 n = DeBruijnPos ! unat (drop_bit 27 (fill_down n * DeBruijnMagic))"

fun bit_len_from :: "u32 list \<Rightarrow> nat \<Rightarrow> nat" where
  "bit_len_from ds 0 = 0"
| "bit_len_from ds (Suc len) =
     (if ds ! len = 0 then bit_len_from ds len else len * 32 + 1 + log2 (ds ! len))"

definition bit_len :: "BigNum \<Rightarrow> nat" where
  "bit_len n = bit_len_from (digits n) (length (digits n))"

definition byte_len :: "BigNum \<Rightarrow> nat" where
  "byte_len n = (7 + bit_len n) div 8"

definition test_bit :: "BigNum \<Rightarrow> nat \<Rightarrow> bool" where
  "test_bit n index =
     (let d = index div 32
      in d < length (digits n) \<and> digits n ! d AND push_bit (index mod 32) 1 \<noteq> 0)"

fun shl_digits :: "u32 list \<Rightarrow> nat \<Rightarrow> u32 \<Rightarrow> u32 list" where
  "shl_digits [] shift ext = [ext]"
| "shl_digits (y # ys) shift ext =
     (let v = push_bit shift (ucast y :: u64)
      in (ucast v OR ext) # shl_digits ys shift (ucast (drop_bit 32 v)))"

definition op_shl :: "BigNum \<Rightarrow> nat \<Rightarrow> BigNum" where
  "op_shl n shift =
     (if shift = 0 then copy n
      else let shift32 = shift div 32; s = shift mod 32
           in strip_lz
                (if s = 0 then \<lparr>digits = replicate shift32 0 @ digits n, neg = neg n\<rparr>
                 else \<lparr>digits = replicate shift32 0 @ shl_digits (digits n) s 0, neg = neg n\<rparr>))"

text \<open>
  The right shift runs from the most significant digit down. It compares the length before
  the leading zeroes are stripped with the number of whole digits to drop, and subtracts
  that number from the length after; a result of no digits, or fewer, is \<open>None\<close>.
\<close>

fun shr_digits :: "u32 list \<Rightarrow> nat \<Rightarrow> u32 \<Rightarrow> u32 list" where
  "shr_digits [] shift ext = []"
| "shr_digits (v # vs) shift ext =
     (ext OR drop_bit shift v) # shr_digits vs shift (push_bit (32 - shift) v)"

definition right_shift :: "BigNum \<Rightarrow> nat \<Rightarrow> BigNum option" where
  "right_shift n shift =
     (let shift32 = shift div 32
      in if length (digits n) > shift32
         then let t = strip_lz (copy n);
                  s = shift mod 32
              in if length (digits t) > shift32
                 then Some (strip_lz
                   (if s = 0 then \<lparr>digits = drop shift32 (digits t), neg = neg t\<rparr>
                    else \<lparr>digits = rev (shr_digits (rev (drop shift32 (digits t))) s 0), neg = neg t\<rparr>))
                 else None
         else Some (alloc 1 False))"

fun mul_digit :: "u32 list \<Rightarrow> u32 \<Rightarrow> u64 \<Rightarrow> u32 list" where
  "mul_digit [] b carry = [ucast carry]"
| "mul_digit (v # vs) b carry =
     (let x = ucast v * ucast b + carry
      in ucast x # mul_digit vs b (drop_bit 32 x))"

definition mul_int :: "BigNum \<Rightarrow> u32 \<Rightarrow> bool \<Rightarrow> BigNum" where
  "mul_int a b bneg =
     (if b > 2 then strip_lz \<lparr>digits = mul_digit (digits a) b 0, neg = (neg a \<noteq> bneg)\<rparr>
      else if b = 1 then strip_lz (a\<lparr>neg := (neg a \<noteq> bneg)\<rparr>)
      else if b = 2 then strip_lz ((op_shl a 1)\<lparr>neg := (neg a \<noteq> bneg)\<rparr>)
      else strip_lz zero)"

text \<open>
  One row of the multiplication adds the product of a digit to the part of the result that
  starts at its place, and stores the last carry above it; the next row starts one place up.
\<close>

fun mul_row :: "u64 \<Rightarrow> u32 list \<Rightarrow> u32 list \<Rightarrow> u64 \<Rightarrow> u32 list" where
  "mul_row x (y # ys) (s # ss) carry =
     (let p = x * ucast y + ucast s + carry
      in ucast p # mul_row x ys ss (drop_bit 32 p))"
| "mul_row x [] (s # ss) carry = ucast carry # ss"
| "mul_row x ys [] carry = []"

fun mul_rows :: "u32 list \<Rightarrow> u32 list \<Rightarrow> u32 list \<Rightarrow> u32 list" where
  "mul_rows [] ys r = r"
| "mul_rows (x # xs) ys r =
     (let t = mul_row (ucast x) ys r 0 in take 1 t @ mul_rows xs ys (drop 1 t))"

definition mul_ordered :: "BigNum \<Rightarrow> BigNum \<Rightarrow> BigNum" where
  "mul_ordered a b =
     (if length (digits a) = 1 then mul_int b (digits a ! 0) (neg a)
      else strip_lz
             \<lparr>digits = mul_rows (digits a) (digits b)
                        (digits (alloc (length (digits a) + length (digits b)) False)),
              neg = (neg a \<noteq> neg b)\<rparr>)"

definition mul :: "BigNum \<Rightarrow> BigNum \<Rightarrow> BigNum" where
  "mul a b =
     (if length (digits a) > length (digits b) then mul_ordered b a else mul_ordered a b)"

definition op_times :: "BigNum \<Rightarrow> BigNum \<Rightarrow> BigNum" where
  "op_times a b = copy (mul a b)"

definition op_times_int :: "BigNum \<Rightarrow> u32 \<Rightarrow> BigNum" where
  "op_times_int a i = copy (mul_int a i False)"

text \<open>Square and multiply over the bits of the exponent, from the top.\<close>

fun exp_loop :: "BigNum \<Rightarrow> BigNum \<Rightarrow> nat \<Rightarrow> BigNum \<Rightarrow> BigNum" where
  "exp_loop x e 0 a = a"
| "exp_loop x e (Suc i) a =
     (let a = mul a a in exp_loop x e i (if test_bit e i then mul a x else a))"

definition exp_BigNum :: "BigNum \<Rightarrow> BigNum \<Rightarrow> BigNum" where
  "exp_BigNum x e = strip_lz (exp_loop (copy x) e (bit_len e) (of_u32 1))"

subsection \<open>Multiplication\<close>

lemma mul_step:
  fixes x y :: u32 and a c :: u64
  assumes "unat a < 2 ^ 32" "unat c < 2 ^ 32"
  defines "p \<equiv> ucast x * ucast y + a + c"
  shows "unat (ucast p :: u32) + 2 ^ 32 * unat (drop_bit 32 p) = unat x * unat y + unat a + unat c"
    and "unat (drop_bit 32 p) < 2 ^ 32"
proof -
  have xy: "unat x * unat y \<le> (2 ^ 32 - 1) * (2 ^ 32 - 1)"
    using u32_lt [of x] u32_lt [of y] by (intro mult_le_mono) simp_all
  have m: "unat (ucast x * ucast y :: u64) = unat x * unat y"
    using xy by (subst unat_mult64) simp_all
  have s: "unat (ucast x * ucast y + a) = unat x * unat y + unat a"
    using xy assms(1) by (subst unat_add64) (simp_all add: m)
  have p: "unat p = unat x * unat y + unat a + unat c"
    using xy assms(1,2) unfolding p_def by (subst unat_add64) (simp_all add: s)
  then show "unat (ucast p :: u32) + 2 ^ 32 * unat (drop_bit 32 p) = unat x * unat y + unat a + unat c"
    by (simp only: lo_hi32)
  show "unat (drop_bit 32 p) < 2 ^ 32"
    using unsigned_less [of p, where ?'a = nat] unfolding unat_hi32 by (simp add: less_mult_imp_div_less)
qed

lemma mul_digit_val:
  "unat c < 2 ^ 32 \<Longrightarrow> dval (mul_digit vs b c) = dval vs * unat b + unat c"
proof (induction vs arbitrary: c)
  case (Cons v vs)
  define p :: u64 where "p = ucast v * ucast b + c"
  have s: "unat (ucast p :: u32) + 2 ^ 32 * unat (drop_bit 32 p) = unat v * unat b + unat c"
    "unat (drop_bit 32 p) < 2 ^ 32"
    using mul_step [of 0 c v b] Cons.prems by (simp_all add: p_def)
  have "mul_digit (v # vs) b c = ucast p # mul_digit vs b (drop_bit 32 p)"
    by (simp only: mul_digit.simps Let_def p_def)
  with Cons.IH [OF s(2)] s(1) show ?case
    by (simp add: algebra_simps)
qed (simp add: unat_lo32)

lemma mul_row_val:
  "\<lbrakk>unat c < 2 ^ 32; length ss = length ys\<rbrakk> \<Longrightarrow>
   dval (mul_row (ucast (x :: u32)) ys (ss @ 0 # ts) c) =
     dval (ss @ 0 # ts) + unat x * dval ys + unat c \<and>
   (\<exists>us u. mul_row (ucast x) ys (ss @ 0 # ts) c = us @ u # ts \<and> length us = length ys)"
proof (induction ys arbitrary: ss c)
  case Nil
  then show ?case by (simp add: unat_lo32)
next
  case (Cons y ys)
  then obtain s ss' where ss: "ss = s # ss'" "length ss' = length ys"
    by (cases ss) auto
  define p :: u64 where "p = ucast x * ucast y + ucast s + c"
  have s: "unat (ucast p :: u32) + 2 ^ 32 * unat (drop_bit 32 p) = unat x * unat y + unat s + unat c"
    "unat (drop_bit 32 p) < 2 ^ 32"
    using mul_step [of "ucast s" c x y] Cons.prems(1) u32_lt [of s] by (simp_all add: p_def)
  have eq: "mul_row (ucast x) (y # ys) (ss @ 0 # ts) c =
            ucast p # mul_row (ucast x) ys (ss' @ 0 # ts) (drop_bit 32 p)"
    unfolding ss(1) append_Cons by (simp only: mul_row.simps Let_def p_def)
  obtain us u where us: "mul_row (ucast x) ys (ss' @ 0 # ts) (drop_bit 32 p) = us @ u # ts" "length us = length ys"
    using Cons.IH [OF s(2) ss(2)] by blast
  have "dval (mul_row (ucast x) (y # ys) (ss @ 0 # ts) c) =
        dval (ss @ 0 # ts) + unat x * dval (y # ys) + unat c"
    using conjunct1 [OF Cons.IH [OF s(2) ss(2)]] s(1) unfolding eq by (simp add: ss(1) algebra_simps)
  moreover have "mul_row (ucast x) (y # ys) (ss @ 0 # ts) c = (ucast p # us) @ u # ts"
    using us by (simp add: eq)
  ultimately show ?case
    using us(2) by (metis length_Cons)
qed

lemma mul_rows_val:
  "length ss = length ys \<Longrightarrow>
   dval (mul_rows xs ys (ss @ replicate (length xs) 0)) = dval ss + dval xs * dval ys \<and>
   length (mul_rows xs ys (ss @ replicate (length xs) 0)) = length xs + length ys"
proof (induction xs arbitrary: ss)
  case (Cons x xs)
  obtain us u where us: "mul_row (ucast x) ys (ss @ 0 # replicate (length xs) 0) 0 =
      us @ u # replicate (length xs) 0" "length us = length ys"
    using mul_row_val [of 0 ss ys x "replicate (length xs) 0"] Cons.prems by auto
  have v: "dval (us @ u # replicate (length xs) 0) = dval (ss @ replicate (length (x # xs)) 0) + unat x * dval ys"
    using mul_row_val [of 0 ss ys x "replicate (length xs) 0"] Cons.prems us(1) by simp
  obtain t ts where t: "us @ [u] = t # ts" "length ts = length ys"
    using us(2) that [of "hd (us @ [u])" "tl (us @ [u])"] by simp
  then have t': "us @ u # replicate (length xs) 0 = t # (ts @ replicate (length xs) 0)"
    by (metis append_Cons append_Nil append_assoc)
  have "mul_rows (x # xs) ys (ss @ replicate (length (x # xs)) 0) =
        t # mul_rows xs ys (ts @ replicate (length xs) 0)"
    using us(1) t' by (simp add: Let_def)
  then show ?case
    using Cons.IH [OF t(2)] v t' by (simp add: dval_append algebra_simps)
qed simp

lemma mul_digit_nonempty: "mul_digit vs b c \<noteq> []"
  by (cases vs) (simp_all add: Let_def)

subsection \<open>Left shift\<close>

lemma unat_or_disjoint:
  fixes a b :: u32
  assumes "a AND b = 0"
  shows "unat (a OR b) = unat a + unat b"
proof -
  have "unat (a OR b) = or (unat a) (unat b)" by (simp add: unsigned_or_eq)
  moreover have "and (unat a) (unat b) = 0" using assms by (metis unsigned_and_eq unsigned_0)
  ultimately show ?thesis by (simp add: disjunctive_add_eq_or)
qed

lemma and_low_high:
  fixes a b :: u32
  assumes "unat b < 2 ^ s" "2 ^ s dvd unat a"
  shows "a AND b = 0"
proof -
  have "and (unat a) (unat b) = 0"
  proof (rule bit_eqI)
    fix i
    show "bit (and (unat a) (unat b)) i = bit (0 :: nat) i"
    proof (cases "i < s")
      case True
      have "\<not> bit (unat a) i"
        using assms(2) True by (metis bit_take_bit_iff dvd_imp_mod_0 take_bit_eq_mod bit_0_eq bot_apply bot_bool_def)
      then show ?thesis by (simp add: bit_and_iff)
    next
      case False
      then have "unat b < 2 ^ i"
        using assms(1) by (meson less_le_trans not_less one_le_numeral power_increasing)
      then have "\<not> bit (unat b) i"
        by (simp add: bit_iff_odd)
      then show ?thesis by (simp add: bit_and_iff)
    qed
  qed
  then show ?thesis
    by (metis unat_eq_zero unsigned_and_eq)
qed

lemma shl_digits_val:
  assumes "0 < s" "s < 32"
  shows "unat ext < 2 ^ s \<Longrightarrow> dval (shl_digits ys s ext) = dval ys * 2 ^ s + unat ext"
proof (induction ys arbitrary: ext)
  case (Cons y ys)
  define v where "v = push_bit s (ucast y :: u64)"
  have yb: "unat y * 2 ^ s < 2 ^ 32 * 2 ^ s"
    using u32_lt [of y] by simp
  have "(2 :: nat) ^ 32 * 2 ^ s \<le> 2 ^ 64"
    using assms(2) power_increasing [of s 32 "2 :: nat"] by simp
  then have "unat y * 2 ^ s < 2 ^ 64"
    using yb by linarith
  then have v: "unat v = unat y * 2 ^ s"
    unfolding v_def unsigned_push_bit_eq unat_up
    by (simp only: push_bit_eq_mult take_bit_eq_mod len_num1 len_bit0) simp
  have hi: "unat (drop_bit 32 v) < 2 ^ s"
    using yb unfolding unat_hi32 v by (simp add: less_mult_imp_div_less mult.commute)
  have "unat (drop_bit 32 v) < 2 ^ 32"
    using hi assms(2) power_strict_increasing [of s 32 "2 :: nat"] by linarith
  then have hi': "unat (ucast (drop_bit 32 v) :: u32) = unat (drop_bit 32 v)"
    unfolding unat_lo32 by simp
  have d: "2 ^ s dvd unat (ucast v :: u32)"
    unfolding unat_lo32 v using assms(2) by (intro dvd_mod) (simp, metis le_imp_power_dvd less_imp_le)
  have "unat (ucast v OR ext :: u32) = unat (ucast v :: u32) + unat ext"
    by (intro unat_or_disjoint and_low_high [OF Cons.prems d])
  moreover have "shl_digits (y # ys) s ext = (ucast v OR ext) # shl_digits ys s (ucast (drop_bit 32 v))"
    by (simp only: shl_digits.simps Let_def v_def)
  ultimately show ?case
    using Cons.IH [of "ucast (drop_bit 32 v)"] hi hi' lo_hi32 [of v] v by (simp add: algebra_simps)
qed simp

lemma strip_mk:
  "\<lbrakk>ds \<noteq> []; dval ds = m\<rbrakk> \<Longrightarrow>
   canonical (strip_lz \<lparr>digits = ds, neg = s\<rparr>) \<and>
   val (strip_lz \<lparr>digits = ds, neg = s\<rparr>) = (if s then - int m else int m)"
  unfolding strip_lz_val by (simp add: strip_lz_canonical val_def)

lemma op_shl_ok:
  assumes "digits n \<noteq> []"
  shows "canonical (op_shl n k) \<and> val (op_shl n k) = val n * 2 ^ k"
proof -
  have k: "(2 :: nat) ^ k = 2 ^ (32 * (k div 32)) * 2 ^ (k mod 32)"
    by (simp add: power_add [symmetric])
  have ne: "shl_digits (digits n) s 0 \<noteq> []" for s
    by (cases "digits n") (simp_all add: Let_def)
  have v: "dval (replicate (k div 32) 0 @ shl_digits (digits n) (k mod 32) 0) = dval (digits n) * 2 ^ k"
    if "k mod 32 \<noteq> 0"
    using shl_digits_val [of "k mod 32" 0 "digits n"] that by (simp add: dval_append k)
  have v0: "dval (replicate (k div 32) 0 @ digits n) = dval (digits n) * 2 ^ k" if "k mod 32 = 0"
    using that by (simp add: dval_append k)
  consider "k = 0" | "k \<noteq> 0" "k mod 32 = 0" | "k \<noteq> 0" "k mod 32 \<noteq> 0" by blast
  then show ?thesis
  proof cases
    case 1
    with assms show ?thesis by (simp add: op_shl_def copy_def strip_lz_canonical)
  next
    case 2
    then show ?thesis
      using strip_mk [OF _ v0, of "neg n"] assms by (simp add: op_shl_def Let_def val_def [of n])
  next
    case 3
    then show ?thesis
      using strip_mk [OF _ v, of "neg n"] ne by (simp add: op_shl_def Let_def val_def [of n])
  qed
qed

lemma mul_int_ok:
  assumes "canonical a"
  shows "canonical (mul_int a b s) \<and>
         val (mul_int a b s) = val a * (if s then - int (unat b) else int (unat b))"
proof -
  have ne: "digits a \<noteq> []"
    by (rule canonical_nonempty [OF assms])
  consider "b > 2" | "b = 1" | "b = 2" | "b = 0"
  proof -
    have "unat b > 2 \<or> unat b = 1 \<or> unat b = 2 \<or> unat b = 0" by linarith
    then show ?thesis
      using that by (auto simp: word_less_nat_alt word_unat_eq_iff)
  qed
  then show ?thesis
  proof cases
    case 1
    then have e: "mul_int a b s = strip_lz \<lparr>digits = mul_digit (digits a) b 0, neg = (neg a \<noteq> s)\<rparr>"
      by (simp add: mul_int_def)
    show ?thesis
      unfolding e strip_lz_val using mul_digit_val [of 0 "digits a" b] mul_digit_nonempty
      by (auto simp: val_def intro: strip_lz_canonical)
  next
    case 2
    then have e: "mul_int a b s = strip_lz (a\<lparr>neg := (neg a \<noteq> s)\<rparr>)"
      by (simp add: mul_int_def)
    show ?thesis
      unfolding e strip_lz_val using ne 2 by (auto simp: val_def intro: strip_lz_canonical)
  next
    case 3
    then have e: "mul_int a b s = strip_lz ((op_shl a 1)\<lparr>neg := (neg a \<noteq> s)\<rparr>)"
      by (simp add: mul_int_def)
    have c: "canonical (op_shl a 1)" "val (op_shl a 1) = val a * 2"
      using op_shl_ok [OF ne, of 1] by simp_all
    have "dval (digits (op_shl a 1)) = dval (digits a) * 2"
      using c(2) by (auto simp: val_def split: if_splits)
    then show ?thesis
      unfolding e strip_lz_val using canonical_nonempty [OF c(1)] 3
      by (auto simp: val_def intro: strip_lz_canonical)
  next
    case 4
    then show ?thesis by (simp add: mul_int_def strip_lz_id)
  qed
qed

lemma mul_ordered_ok:
  assumes "canonical a" "canonical b"
  shows "canonical (mul_ordered a b) \<and> val (mul_ordered a b) = val a * val b"
proof (cases "length (digits a) = 1")
  case True
  then obtain d where d: "digits a = [d]" by (auto simp: length_Suc_conv)
  have "val (mul_int b d (neg a)) = val a * val b"
    using mul_int_ok [OF assms(2), of d "neg a"] by (simp add: val_def [of a] d)
  then show ?thesis
    using mul_int_ok [OF assms(2), of d "neg a"] d by (simp add: mul_ordered_def)
next
  case False
  let ?r = "mul_rows (digits a) (digits b) (replicate (length (digits a) + length (digits b)) 0)"
  have r: "dval ?r = dval (digits a) * dval (digits b)" "length ?r = length (digits a) + length (digits b)"
    using mul_rows_val [of "replicate (length (digits b)) 0" "digits b" "digits a"]
    by (simp_all add: replicate_add [symmetric] add.commute)
  have "?r \<noteq> []"
    using r(2) canonical_nonempty [OF assms(1)] by (metis add_eq_0_iff_both_eq_0 length_0_conv)
  then have e: "mul_ordered a b = strip_lz \<lparr>digits = ?r, neg = (neg a \<noteq> neg b)\<rparr>" "?r \<noteq> []"
    using False by (simp_all add: mul_ordered_def alloc_def)
  show ?thesis
    unfolding e(1) strip_lz_val using e(2) r(1) by (auto simp: val_def intro: strip_lz_canonical)
qed

lemma mul_ok:
  "\<lbrakk>canonical a; canonical b\<rbrakk> \<Longrightarrow> canonical (mul a b) \<and> val (mul a b) = val a * val b"
  by (simp add: mul_def mul_ordered_ok mult.commute)

subsection \<open>Bit length\<close>

text \<open>The five steps smear the top bit over all lower ones.\<close>

lemma bit_fill_down: "bit (fill_down n) i \<longleftrightarrow> (\<exists>j<32. bit n (i + j))"
proof -
  have step: "(\<forall>i. bit m i \<longleftrightarrow> (\<exists>j<k. bit n (i + j))) \<Longrightarrow>
     (\<forall>i. bit (m OR drop_bit k m) i \<longleftrightarrow> (\<exists>j<2 * k. bit n (i + j)))" for m :: u32 and k
  proof (intro allI)
    fix i
    assume m: "\<forall>i. bit m i \<longleftrightarrow> (\<exists>j<k. bit n (i + j))"
    have "bit (m OR drop_bit k m) i \<longleftrightarrow> (\<exists>j<k. bit n (i + j)) \<or> (\<exists>j<k. bit n (k + i + j))"
      using m by (simp add: bit_simps)
    also have "\<dots> \<longleftrightarrow> (\<exists>j<2 * k. bit n (i + j))"
    proof safe
      fix j assume "j < k" "bit n (k + i + j)"
      then have "k + j < 2 * k" "bit n (i + (k + j))" by (simp_all add: ac_simps)
      then show "\<exists>j<2 * k. bit n (i + j)" by blast
    next
      fix j assume j: "j < 2 * k" "bit n (i + j)" "\<nexists>j. j < k \<and> bit n (k + i + j)"
      have "j < k"
      proof (rule ccontr)
        assume "\<not> j < k"
        then have "j - k < k" "bit n (k + i + (j - k))" using j by simp_all
        with j(3) show False by blast
      qed
      then show "\<exists>j<k. bit n (i + j)" using j(2) by blast
    next
      fix j assume "j < k" "bit n (i + j)"
      then show "\<exists>j<2 * k. bit n (i + j)" by (intro exI [of _ j]) simp
    qed
    finally show "bit (m OR drop_bit k m) i \<longleftrightarrow> (\<exists>j<2 * k. bit n (i + j))" .
  qed
  have 1: "\<forall>i. bit n i \<longleftrightarrow> (\<exists>j<1. bit n (i + j))" by simp
  note step [OF step [OF step [OF step [OF step [OF 1]]]]]
  then show ?thesis
    by (simp add: fill_down_def Let_def)
qed

lemma top_bit:
  assumes "(n :: u32) \<noteq> 0"
  obtains k where "k < 32" "2 ^ k \<le> unat n" "unat n < 2 ^ Suc k"
proof -
  obtain k where k: "2 ^ k \<le> unat n" "unat n < 2 ^ (k + 1)"
    using ex_power_ivl1 [of 2 "unat n"] assms by (auto simp: Suc_le_eq unat_gt_0)
  have "k < 32"
    using k(1) u32_lt [of n] power_increasing [of 32 k "2 :: nat"] by (rule_tac ccontr) simp
  with k that show thesis by simp
qed

lemma fill_down_mask:
  assumes "k < 32" "2 ^ k \<le> unat n" "unat n < 2 ^ Suc k"
  shows "fill_down n = mask (Suc k)"
proof (rule bit_word_eqI)
  fix i
  assume i: "i < LENGTH(32)"
  have top: "bit n k"
  proof -
    have "unat n div 2 ^ k = 1"
      using assms(2,3) by (intro div_nat_eqI) simp_all
    then have "bit (unat n) k" by (simp add: bit_iff_odd)
    then show ?thesis by (simp add: bit_unsigned_iff)
  qed
  have none: "\<not> bit n j" if "j > k" for j
  proof -
    have "unat n < 2 ^ j"
      using assms(3) that power_increasing [of "Suc k" j "2 :: nat"] by simp
    then have "\<not> bit (unat n) j" by (simp add: bit_iff_odd)
    then show ?thesis
      using bit_imp_le_length [of n j] by (auto simp: bit_unsigned_iff)
  qed
  show "bit (fill_down n) i = bit (mask (Suc k) :: u32) i"
  proof (cases "i \<le> k")
    case True
    then have "k - i < 32" "bit n (i + (k - i))" using assms(1) top by simp_all
    with True i show ?thesis unfolding bit_fill_down bit_mask_iff by auto
  next
    case False
    then show ?thesis using none unfolding bit_fill_down bit_mask_iff by auto
  qed
qed

lemma DeBruijn_table:
  "list_all (\<lambda>k. DeBruijnPos ! unat (drop_bit 27 ((mask (Suc k) :: u32) * DeBruijnMagic)) = k) [0..<32]"
  by code_simp

lemma log2_bounds:
  assumes "n \<noteq> 0"
  shows "2 ^ log2 n \<le> unat n" "unat n < 2 ^ Suc (log2 n)" "log2 n < 32"
proof -
  obtain k where k: "k < 32" "2 ^ k \<le> unat n" "unat n < 2 ^ Suc k"
    by (rule top_bit [OF assms])
  have "log2 n = k"
    using DeBruijn_table k(1) by (simp only: log2_def fill_down_mask [OF k] list_all_iff) auto
  with k show "2 ^ log2 n \<le> unat n" "unat n < 2 ^ Suc (log2 n)" "log2 n < 32" by simp_all
qed

lemma bit_len_from_bounds:
  "len \<le> length ds \<Longrightarrow>
   dval (take len ds) < 2 ^ bit_len_from ds len \<and>
   (dval (take len ds) \<noteq> 0 \<longrightarrow> 2 ^ (bit_len_from ds len - 1) \<le> dval (take len ds) \<and> bit_len_from ds len > 0)"
proof (induction len)
  case (Suc len)
  have t: "dval (take (Suc len) ds) = dval (take len ds) + 2 ^ (32 * len) * unat (ds ! len)"
    using Suc.prems by (simp add: dval_take_Suc)
  show ?case
  proof (cases "ds ! len = 0")
    case True
    with Suc t show ?thesis by simp
  next
    case False
    note b = log2_bounds [OF False]
    have "dval (take (Suc len) ds) < 2 ^ (32 * len) * Suc (unat (ds ! len))"
      using dval_less [of "take len ds"] Suc.prems t by simp
    also have "\<dots> \<le> 2 ^ (32 * len) * 2 ^ Suc (log2 (ds ! len))"
      using b(2) by (intro mult_le_mono2) simp
    finally have up: "dval (take (Suc len) ds) < 2 ^ (len * 32 + 1 + log2 (ds ! len))"
      by (simp add: power_add mult.commute)
    have "2 ^ (32 * len) * 2 ^ log2 (ds ! len) \<le> dval (take (Suc len) ds)"
      unfolding t using b(1) by (simp add: trans_le_add2)
    then have "2 ^ (len * 32 + log2 (ds ! len)) \<le> dval (take (Suc len) ds)"
      by (simp add: power_add mult.commute)
    with up False show ?thesis by simp
  qed
qed simp

lemma bit_len_upper: "dval (digits n) < 2 ^ bit_len n"
  using bit_len_from_bounds [of "length (digits n)" "digits n"] by (simp add: bit_len_def)

lemma bit_len_lower:
  "dval (digits n) \<noteq> 0 \<Longrightarrow> 2 ^ (bit_len n - 1) \<le> dval (digits n) \<and> bit_len n > 0"
  using bit_len_from_bounds [of "length (digits n)" "digits n"] by (simp add: bit_len_def)

lemma bit_len_0:
  assumes "dval (digits n) = 0"
  shows "bit_len n = 0"
proof -
  have "\<lbrakk>len \<le> length ds; dval (take len ds) = 0\<rbrakk> \<Longrightarrow> bit_len_from ds len = 0" for ds len
    by (induction len) (simp_all add: dval_take_Suc unat_eq_zero)
  with assms show ?thesis by (simp add: bit_len_def)
qed

lemma dval_bit:
  "bit (dval ds) i \<longleftrightarrow> i div 32 < length ds \<and> bit (ds ! (i div 32)) (i mod 32)"
proof (induction ds arbitrary: i)
  case (Cons d ds)
  have "and (unat d) (push_bit 32 (dval ds)) = 0"
    by (rule bit_eqI) (auto simp: bit_simps dest: bit_imp_le_length)
  then have "dval (d # ds) = or (unat d) (push_bit 32 (dval ds))"
    by (simp add: disjunctive_add_eq_or [symmetric] push_bit_eq_mult mult.commute)
  then have "bit (dval (d # ds)) i \<longleftrightarrow> bit d i \<or> 32 \<le> i \<and> bit (dval ds) (i - 32)"
    by (auto simp: bit_simps)
  also have "\<dots> \<longleftrightarrow> i div 32 < length (d # ds) \<and> bit ((d # ds) ! (i div 32)) (i mod 32)"
  proof (cases "i < 32")
    case False
    then obtain j where j: "i = 32 + j" by (metis le_add_diff_inverse not_less)
    have "\<not> bit d i" using bit_imp_le_length [of d i] False by auto
    with j Cons show ?thesis by simp
  qed simp
  finally show ?case .
qed simp

lemma test_bit_ok: "test_bit n i \<longleftrightarrow> odd (dval (digits n) div 2 ^ i)"
proof -
  have "test_bit n i \<longleftrightarrow> bit (dval (digits n)) i"
    by (simp add: test_bit_def Let_def dval_bit and_exp_eq_0_iff_not_bit)
  then show ?thesis by (simp add: bit_iff_odd)
qed

subsection \<open>Right shift\<close>

fun shr_le :: "u32 list \<Rightarrow> nat \<Rightarrow> u32 list" where
  "shr_le [] s = []"
| "shr_le (d # ds) s = (push_bit (32 - s) (lsd ds) OR drop_bit s d) # shr_le ds s"

lemma shr_digits_snoc:
  "shr_digits (vs @ [v]) s e =
   shr_digits vs s e @ [(if vs = [] then e else push_bit (32 - s) (last vs)) OR drop_bit s v]"
  by (induction vs arbitrary: e) auto

lemma shr_digits_le: "rev (shr_digits (rev ds) s 0) = shr_le ds s"
proof (induction ds)
  case (Cons d ds)
  have "(if rev ds = [] then 0 else push_bit (32 - s) (last (rev ds))) = push_bit (32 - s) (lsd ds)"
    by (cases ds) (simp_all add: lsd_def)
  with Cons show ?case
    by (simp only: rev.simps shr_digits_snoc) simp
qed simp

lemma length_shr_le [simp]: "length (shr_le ds s) = length ds"
  by (induction ds) auto

lemma shr_arith:
  fixes d D l :: nat
  assumes "s < 32" and that: "D mod 2 ^ s = l mod 2 ^ s"
  shows "l mod 2 ^ s * 2 ^ (32 - s) + d div 2 ^ s + 2 ^ 32 * (D div 2 ^ s) = (d + 2 ^ 32 * D) div 2 ^ s"
proof -
  have p: "(2 :: nat) ^ 32 = 2 ^ s * 2 ^ (32 - s)"
    using assms by (simp add: power_add [symmetric])
  have "(d + 2 ^ 32 * D) div 2 ^ s = (d + 2 ^ s * (2 ^ (32 - s) * D)) div 2 ^ s"
    unfolding p by (simp add: mult.assoc)
  also have "\<dots> = d div 2 ^ s + 2 ^ (32 - s) * D"
    by simp
  also have "2 ^ (32 - s) * D = 2 ^ (32 - s) * (D mod 2 ^ s + 2 ^ s * (D div 2 ^ s))"
    by simp
  also have "\<dots> = l mod 2 ^ s * 2 ^ (32 - s) + 2 ^ 32 * (D div 2 ^ s)"
    unfolding p that by (simp add: algebra_simps)
  finally show ?thesis
    by simp
qed

lemma shr_le_val:
  assumes "0 < s" "s < 32"
  shows "dval (shr_le ds s) = dval ds div 2 ^ s"
proof (induction ds)
  case (Cons d ds)
  have p: "(2 :: nat) ^ 32 = 2 ^ s * 2 ^ (32 - s)"
    using assms by (simp add: power_add [symmetric])
  have hi: "unat (push_bit (32 - s) (lsd ds)) = unat (lsd ds) mod 2 ^ s * 2 ^ (32 - s)"
  proof -
    have "unat (push_bit (32 - s) (lsd ds)) = unat (lsd ds) * 2 ^ (32 - s) mod 2 ^ 32"
      unfolding unsigned_push_bit_eq
      by (simp only: push_bit_eq_mult take_bit_eq_mod len_num1 len_bit0) simp
    then show ?thesis unfolding p by (simp add: mult_mod_left)
  qed
  have lo: "unat (drop_bit s d) = unat d div 2 ^ s"
    unfolding unsigned_drop_bit_eq
    unfolding drop_bit_eq_div take_bit_eq_mod using u32_lt [of d] by simp
  have "unat d div 2 ^ s < 2 ^ (32 - s)"
    using u32_lt [of d] p by (simp add: less_mult_imp_div_less mult.commute)
  then have "push_bit (32 - s) (lsd ds) AND drop_bit s d = 0"
    by (intro and_low_high [where s = "32 - s"]) (simp_all only: hi lo dvd_triv_right)
  then have o: "unat (push_bit (32 - s) (lsd ds) OR drop_bit s d) =
      unat (lsd ds) mod 2 ^ s * 2 ^ (32 - s) + unat d div 2 ^ s"
    by (simp add: unat_or_disjoint hi lo)
  have "dval ds mod 2 ^ s = unat (lsd ds) mod 2 ^ s"
    unfolding dval_lsd [of ds] p by (simp add: mult.assoc)
  then show ?case
    using shr_arith [OF assms(2)] Cons o by simp
qed simp

lemma dval_drop: "dval (drop k ds) = dval ds div 2 ^ (32 * k)"
proof (cases "k \<le> length ds")
  case True
  have "dval (take k ds) < 2 ^ (32 * k)"
    using dval_less [of "take k ds"] True by simp
  then show ?thesis
    using dval_take_drop [of ds k] True by simp
next
  case False
  have "dval ds < 2 ^ (32 * k)"
    using False by (intro less_le_trans [OF dval_less power_increasing]) simp_all
  with False show ?thesis by simp
qed

lemma right_shift_ok:
  assumes "canonical n"
  shows "\<exists>r. right_shift n k = Some r \<and> canonical r \<and> dval (digits r) = dval (digits n) div 2 ^ k \<and>
             (neg r \<longrightarrow> neg n) \<and> (neg n \<and> dval (digits r) \<noteq> 0 \<longrightarrow> neg r)"
proof (cases "length (digits n) > k div 32")
  case False
  have "dval (digits n) < 2 ^ k"
  proof (rule less_le_trans [OF dval_less power_increasing])
    show "32 * length (digits n) \<le> k" using False by presburger
  qed simp
  with False show ?thesis
    by (simp add: right_shift_def alloc_def canonical_def haslz_def Let_def)
next
  case True
  have k: "(2 :: nat) ^ k = 2 ^ (32 * (k div 32)) * 2 ^ (k mod 32)"
    by (simp add: power_add [symmetric])
  let ?d = "drop (k div 32) (digits n)"
  define ds where "ds = (if k mod 32 = 0 then ?d else rev (shr_digits (rev ?d) (k mod 32) 0))"
  have v: "dval ds = dval (digits n) div 2 ^ k" "ds \<noteq> []"
    using True by (auto simp: ds_def shr_digits_le shr_le_val dval_drop k div_mult2_eq
        simp flip: length_greater_0_conv)
  have "right_shift n k = Some (strip_lz \<lparr>digits = ds, neg = neg n\<rparr>)"
    using True assms by (simp add: right_shift_def Let_def strip_lz_id ds_def)
  moreover have "canonical (strip_lz \<lparr>digits = ds, neg = neg n\<rparr>)"
    using v by (simp add: strip_lz_canonical)
  moreover have "neg n \<and> dval ds \<noteq> 0 \<longrightarrow> digits (strip_lz \<lparr>digits = ds, neg = neg n\<rparr>) \<noteq> [0]"
    using strip_lz_dval [of "\<lparr>digits = ds, neg = neg n\<rparr>"] by (auto simp del: strip_lz_dval)
  ultimately show ?thesis
    using v(1) by (auto simp: strip_lz_neg)
qed

subsection \<open>Exponentiation\<close>

lemma exp_loop_ok:
  assumes "canonical x"
  shows "canonical a \<Longrightarrow> canonical (exp_loop x e i a) \<and>
    val (exp_loop x e i a) = val a ^ (2 ^ i) * val x ^ (dval (digits e) mod 2 ^ i)"
proof (induction i arbitrary: a)
  case (Suc i)
  define a' where "a' = (if test_bit e i then mul (mul a a) x else mul a a)"
  have a': "canonical a'" "val a' = val a ^ 2 * val x ^ (dval (digits e) div 2 ^ i mod 2)"
    using mul_ok [of a a] mul_ok [of "mul a a" x] Suc.prems assms
    by (auto simp: a'_def test_bit_ok power2_eq_square odd_iff_mod_2_eq_one)
  have m: "dval (digits e) mod 2 ^ Suc i = dval (digits e) mod 2 ^ i + 2 ^ i * (dval (digits e) div 2 ^ i mod 2)"
    using mod_mult2_eq [of "dval (digits e)" "2 ^ i" 2] by (simp add: mult.commute)
  have "val a' ^ 2 ^ i * val x ^ (dval (digits e) mod 2 ^ i) =
        val a ^ 2 ^ Suc i * val x ^ (dval (digits e) mod 2 ^ Suc i)"
    unfolding a'(2) m by (simp add: power_mult_distrib power_mult [symmetric] power_add mult.commute mult.left_commute)
  then show ?case
    using Suc.IH [OF a'(1)] by (simp add: Let_def a'_def)
qed simp

lemma exp_ok:
  assumes "canonical x"
  shows "canonical (exp_BigNum x e) \<and> val (exp_BigNum x e) = val x ^ dval (digits e)"
proof -
  have "dval (digits e) mod 2 ^ bit_len e = dval (digits e)"
    using bit_len_upper [of e] by simp
  then show ?thesis
    using exp_loop_ok [OF assms, of "of_u32 1" e "bit_len e"] assms
    by (simp add: exp_BigNum_def strip_lz_id)
qed

subsection \<open>Arithmetic expressions\<close>

text \<open>
  The operators as a client sees them: on admissible numbers each of them returns an
  admissible number that stands for the exact integer result.
\<close>

datatype 'b arith =
    Num 'b
  | Plus "'b arith" "'b arith"
  | Minus "'b arith" "'b arith"
  | Times "'b arith" "'b arith"

fun eval_arith ::
  "('b \<Rightarrow> 'b \<Rightarrow> 'b option) \<Rightarrow> ('b \<Rightarrow> 'b \<Rightarrow> 'b option) \<Rightarrow> ('b \<Rightarrow> 'b \<Rightarrow> 'b) \<Rightarrow> 'b arith \<Rightarrow> 'b option" where
  "eval_arith add diff mult (Num x) = Some x"
| "eval_arith add diff mult (Plus e f) =
     Option.bind (eval_arith add diff mult e) (\<lambda>x.
     Option.bind (eval_arith add diff mult f) (add x))"
| "eval_arith add diff mult (Minus e f) =
     Option.bind (eval_arith add diff mult e) (\<lambda>x.
     Option.bind (eval_arith add diff mult f) (diff x))"
| "eval_arith add diff mult (Times e f) =
     Option.bind (eval_arith add diff mult e) (\<lambda>x.
     map_option (mult x) (eval_arith add diff mult f))"

fun int_arith :: "('b \<Rightarrow> int) \<Rightarrow> 'b arith \<Rightarrow> int" where
  "int_arith rep (Num x) = rep x"
| "int_arith rep (Plus e f) = int_arith rep e + int_arith rep f"
| "int_arith rep (Minus e f) = int_arith rep e - int_arith rep f"
| "int_arith rep (Times e f) = int_arith rep e * int_arith rep f"

locale exact_arith =
  fixes ok :: "'b \<Rightarrow> bool"
    and rep :: "'b \<Rightarrow> int"
    and add :: "'b \<Rightarrow> 'b \<Rightarrow> 'b option"
    and diff :: "'b \<Rightarrow> 'b \<Rightarrow> 'b option"
    and mult :: "'b \<Rightarrow> 'b \<Rightarrow> 'b"
  assumes add_exact: "\<lbrakk>ok a; ok b\<rbrakk> \<Longrightarrow> \<exists>r. add a b = Some r \<and> ok r \<and> rep r = rep a + rep b"
    and diff_exact: "\<lbrakk>ok a; ok b\<rbrakk> \<Longrightarrow> \<exists>r. diff a b = Some r \<and> ok r \<and> rep r = rep a - rep b"
    and mult_exact: "\<lbrakk>ok a; ok b\<rbrakk> \<Longrightarrow> ok (mult a b) \<and> rep (mult a b) = rep a * rep b"
begin

lemma eval_exact:
  "pred_arith ok e \<Longrightarrow>
   \<exists>r. eval_arith add diff mult e = Some r \<and> ok r \<and> rep r = int_arith rep e"
proof (induction e)
  case (Plus e f)
  then obtain x y where "eval_arith add diff mult e = Some x" "ok x" "rep x = int_arith rep e"
    "eval_arith add diff mult f = Some y" "ok y" "rep y = int_arith rep f" by auto
  with add_exact [of x y] show ?case by auto
next
  case (Minus e f)
  then obtain x y where "eval_arith add diff mult e = Some x" "ok x" "rep x = int_arith rep e"
    "eval_arith add diff mult f = Some y" "ok y" "rep y = int_arith rep f" by auto
  with diff_exact [of x y] show ?case by auto
next
  case (Times e f)
  then obtain x y where "eval_arith add diff mult e = Some x" "ok x" "rep x = int_arith rep e"
    "eval_arith add diff mult f = Some y" "ok y" "rep y = int_arith rep f" by auto
  with mult_exact [of x y] show ?case by auto
qed simp

end

interpretation big: exact_arith canonical val op_plus op_minus op_times
proof
  fix a b :: BigNum
  assume c: "canonical a" "canonical b"
  show "\<exists>r. op_plus a b = Some r \<and> canonical r \<and> val r = val a + val b"
    using add_sub_exact_val [OF c, of False] by (simp add: op_plus_def)
  show "\<exists>r. op_minus a b = Some r \<and> canonical r \<and> val r = val a - val b"
    using add_sub_exact_val [OF c, of True] by (simp add: op_minus_def)
  show "canonical (op_times a b) \<and> val (op_times a b) = val a * val b"
    using mul_ok [OF c] by (simp add: op_times_def)
qed

text \<open>
  C15. Every expression built from canonical numbers with the operators for addition,
  subtraction and multiplication returns, and its result is the canonical form of the integer
  the expression denotes.
\<close>

theorem arithmetic_exact:
  assumes "pred_arith canonical e"
  shows "\<exists>r. eval_arith op_plus op_minus op_times e = Some r \<and> canonical r \<and> val r = int_arith val e"
  by (rule big.eval_exact [OF assms])

theorem arithmetic_exact_witness:
  "\<exists>r. eval_arith op_plus op_minus op_times
        (Minus (Num (of_u32 5)) (Times (Num (of_u32 0xFFFFFFFF)) (Num (of_u32 0xFFFFFFFF)))) = Some r \<and>
       canonical r \<and> val r = 5 - 0xFFFFFFFF * 0xFFFFFFFF"
  using arithmetic_exact
    [of "Minus (Num (of_u32 5)) (Times (Num (of_u32 0xFFFFFFFF)) (Num (of_u32 0xFFFFFFFF)))"]
  by simp

text \<open>
  C33. For a canonical number: raising it to a power (by the magnitude of the exponent)
  and shifting it left give exactly the power and the product with a power of two,
  shifting it right divides its magnitude by a power of two, rounding down, and
  keeps its sign unless the result is zero; all three results are canonical.
\<close>

theorem powers_and_shifts:
  assumes "canonical n"
  shows "val (exp_BigNum n e) = val n ^ dval (digits e) \<and>
         val (op_shl n k) = val n * 2 ^ k \<and>
         (\<exists>r. right_shift n k = Some r \<and> canonical r \<and> val r = sgn (val n) * (\<bar>val n\<bar> div 2 ^ k)) \<and>
         canonical (exp_BigNum n e) \<and> canonical (op_shl n k)"
proof -
  obtain r where r: "right_shift n k = Some r" "canonical r" "dval (digits r) = dval (digits n) div 2 ^ k"
    "neg r \<longrightarrow> neg n" "neg n \<and> dval (digits r) \<noteq> 0 \<longrightarrow> neg r"
    using right_shift_ok [OF assms, of k] by blast
  have "int (dval (digits n)) div 2 ^ k = int (dval (digits r))"
    using r(3) by (simp add: zdiv_int)
  with r have "val r = sgn (val n) * (\<bar>val n\<bar> div 2 ^ k)"
    by (cases "dval (digits n) = 0"; cases "dval (digits r) = 0") (auto simp: val_def)
  with r(1,2) show ?thesis
    using exp_ok [OF assms, of e] op_shl_ok [OF canonical_nonempty [OF assms], of k] by simp
qed

theorem powers_and_shifts_witness:
  "val (exp_BigNum (of_u32 3) (of_u32 5)) = 243 \<and> val (op_shl (of_u32 3) 40) = 3 * 2 ^ 40"
proof -
  have "dval (digits (of_u32 5)) = 5" by (simp add: of_u32_def)
  then show ?thesis
    using powers_and_shifts [OF canonical_of_u32, of 3 "of_u32 5" 40] by simp
qed

end
