(* ===== verification/Big_Num_Div.thy ===== *)
theory Big_Num_Div
  imports Big_Num_Mul "HOL-Library.Signed_Division"
begin

unbundle bit_operations_syntax

text \<open>
  Division with remainder of \<^verbatim>\<open>common/src/BigNum.cc\<close>: the single-digit loop, the 64-bit case
  and the long division with estimated quotient digits. \<open>None\<close> is a failed assertion or the
  division of a non-zero number by zero.
\<close>

subsection \<open>Operations\<close>

text \<open>The loop for a divisor of one digit, from the most significant digit down.\<close>

fun div_digits :: "u32 \<Rightarrow> u32 list \<Rightarrow> u64 \<Rightarrow> u32 list \<times> u64" where
  "div_digits Y [] carry = ([], carry)"
| "div_digits Y (x # xs) carry =
     (let X = ucast x + push_bit 32 carry;
          d = X div ucast Y;
          (q, c) = div_digits Y xs (X - d * ucast Y)
      in (ucast d # q, c))"

definition set_rem_sign :: "BigNum \<Rightarrow> bool \<Rightarrow> BigNum" where
  "set_rem_sign r s = r\<lparr>neg := (s \<and> compare r (of_u32 0) \<noteq> 0)\<rparr>"

definition div_single :: "BigNum \<Rightarrow> BigNum \<Rightarrow> bool \<Rightarrow> bool \<Rightarrow> (BigNum \<times> BigNum) option" where
  "div_single x y xneg qneg =
     (let Y = digits y ! 0
      in if Y = 0 then None
         else let (q, carry) = div_digits Y (rev (digits x)) 0
              in Some (strip_lz \<lparr>digits = rev q, neg = qneg\<rparr>,
                       set_rem_sign (of_u32 (ucast carry)) xneg))"

definition two_digits :: "u64 \<Rightarrow> u32 list" where
  "two_digits v = (if drop_bit 32 v \<noteq> 0 then [ucast v, ucast (drop_bit 32 v)] else [ucast v])"

definition div_double :: "BigNum \<Rightarrow> BigNum \<Rightarrow> bool \<Rightarrow> bool \<Rightarrow> BigNum \<times> BigNum" where
  "div_double x y xneg qneg =
     (let n = length (digits x) - 1;
          t = length (digits y) - 1;
          X = ucast (digits x ! 0) + (if n = 1 then push_bit 32 (ucast (digits x ! 1)) else 0);
          Y = ucast (digits y ! 0) + (if t = 1 then push_bit 32 (ucast (digits y ! 1)) else 0);
          Q = X div Y;
          R = X - Y * Q
      in (strip_lz \<lparr>digits = two_digits Q, neg = qneg\<rparr>,
          set_rem_sign \<lparr>digits = two_digits R, neg = False\<rparr> xneg))"

text \<open>
  Long division works on the digits of \<open>x\<close> in place, on the part from position \<open>d\<close> up.
  Subtracting strips the length of \<open>x\<close>, and the digits it drops hold zero in the buffer, so
  a digit beyond the length reads as zero.
\<close>

definition digit_at :: "u32 list \<Rightarrow> nat \<Rightarrow> u32" where
  "digit_at xs i = (if i < length xs then xs ! i else 0)"

partial_function (option) top_loop :: "BigNum \<Rightarrow> BigNum \<Rightarrow> u32 \<Rightarrow> (BigNum \<times> u32) option" where
  "top_loop w y qd =
     (if compare w y \<ge> 0 then Option.bind (sub w y 0) (\<lambda>w'. top_loop w' y (qd + 1))
      else Some (w, qd))"

declare top_loop.simps [code]

definition estimate :: "u32 \<Rightarrow> u32 \<Rightarrow> u32 \<Rightarrow> u32" where
  "estimate xi xi1 ymsd =
     (if xi = ymsd then 0xFFFFFFFF
      else ucast ((push_bit 32 (ucast xi) + ucast xi1 :: u64) div ucast ymsd))"

function adjust :: "u32 list \<Rightarrow> u32 list \<Rightarrow> u32 \<Rightarrow> u32" where
  "adjust y2 xm3 qdigit =
     (if compare (mul_int \<lparr>digits = y2, neg = False\<rparr> qdigit False) \<lparr>digits = xm3, neg = False\<rparr> > 0
      then adjust y2 xm3 (qdigit - 1) else qdigit)"
  by auto
termination
proof (relation "measure (\<lambda>(y2, xm3, qdigit). unat qdigit)", simp)
  fix y2 xm3 :: "u32 list" and qdigit :: u32
  assume c: "compare (mul_int \<lparr>digits = y2, neg = False\<rparr> qdigit False) \<lparr>digits = xm3, neg = False\<rparr> > 0"
  have "qdigit \<noteq> 0"
  proof
    assume "qdigit = 0"
    then have "mul_int \<lparr>digits = y2, neg = False\<rparr> qdigit False = zero"
      by (simp add: mul_int_def strip_lz_id)
    with c show False
      by (simp add: compare_nonneg zero_def val_def sgn_if split: if_splits)
  qed
  then show "((y2, xm3, qdigit - 1), y2, xm3, qdigit) \<in> measure (\<lambda>(y2, xm3, qdigit). unat qdigit)"
    by (simp add: unat_minus_one unat_gt_0)
qed

declare adjust.simps [simp del]

definition div_step :: "BigNum \<Rightarrow> nat \<Rightarrow> nat \<Rightarrow> u32 list \<times> u32 list \<Rightarrow> (u32 list \<times> u32 list) option" where
  "div_step y t i = (\<lambda>(xs, q).
     let d = i - t - 1;
         qdigit = estimate (digit_at xs i) (digit_at xs (i - 1)) (digits y ! t);
         y2 = [digits y ! (t - 1), digits y ! t];
         xm3 = [digit_at xs (i - 2), digit_at xs (i - 1), digit_at xs i];
         qdigit = adjust y2 xm3 qdigit;
         prod = mul_int y qdigit False
     in Option.bind (sub \<lparr>digits = drop d xs, neg = False\<rparr> prod 0) (\<lambda>w.
          if compare w (of_u32 0) < 0
          then Option.bind (plus_assign w y) (\<lambda>w'.
                 Some (take d xs @ digits w', q[d := qdigit - 1]))
          else Some (take d xs @ digits w, q[d := qdigit])))"

fun div_loop :: "BigNum \<Rightarrow> nat \<Rightarrow> nat \<Rightarrow> u32 list \<times> u32 list \<Rightarrow> (u32 list \<times> u32 list) option" where
  "div_loop y t 0 st = Some st"
| "div_loop y t (Suc i) st =
     (if Suc i > t then Option.bind (div_step y t (Suc i) st) (div_loop y t i) else Some st)"

definition div_long :: "BigNum \<Rightarrow> BigNum \<Rightarrow> bool \<Rightarrow> bool \<Rightarrow> (BigNum \<times> BigNum) option" where
  "div_long x y xneg qneg =
     (let t = length (digits y) - 1;
          q = replicate (length (digits x) - 1 - t + 2) 0;
          norm = 31 - log2 (digits y ! t);
          x = (if norm \<noteq> 0 then op_shl x norm else x);
          y = (if norm \<noteq> 0 then op_shl y norm else y);
          n = length (digits x) - 1;
          d = n - t
      in Option.bind (top_loop \<lparr>digits = drop d (digits x), neg = False\<rparr> y 0) (\<lambda>(w, qd).
           Option.bind (div_loop y t n (take d (digits x) @ digits w, q[d := qd])) (\<lambda>(xs, q).
             let qLen = (if qd \<noteq> 0 then d + 1 else max 1 d)
             in Option.bind
                  (if norm \<noteq> 0 then right_shift \<lparr>digits = xs, neg = False\<rparr> norm
                   else Some \<lparr>digits = xs, neg = False\<rparr>)
                  (\<lambda>x. Some (strip_lz \<lparr>digits = take qLen q, neg = qneg\<rparr>,
                             set_rem_sign (strip_lz x) xneg)))))"

definition div_BigNum :: "BigNum \<Rightarrow> BigNum \<Rightarrow> (BigNum \<times> BigNum) option" where
  "div_BigNum a divisor =
     (let x = abs_BigNum a;
          y = abs_BigNum divisor;
          qneg = (neg a \<noteq> neg divisor)
      in if compare x y = -1 then Some (of_u32 0, a)
         else if compare x y = 0 then Some (of_u32 1, zero)
         else if length (digits y) - 1 = 0 then div_single x y (neg a) qneg
         else if length (digits x) - 1 < 2 then Some (div_double x y (neg a) qneg)
         else div_long x y (neg a) qneg)"

definition op_div :: "BigNum \<Rightarrow> BigNum \<Rightarrow> BigNum option" where
  "op_div a n = map_option fst (div_BigNum a n)"

definition op_div_int :: "BigNum \<Rightarrow> u32 \<Rightarrow> BigNum option" where
  "op_div_int a i = (if i = 0 then None else map_option fst (div_BigNum a (of_u32 i)))"

definition op_mod :: "BigNum \<Rightarrow> BigNum \<Rightarrow> BigNum option" where
  "op_mod a n = map_option snd (div_BigNum a n)"

subsection \<open>A division that fails\<close>

text \<open>The steps of dividing \<open>2 ^ 95 + 3\<close> by \<open>2 ^ 93 + 1\<close>, one evaluation each.\<close>

lemma add_back_shift:
  "op_shl \<lparr>digits = [3, 0, 0x80000000], neg = False\<rparr> 2 = \<lparr>digits = [12, 0, 0, 2], neg = False\<rparr>"
  "op_shl \<lparr>digits = [1, 0, 0x20000000], neg = False\<rparr> 2 = \<lparr>digits = [4, 0, 0x80000000], neg = False\<rparr>"
  "log2 0x20000000 = 29"
  "abs_BigNum \<lparr>digits = [3, 0, 0x80000000], neg = False\<rparr> = \<lparr>digits = [3, 0, 0x80000000], neg = False\<rparr>"
  "abs_BigNum \<lparr>digits = [1, 0, 0x20000000], neg = False\<rparr> = \<lparr>digits = [1, 0, 0x20000000], neg = False\<rparr>"
  by code_simp+

lemma add_back_estimate:
  "compare \<lparr>digits = [3, 0, 0x80000000], neg = False\<rparr> \<lparr>digits = [1, 0, 0x20000000], neg = False\<rparr> = 1"
  "top_loop \<lparr>digits = [0, 0, 2], neg = False\<rparr> \<lparr>digits = [4, 0, 0x80000000], neg = False\<rparr> 0 =
     Some (\<lparr>digits = [0, 0, 2], neg = False\<rparr>, 0)"
  "estimate 2 0 0x80000000 = 4"
  "adjust [0, 0x80000000] [0, 0, 2] 4 = 4"
  by code_simp+

lemma add_back_subtract:
  "mul_int \<lparr>digits = [4, 0, 0x80000000], neg = False\<rparr> 4 False = \<lparr>digits = [16, 0, 0, 2], neg = False\<rparr>"
  "sub \<lparr>digits = [12, 0, 0, 2], neg = False\<rparr> \<lparr>digits = [16, 0, 0, 2], neg = False\<rparr> 0 = None"
  by code_simp+

lemma add_back_step:
  "div_step \<lparr>digits = [4, 0, 0x80000000], neg = False\<rparr> 2 3 ([12, 0, 0, 2], q) = None"
  by (simp add: div_step_def digit_at_def Let_def add_back_estimate add_back_subtract)

lemma add_back_instance:
  "div_BigNum \<lparr>digits = [3, 0, 0x80000000], neg = False\<rparr>
              \<lparr>digits = [1, 0, 0x20000000], neg = False\<rparr> = None"
  by (simp add: div_BigNum_def div_long_def Let_def add_back_shift add_back_estimate
      add_back_step [unfolded numeral_2_eq_2 numeral_3_eq_3])

subsection \<open>Exactness of the in-place subtraction\<close>

text \<open>Whatever the lengths, a subtraction that comes back is exact.\<close>

lemma borrow_digits_exact:
  "\<lbrakk>unat b \<le> 1; borrow_digits ls b = Some t\<rbrakk> \<Longrightarrow> dval t + unat b = dval ls \<and> length t = length ls"
proof (induction ls arbitrary: b t)
  case (Cons l ls)
  define n where "n = (ucast l - b :: u64)"
  have s: "int (unat (ucast n :: u32)) - 2 ^ 32 * int (unat (drop_bit 63 n)) = int (unat l) - int (unat b)"
    "unat (drop_bit 63 n) \<le> 1"
    using sub_step [OF Cons.prems(1), of l 0] by (simp_all add: n_def)
  show ?case
  proof (cases "b = 0")
    case False
    then have "borrow_digits (l # ls) b = map_option (\<lambda>r. ucast n # r) (borrow_digits ls (drop_bit 63 n))"
      by (subst borrow_digits.simps) (simp add: n_def Let_def)
    then obtain u where u: "borrow_digits ls (drop_bit 63 n) = Some u" "t = ucast n # u"
      using Cons.prems(2) by (cases "borrow_digits ls (drop_bit 63 n)") simp_all
    have "int (dval u) + int (unat (drop_bit 63 n)) = int (dval ls)" "length u = length ls"
      using Cons.IH [OF s(2) u(1)] by (simp_all only: of_nat_add [symmetric])
    then have "int (dval t + unat b) = int (dval (l # ls))"
      using s(1) u(2) by simp
    then show ?thesis
      using \<open>length u = length ls\<close> u(2) unfolding of_nat_eq_iff by simp
  qed (use Cons.prems in \<open>simp add: borrow_digits.simps\<close>)
qed (auto simp: borrow_digits.simps split: if_splits)

lemma sub_inplace_exact:
  "\<lbrakk>unat b \<le> 1; sub_inplace ls rs b = Some t\<rbrakk> \<Longrightarrow>
   dval t + dval rs + unat b = dval ls \<and> length t = length ls"
proof (induction ls rs b arbitrary: t rule: sub_inplace.induct)
  case (1 ls b)
  then show ?case using borrow_digits_exact [of b ls t] by simp
next
  case (3 l ls r rs b)
  define n where "n = (ucast l - ucast r - b :: u64)"
  note s = sub_step [OF 3(2), of l r, folded n_def]
  have "sub_inplace (l # ls) (r # rs) b = map_option (\<lambda>t. ucast n # t) (sub_inplace ls rs (drop_bit 63 n))"
    by (simp only: sub_inplace.simps Let_def n_def)
  then obtain u where u: "sub_inplace ls rs (drop_bit 63 n) = Some u" "t = ucast n # u"
    using 3(3) by auto
  have "int (dval u) + int (dval rs) + int (unat (drop_bit 63 n)) = int (dval ls)" "length u = length ls"
    using 3(1) [OF n_def s(2) u(1)] by (simp_all only: of_nat_add [symmetric])
  then have "int (dval t + dval (r # rs) + unat b) = int (dval (l # ls))"
    using s(1) u(2) by simp
  then show ?case
    using \<open>length u = length ls\<close> u(2) unfolding of_nat_eq_iff by simp
qed simp

lemma sub_exact:
  assumes "sub a n 0 = Some r" "\<not> neg a" "\<not> neg n" "digits a \<noteq> []"
  shows "dval (digits r) + dval (digits n) = dval (digits a)" "canonical r" "\<not> neg r"
    "length (digits r) \<le> length (digits a)"
proof -
  obtain t where t: "sub_inplace (digits a) (digits n) 0 = Some t" "r = strip_lz (a\<lparr>digits := t\<rparr>)"
    using assms(1) by (auto simp: sub_def split: if_splits)
  have e: "dval t + dval (digits n) = dval (digits a)" "length t = length (digits a)"
    using sub_inplace_exact [OF _ t(1)] by simp_all
  then show "dval (digits r) + dval (digits n) = dval (digits a)"
    by (simp add: t(2))
  have "t \<noteq> []" using e(2) assms(4) by auto
  then show "canonical r" by (simp add: t(2) strip_lz_canonical)
  show "\<not> neg r" using assms(2) by (simp add: t(2) strip_lz_neg)
  show "length (digits r) \<le> length (digits a)"
    using strip_lz_length [of "a\<lparr>digits := t\<rparr>"] e(2) by (simp add: t(2))
qed

lemma canonical_length_bound:
  assumes "canonical n" "dval (digits n) < 2 ^ (32 * k)" "k \<ge> 1"
  shows "length (digits n) \<le> k"
proof (rule ccontr)
  assume l: "\<not> length (digits n) \<le> k"
  then have "last (digits n) \<noteq> 0"
    using assms(1,3) by (auto simp: canonical_def haslz_def)
  then have "2 ^ (32 * (length (digits n) - 1)) \<le> dval (digits n)"
    using assms(1) by (intro dval_ge_last) (auto simp: canonical_def)
  moreover have "(2 :: nat) ^ (32 * k) \<le> 2 ^ (32 * (length (digits n) - 1))"
    using l by (intro power_increasing) auto
  ultimately show False using assms(2) by linarith
qed

lemma sub_returns:
  assumes "\<not> neg a" "\<not> neg n" "canonical n" "digits a \<noteq> []" "dval (digits n) \<le> dval (digits a)"
  shows "\<exists>r. sub a n 0 = Some r"
proof -
  have "length (digits a) \<ge> 1"
    using assms(4) by (simp add: Suc_le_eq)
  moreover have "dval (digits n) < 2 ^ (32 * length (digits a))"
    using assms(5) dval_less [of "digits a"] by linarith
  ultimately have "length (digits n) \<le> length (digits a)"
    using canonical_length_bound [OF assms(3)] by blast
  then show ?thesis
    using sub_ok [of a n] assms by simp
qed

subsection \<open>Division by one digit\<close>

lemma div_step_digit:
  fixes x Y :: u32 and c :: u64
  assumes "unat c < unat Y"
  defines "X \<equiv> ucast x + push_bit 32 c"
  shows "unat (ucast (X div ucast Y) :: u32) = (unat x + 2 ^ 32 * unat c) div unat Y"
    and "unat (X - X div ucast Y * ucast Y) = (unat x + 2 ^ 32 * unat c) mod unat Y"
proof -
  have c: "unat c < 2 ^ 32" using assms(1) u32_lt [of Y] by linarith
  have "unat (push_bit 32 c) = 2 ^ 32 * unat c"
    unfolding unsigned_push_bit_eq
    by (simp only: push_bit_eq_mult take_bit_eq_mod len_num1 len_bit0) (use c in simp)
  then have X: "unat X = unat x + 2 ^ 32 * unat c"
    using c u32_lt [of x] unfolding X_def by (subst unat_add64) simp_all
  have d: "unat (X div ucast Y) = unat X div unat Y"
    by (simp add: unat_div)
  have "unat X < 2 ^ 32 * unat Y"
  proof -
    have "unat X < 2 ^ 32 * Suc (unat c)" using X u32_lt [of x] by simp
    also have "\<dots> \<le> 2 ^ 32 * unat Y" using assms(1) by (intro mult_le_mono2) simp
    finally show ?thesis .
  qed
  then have "unat X div unat Y < 2 ^ 32"
    by (simp add: less_mult_imp_div_less)
  then show "unat (ucast (X div ucast Y) :: u32) = (unat x + 2 ^ 32 * unat c) div unat Y"
    unfolding unat_lo32 d X by simp
  have "X - X div ucast Y * ucast Y = X mod ucast Y"
    by (simp add: minus_div_mult_eq_mod)
  then show "unat (X - X div ucast Y * ucast Y) = (unat x + 2 ^ 32 * unat c) mod unat Y"
    by (simp add: unat_mod X)
qed

lemma div_digits_val:
  "\<lbrakk>unat c < unat Y; div_digits Y xs c = (q, r)\<rbrakk> \<Longrightarrow>
   dval (rev xs) + 2 ^ (32 * length xs) * unat c = dval (rev q) * unat Y + unat r \<and>
   unat r < unat Y \<and> length q = length xs"
proof (induction xs arbitrary: c q)
  case (Cons x xs)
  define X where "X = ucast x + push_bit 32 c"
  define d where "d = X div ucast Y"
  note s = div_step_digit [OF Cons.prems(1), of x, folded X_def, folded d_def]
  obtain q' where q': "div_digits Y xs (X - d * ucast Y) = (q', r)" "q = ucast d # q'"
    using Cons.prems(2) by (auto simp: Let_def X_def d_def split: prod.splits)
  have "unat (X - d * ucast Y) < unat Y"
    unfolding s(2) using Cons.prems(1) by simp
  from Cons.IH [OF this q'(1)] have
    ih: "dval (rev xs) + 2 ^ (32 * length xs) * unat (X - d * ucast Y) = dval (rev q') * unat Y + unat r"
    "unat r < unat Y" "length q' = length xs" by auto
  have "unat x + 2 ^ 32 * unat c = unat (ucast d :: u32) * unat Y + unat (X - d * ucast Y)"
    unfolding s by (simp add: mult.commute)
  moreover have "dval (rev (x # xs)) + 2 ^ (32 * length (x # xs)) * unat c =
        dval (rev xs) + 2 ^ (32 * length xs) * (unat x + 2 ^ 32 * unat c)"
    by (simp add: dval_append power_add algebra_simps)
  ultimately have "dval (rev (x # xs)) + 2 ^ (32 * length (x # xs)) * unat c =
        dval (rev xs) + 2 ^ (32 * length xs) * (unat (ucast d :: u32) * unat Y + unat (X - d * ucast Y))"
    by (simp only:)
  also have "\<dots> = dval (rev q) * unat Y + unat r"
    using ih by (simp add: q'(2) dval_append algebra_simps)
  finally show ?case using ih q'(2) by simp
qed auto

text \<open>What each of the three branches computes from the magnitudes and the signs.\<close>

definition mag_result :: "BigNum \<Rightarrow> BigNum \<Rightarrow> bool \<Rightarrow> bool \<Rightarrow> BigNum \<times> BigNum \<Rightarrow> bool" where
  "mag_result x y xneg qneg = (\<lambda>(q, r).
     canonical q \<and> canonical r \<and>
     val q = (if qneg then -1 else 1) * int (dval (digits x) div dval (digits y)) \<and>
     val r = (if xneg then -1 else 1) * int (dval (digits x) mod dval (digits y)))"

lemma set_rem_sign_ok:
  assumes "canonical r" "\<not> neg r"
  shows "canonical (set_rem_sign r s)" "val (set_rem_sign r s) = (if s then -1 else 1) * int (dval (digits r))"
proof -
  have "compare r (of_u32 0) \<noteq> 0 \<longleftrightarrow> dval (digits r) \<noteq> 0"
    using assms by (simp add: compare_nonneg of_u32_def val_def sgn_if)
  then show "canonical (set_rem_sign r s)" "val (set_rem_sign r s) = (if s then -1 else 1) * int (dval (digits r))"
    using assms by (auto simp: set_rem_sign_def canonical_def haslz_def val_def)
qed

lemma strip_q:
  assumes "ds \<noteq> []" "dval ds = m"
  shows "canonical (strip_lz \<lparr>digits = ds, neg = s\<rparr>)"
    "val (strip_lz \<lparr>digits = ds, neg = s\<rparr>) = (if s then -1 else 1) * int m"
  using strip_mk [OF assms, of s] by (auto simp del: strip_lz_val)

lemma div_single_ok:
  assumes "digits x \<noteq> []" "digits y = [Y]" "Y \<noteq> 0"
  shows "\<exists>qr. div_single x y xneg qneg = Some qr \<and> mag_result x y xneg qneg qr"
proof -
  obtain q c where qc: "div_digits Y (rev (digits x)) 0 = (q, c)"
    by (cases "div_digits Y (rev (digits x)) 0") auto
  have Y: "unat (0 :: u64) < unat Y" using assms(3) by (simp add: unat_gt_0)
  have e: "dval (digits x) = dval (rev q) * unat Y + unat c" "unat c < unat Y" "length q = length (digits x)"
    using div_digits_val [OF Y qc] by auto
  have dm: "dval (rev q) = dval (digits x) div unat Y" "unat c = dval (digits x) mod unat Y"
    unfolding e(1) using e(2) by simp_all
  have c: "unat (ucast c :: u32) = unat c"
    unfolding unat_lo32 using e(2) u32_lt [of Y] by simp
  have "q \<noteq> []" using e(3) assms(1) by auto
  then show ?thesis
    using strip_q [of "rev q", OF _ dm(1), of qneg] set_rem_sign_ok [of "of_u32 (ucast c)" xneg] assms qc c dm(2)
    by (simp add: div_single_def mag_result_def of_u32_def canonical_def haslz_def del: strip_lz_val)
qed

lemma two_digits_val: "dval (two_digits v) = unat v"
proof -
  have "unat (drop_bit 32 v) < 2 ^ 32"
    using unsigned_less [of v, where ?'a = nat] unfolding unat_hi32 by (simp add: less_mult_imp_div_less)
  then have "unat (ucast (drop_bit 32 v) :: u32) = unat (drop_bit 32 v)"
    unfolding unat_lo32 by simp
  then show ?thesis
    using lo_hi32 [of v] by (cases "drop_bit 32 v = 0") (simp_all add: two_digits_def)
qed

lemma two_digits_canonical: "canonical \<lparr>digits = two_digits v, neg = False\<rparr>"
proof -
  have "unat (drop_bit 32 v) < 2 ^ 32"
    using unsigned_less [of v, where ?'a = nat] unfolding unat_hi32 by (simp add: less_mult_imp_div_less)
  then have "unat (ucast (drop_bit 32 v) :: u32) = unat (drop_bit 32 v)"
    unfolding unat_lo32 by simp
  then have "drop_bit 32 v \<noteq> 0 \<Longrightarrow> (ucast (drop_bit 32 v) :: u32) \<noteq> 0"
    by (metis unat_eq_zero)
  then show ?thesis
    by (simp add: two_digits_def canonical_def haslz_def)
qed

lemma pair_word:
  fixes l h :: u32
  shows "unat (ucast l + push_bit 32 (ucast h) :: u64) = dval [l, h]"
proof -
  have "unat (push_bit 32 (ucast h :: u64)) = 2 ^ 32 * unat h"
    unfolding unsigned_push_bit_eq unat_up
    by (simp only: push_bit_eq_mult take_bit_eq_mod len_num1 len_bit0) (use u32_lt [of h] in simp)
  then show ?thesis
    using u32_lt [of l] u32_lt [of h] by (subst unat_add64) simp_all
qed

lemma div_double_ok:
  assumes "digits x = [x0, x1]" "digits y = [y0, y1]"
  shows "mag_result x y xneg qneg (div_double x y xneg qneg)"
proof -
  define X Y :: u64 where "X = ucast x0 + push_bit 32 (ucast x1)" and "Y = ucast y0 + push_bit 32 (ucast y1)"
  have X: "unat X = dval (digits x)" "unat Y = dval (digits y)"
    unfolding X_def Y_def assms by (rule pair_word)+
  have R: "X - Y * (X div Y) = X mod Y"
    by (simp add: minus_mult_div_eq_mod)
  have q: "dval (two_digits (X div Y)) = dval (digits x) div dval (digits y)"
    by (simp add: two_digits_val unat_div X)
  have r: "dval (two_digits (X mod Y)) = dval (digits x) mod dval (digits y)"
    by (simp add: two_digits_val unat_mod X)
  have "two_digits (X div Y) \<noteq> []" by (simp add: two_digits_def)
  moreover have "div_double x y xneg qneg =
      (strip_lz \<lparr>digits = two_digits (X div Y), neg = qneg\<rparr>,
       set_rem_sign \<lparr>digits = two_digits (X mod Y), neg = False\<rparr> xneg)"
    unfolding R [symmetric] by (simp add: div_double_def assms X_def Y_def Let_def)
  ultimately show ?thesis
    using strip_q [OF _ q, of qneg] set_rem_sign_ok [OF two_digits_canonical, of "X mod Y" xneg] r
    by (simp add: mag_result_def del: strip_lz_val)
qed

subsection \<open>Quotient digits\<close>

lemma quot_scaled: "W div Y * (Y div B) \<le> W div B" for W Y B :: nat
proof (cases "B = 0")
  case False
  have "W div Y * (Y div B) * B \<le> W div Y * Y"
    by (metis div_times_less_eq_dividend mult.assoc mult_le_mono2)
  also have "\<dots> \<le> W" by simp
  finally show ?thesis using False by (simp add: less_eq_div_iff_mult_less_eq)
qed simp

lemma dval_drop_Suc: "dval (drop j xs) = unat (digit_at xs j) + 2 ^ 32 * dval (drop (Suc j) xs)"
proof (cases "j < length xs")
  case True
  then have "drop j xs = xs ! j # drop (Suc j) xs" by (rule Cons_nth_drop_Suc [symmetric])
  with True show ?thesis by (simp add: digit_at_def)
qed (simp add: digit_at_def)

lemma dval_drop_add: "dval (drop (j + k) xs) = dval (drop j xs) div 2 ^ (32 * k)"
  by (simp add: dval_drop power_add div_mult2_eq distrib_left)

text \<open>The leading digits of the window from position \<open>i - t - 1\<close>.\<close>

lemma window_digits:
  assumes "length xs \<le> Suc i" "t \<ge> 1" "i > t"
  defines "W \<equiv> dval (drop (i - t - 1) xs)"
  shows "W div 2 ^ (32 * (t - 1)) = dval [digit_at xs (i - 2), digit_at xs (i - 1), digit_at xs i]"
    and "W div 2 ^ (32 * t) = unat (digit_at xs (i - 1)) + 2 ^ 32 * unat (digit_at xs i)"
    and "W div 2 ^ (32 * Suc t) = unat (digit_at xs i)"
proof -
  have z: "dval (drop (Suc i) xs) = 0" using assms(1) by simp
  have i: "dval (drop i xs) = unat (digit_at xs i)"
    using dval_drop_Suc [of i xs] z by simp
  have i1: "dval (drop (i - 1) xs) = unat (digit_at xs (i - 1)) + 2 ^ 32 * unat (digit_at xs i)"
    using dval_drop_Suc [of "i - 1" xs] i assms(2,3) by simp
  have i2: "dval (drop (i - 2) xs) = dval [digit_at xs (i - 2), digit_at xs (i - 1), digit_at xs i]"
    using dval_drop_Suc [of "i - 2" xs] i1 assms(2,3) by (simp add: numeral_2_eq_2 Suc_diff_Suc)
  have "i - t - 1 + (t - 1) = i - 2" "i - t - 1 + t = i - 1" "i - t - 1 + Suc t = i"
    using assms(2,3) by simp_all
  then show "W div 2 ^ (32 * (t - 1)) = dval [digit_at xs (i - 2), digit_at xs (i - 1), digit_at xs i]"
    "W div 2 ^ (32 * t) = unat (digit_at xs (i - 1)) + 2 ^ 32 * unat (digit_at xs i)"
    "W div 2 ^ (32 * Suc t) = unat (digit_at xs i)"
    using i i1 i2 unfolding W_def by (simp_all only: dval_drop_add [symmetric])
qed

lemma divisor_digits:
  assumes "length ys = Suc t" "t \<ge> 1"
  shows "dval ys div 2 ^ (32 * (t - 1)) = dval [ys ! (t - 1), ys ! t]"
    and "dval ys div 2 ^ (32 * t) = unat (ys ! t)"
proof -
  obtain s where s: "t = Suc s" using assms(2) by (cases t) auto
  show "dval ys div 2 ^ (32 * (t - 1)) = dval [ys ! (t - 1), ys ! t]"
    "dval ys div 2 ^ (32 * t) = unat (ys ! t)"
    using assms(1) dval_drop_Suc [of t ys] dval_drop_Suc [of s ys]
    unfolding s dval_drop [symmetric] by (simp_all add: digit_at_def)
qed

lemma estimate_ge:
  assumes "(W :: nat) div 2 ^ 32 < Y" "W div 2 ^ (32 * t) = unat x1 + 2 ^ 32 * unat x0"
    "Y div 2 ^ (32 * t) = unat ym" "W div 2 ^ (32 * Suc t) = unat x0"
  shows "W div Y \<le> unat (estimate x0 x1 ym)"
proof (cases "x0 = ym")
  case True
  have "W < 2 ^ 32 * Y"
    using assms(1) by (simp add: div_less_iff_less_mult mult.commute)
  then have "W div Y < 2 ^ 32"
    by (simp add: less_mult_imp_div_less)
  with True show ?thesis by (simp add: estimate_def)
next
  case False
  have "unat x0 = W div 2 ^ 32 div 2 ^ (32 * t)"
    unfolding assms(4) [symmetric] by (simp add: div_mult2_eq [symmetric] power_add)
  also have "\<dots> \<le> unat ym"
    using assms(1) unfolding assms(3) [symmetric] by (intro div_le_mono) simp
  finally have lt: "unat x0 < unat ym"
    using False by (simp add: le_less word_unat_eq_iff)
  define z where "z = (push_bit 32 (ucast x0) + ucast x1 :: u64)"
  have z: "unat z = unat x1 + 2 ^ 32 * unat x0"
    unfolding z_def using pair_word [of x1 x0] by (simp add: add.commute)
  have "unat z < 2 ^ 32 * unat ym"
  proof -
    have "unat z < 2 ^ 32 * Suc (unat x0)" using z u32_lt [of x1] by simp
    also have "\<dots> \<le> 2 ^ 32 * unat ym" using lt by (intro mult_le_mono2) simp
    finally show ?thesis .
  qed
  then have "unat z div unat ym < 2 ^ 32"
    by (simp add: less_mult_imp_div_less)
  then have e: "unat (estimate x0 x1 ym) = unat z div unat ym"
    using False by (simp add: estimate_def z_def [symmetric] unat_lo32 unat_div)
  have "W div Y * unat ym \<le> unat z"
    using quot_scaled [of W Y "2 ^ (32 * t)"] unfolding assms(2,3) z .
  then show ?thesis
    unfolding e using lt by (simp add: less_eq_div_iff_mult_less_eq)
qed

lemma adjust_ok:
  "\<lbrakk>Q \<le> unat qd; Q * dval y2 \<le> dval xm3; canonical \<lparr>digits = y2, neg = False\<rparr>\<rbrakk> \<Longrightarrow>
    Q \<le> unat (adjust y2 xm3 qd) \<and> unat (adjust y2 xm3 qd) * dval y2 \<le> dval xm3"
proof (induction y2 xm3 qd rule: adjust.induct)
  case (1 y2 xm3 qd)
  have m: "compare (mul_int \<lparr>digits = y2, neg = False\<rparr> qd False) \<lparr>digits = xm3, neg = False\<rparr> > 0 \<longleftrightarrow>
           dval xm3 < unat qd * dval y2"
  proof -
    let ?p = "mul_int \<lparr>digits = y2, neg = False\<rparr> qd False"
    have p: "canonical ?p" "val ?p = int (dval y2 * unat qd)"
      using mul_int_ok [OF 1(4), of qd False] by (simp_all add: val_def)
    then have "\<not> neg ?p"
      using canonical_val_nonneg [of ?p] by simp
    then have "compare ?p \<lparr>digits = xm3, neg = False\<rparr> = sgn (int (dval y2 * unat qd) - int (dval xm3))"
      using compare_nonneg [of ?p "\<lparr>digits = xm3, neg = False\<rparr>"] p(2) by (simp add: val_def [of "\<lparr>digits = xm3, neg = False\<rparr>"])
    then have "compare ?p \<lparr>digits = xm3, neg = False\<rparr> > 0 \<longleftrightarrow> int (dval xm3) < int (dval y2 * unat qd)"
      by (simp del: of_nat_mult)
    then show ?thesis
      unfolding of_nat_less_iff by (simp add: mult.commute)
  qed
  show ?case
  proof (cases "dval xm3 < unat qd * dval y2")
    case True
    then have "Q * dval y2 < unat qd * dval y2" using 1(3) by linarith
    then have "Q < unat qd" by simp
    then have "Q \<le> unat (qd - 1)" by (cases "qd = 0") (simp_all add: unat_minus_one)
    with 1 True m show ?thesis by (simp add: adjust.simps [of y2 xm3 qd])
  next
    case False
    with 1 m show ?thesis by (simp add: adjust.simps [of y2 xm3 qd])
  qed
qed

subsection \<open>One step of the long division\<close>

text \<open>
  The state before step \<open>i\<close>: the digits above \<open>i\<close> are gone, the part above the window is
  smaller than the divisor, and the quotient digits to come are zero.
\<close>

definition div_inv :: "BigNum \<Rightarrow> nat \<Rightarrow> nat \<Rightarrow> u32 list \<times> u32 list \<Rightarrow> bool" where
  "div_inv y t i = (\<lambda>(xs, q).
     length xs \<le> Suc i \<and> i - t \<le> length xs \<and> dval (drop (i - t) xs) < dval (digits y) \<and>
     i - t \<le> length q \<and> (\<forall>j<i - t. q ! j = 0))"

lemma dval_update:
  "\<lbrakk>d < length q; q ! d = 0\<rbrakk> \<Longrightarrow> dval (q[d := v]) = dval q + 2 ^ (32 * d) * unat v"
  by (induction q arbitrary: d) (auto simp: nth_Cons power_add algebra_simps split: nat.splits)

lemma mul_int_mag:
  assumes "canonical y" "\<not> neg y"
  shows "\<not> neg (mul_int y b False)" "canonical (mul_int y b False)"
    "dval (digits (mul_int y b False)) = dval (digits y) * unat b"
proof -
  show c: "canonical (mul_int y b False)" using mul_int_ok [OF assms(1)] by blast
  have v: "val (mul_int y b False) = int (dval (digits y) * unat b)"
    using mul_int_ok [OF assms(1), of b False] assms(2) by (simp add: val_def [of y])
  then show n: "\<not> neg (mul_int y b False)"
    using canonical_val_nonneg [OF c] by simp
  show "dval (digits (mul_int y b False)) = dval (digits y) * unat b"
    using v n by (simp add: val_def del: of_nat_mult)
qed

lemma quotient_digit:
  assumes y: "canonical y" "length (digits y) = Suc t" "t \<ge> 1"
    and i: "i > t" and inv: "div_inv y t i (xs, q)"
  defines "W \<equiv> dval (drop (i - t - 1) xs)" and "Y \<equiv> dval (digits y)"
  defines "qd \<equiv> adjust [digits y ! (t - 1), digits y ! t]
                  [digit_at xs (i - 2), digit_at xs (i - 1), digit_at xs i]
                  (estimate (digit_at xs i) (digit_at xs (i - 1)) (digits y ! t))"
  shows "W div Y \<le> unat qd" and "t = 1 \<Longrightarrow> unat qd * Y \<le> W" and "W div Y < 2 ^ 32"
proof -
  have len: "length xs \<le> Suc i" and top: "dval (drop (i - t) xs) < Y"
    using inv by (auto simp: div_inv_def Y_def)
  note w = window_digits [OF len y(3) i, folded W_def]
  note yd = divisor_digits [OF y(2,3), folded Y_def]
  have d: "Suc (i - t - 1) = i - t" using i by simp
  have "W div 2 ^ 32 < Y"
    using top dval_drop_add [of "i - t - 1" 1 xs] d unfolding W_def by simp
  note est = estimate_ge [OF this w(2) yd(2) w(3)]
  have "W < Y * 2 ^ 32"
    using \<open>W div 2 ^ 32 < Y\<close> by (simp add: div_less_iff_less_mult)
  then show "W div Y < 2 ^ 32"
    by (simp add: less_mult_imp_div_less mult.commute)
  have "digits y ! t \<noteq> 0"
    using y by (auto simp: canonical_def haslz_def last_conv_nth)
  then have c: "canonical \<lparr>digits = [digits y ! (t - 1), digits y ! t], neg = False\<rparr>"
    by (simp add: canonical_def haslz_def)
  note a = adjust_ok [OF est quot_scaled [of W Y "2 ^ (32 * (t - 1))", unfolded w(1) yd(1)] c, folded qd_def]
  show "W div Y \<le> unat qd" using a by blast
  show "unat qd * Y \<le> W" if "t = 1"
    using a w(1) yd(1) that by simp
qed

lemma take_drop_split:
  "d \<le> length xs \<Longrightarrow> dval (take d xs @ ws) = dval (take d xs) + 2 ^ (32 * d) * dval ws"
  by (simp add: dval_append)

lemma div_step_ok:
  assumes y: "canonical y" "\<not> neg y" "length (digits y) = Suc t" "t \<ge> 1"
    and i: "i > t" and inv: "div_inv y t i (xs, q)"
    and s: "div_step y t i (xs, q) = Some (xs', q')"
  shows "div_inv y t (i - 1) (xs', q') \<and>
    dval xs div dval (digits y) + dval q = dval xs' div dval (digits y) + dval q' \<and>
    dval xs mod dval (digits y) = dval xs' mod dval (digits y) \<and>
    (i = Suc t \<longrightarrow> canonical \<lparr>digits = xs', neg = False\<rparr>) \<and> length q' = length q \<and>
    (\<forall>j\<ge>i - t. q' ! j = q ! j)"
proof -
  define d where "d = i - t - 1"
  define W where "W = dval (drop d xs)"
  define Y where "Y = dval (digits y)"
  define qd where "qd = adjust [digits y ! (t - 1), digits y ! t]
                  [digit_at xs (i - 2), digit_at xs (i - 1), digit_at xs i]
                  (estimate (digit_at xs i) (digit_at xs (i - 1)) (digits y ! t))"
  have d: "d < length xs" "d < length q" "q ! d = 0" "\<forall>j<d. q ! j = 0" "length xs \<le> Suc i"
    using inv i by (auto simp: div_inv_def d_def)
  have qdig: "W div Y \<le> unat qd" "W div Y < 2 ^ 32"
    using quotient_digit [OF y(1,3,4) i inv] by (simp_all add: W_def Y_def d_def qd_def)
  have Y: "Y > 0" using inv by (auto simp: div_inv_def Y_def)
  have step: "div_step y t i (xs, q) =
      Option.bind (sub \<lparr>digits = drop d xs, neg = False\<rparr> (mul_int y qd False) 0) (\<lambda>w.
          if compare w (of_u32 0) < 0
          then Option.bind (plus_assign w y) (\<lambda>w'. Some (take d xs @ digits w', q[d := qd - 1]))
          else Some (take d xs @ digits w, q[d := qd]))"
    unfolding div_step_def Let_def d_def qd_def prod.case ..
  obtain w where w: "sub \<lparr>digits = drop d xs, neg = False\<rparr> (mul_int y qd False) 0 = Some w"
    using s unfolding step by (cases "sub \<lparr>digits = drop d xs, neg = False\<rparr> (mul_int y qd False) 0") simp_all
  have ex: "dval (digits w) + Y * unat qd = W" "canonical w" "\<not> neg w"
    using sub_exact [OF w] mul_int_mag [OF y(1,2), of qd] d(1) by (simp_all add: W_def Y_def)
  have qq: "unat qd = W div Y"
  proof (rule antisym)
    show "unat qd \<le> W div Y"
      using ex(1) Y by (simp add: less_eq_div_iff_mult_less_eq mult.commute [of _ Y])
  qed (rule qdig(1))
  then have wm: "dval (digits w) = W mod Y"
    using ex(1) by (metis add_diff_cancel_right' minus_mult_div_eq_mod mult.commute)
  have r: "xs' = take d xs @ digits w" "q' = q[d := qd]"
    using s ex(3) unfolding step w by (auto simp: compare_nonneg of_u32_def val_def sgn_if split: if_splits)
  have wl: "dval (digits w) < Y" using wm Y by simp
  then have "length (digits w) \<le> Suc t"
    using canonical_length_bound [OF ex(2), of "Suc t"] dval_less [of "digits y"] y(3) unfolding Y_def by simp
  moreover have "length (digits w) \<ge> 1"
    using canonical_nonempty [OF ex(2)] by (simp add: Suc_le_eq)
  moreover have "drop d xs' = digits w"
    using d(1) by (simp add: r)
  moreover have di: "i - 1 - t = d" "d + Suc t = i" using i by (simp_all add: d_def)
  ultimately have i1: "div_inv y t (i - 1) (xs', q')"
    using wl d i by (auto simp: div_inv_def r Y_def)
  have xs: "dval xs = dval xs' + 2 ^ (32 * d) * (W div Y) * Y"
  proof -
    have "dval xs = dval (take d xs) + 2 ^ (32 * d) * W"
      using dval_take_drop [of xs d] d(1) by (simp add: W_def)
    also have "2 ^ (32 * d) * W = 2 ^ (32 * d) * (W mod Y + W div Y * Y)" by simp
    also have "dval (take d xs) + \<dots> = dval (take d xs) + 2 ^ (32 * d) * (W mod Y) + 2 ^ (32 * d) * (W div Y) * Y"
      by (simp only: distrib_left mult.assoc add.assoc)
    finally show ?thesis
      using take_drop_split [of d xs "digits w"] d(1) wm by (simp only: r)
  qed
  have "dval q' = dval q + 2 ^ (32 * d) * (W div Y)"
    using dval_update [OF d(2,3), of qd] by (simp add: r qq)
  moreover have "dval xs div Y = dval xs' div Y + 2 ^ (32 * d) * (W div Y)" "dval xs mod Y = dval xs' mod Y"
    using Y unfolding xs by simp_all
  moreover have "i = Suc t \<longrightarrow> canonical \<lparr>digits = xs', neg = False\<rparr>"
    using ex(2,3) by (auto simp: r d_def canonical_def haslz_def)
  moreover have "\<forall>j\<ge>i - t. q' ! j = q ! j"
    using di i by (auto simp: r)
  ultimately show ?thesis
    using i1 by (simp add: Y_def r)
qed

lemma div_step_returns:
  assumes y: "canonical y" "\<not> neg y" "length (digits y) = 2"
    and i: "i > 1" and inv: "div_inv y 1 i (xs, q)"
  shows "\<exists>s. div_step y 1 i (xs, q) = Some s"
proof -
  define d where "d = i - 1 - 1"
  define qd where "qd = adjust [digits y ! (1 - 1), digits y ! 1]
                  [digit_at xs (i - 2), digit_at xs (i - 1), digit_at xs i]
                  (estimate (digit_at xs i) (digit_at xs (i - 1)) (digits y ! 1))"
  have "unat qd * dval (digits y) \<le> dval (drop d xs)"
    using quotient_digit(2) [OF y(1) _ _ i inv] y(3) by (simp add: d_def qd_def)
  moreover have "d < length xs"
    using inv i by (auto simp: div_inv_def d_def)
  ultimately obtain w where
    w: "sub \<lparr>digits = drop d xs, neg = False\<rparr> (mul_int y qd False) 0 = Some w"
    using sub_returns [of "\<lparr>digits = drop d xs, neg = False\<rparr>" "mul_int y qd False"]
      mul_int_mag [OF y(1,2), of qd] by (auto simp: mult.commute)
  then have "\<not> neg w"
    using sub_exact(3) [OF w] mul_int_mag [OF y(1,2), of qd] \<open>d < length xs\<close> by simp
  then have "\<not> compare w (of_u32 0) < 0"
    by (simp add: compare_nonneg of_u32_def val_def sgn_if)
  with w show ?thesis
    by (simp add: div_step_def Let_def d_def qd_def)
qed

lemma div_loop_ok:
  assumes y: "canonical y" "\<not> neg y" "length (digits y) = Suc t" "t \<ge> 1"
  shows "\<lbrakk>div_inv y t i (xs, q); div_loop y t i (xs, q) = Some (xs', q')\<rbrakk> \<Longrightarrow>
    dval q' = dval q + dval xs div dval (digits y) \<and> dval xs' = dval xs mod dval (digits y) \<and>
    (i > t \<longrightarrow> canonical \<lparr>digits = xs', neg = False\<rparr>) \<and> (i \<le> t \<longrightarrow> xs' = xs) \<and>
    length q' = length q \<and> (\<forall>j\<ge>i - t. q' ! j = q ! j)"
proof (induction i arbitrary: xs q)
  case 0
  then show ?case by (auto simp: div_inv_def)
next
  case (Suc i)
  show ?case
  proof (cases "Suc i > t")
    case False
    then have "i - t = 0" "Suc i - t = 0" by simp_all
    with Suc.prems False show ?thesis by (auto simp: div_inv_def)
  next
    case True
    then obtain xs1 q1 where s: "div_step y t (Suc i) (xs, q) = Some (xs1, q1)"
      "div_loop y t i (xs1, q1) = Some (xs', q')"
      using Suc.prems(2) by (cases "div_step y t (Suc i) (xs, q)") auto
    note st = div_step_ok [OF y True Suc.prems(1) s(1)]
    then have inv: "div_inv y t i (xs1, q1)" by simp
    note ih = Suc.IH [OF inv s(2)]
    have "canonical \<lparr>digits = xs', neg = False\<rparr>"
      using ih st True by (cases "i > t") auto
    with ih st True show ?thesis by (auto simp: Suc_diff_le)
  qed
qed

lemma div_loop_returns:
  assumes y: "canonical y" "\<not> neg y" "length (digits y) = 2"
  shows "div_inv y 1 i st \<Longrightarrow> \<exists>s. div_loop y 1 i st = Some s"
proof (induction i arbitrary: st)
  case (Suc i)
  obtain xs q where st: "st = (xs, q)" by (cases st)
  show ?case
  proof (cases "Suc i > 1")
    case True
    have "\<exists>s. div_step y 1 (Suc i) (xs, q) = Some s"
      using div_step_returns [OF y True] Suc.prems st by blast
    then obtain xs1 q1 where s: "div_step y 1 (Suc i) (xs, q) = Some (xs1, q1)"
      by auto
    have "div_inv y 1 i (xs1, q1)"
      using div_step_ok [OF y(1,2) _ _ True _ s] Suc.prems st y(3) by simp
    from Suc.IH [OF this] s True show ?thesis by (auto simp: st)
  qed simp
qed simp

subsection \<open>Normalisation\<close>

lemma canonical_length_ge:
  assumes "canonical n" "2 ^ (32 * k) \<le> dval (digits n)"
  shows "k < length (digits n)"
proof (rule ccontr)
  assume "\<not> k < length (digits n)"
  then have "(2 :: nat) ^ (32 * length (digits n)) \<le> 2 ^ (32 * k)"
    by (intro power_increasing) auto
  with assms(2) dval_less [of "digits n"] show False by linarith
qed

text \<open>
  The digits the long division works on: the same quotient, a remainder scaled by the same
  power of two, and a divisor of the same length whose top bit is set.
\<close>

definition normalised :: "BigNum \<Rightarrow> nat \<Rightarrow> BigNum" where
  "normalised x k = (if k \<noteq> 0 then op_shl x k else x)"

lemma normalised_ok:
  assumes "canonical x" "\<not> neg x"
  shows "canonical (normalised x k)" "\<not> neg (normalised x k)"
    "dval (digits (normalised x k)) = dval (digits x) * 2 ^ k"
proof -
  have v: "canonical (normalised x k) \<and> val (normalised x k) = int (dval (digits x) * 2 ^ k)"
    using assms op_shl_ok [OF canonical_nonempty [OF assms(1)], of k]
    by (simp add: normalised_def val_def [of x])
  then show c: "canonical (normalised x k)" ..
  show n: "\<not> neg (normalised x k)" using v canonical_val_nonneg [OF c] by simp
  show "dval (digits (normalised x k)) = dval (digits x) * 2 ^ k"
    using v n by (simp add: val_def del: of_nat_mult of_nat_power)
qed

lemma normalised_divisor:
  assumes y: "canonical y" "\<not> neg y" "length (digits y) = Suc t" "t \<ge> 1"
  defines "k \<equiv> 31 - log2 (digits y ! t)"
  shows "length (digits (normalised y k)) = Suc t"
    and "2 ^ (32 * Suc t) \<le> 2 * dval (digits (normalised y k))"
proof -
  have nz: "digits y ! t \<noteq> 0"
    using y by (auto simp: canonical_def haslz_def last_conv_nth)
  note l = log2_bounds [OF nz]
  have t: "dval (digits y) = dval (take t (digits y)) + 2 ^ (32 * t) * unat (digits y ! t)"
    using dval_take_Suc [of t "digits y"] y(3) by simp
  have k: "log2 (digits y ! t) + k = 31" using l(3) by (simp add: k_def)
  note n = normalised_ok [OF y(1,2), of k]
  have "32 * t + 31 = 32 * t + log2 (digits y ! t) + k" using k by simp
  then have "(2 :: nat) ^ (32 * t) * 2 ^ 31 = 2 ^ (32 * t) * 2 ^ log2 (digits y ! t) * 2 ^ k"
    by (simp only: power_add [symmetric])
  also have "\<dots> \<le> 2 ^ (32 * t) * unat (digits y ! t) * 2 ^ k"
    using l(1) by simp
  also have "\<dots> \<le> dval (digits (normalised y k))"
    unfolding n(3) t by simp
  finally have lo: "2 ^ (32 * t) * 2 ^ 31 \<le> dval (digits (normalised y k))" .
  then show "2 ^ (32 * Suc t) \<le> 2 * dval (digits (normalised y k))"
    by (simp add: power_add)
  have "dval (digits y) < 2 ^ (32 * t) * Suc (unat (digits y ! t))"
    unfolding t using dval_less [of "take t (digits y)"] y(3) by simp
  also have "\<dots> \<le> 2 ^ (32 * t) * 2 ^ Suc (log2 (digits y ! t))"
    using l(2) by (intro mult_le_mono2) simp
  finally have "dval (digits y) * 2 ^ k < 2 ^ (32 * t) * 2 ^ Suc (log2 (digits y ! t)) * 2 ^ k"
    by simp
  also have "\<dots> = 2 ^ (32 * t + Suc (log2 (digits y ! t)) + k)"
    by (simp only: power_add)
  also have "32 * t + Suc (log2 (digits y ! t)) + k = 32 * Suc t"
    using k by simp
  finally have "length (digits (normalised y k)) \<le> Suc t"
    unfolding n(3) [symmetric] by (intro canonical_length_bound [OF n(1)]) simp_all
  moreover have "t < length (digits (normalised y k))"
    using lo by (intro canonical_length_ge [OF n(1)]) simp
  ultimately show "length (digits (normalised y k)) = Suc t" by simp
qed

lemma top_loop_ok:
  assumes y: "canonical y" "\<not> neg y" "0 < dval (digits y)"
    and w: "digits w \<noteq> []" "\<not> neg w" "dval (digits w) < 2 * dval (digits y)"
  shows "\<exists>w' qd. top_loop w y 0 = Some (w', qd) \<and>
    unat qd = dval (digits w) div dval (digits y) \<and> dval (digits w') = dval (digits w) mod dval (digits y) \<and>
    digits w' \<noteq> [] \<and> length (digits w') \<le> length (digits w) \<and> (w' = w \<or> canonical w') \<and> \<not> neg w'"
proof (cases "dval (digits w) < dval (digits y)")
  case True
  then have "\<not> compare w y \<ge> 0"
    using y w by (simp add: compare_nonneg val_def sgn_if)
  then have "top_loop w y 0 = Some (w, 0)"
    by (subst top_loop.simps) simp
  with True w show ?thesis by simp
next
  case False
  then obtain w' where w': "sub w y 0 = Some w'"
    using sub_returns [OF w(2) y(2,1) w(1)] by auto
  note e = sub_exact [OF w' w(2) y(2) w(1)]
  have lt: "dval (digits w') < dval (digits y)" using e(1) w(3) by linarith
  then have "\<not> compare w' y \<ge> 0" "compare w y \<ge> 0"
    using y w e False by (simp_all add: compare_nonneg val_def sgn_if)
  then have "top_loop w y 0 = Some (w', 1)"
    using w' by (subst top_loop.simps) (simp add: top_loop.simps [of w'])
  moreover have "dval (digits w) div dval (digits y) = 1" "dval (digits w) mod dval (digits y) = dval (digits w')"
    using e(1) lt y(3) by (metis add.commute add_cancel_right_right div_add_self2 div_less less_nat_zero_code plus_1_eq_Suc One_nat_def, metis e(1) lt mod_add_self2 mod_less)
  ultimately show ?thesis
    using e canonical_nonempty by auto
qed

subsection \<open>Long division\<close>

lemma dval_take_zeros:
  assumes "\<forall>j. k \<le> j \<and> j < length q \<longrightarrow> q ! j = 0"
  shows "dval (take k q) = dval q"
proof -
  have "drop k q = replicate (length q - k) 0"
    using assms by (intro nth_equalityI) auto
  then show ?thesis using dval_take_drop [of q k] by simp
qed

text \<open>The state in which the loop starts, after the most significant quotient digit.\<close>

definition div_start :: "BigNum \<Rightarrow> nat \<Rightarrow> nat \<Rightarrow> BigNum \<Rightarrow> u32 \<Rightarrow> u32 list \<times> u32 list" where
  "div_start x d m w qd = (take d (digits x) @ digits w, (replicate m 0)[d := qd])"

lemma div_start_ok:
  assumes x: "canonical x" "\<not> neg x" and y: "canonical y" "\<not> neg y" "length (digits y) = Suc t"
    and norm: "2 ^ (32 * Suc t) \<le> 2 * dval (digits y)" and len: "t < length (digits x)"
  defines "n \<equiv> length (digits x) - 1"
  defines "d \<equiv> n - t"
  assumes m: "d < m"
  shows "\<exists>w qd. top_loop \<lparr>digits = drop d (digits x), neg = False\<rparr> y 0 = Some (w, qd) \<and>
    div_inv y t n (div_start x d m w qd) \<and>
    dval (digits x) = dval (fst (div_start x d m w qd)) + 2 ^ (32 * d) * unat qd * dval (digits y) \<and>
    dval (snd (div_start x d m w qd)) = 2 ^ (32 * d) * unat qd \<and>
    (d = 0 \<longrightarrow> canonical \<lparr>digits = fst (div_start x d m w qd), neg = False\<rparr>)"
proof -
  let ?w = "\<lparr>digits = drop d (digits x), neg = False\<rparr>"
  have d: "d + Suc t = length (digits x)" using len by (simp add: d_def n_def)
  have Y: "0 < dval (digits y)" using norm by (rule_tac ccontr) simp
  have "dval (drop d (digits x)) < 2 ^ (32 * Suc t)"
    using dval_less [of "drop d (digits x)"] d by (metis add_diff_cancel_left' length_drop)
  then have W: "dval (digits ?w) < 2 * dval (digits y)" using norm by simp
  have ne: "digits ?w \<noteq> []" using d by auto
  obtain w' qd where w: "top_loop ?w y 0 = Some (w', qd)"
    "unat qd = dval (drop d (digits x)) div dval (digits y)"
    "dval (digits w') = dval (drop d (digits x)) mod dval (digits y)"
    "digits w' \<noteq> []" "length (digits w') \<le> length (drop d (digits x))" "w' = ?w \<or> canonical w'" "\<not> neg w'"
    using top_loop_ok [OF y(1,2) Y ne _ W] by auto
  have lt: "length (take d (digits x)) = d" using d by simp
  have 1: "div_inv y t n (div_start x d m w' qd)"
    using d w(3,5) Y m by (auto simp: div_inv_def div_start_def n_def d_def lt)
  have "dval (digits x) = dval (take d (digits x)) + 2 ^ (32 * d) * dval (drop d (digits x))"
    using dval_take_drop [of "digits x" d] lt by simp
  also have "dval (drop d (digits x)) = dval (digits w') + unat qd * dval (digits y)"
    unfolding w(2,3) by simp
  also have "dval (take d (digits x)) + 2 ^ (32 * d) * (dval (digits w') + unat qd * dval (digits y)) =
      dval (fst (div_start x d m w' qd)) + 2 ^ (32 * d) * unat qd * dval (digits y)"
    using d by (simp add: div_start_def dval_append distrib_left min_absorb2)
  finally have 2: "dval (digits x) =
      dval (fst (div_start x d m w' qd)) + 2 ^ (32 * d) * unat qd * dval (digits y)" .
  have 3: "dval (snd (div_start x d m w' qd)) = 2 ^ (32 * d) * unat qd"
    using m by (simp add: div_start_def dval_update)
  have 4: "d = 0 \<longrightarrow> canonical \<lparr>digits = fst (div_start x d m w' qd), neg = False\<rparr>"
    using w(6,7) x by (auto simp: div_start_def canonical_def haslz_def)
  from w(1) 1 2 3 4 show ?thesis by blast
qed

lemma div_long_mag:
  assumes x: "canonical x" "\<not> neg x" and y: "canonical y" "\<not> neg y" "length (digits y) = Suc t" "t \<ge> 1"
    and le: "dval (digits y) \<le> dval (digits x)"
  shows "(\<forall>qr. div_long x y xneg qneg = Some qr \<longrightarrow> mag_result x y xneg qneg qr) \<and>
         (t = 1 \<longrightarrow> (\<exists>qr. div_long x y xneg qneg = Some qr))"
proof -
  define k where "k = 31 - log2 (digits y ! t)"
  define x' y' where "x' = normalised x k" and "y' = normalised y k"
  define n where "n = length (digits x') - 1"
  define d where "d = n - t"
  define m where "m = length (digits x) - 1 - t + 2"
  note x' = normalised_ok [OF x, of k, folded x'_def]
  note y' = normalised_ok [OF y(1,2), of k, folded y'_def]
  note yn = normalised_divisor [OF y, folded k_def y'_def]
  have tx: "t < length (digits x')"
    using canonical_length_mono [OF y'(1) x'(1)] le yn(1) x'(3) y'(3) by simp
  have tx0: "t < length (digits x)"
    using canonical_length_mono [OF y(1) x(1) le] y(3) by simp
  have "dval (digits x') < 2 ^ (32 * length (digits x)) * 2 ^ k"
    unfolding x'(3) using dval_less by simp
  also have "\<dots> \<le> 2 ^ (32 * length (digits x)) * 2 ^ 32"
    by (intro mult_le_mono2 power_increasing) (simp_all add: k_def)
  also have "\<dots> = 2 ^ (32 * Suc (length (digits x)))"
    by (simp add: power_add)
  finally have "length (digits x') \<le> Suc (length (digits x))"
    by (intro canonical_length_bound [OF x'(1)]) simp_all
  then have m: "d < m" using tx0 by (simp add: d_def n_def m_def)
  obtain w qd where st: "top_loop \<lparr>digits = drop d (digits x'), neg = False\<rparr> y' 0 = Some (w, qd)"
    "div_inv y' t n (div_start x' d m w qd)"
    "dval (digits x') = dval (fst (div_start x' d m w qd)) + 2 ^ (32 * d) * unat qd * dval (digits y')"
    "dval (snd (div_start x' d m w qd)) = 2 ^ (32 * d) * unat qd"
    "d = 0 \<longrightarrow> canonical \<lparr>digits = fst (div_start x' d m w qd), neg = False\<rparr>"
    using div_start_ok [OF x'(1,2) y'(1,2) yn tx, folded n_def, folded d_def, OF m] by blast
  define F where "F = (\<lambda>(xs, q).
      Option.bind (if k \<noteq> 0 then right_shift \<lparr>digits = xs, neg = False\<rparr> k
                   else Some \<lparr>digits = xs, neg = False\<rparr>)
        (\<lambda>x. Some (strip_lz \<lparr>digits = take (if qd \<noteq> 0 then d + 1 else max 1 d) q, neg = qneg\<rparr>,
                   set_rem_sign (strip_lz x) xneg)))"
  have t: "length (digits y) - 1 = t" using y(3) by simp
  have eq: "div_long x y xneg qneg = Option.bind (div_loop y' t n (div_start x' d m w qd)) F"
    unfolding div_long_def Let_def t k_def [symmetric]
    unfolding normalised_def [symmetric] x'_def [symmetric] y'_def [symmetric] m_def [symmetric]
    unfolding n_def [symmetric] unfolding d_def [symmetric]
    unfolding st(1) Option.bind.simps prod.case F_def div_start_def ..
  have res: "\<exists>qr. F (xs, q) = Some qr \<and> mag_result x y xneg qneg qr" if
    loop: "div_loop y' t n (div_start x' d m w qd) = Some (xs, q)" for xs q
  proof -
    obtain xs0 q0 where s0: "div_start x' d m w qd = (xs0, q0)" by (cases "div_start x' d m w qd")
    note l = div_loop_ok [OF y'(1,2) yn(1) y(4) st(2) [unfolded s0] loop [unfolded s0]]
    have Y: "dval (digits y') > 0" using st(2) by (auto simp: div_inv_def split: prod.splits)
    have dx: "dval (digits x') = dval xs0 + 2 ^ (32 * d) * unat qd * dval (digits y')"
      using st(3) s0 by simp
    have "dval q = dval (digits x') div dval (digits y')"
      using l st(4) s0 Y unfolding dx by simp
    then have q: "dval q = dval (digits x) div dval (digits y)"
      by (simp add: x'(3) y'(3))
    have "dval xs = dval (digits x') mod dval (digits y')"
      using l unfolding dx by simp
    then have r: "dval xs = dval (digits x) mod dval (digits y) * 2 ^ k"
      by (simp add: x'(3) y'(3) mult_mod_left)
    have xc: "canonical \<lparr>digits = xs, neg = False\<rparr>"
      using l st(5) s0 by (cases "n > t") (auto simp: d_def)
    have q0: "q0 = (replicate m 0)[d := qd]" using s0 by (simp add: div_start_def)
    have qz: "\<forall>j. (if qd \<noteq> 0 then d + 1 else max 1 d) \<le> j \<and> j < length q \<longrightarrow> q ! j = 0"
      using l m by (auto simp: q0 d_def nth_list_update split: if_splits)
    have lq: "take (if qd \<noteq> 0 then d + 1 else max 1 d) q \<noteq> []"
      using l m by (auto simp: q0 simp flip: length_greater_0_conv)
    note sq = strip_q [OF lq, of "dval (digits x) div dval (digits y)" qneg, unfolded dval_take_zeros [OF qz], OF q]
    obtain x2 where x2: "(if k \<noteq> 0 then right_shift \<lparr>digits = xs, neg = False\<rparr> k
                   else Some \<lparr>digits = xs, neg = False\<rparr>) = Some x2" "canonical x2" "\<not> neg x2"
      "dval (digits x2) = dval (digits x) mod dval (digits y)"
      using right_shift_ok [OF xc, of k] xc r by (cases "k = 0") auto
    have "F (xs, q) = Some (strip_lz \<lparr>digits = take (if qd \<noteq> 0 then d + 1 else max 1 d) q, neg = qneg\<rparr>,
                            set_rem_sign x2 xneg)"
      unfolding F_def prod.case x2(1) Option.bind.simps strip_lz_id [OF x2(2)] ..
    then show ?thesis
      using sq set_rem_sign_ok [OF x2(2,3), of xneg] x2(4)
      by (simp add: mag_result_def del: strip_lz_val)
  qed
  show ?thesis
  proof (intro conjI allI impI)
    fix qr assume a: "div_long x y xneg qneg = Some qr"
    then obtain xs q where "div_loop y' t n (div_start x' d m w qd) = Some (xs, q)" "F (xs, q) = Some qr"
      unfolding eq by (cases "div_loop y' t n (div_start x' d m w qd)") auto
    with res show "mag_result x y xneg qneg qr" by fastforce
  next
    assume t1: "t = 1"
    then have "\<exists>s. div_loop y' t n (div_start x' d m w qd) = Some s"
      using div_loop_returns [OF y'(1,2)] yn(1) st(2) by simp
    then obtain xs q where "div_loop y' t n (div_start x' d m w qd) = Some (xs, q)" by auto
    with res show "\<exists>qr. div_long x y xneg qneg = Some qr" by (fastforce simp: eq)
  qed
qed

subsection \<open>The operators\<close>

lemma mag_result_signed:
  assumes "canonical a" "canonical b" "val b \<noteq> 0"
    and "mag_result (abs_BigNum a) (abs_BigNum b) (neg a) (neg a \<noteq> neg b) (q, r)"
  shows "canonical q \<and> canonical r \<and> val q = val a sdiv val b \<and> val r = val a smod val b"
proof -
  have m: "int (dval (digits n)) = \<bar>val n\<bar>" for n by (simp add: val_def)
  have n: "neg a \<longleftrightarrow> val a < 0" "neg b \<longleftrightarrow> val b < 0"
    using canonical_neg assms by auto
  have "val q = (if (val a < 0) \<noteq> (val b < 0) then -1 else 1) * (\<bar>val a\<bar> div \<bar>val b\<bar>)"
    "val r = (if val a < 0 then -1 else 1) * (\<bar>val a\<bar> mod \<bar>val b\<bar>)"
    "canonical q" "canonical r"
    using assms(4) by (simp_all add: mag_result_def n zdiv_int zmod_int m)
  with assms(3) show ?thesis
    by (auto simp: signed_divide_int_def signed_modulo_int_def sgn_if)
qed

lemma abs_digits: "canonical n \<Longrightarrow> digits (abs_BigNum n) = digits n"
  by (simp add: abs_BigNum_def unary_minus_def Let_def)

text \<open>
  The quotient and the remainder are those of truncating division, but for one case: when
  the numbers have one magnitude and opposite signs the quotient comes out as 1.
\<close>

definition div_result :: "BigNum \<Rightarrow> BigNum \<Rightarrow> BigNum \<times> BigNum \<Rightarrow> bool" where
  "div_result a b = (\<lambda>(q, r).
     canonical q \<and> canonical r \<and>
     val q = (if val a = - val b then 1 else val a sdiv val b) \<and>
     val r = val a smod val b)"

lemma div_ok:
  assumes a: "canonical a" and b: "canonical b" and nz: "val b \<noteq> 0"
  shows "(\<forall>qr. div_BigNum a b = Some qr \<longrightarrow> div_result a b qr) \<and>
         (length (digits b) \<le> 2 \<longrightarrow> div_BigNum a b \<noteq> None)"
proof -
  let ?x = "abs_BigNum a" and ?y = "abs_BigNum b"
  have x: "canonical ?x" "\<not> neg ?x" "val ?x = \<bar>val a\<bar>" and y: "canonical ?y" "\<not> neg ?y" "val ?y = \<bar>val b\<bar>"
    using abs_ok [OF a] abs_ok [OF b] canonical_val_nonneg by auto
  have dv: "int (dval (digits n)) = \<bar>val n\<bar>" for n
    by (simp add: val_def)
  have cmp: "compare ?x ?y = sgn (\<bar>val a\<bar> - \<bar>val b\<bar>)"
    using compare_nonneg [OF x(2) y(2)] x y by simp
  consider "\<bar>val a\<bar> < \<bar>val b\<bar>" | "\<bar>val a\<bar> = \<bar>val b\<bar>" | "\<bar>val a\<bar> > \<bar>val b\<bar>" by linarith
  then show ?thesis
  proof cases
    case 1
    then have "div_BigNum a b = Some (of_u32 0, a)"
      using cmp by (simp add: div_BigNum_def)
    moreover have "val a sdiv val b = 0" "val a smod val b = val a"
      using 1 by (simp_all add: signed_divide_int_def signed_modulo_int_def) (simp add: sgn_if)
    ultimately show ?thesis using 1 a by (auto simp: div_result_def)
  next
    case 2
    then have "div_BigNum a b = Some (of_u32 1, zero)"
      using cmp by (simp add: div_BigNum_def)
    moreover have "val a sdiv val b = 1" if "val a = val b"
      using that nz by (simp add: signed_divide_int_def sgn_if)
    moreover have "val a smod val b = 0"
      using 2 by (simp add: signed_modulo_int_def)
    ultimately show ?thesis using 2 by (auto simp: div_result_def abs_eq_iff)
  next
    case 3
    have ne: "val a \<noteq> - val b" using 3 by auto
    have sgn: "div_result a b qr" if "mag_result ?x ?y (neg a) (neg a \<noteq> neg b) qr" for qr
      using mag_result_signed [OF a b nz, of "fst qr" "snd qr"] that ne
      by (cases qr) (simp add: div_result_def)
    have le: "dval (digits ?y) \<le> dval (digits ?x)"
      using 3 dv [of ?x] dv [of ?y] x(3) y(3) by simp
    have len: "length (digits ?y) \<le> length (digits ?x)"
      using canonical_length_mono [OF y(1) x(1) le] .
    consider "length (digits ?y) = 1" | "length (digits ?x) = 2" "length (digits ?y) = 2"
      | "length (digits ?y) > 1" "length (digits ?x) > 2"
      using len canonical_nonempty [OF y(1)] by (cases "length (digits ?y)") (auto, linarith)
    then show ?thesis
    proof cases
      case 1
      then obtain Y where Y: "digits ?y = [Y]" by (auto simp: length_Suc_conv)
      then have "Y \<noteq> 0" using nz y(3) dv [of ?y] by auto
      then obtain qr where "div_single ?x ?y (neg a) (neg a \<noteq> neg b) = Some qr"
        "mag_result ?x ?y (neg a) (neg a \<noteq> neg b) qr"
        using div_single_ok [OF canonical_nonempty [OF x(1)] Y] by blast
      moreover have "div_BigNum a b = div_single ?x ?y (neg a) (neg a \<noteq> neg b)"
        using 1 3 cmp by (simp add: div_BigNum_def Let_def)
      ultimately show ?thesis using sgn by simp
    next
      case 2
      then obtain x0 x1 y0 y1 where d: "digits ?x = [x0, x1]" "digits ?y = [y0, y1]"
        by (auto simp: numeral_2_eq_2 length_Suc_conv)
      have "div_BigNum a b = Some (div_double ?x ?y (neg a) (neg a \<noteq> neg b))"
        using 2 3 cmp by (simp add: div_BigNum_def Let_def)
      then show ?thesis using sgn [OF div_double_ok [OF d]] by simp
    next
      case c: 3
      have "\<not> length (digits ?x) - 1 < 2" using c by linarith
      then have "div_BigNum a b = div_long ?x ?y (neg a) (neg a \<noteq> neg b)"
        using c 3 cmp by (simp add: div_BigNum_def Let_def)
      moreover have "length (digits ?y) = Suc (length (digits ?y) - 1)" "length (digits ?y) - 1 \<ge> 1"
        using c by simp_all
      note div_long_mag [OF x(1,2) y(1,2) this le, of "neg a" "neg a \<noteq> neg b"]
      moreover have "length (digits b) \<le> 2 \<Longrightarrow> length (digits ?y) - 1 = 1"
        using c abs_digits [OF b] by simp
      ultimately show ?thesis using sgn by (metis not_None_eq)
    qed
  qed
qed

text \<open>
  C17. When a division of a canonical number by a canonical number other than zero returns, it
  gives the quotient and the remainder of truncating division, except that the quotient of
  a number and its negative is 1 instead of -1. It returns whenever the divisor has at most
  two digits; for longer divisors it may fail, as shown below.
\<close>

theorem division_truncates:
  assumes "canonical a" "canonical b" "val b \<noteq> 0"
  shows "(\<forall>q r. div_BigNum a b = Some (q, r) \<longrightarrow>
            canonical q \<and> canonical r \<and> val r = val a smod val b \<and>
            val q = (if val a = - val b then 1 else val a sdiv val b)) \<and>
         (length (digits b) \<le> 2 \<longrightarrow> div_BigNum a b \<noteq> None)"
  using div_ok [OF assms] by (auto simp: div_result_def)

theorem division_truncates_witness:
  "\<exists>q r. div_BigNum \<lparr>digits = [1, 2, 7], neg = True\<rparr> \<lparr>digits = [0, 1], neg = False\<rparr> = Some (q, r) \<and>
         val q = - (2 + 7 * 2 ^ 32) \<and> val r = -1"
proof -
  have c: "canonical \<lparr>digits = [1, 2, 7], neg = True\<rparr>" "canonical \<lparr>digits = [0, 1], neg = False\<rparr>"
    "val \<lparr>digits = [0, 1], neg = False\<rparr> \<noteq> 0"
    by (simp_all add: canonical_def haslz_def val_def)
  have v: "val \<lparr>digits = [1, 2, 7], neg = True\<rparr> = - (1 + 2 ^ 32 * (2 + 7 * 2 ^ 32))"
    "val \<lparr>digits = [0, 1], neg = False\<rparr> = 2 ^ 32"
    by (simp_all add: val_def)
  have "div_BigNum \<lparr>digits = [1, 2, 7], neg = True\<rparr> \<lparr>digits = [0, 1], neg = False\<rparr> \<noteq> None"
    using division_truncates [OF c] by simp
  then obtain q r where
    qr: "div_BigNum \<lparr>digits = [1, 2, 7], neg = True\<rparr> \<lparr>digits = [0, 1], neg = False\<rparr> = Some (q, r)"
    by auto
  then have "val q = - (2 + 7 * 2 ^ 32)" "val r = -1"
    using division_truncates [OF c] unfolding v
    by (simp_all add: signed_divide_int_def signed_modulo_int_def)
  with qr show ?thesis by blast
qed

text \<open>
  The quotient digit that a step of the long division settles on before it subtracts: the
  estimate from the two leading digits, corrected by the first three.
\<close>

definition step_digit :: "BigNum \<Rightarrow> nat \<Rightarrow> nat \<Rightarrow> u32 list \<Rightarrow> u32" where
  "step_digit y t i xs =
     adjust [digits y ! (t - 1), digits y ! t] [digit_at xs (i - 2), digit_at xs (i - 1), digit_at xs i]
       (estimate (digit_at xs i) (digit_at xs (i - 1)) (digits y ! t))"

lemma step_digit_bounds:
  assumes "canonical y" "\<not> neg y" "length (digits y) = Suc t" "t \<ge> 1" "i > t" "div_inv y t i (xs, q)"
  shows "dval (drop (i - t - 1) xs) div dval (digits y) \<le> unat (step_digit y t i xs)"
    and "div_step y t i (xs, q) = None \<longleftrightarrow>
       sub \<lparr>digits = drop (i - t - 1) xs, neg = False\<rparr> (mul_int y (step_digit y t i xs) False) 0 = None"
proof -
  show "dval (drop (i - t - 1) xs) div dval (digits y) \<le> unat (step_digit y t i xs)"
    using quotient_digit(1) [OF assms(1,3-6)] by (simp add: step_digit_def)
  let ?s = "sub \<lparr>digits = drop (i - t - 1) xs, neg = False\<rparr> (mul_int y (step_digit y t i xs) False) 0"
  have step: "div_step y t i (xs, q) = Option.bind ?s (\<lambda>w.
          if compare w (of_u32 0) < 0
          then Option.bind (plus_assign w y) (\<lambda>w'. Some (take (i - t - 1) xs @ digits w', q[i - t - 1 := step_digit y t i xs - 1]))
          else Some (take (i - t - 1) xs @ digits w, q[i - t - 1 := step_digit y t i xs]))"
    unfolding div_step_def Let_def step_digit_def prod.case ..
  have ne: "drop (i - t - 1) xs \<noteq> []"
    using assms(5,6) by (auto simp: div_inv_def)
  have "\<not> compare w (of_u32 0) < 0" if "?s = Some w" for w
    using sub_exact(3) [OF that] mul_int_mag(1) [OF assms(1,2)] ne
    by (simp add: compare_nonneg of_u32_def val_def sgn_if)
  then show "div_step y t i (xs, q) = None \<longleftrightarrow> ?s = None"
    unfolding step by (cases ?s) auto
qed

text \<open>
  C38. In the long division the correction of a quotient digit that is too large is never
  reached: the in-place subtraction asserts that it does not go below zero before the code
  looks whether it did. In every state of the loop the step fails exactly when its digit
  exceeds the true one. This happens: dividing \<open>2 ^ 95 + 3\<close> by \<open>2 ^ 93 + 1\<close> fails.
\<close>

theorem division_add_back_fails:
  assumes "canonical y" "\<not> neg y" "length (digits y) = Suc t" "t \<ge> 1" "i > t" "div_inv y t i (xs, q)"
  shows "(div_step y t i (xs, q) = None \<longleftrightarrow>
            dval (drop (i - t - 1) xs) div dval (digits y) < unat (step_digit y t i xs)) \<and>
         div_BigNum \<lparr>digits = [3, 0, 0x80000000], neg = False\<rparr>
                    \<lparr>digits = [1, 0, 0x20000000], neg = False\<rparr> = None"
proof -
  let ?W = "drop (i - t - 1) xs" and ?d = "step_digit y t i xs"
  let ?s = "sub \<lparr>digits = ?W, neg = False\<rparr> (mul_int y ?d False) 0"
  have ne: "?W \<noteq> []" and Y: "dval (digits y) > 0"
    using assms(5,6) by (auto simp: div_inv_def)
  note m = mul_int_mag [OF assms(1,2), of ?d]
  have "?s \<noteq> None \<longleftrightarrow> unat ?d \<le> dval ?W div dval (digits y)"
  proof
    assume "?s \<noteq> None"
    then obtain w where "?s = Some w" by auto
    from sub_exact(1) [OF this] m ne have "dval (digits w) + dval (digits y) * unat ?d = dval ?W" by simp
    then show "unat ?d \<le> dval ?W div dval (digits y)"
      using Y by (simp add: less_eq_div_iff_mult_less_eq mult.commute)
  next
    assume "unat ?d \<le> dval ?W div dval (digits y)"
    then have "dval (digits y) * unat ?d \<le> dval ?W"
      using Y by (simp add: less_eq_div_iff_mult_less_eq mult.commute)
    then show "?s \<noteq> None"
      using sub_returns [of "\<lparr>digits = ?W, neg = False\<rparr>" "mul_int y ?d False"] m ne by auto
  qed
  then show ?thesis
    using step_digit_bounds(2) [OF assms] add_back_instance by (metis not_le)
qed

theorem division_add_back_fails_witness:
  "div_step \<lparr>digits = [4, 0, 0x80000000], neg = False\<rparr> 2 3 ([12, 0, 0, 2], [0, 0, 0]) = None \<longleftrightarrow>
     (3 :: nat) < 4"
proof -
  let ?y = "\<lparr>digits = [4, 0, 0x80000000], neg = False\<rparr>"
  have "step_digit ?y 2 3 [12, 0, 0, 2] = 4"
    using add_back_estimate(3,4) by (simp add: step_digit_def digit_at_def numeral_2_eq_2 numeral_3_eq_3)
  moreover have "dval (drop (3 - 2 - 1) [12, 0, 0, 2]) div dval (digits ?y) = 3"
    by simp
  moreover have "div_inv ?y 2 3 ([12, 0, 0, 2], [0, 0, 0])"
    by (auto simp: div_inv_def)
  ultimately show ?thesis
    using division_add_back_fails [of ?y 2 3 "[12, 0, 0, 2]" "[0, 0, 0]"]
    by (simp add: canonical_def haslz_def)
qed

end
