(* ===== verification/Big_Num_Mod.thy ===== *)
theory Big_Num_Mod
  imports Big_Num_Div
begin

unbundle bit_operations_syntax

text \<open>
  Modular arithmetic of \<^verbatim>\<open>common/src/BigNum.cc\<close>: Montgomery multiplication, modular
  exponentiation with it for odd moduli and without it for even ones, and the modular inverse.
\<close>

subsection \<open>Operations\<close>

definition monty_rho :: "u64 \<Rightarrow> u32" where
  "monty_rho b =
     (if b AND 1 = 0 then 0
      else let x = push_bit 1 ((b + 2) AND 4) + b;
               x = x * (2 - b * x);
               x = x * (2 - b * x);
               x = x * (2 - b * x)
           in ucast (- x))"

text \<open>
  One row adds \<open>X * y\<close> and \<open>u * m\<close> to the result and writes each digit one place below the one
  it comes from; the digit that falls off the low end is the first of the list.
\<close>

fun monty_row :: "u64 \<Rightarrow> u32 \<Rightarrow> u32 list \<Rightarrow> u32 list \<Rightarrow> u32 list \<Rightarrow> u64 \<Rightarrow> u32 list" where
  "monty_row X u (y # ys) (m # ms) (rd # rs) carry =
     (let Y = X * ucast y;
          M = ucast u * ucast m;
          R = ucast rd + carry + ucast (ucast Y :: u32) + ucast (ucast M :: u32)
      in ucast R # monty_row X u ys ms rs (drop_bit 32 R + drop_bit 32 Y + drop_bit 32 M))"
| "monty_row X u ys ms (rd # rs) carry =
     (let R = ucast rd + carry in ucast R # ucast (drop_bit 32 R) # rs)"
| "monty_row X u ys ms [] carry = []"

fun monty_loop :: "u32 list \<Rightarrow> u32 list \<Rightarrow> u32 list \<Rightarrow> u32 \<Rightarrow> u32 list \<Rightarrow> u32 list" where
  "monty_loop [] y m rho r = r"
| "monty_loop (x # xs) y m rho r =
     (let X = ucast x;
          u = ucast ((ucast (r ! 0) + X * ucast (y ! 0)) * ucast rho :: u64)
      in monty_loop xs y m rho (tl (monty_row X u y m r 0)))"

definition zero_pad :: "u32 list \<Rightarrow> nat \<Rightarrow> u32 list" where
  "zero_pad ds len = ds @ replicate (len - length ds) 0"

definition monty_mul :: "BigNum \<Rightarrow> BigNum \<Rightarrow> BigNum \<Rightarrow> u32 \<Rightarrow> BigNum option" where
  "monty_mul a n m rho =
     (let len = length (digits m)
      in if length (digits a) \<le> len \<and> length (digits n) \<le> len
         then let x = zero_pad (digits a) len;
                  y = zero_pad (digits n) len;
                  r = (alloc (len + 1) False)\<lparr>digits :=
                         monty_loop x y (digits m) rho (digits (alloc (len + 1) False))\<rparr>
              in map_option strip_lz (if compare r m \<ge> 0 then sub r m 0 else Some r)
         else None)"

fun monty_exp_loop :: "BigNum \<Rightarrow> BigNum \<Rightarrow> BigNum \<Rightarrow> u32 \<Rightarrow> nat \<Rightarrow> BigNum \<Rightarrow> BigNum option" where
  "monty_exp_loop x e m rho 0 a = Some a"
| "monty_exp_loop x e m rho (Suc i) a =
     Option.bind (monty_mul a a m rho) (\<lambda>a.
     Option.bind (if test_bit e i then monty_mul a x m rho else Some a) (\<lambda>a.
       monty_exp_loop x e m rho i a))"

definition power_of_base :: "nat \<Rightarrow> BigNum" where
  "power_of_base len =
     (alloc (len + 1) False)\<lparr>digits := (digits (alloc (len + 1) False))[len := 1]\<rparr>"

definition monty_mod_exp :: "BigNum \<Rightarrow> BigNum \<Rightarrow> BigNum \<Rightarrow> BigNum option" where
  "monty_mod_exp n e m =
     (if is_odd m
      then let rho = monty_rho (ucast (digits m ! 0));
               R = power_of_base (length (digits m));
               RR = power_of_base (length (digits m) * 2)
           in Option.bind (op_mod R m) (\<lambda>a.
              Option.bind (op_mod RR m) (\<lambda>rr.
              Option.bind (monty_mul n rr m rho) (\<lambda>x.
              Option.bind (monty_exp_loop x e m rho (bit_len e) a) (\<lambda>a.
                monty_mul a (of_u32 1) m rho))))
      else None)"

fun mod_exp_loop :: "BigNum \<Rightarrow> BigNum \<Rightarrow> BigNum \<Rightarrow> nat \<Rightarrow> BigNum \<Rightarrow> BigNum option" where
  "mod_exp_loop x e m 0 a = Some a"
| "mod_exp_loop x e m (Suc i) a =
     Option.bind (op_mod (mul a a) m) (\<lambda>a.
     Option.bind (if test_bit e i then op_mod (mul a x) m else Some a) (\<lambda>a.
       mod_exp_loop x e m i a))"

definition mod_exp :: "BigNum \<Rightarrow> BigNum \<Rightarrow> BigNum \<Rightarrow> BigNum option" where
  "mod_exp n e m =
     Option.bind (if length (digits n) > length (digits m) then op_mod (copy n) m else Some (copy n))
       (\<lambda>x. if is_odd m then monty_mod_exp x e m
            else map_option strip_lz (mod_exp_loop x e m (bit_len e) (of_u32 1)))"

text \<open>
  The extended Euclidean loop with positive coefficients; \<open>iter\<close> alternates their sign. The
  division by \<open>v3\<close> bounds nothing the recursion could be checked by, so the loop is partial.
\<close>

partial_function (option) mod_inv_loop ::
  "BigNum \<Rightarrow> BigNum \<Rightarrow> BigNum \<Rightarrow> BigNum \<Rightarrow> int \<Rightarrow> (BigNum \<times> BigNum \<times> int) option" where
  "mod_inv_loop u1 u3 v1 v3 iter =
     (if compare v3 (of_u32 0) \<noteq> 0
      then Option.bind (op_div u3 v3) (\<lambda>q.
           Option.bind (op_mod u3 v3) (\<lambda>t3.
           Option.bind (op_plus u1 (op_times q v1)) (\<lambda>t1.
             mod_inv_loop v1 v3 t1 t3 (- iter))))
      else Some (u1, u3, iter))"

declare mod_inv_loop.simps [code]

definition mod_inv :: "BigNum \<Rightarrow> BigNum \<Rightarrow> BigNum option" where
  "mod_inv n modulus =
     Option.bind (mod_inv_loop (of_u32 1) (copy n) (of_u32 0) (copy modulus) 1)
       (\<lambda>(u1, u3, iter).
          if compare u3 (of_u32 1) \<noteq> 0 then Some (of_u32 0)
          else if iter < 0 then op_minus modulus u1
          else Some u1)"

subsection \<open>The Montgomery constant\<close>

lemma rho_table:
  "list_all (\<lambda>r. r AND 1 = 0 \<or> 1 - r * (push_bit 1 ((r + 2) AND 4) + r) = 0)
     (map (of_nat :: nat \<Rightarrow> 4 word) [0..<16])"
  by code_simp

lemma rho_start:
  fixes r :: "4 word"
  assumes "odd r"
  shows "1 - r * (push_bit 1 ((r + 2) AND 4) + r) = 0"
proof -
  have "unat r < 16" using unsigned_less [of r, where ?'a = nat] by simp
  moreover have "of_nat (unat r) = r" by (simp add: of_nat_unat)
  ultimately have "r \<in> set (map of_nat [0..<16])"
    unfolding set_map set_upt by (metis atLeastLessThan_iff image_eqI zero_le)
  moreover have "r AND 1 \<noteq> 0"
    using assms by (simp add: and_one_eq odd_iff_mod_2_eq_one)
  ultimately show ?thesis
    using rho_table unfolding list_all_iff by blast
qed

lemma odd_ucast:
  "0 < LENGTH('b) \<Longrightarrow> odd (ucast (w :: 'a :: len word) :: 'b :: len word) \<longleftrightarrow> odd w"
  by (simp only: bit_0 [symmetric] bit_ucast_iff) simp

lemma unat_ucast_mod: "LENGTH('b) \<le> LENGTH('a) \<Longrightarrow> unat (ucast (w :: 'a :: len word) :: 'b :: len word) = unat w mod 2 ^ LENGTH('b)"
  by (simp add: unsigned_ucast_eq take_bit_eq_mod)

lemma ucast_low_mult:
  "LENGTH('b) \<le> LENGTH('a) \<Longrightarrow>
   (ucast (a * b :: 'a :: len word) :: 'b :: len word) = ucast a * ucast b"
  by transfer (metis take_bit_mult min.absorb1 take_bit_take_bit)

lemma ucast_low_diff:
  "LENGTH('b) \<le> LENGTH('a) \<Longrightarrow>
   (ucast (a - b :: 'a :: len word) :: 'b :: len word) = ucast a - ucast b"
  by transfer (metis take_bit_diff min.absorb1 take_bit_take_bit)

lemma ucast_low_add:
  "LENGTH('b) \<le> LENGTH('a) \<Longrightarrow>
   (ucast (a + b :: 'a :: len word) :: 'b :: len word) = ucast a + ucast b"
  by transfer (metis take_bit_add min.absorb1 take_bit_take_bit)

text \<open>Each round of the iteration squares the error, which starts as a multiple of 16.\<close>

lemma newton_step: "1 - b * (x * (2 - b * x)) = (1 - b * x) ^ 2" for b x :: u64
  by (simp add: power2_eq_square algebra_simps)

lemma monty_rho_ok:
  assumes "odd (b :: u32)"
  shows "b * monty_rho (ucast b) = - 1"
proof -
  define B :: u64 where "B = ucast b"
  define x0 where "x0 = push_bit 1 ((B + 2) AND 4) + B"
  define x1 where "x1 = x0 * (2 - B * x0)"
  define x2 where "x2 = x1 * (2 - B * x1)"
  define x3 where "x3 = x2 * (2 - B * x2)"
  have "\<not> B AND 1 = 0"
    using assms by (simp add: B_def and_one_eq odd_iff_mod_2_eq_one [symmetric] odd_ucast)
  then have rho: "monty_rho B = ucast (- x3)"
    by (simp add: monty_rho_def Let_def x0_def x1_def x2_def x3_def)
  have e3: "1 - B * x3 = (1 - B * x0) ^ 8"
    unfolding x3_def x2_def x1_def newton_step by (simp add: power_mult [symmetric])
  define r :: "4 word" where "r = ucast B"
  have "odd r"
    using assms by (simp add: r_def B_def odd_ucast)
  have "(ucast (1 - B * x0) :: 4 word) = 1 - r * (push_bit 1 ((r + 2) AND 4) + r)"
    by (simp add: x0_def r_def ucast_low_diff ucast_low_mult ucast_low_add push_bit_eq_mult unsigned_and_eq)
  also have "\<dots> = 0"
    by (rule rho_start [OF \<open>odd r\<close>])
  finally have "unat (1 - B * x0) mod 16 = 0"
    using unat_ucast_mod [of "1 - B * x0", where ?'b = 4] by simp
  then obtain k where k: "unat (1 - B * x0) = 16 * k" by auto
  have "1 - B * x0 = of_nat (16 * k)" 
    unfolding k [symmetric] by (simp add: of_nat_unat)
  then have "1 - B * x3 = of_nat (16 * k) ^ 8" unfolding e3 by simp
  also have "\<dots> = 2 ^ 32 * of_nat (k ^ 8)"
    by (simp add: power_mult_distrib)
  finally have "(ucast (1 - B * x3) :: u32) = ucast (2 ^ 32 :: u64) * ucast (of_nat (k ^ 8) :: u64)"
    by (simp add: ucast_low_mult)
  also have "(ucast (2 ^ 32 :: u64) :: u32) = 0"
    by (simp add: word_unat_eq_iff unat_lo32)
  finally have "1 - b * ucast x3 = 0"
    by (simp add: ucast_low_diff ucast_low_mult B_def lo32_up)
  moreover have "ucast (- x3) = - (ucast x3 :: u32)"
    using ucast_low_diff [of 0 x3, where ?'b = 32] by simp
  ultimately show ?thesis
    using rho by (simp add: B_def)
qed

subsection \<open>Montgomery multiplication\<close>

lemma monty_digit:
  fixes x u y m rd :: u32 and c :: u64
  assumes "unat c \<le> 2 * (2 ^ 32 - 1)"
  defines "Y \<equiv> ucast x * ucast y :: u64" and "M \<equiv> ucast u * ucast m :: u64"
  defines "R \<equiv> ucast rd + c + ucast (ucast Y :: u32) + ucast (ucast M :: u32)"
  defines "c' \<equiv> drop_bit 32 R + drop_bit 32 Y + drop_bit 32 M"
  shows "unat (ucast R :: u32) + 2 ^ 32 * unat c' = unat rd + unat c + unat x * unat y + unat u * unat m"
    and "unat c' \<le> 2 * (2 ^ 32 - 1)"
proof -
  have prod: "unat a * unat b \<le> (2 ^ 32 - 1) * (2 ^ 32 - 1)" for a b :: u32
    using u32_lt [of a] u32_lt [of b] by (intro mult_le_mono) simp_all
  have Y: "unat Y = unat x * unat y" and M: "unat M = unat u * unat m"
    unfolding Y_def M_def using prod [of x y] prod [of u m] by (subst unat_mult64; simp)+
  have lo: "unat (ucast (ucast v :: u32) :: u64) < 2 ^ 32" for v :: u64
    using u32_lt [of "ucast v"] by simp
  have R: "unat R = unat rd + unat c + unat (ucast Y :: u32) + unat (ucast M :: u32)"
  proof -
    have 1: "unat (ucast rd + c) = unat rd + unat c"
      using u32_lt [of rd] assms(1) by (subst unat_add64) simp_all
    have 2: "unat (ucast rd + c + ucast (ucast Y :: u32)) = unat rd + unat c + unat (ucast Y :: u32)"
      using u32_lt [of rd] assms(1) u32_lt [of "ucast Y"] by (subst unat_add64) (simp_all add: 1)
    show ?thesis
      unfolding R_def using u32_lt [of rd] assms(1) u32_lt [of "ucast Y"] u32_lt [of "ucast M"]
      by (subst unat_add64) (simp_all add: 2)
  qed
  have hi: "unat (drop_bit 32 v) < 2 ^ 32" for v :: u64
    using unsigned_less [of v, where ?'a = nat] unfolding unat_hi32 by (simp add: less_mult_imp_div_less)
  have c': "unat c' = unat (drop_bit 32 R) + unat (drop_bit 32 Y) + unat (drop_bit 32 M)"
  proof -
    have 1: "unat (drop_bit 32 R + drop_bit 32 Y) = unat (drop_bit 32 R) + unat (drop_bit 32 Y)"
      using hi [of R] hi [of Y] by (subst unat_add64) simp_all
    show ?thesis
      unfolding c'_def using hi [of R] hi [of Y] hi [of M] by (subst unat_add64) (simp_all add: 1)
  qed
  show e: "unat (ucast R :: u32) + 2 ^ 32 * unat c' = unat rd + unat c + unat x * unat y + unat u * unat m"
    using lo_hi32 [of R] lo_hi32 [of Y] lo_hi32 [of M] R Y M unfolding c' by (simp add: algebra_simps)
  have "2 ^ 32 * unat c' < 2 ^ 32 * (2 * 2 ^ 32 - 1)"
    using e prod [of x y] prod [of u m] u32_lt [of rd] assms(1) by simp
  then show "unat c' \<le> 2 * (2 ^ 32 - 1)" by simp
qed

lemma monty_row_val:
  "\<lbrakk>unat c \<le> 2 * (2 ^ 32 - 1); length ms = length ys; length rs = Suc (length ys)\<rbrakk> \<Longrightarrow>
   dval (monty_row (ucast (x :: u32)) u ys ms rs c) = dval rs + unat c + unat x * dval ys + unat u * dval ms \<and>
   length (monty_row (ucast x) u ys ms rs c) = Suc (Suc (length ys))"
proof (induction ys arbitrary: ms rs c)
  case Nil
  then obtain rd where rd: "rs = [rd]" "ms = []" by (auto simp: length_Suc_conv)
  define R :: u64 where "R = ucast rd + c"
  have R: "unat R = unat rd + unat c"
    unfolding R_def using u32_lt [of rd] Nil.prems(1) by (subst unat_add64) simp_all
  have "unat (drop_bit 32 R) < 2 ^ 32"
    using unsigned_less [of R, where ?'a = nat] unfolding unat_hi32 by (simp add: less_mult_imp_div_less)
  then have "unat (ucast (drop_bit 32 R) :: u32) = unat (drop_bit 32 R)"
    unfolding unat_lo32 by simp
  moreover have "monty_row (ucast x) u [] ms rs c = [ucast R, ucast (drop_bit 32 R)]"
    unfolding rd by (simp only: monty_row.simps Let_def R_def)
  ultimately show ?case
    using lo_hi32 [of R] R rd by simp
next
  case (Cons y ys)
  then obtain m ms' rd rs' where l: "ms = m # ms'" "rs = rd # rs'" "length ms' = length ys" "length rs' = Suc (length ys)"
    by (auto simp: length_Suc_conv)
  define Y M :: u64 where "Y = ucast x * ucast y" and "M = ucast u * ucast m"
  define R where "R = ucast rd + c + ucast (ucast Y :: u32) + ucast (ucast M :: u32)"
  define c' where "c' = drop_bit 32 R + drop_bit 32 Y + drop_bit 32 M"
  note d = monty_digit [OF Cons.prems(1), where x = x and y = y and u = u and m = m and rd = rd,
      folded Y_def M_def, folded R_def, folded c'_def]
  have eq: "monty_row (ucast x) u (y # ys) ms rs c = ucast R # monty_row (ucast x) u ys ms' rs' c'"
    unfolding l by (simp only: monty_row.simps Let_def Y_def M_def R_def c'_def)
  show ?case
    using Cons.IH [OF d(2) l(3,4)] d(1) unfolding eq by (simp add: l algebra_simps)
qed

text \<open>The digit \<open>u\<close> is chosen so that the digit that falls off the low end is zero.\<close>

lemma monty_digit_zero:
  fixes r0 x y0 m0 rho :: u32
  assumes "m0 * rho = - 1"
  defines "u \<equiv> (ucast ((ucast r0 + ucast x * ucast y0) * ucast rho :: u64) :: u32)"
  shows "2 ^ 32 dvd unat r0 + unat x * unat y0 + unat u * unat m0"
proof -
  have u: "u = (r0 + x * y0) * rho"
    unfolding u_def by (simp add: ucast_low_mult ucast_low_add lo32_up)
  have "r0 + x * y0 + u * m0 = (r0 + x * y0) * (1 + m0 * rho)"
    unfolding u by (simp add: algebra_simps)
  also have "\<dots> = 0" by (simp add: assms(1))
  finally have z: "of_nat (unat r0 + unat x * unat y0 + unat u * unat m0) = (0 :: u32)"
    by (simp add: of_nat_unat)
  define N where "N = unat r0 + unat x * unat y0 + unat u * unat m0"
  have "N mod 2 ^ 32 = unat (of_nat N :: u32)"
    by (simp add: unat_of_nat)
  also have "\<dots> = 0"
    unfolding N_def z by simp
  finally show ?thesis
    by (simp add: N_def [symmetric] mod_eq_0_iff_dvd)
qed

lemma monty_step:
  fixes x :: u32
  assumes len: "length m = length y" "length r = Suc (length y)" and ne: "y \<noteq> []"
    and rho: "m ! 0 * rho = - 1"
  defines "u \<equiv> (ucast ((ucast (r ! 0) + ucast x * ucast (y ! 0)) * ucast rho :: u64) :: u32)"
  defines "r' \<equiv> tl (monty_row (ucast x) u y m r 0)"
  shows "2 ^ 32 * dval r' = dval r + unat x * dval y + unat u * dval m" "length r' = Suc (length y)"
proof -
  note v = monty_row_val [of 0 m y r x u, OF _ len, simplified]
  obtain t where t: "monty_row (ucast x) u y m r 0 = t # r'"
    using v unfolding r'_def by (cases "monty_row (ucast x) u y m r 0") auto
  show "length r' = Suc (length y)" using v t by simp
  obtain y0 ys m0 ms r0 rs where d: "y = y0 # ys" "m = m0 # ms" "r = r0 # rs"
    using len ne by (cases y; cases m; cases r) auto
  have e: "unat t + 2 ^ 32 * dval r' = dval r + unat x * dval y + unat u * dval m"
    using v t by simp
  have z: "2 ^ 32 dvd unat r0 + unat x * unat y0 + unat u * unat m0"
    using monty_digit_zero [of m0 rho r0 x y0] rho unfolding u_def d by simp
  have "dval r + unat x * dval y + unat u * dval m =
        unat r0 + unat x * unat y0 + unat u * unat m0 + 2 ^ 32 * (dval rs + unat x * dval ys + unat u * dval ms)"
    unfolding d by (simp add: algebra_simps)
  then have "2 ^ 32 dvd dval r + unat x * dval y + unat u * dval m"
    using z by (simp only: dvd_add dvd_triv_left)
  then have "2 ^ 32 dvd unat t"
    using e by (metis dvd_add_left_iff dvd_triv_left)
  then have "unat t = 0"
    using u32_lt [of t] by (metis dvd_imp_le not_less not_gr_zero)
  with e show "2 ^ 32 * dval r' = dval r + unat x * dval y + unat u * dval m" by simp
qed

lemma monty_loop_val:
  assumes "length m = length y" "y \<noteq> []" "m ! 0 * rho = - 1"
  shows "\<lbrakk>length r = Suc (length y); dval r < dval m + dval y\<rbrakk> \<Longrightarrow>
    length (monty_loop xs y m rho r) = Suc (length y) \<and>
    dval (monty_loop xs y m rho r) < dval m + dval y \<and>
    (\<exists>k. 2 ^ (32 * length xs) * dval (monty_loop xs y m rho r) = dval r + dval xs * dval y + k * dval m)"
proof (induction xs arbitrary: r)
  case Nil
  then show ?case by (auto intro: exI [of _ 0])
next
  case (Cons x xs)
  define u :: u32 where "u = ucast ((ucast (r ! 0) + ucast x * ucast (y ! 0)) * ucast rho :: u64)"
  define r' where "r' = tl (monty_row (ucast x) u y m r 0)"
  note s = monty_step [OF assms(1) Cons.prems(1) assms(2,3), of x, folded u_def, folded r'_def]
  have "2 ^ 32 * dval r' < 2 ^ 32 * (dval m + dval y)"
  proof -
    have "Suc (unat x) * dval y \<le> 2 ^ 32 * dval y" "Suc (unat u) * dval m \<le> 2 ^ 32 * dval m"
      using u32_lt [of x] u32_lt [of u] by (intro mult_le_mono1; simp)+
    then show ?thesis using s(1) Cons.prems(2) unfolding distrib_left mult_Suc by linarith
  qed
  then have b: "dval r' < dval m + dval y" by simp
  have eq: "monty_loop (x # xs) y m rho r = monty_loop xs y m rho r'"
    by (simp only: monty_loop.simps Let_def u_def r'_def)
  obtain k where k: "2 ^ (32 * length xs) * dval (monty_loop xs y m rho r') = dval r' + dval xs * dval y + k * dval m"
    using Cons.IH [OF s(2) b] by blast
  have "2 ^ (32 * length (x # xs)) * dval (monty_loop xs y m rho r') =
        2 ^ 32 * (dval r' + dval xs * dval y + k * dval m)"
    unfolding k [symmetric] by (simp add: power_add)
  also have "\<dots> = dval r + dval (x # xs) * dval y + (unat u + 2 ^ 32 * k) * dval m"
    unfolding distrib_left s(1) by (simp add: algebra_simps)
  finally show ?case
    using Cons.IH [OF s(2) b] unfolding eq by blast
qed

lemma dval_zero_pad [simp]: "dval (zero_pad ds len) = dval ds"
  by (simp add: zero_pad_def dval_append)

lemma length_zero_pad: "length ds \<le> len \<Longrightarrow> length (zero_pad ds len) = len"
  by (simp add: zero_pad_def)

lemma zero_pad_nonempty: "len \<noteq> 0 \<Longrightarrow> zero_pad ds len \<noteq> []"
  by (auto simp: zero_pad_def)

lemma odd_dval: "digits m \<noteq> [] \<Longrightarrow> is_odd m \<longleftrightarrow> odd (dval (digits m))"
  by (cases "digits m") (simp_all add: is_odd_def and_one_eq odd_iff_mod_2_eq_one unat_mod word_unat_eq_iff)

lemma monty_mul_ok:
  assumes m: "canonical m" "\<not> neg m" "is_odd m"
    and rho: "rho = monty_rho (ucast (digits m ! 0))"
    and len: "length (digits a) \<le> length (digits m)" "length (digits n) \<le> length (digits m)"
    and le: "dval (digits n) \<le> dval (digits m)"
  shows "\<exists>r. monty_mul a n m rho = Some r \<and> canonical r \<and> \<not> neg r \<and>
    dval (digits r) < dval (digits m) \<and>
    (2 ^ (32 * length (digits m)) * dval (digits r)) mod dval (digits m) =
    (dval (digits a) * dval (digits n)) mod dval (digits m)"
proof -
  let ?len = "length (digits m)"
  have ne: "digits m \<noteq> []" by (rule canonical_nonempty [OF m(1)])
  have "odd (digits m ! 0)"
    using m(3) by (simp add: is_odd_def and_one_eq odd_iff_mod_2_eq_one)
  then have rho': "digits m ! 0 * rho = - 1"
    unfolding rho by (rule monty_rho_ok)
  define ds where "ds = monty_loop (zero_pad (digits a) ?len) (zero_pad (digits n) ?len) (digits m) rho
      (digits (alloc (?len + 1) False))"
  have "0 < dval (digits m)"
    using m(3) odd_dval [OF ne] by (metis gr_zeroI even_zero)
  then have l: "length ds = Suc ?len" "dval ds < dval (digits m) + dval (digits n)"
    "\<exists>k. 2 ^ (32 * ?len) * dval ds = dval (digits a) * dval (digits n) + k * dval (digits m)"
    using monty_loop_val [of "digits m" "zero_pad (digits n) ?len" rho
        "digits (alloc (?len + 1) False)" "zero_pad (digits a) ?len"] rho' ne len
    by (auto simp: ds_def length_zero_pad alloc_def zero_pad_nonempty)
  define r where "r = (alloc (?len + 1) False)\<lparr>digits := ds\<rparr>"
  have r: "digits r = ds" "\<not> neg r" by (simp_all add: r_def alloc_def)
  have mm: "monty_mul a n m rho = map_option strip_lz (if compare r m \<ge> 0 then sub r m 0 else Some r)"
    using len by (simp add: monty_mul_def Let_def r_def ds_def)
  have c: "compare r m \<ge> 0 \<longleftrightarrow> dval (digits m) \<le> dval ds"
    using compare_nonneg [of r m] r m(2) by (simp add: val_def sgn_if)
  obtain k where k: "2 ^ (32 * ?len) * dval ds = dval (digits a) * dval (digits n) + k * dval (digits m)"
    using l(3) by blast
  have rne: "digits r \<noteq> []" using l(1) r by auto
  show ?thesis
  proof (cases "dval (digits m) \<le> dval ds")
    case False
    then have "monty_mul a n m rho = Some (strip_lz r)" using c by (simp add: mm)
    then show ?thesis
      using False r strip_lz_canonical [OF rne] k by (simp add: strip_lz_neg)
  next
    case True
    then obtain r2 where r2: "sub r m 0 = Some r2"
      using sub_returns [OF r(2) m(2,1) rne] r(1) by auto
    note e = sub_exact [OF r2 r(2) m(2) rne]
    have "monty_mul a n m rho = Some r2" using c True r2 e(2) by (simp add: mm strip_lz_id)
    moreover have "dval (digits r2) < dval (digits m)"
      using e(1) l(2) le r(1) by simp
    moreover have "(2 ^ (32 * ?len) * dval (digits r2)) mod dval (digits m) =
        (2 ^ (32 * ?len) * dval (digits r2) + 2 ^ (32 * ?len) * dval (digits m)) mod dval (digits m)"
      by simp
    moreover have "2 ^ (32 * ?len) * dval (digits r2) + 2 ^ (32 * ?len) * dval (digits m) = 2 ^ (32 * ?len) * dval ds"
      using e(1) r(1) by (simp only: distrib_left [symmetric])
    ultimately show ?thesis using e k by simp
  qed
qed

subsection \<open>Reduction\<close>

lemma op_mod_ok:
  assumes "canonical a" "\<not> neg a" "canonical m" "\<not> neg m" "0 < dval (digits m)"
  shows "op_mod a m = Some r \<Longrightarrow> canonical r \<and> \<not> neg r \<and> dval (digits r) = dval (digits a) mod dval (digits m)"
    and "length (digits m) \<le> 2 \<Longrightarrow> \<exists>r. op_mod a m = Some r"
    and "op_div a m = Some q \<Longrightarrow> canonical q \<and> \<not> neg q \<and> dval (digits q) = dval (digits a) div dval (digits m)"
    and "length (digits m) \<le> 2 \<Longrightarrow> \<exists>q. op_div a m = Some q"
proof -
  have v: "val a = int (dval (digits a))" "val m = int (dval (digits m))"
    using assms by (simp_all add: val_def)
  have nz: "val m \<noteq> 0" and ne: "val a \<noteq> - val m" using assms(5) v by simp_all
  note d = div_ok [OF assms(1,3) nz]
  have s: "val a smod val m = int (dval (digits a) mod dval (digits m))"
    "val a sdiv val m = int (dval (digits a) div dval (digits m))"
    using assms(5) by (simp_all add: v signed_modulo_int_def signed_divide_int_def zmod_int zdiv_int sgn_if)
  have c: "\<not> neg x \<and> dval (digits x) = k" if "canonical x" "val x = int k" for x k
  proof -
    have "\<not> neg x" using canonical_val_nonneg [OF that(1)] that(2) by simp
    with that(2) show ?thesis by (simp add: val_def)
  qed
  show "canonical r \<and> \<not> neg r \<and> dval (digits r) = dval (digits a) mod dval (digits m)"
    if "op_mod a m = Some r"
    using that d c [of r] s by (auto simp: op_mod_def div_result_def)
  show "canonical q \<and> \<not> neg q \<and> dval (digits q) = dval (digits a) div dval (digits m)"
    if "op_div a m = Some q"
    using that d c [of q] s ne by (auto simp: op_div_def div_result_def)
  show "\<exists>r. op_mod a m = Some r" "\<exists>q. op_div a m = Some q" if "length (digits m) \<le> 2"
    using that d by (auto simp: op_mod_def op_div_def)
qed

subsection \<open>Modular exponentiation\<close>

lemma pow2_cancel:
  assumes "odd M" "(2 ^ k * u) mod M = (2 ^ k * v) mod (M :: nat)"
  shows "u mod M = v mod M"
proof -
  have "int M dvd 2 ^ k * int u - 2 ^ k * int v"
    using assms(2) by (metis mod_eq_dvd_iff of_nat_mod of_nat_mult of_nat_numeral of_nat_power)
  then have "int M dvd 2 ^ k * (int u - int v)"
    by (simp only: right_diff_distrib)
  moreover have "coprime (int M) (2 ^ k)"
    using assms(1) by (simp add: coprime_commute)
  ultimately have "int M dvd int u - int v"
    by (simp add: coprime_dvd_mult_right_iff)
  then have "int u mod int M = int v mod int M"
    by (simp add: mod_eq_dvd_iff)
  then show ?thesis by (simp only: zmod_int [symmetric] of_nat_eq_iff)
qed

text \<open>A residue in the Montgomery domain: \<open>a\<close> stands for \<open>p\<close> scaled by a power of the base.\<close>

definition mont :: "BigNum \<Rightarrow> BigNum \<Rightarrow> nat \<Rightarrow> bool" where
  "mont m a p \<longleftrightarrow>
     canonical a \<and> \<not> neg a \<and> dval (digits a) < dval (digits m) \<and>
     dval (digits a) mod dval (digits m) =
     (2 ^ (32 * length (digits m)) * p) mod dval (digits m)"

definition modulus_ok :: "BigNum \<Rightarrow> bool" where
  "modulus_ok m \<longleftrightarrow> canonical m \<and> \<not> neg m \<and> 0 < dval (digits m)"

lemma smaller_length:
  "\<lbrakk>canonical a; canonical m; dval (digits a) < dval (digits m)\<rbrakk> \<Longrightarrow> length (digits a) \<le> length (digits m)"
  by (intro canonical_length_mono) simp_all

lemma mont_mul:
  assumes m: "modulus_ok m" "is_odd m" and a: "mont m a p" and b: "mont m b q"
  shows "\<exists>r. monty_mul a b m (monty_rho (ucast (digits m ! 0))) = Some r \<and> mont m r (p * q)"
proof -
  let ?M = "dval (digits m)" and ?B = "2 ^ (32 * length (digits m)) :: nat"
  have mc: "canonical m" "\<not> neg m" using m by (simp_all add: modulus_ok_def)
  have odd: "odd ?M" using m(2) odd_dval [OF canonical_nonempty [OF mc(1)]] by simp
  have la: "length (digits a) \<le> length (digits m)" "length (digits b) \<le> length (digits m)"
    using a b smaller_length [OF _ mc(1)] by (auto simp: mont_def)
  have lb: "dval (digits b) \<le> ?M" using b by (simp add: mont_def)
  obtain r where r: "monty_mul a b m (monty_rho (ucast (digits m ! 0))) = Some r" "canonical r" "\<not> neg r"
    "dval (digits r) < ?M" "(?B * dval (digits r)) mod ?M = (dval (digits a) * dval (digits b)) mod ?M"
    using monty_mul_ok [OF mc m(2) refl la lb] by blast
  have "(?B * dval (digits r)) mod ?M = ((?B * p) * (?B * q)) mod ?M"
    using r(5) a b by (metis mont_def mod_mult_eq)
  then have "(?B * dval (digits r)) mod ?M = (?B * (?B * (p * q))) mod ?M"
    by (simp only: mult_ac)
  from pow2_cancel [OF odd this] r show ?thesis by (auto simp: mont_def)
qed

lemma monty_exp_loop_ok:
  assumes m: "modulus_ok m" "is_odd m" and x: "mont m x q"
  shows "mont m a p \<Longrightarrow>
    \<exists>r. monty_exp_loop x e m (monty_rho (ucast (digits m ! 0))) i a = Some r \<and>
        mont m r (p ^ (2 ^ i) * q ^ (dval (digits e) mod 2 ^ i))"
proof (induction i arbitrary: a p)
  case (Suc i)
  let ?rho = "monty_rho (ucast (digits m ! 0))"
  let ?b = "dval (digits e) div 2 ^ i mod 2"
  obtain a1 where a1: "monty_mul a a m ?rho = Some a1" "mont m a1 (p * p)"
    using mont_mul [OF m Suc.prems Suc.prems] by blast
  obtain a2 where a2: "(if test_bit e i then monty_mul a1 x m ?rho else Some a1) = Some a2"
    "mont m a2 (p * p * q ^ ?b)"
  proof (cases "test_bit e i")
    case True
    then show ?thesis
      using mont_mul [OF m a1(2) x] that by (auto simp: test_bit_ok odd_iff_mod_2_eq_one)
  next
    case False
    then show ?thesis using a1(2) that by (auto simp: test_bit_ok)
  qed
  obtain r where r: "monty_exp_loop x e m ?rho i a2 = Some r"
    "mont m r ((p * p * q ^ ?b) ^ 2 ^ i * q ^ (dval (digits e) mod 2 ^ i))"
    using Suc.IH [OF a2(2)] by blast
  have "dval (digits e) mod 2 ^ Suc i = dval (digits e) mod 2 ^ i + 2 ^ i * ?b"
    using mod_mult2_eq [of "dval (digits e)" "2 ^ i" 2] by (simp add: mult.commute)
  then have "(p * p * q ^ ?b) ^ 2 ^ i * q ^ (dval (digits e) mod 2 ^ i) =
      p ^ 2 ^ Suc i * q ^ (dval (digits e) mod 2 ^ Suc i)"
    by (simp add: power_mult_distrib power_mult [symmetric] power_add mult_2 mult.commute mult.left_commute)
  with r a1(1) a2(1) show ?case
    by (simp del: power_Suc)
qed simp

lemma replicate_update_last: "(replicate (Suc len) 0)[len := x] = replicate len 0 @ [x]"
  by (induction len) auto

lemma power_of_base_ok:
  "canonical (power_of_base len)" "\<not> neg (power_of_base len)"
  "dval (digits (power_of_base len)) = 2 ^ (32 * len)"
proof -
  have "digits (power_of_base len) = replicate len 0 @ [1]"
    by (simp add: power_of_base_def alloc_def replicate_update_last del: replicate_Suc)
  then show "canonical (power_of_base len)" "dval (digits (power_of_base len)) = 2 ^ (32 * len)"
    by (simp_all add: canonical_def haslz_def power_of_base_def alloc_def dval_append)
  show "\<not> neg (power_of_base len)" by (simp add: power_of_base_def alloc_def)
qed

lemma monty_mod_exp_ok:
  assumes m: "modulus_ok m" "is_odd m" and n: "canonical n" "\<not> neg n" "length (digits n) \<le> length (digits m)"
  shows "(\<forall>r. monty_mod_exp n e m = Some r \<longrightarrow>
            canonical r \<and> \<not> neg r \<and> dval (digits r) = dval (digits n) ^ dval (digits e) mod dval (digits m)) \<and>
         (length (digits m) \<le> 2 \<longrightarrow> monty_mod_exp n e m \<noteq> None)"
proof -
  let ?M = "dval (digits m)" and ?l = "length (digits m)" and ?rho = "monty_rho (ucast (digits m ! 0))"
  have mc: "canonical m" "\<not> neg m" "0 < ?M" using m by (simp_all add: modulus_ok_def)
  have odd: "odd ?M" using m(2) odd_dval [OF canonical_nonempty [OF mc(1)]] by simp
  note om = op_mod_ok [OF power_of_base_ok(1,2) mc]
  have main: "\<exists>r. monty_mod_exp n e m = Some r \<and> canonical r \<and> \<not> neg r \<and>
      dval (digits r) = dval (digits n) ^ dval (digits e) mod ?M"
    if R: "op_mod (power_of_base ?l) m = Some a" and RR: "op_mod (power_of_base (?l * 2)) m = Some rr" for a rr
  proof -
    have a: "mont m a 1"
      using om(1) [OF R] mc(3) by (simp add: mont_def power_of_base_ok)
    have rr: "canonical rr" "\<not> neg rr" "dval (digits rr) = 2 ^ (32 * (?l * 2)) mod ?M"
      using om(1) [OF RR] by (simp_all add: power_of_base_ok)
    have rlt: "dval (digits rr) < ?M" using rr(3) mc(3) by simp
    obtain x where x: "monty_mul n rr m ?rho = Some x" "canonical x" "\<not> neg x" "dval (digits x) < ?M"
      "(2 ^ (32 * ?l) * dval (digits x)) mod ?M = (dval (digits n) * dval (digits rr)) mod ?M"
      using monty_mul_ok [OF mc(1,2) m(2) refl n(3) smaller_length [OF rr(1) mc(1) rlt]] rlt by auto
    have "(2 ^ (32 * ?l) * dval (digits x)) mod ?M = (2 ^ (32 * ?l) * (2 ^ (32 * ?l) * dval (digits n))) mod ?M"
    proof -
      have E: "(2 :: nat) ^ (32 * (?l * 2)) = 2 ^ (32 * ?l) * 2 ^ (32 * ?l)"
        by (simp only: power_add [symmetric] mult_2_right distrib_left)
      have "dval (digits n) * (2 ^ (32 * ?l) * 2 ^ (32 * ?l)) =
            2 ^ (32 * ?l) * (2 ^ (32 * ?l) * dval (digits n))"
        using mult.left_commute [of "dval (digits n)" "2 ^ (32 * ?l)" "2 ^ (32 * ?l)"]
        by (simp only: mult.commute [of "dval (digits n)" "2 ^ (32 * ?l)"])
      then show ?thesis
        unfolding x(5) rr(3) mod_mult_right_eq E by (rule arg_cong)
    qed
    from pow2_cancel [OF odd this] x have xm: "mont m x (dval (digits n))"
      by (simp add: mont_def)
    obtain r where r: "monty_exp_loop x e m ?rho (bit_len e) a = Some r"
      "mont m r (dval (digits n) ^ dval (digits e))"
      using monty_exp_loop_ok [OF m xm a, of e "bit_len e"] bit_len_upper [of e] by auto
    have r': "length (digits r) \<le> ?l" "length (digits (of_u32 1)) \<le> ?l" "dval (digits (of_u32 1)) \<le> ?M"
      using r(2) smaller_length [OF _ mc(1)] mc(3) canonical_nonempty [OF mc(1)]
      by (auto simp: mont_def of_u32_def Suc_le_eq)
    obtain s where s: "monty_mul r (of_u32 1) m ?rho = Some s" "canonical s" "\<not> neg s" "dval (digits s) < ?M"
      "(2 ^ (32 * ?l) * dval (digits s)) mod ?M = (dval (digits r) * dval (digits (of_u32 1))) mod ?M"
      using monty_mul_ok [OF mc(1,2) m(2) refl r'] by blast
    have "(2 ^ (32 * ?l) * dval (digits s)) mod ?M = (2 ^ (32 * ?l) * dval (digits n) ^ dval (digits e)) mod ?M"
      using s(5) r(2) by (simp add: mont_def of_u32_def)
    from pow2_cancel [OF odd this] have "dval (digits s) = dval (digits n) ^ dval (digits e) mod ?M"
      using s(4) by simp
    moreover have "monty_mod_exp n e m = Some s"
      using m(2) R RR x(1) r(1) s(1) by (simp add: monty_mod_exp_def Let_def)
    ultimately show ?thesis using s by simp
  qed
  show ?thesis
  proof (intro conjI allI impI)
    fix r assume e: "monty_mod_exp n e m = Some r"
    then obtain a rr where "op_mod (power_of_base ?l) m = Some a" "op_mod (power_of_base (?l * 2)) m = Some rr"
      using m(2) by (auto simp: monty_mod_exp_def Let_def split: Option.bind_splits)
    from main [OF this] e
    show "canonical r" "\<not> neg r" "dval (digits r) = dval (digits n) ^ dval (digits e) mod ?M" by auto
  next
    assume "?l \<le> 2"
    from om(2) [OF this] main show "monty_mod_exp n e m \<noteq> None" by fastforce
  qed
qed

lemma mod_exp_loop_ok:
  assumes m: "modulus_ok m" and x: "canonical x" "\<not> neg x"
  shows "\<lbrakk>canonical a; \<not> neg a; dval (digits a) = p mod dval (digits m)\<rbrakk> \<Longrightarrow>
    (\<forall>r. mod_exp_loop x e m i a = Some r \<longrightarrow>
       canonical r \<and> \<not> neg r \<and>
       dval (digits r) = p ^ (2 ^ i) * dval (digits x) ^ (dval (digits e) mod 2 ^ i) mod dval (digits m)) \<and>
    (length (digits m) \<le> 2 \<longrightarrow> mod_exp_loop x e m i a \<noteq> None)"
proof (induction i arbitrary: a p)
  case (Suc i)
  let ?M = "dval (digits m)" and ?b = "dval (digits e) div 2 ^ i mod 2"
  have mc: "canonical m" "\<not> neg m" "0 < ?M" using m by (simp_all add: modulus_ok_def)
  have pos: "canonical (mul s t) \<and> \<not> neg (mul s t) \<and> dval (digits (mul s t)) = dval (digits s) * dval (digits t)"
    if "canonical s" "\<not> neg s" "canonical t" "\<not> neg t" for s t
  proof -
    have v: "canonical (mul s t)" "val (mul s t) = int (dval (digits s) * dval (digits t))"
      using mul_ok [of s t] that by (simp_all add: val_def [of s] val_def [of t])
    moreover have "\<not> neg (mul s t)" using canonical_val_nonneg [OF v(1)] v(2) by simp
    ultimately show ?thesis by (simp add: val_def del: of_nat_mult)
  qed
  note om = op_mod_ok [OF _ _ mc]
  have step: "canonical a1 \<and> \<not> neg a1 \<and> dval (digits a1) = p * p mod ?M"
    if "op_mod (mul a a) m = Some a1" for a1
    using om(1) [OF _ _ that] pos [OF Suc.prems(1,2) Suc.prems(1,2)] Suc.prems(3) by (simp add: mod_mult_eq)
  have step2: "canonical a2 \<and> \<not> neg a2 \<and> dval (digits a2) = p * p * dval (digits x) ^ ?b mod ?M"
    if "op_mod (mul a a) m = Some a1"
      "(if test_bit e i then op_mod (mul a1 x) m else Some a1) = Some a2" for a1 a2
  proof (cases "test_bit e i")
    case True
    then have "op_mod (mul a1 x) m = Some a2" "?b = 1"
      using that(2) by (auto simp: test_bit_ok odd_iff_mod_2_eq_one)
    then show ?thesis
      using om(1) [of "mul a1 x" a2] pos [of a1 x] step [OF that(1)] x by (simp add: mod_mult_left_eq)
  next
    case False
    then have "?b = 0" by (simp add: test_bit_ok even_iff_mod_2_eq_zero)
    then show ?thesis using False that(2) step [OF that(1)] by simp
  qed
  have e: "(p * p * dval (digits x) ^ ?b) ^ 2 ^ i * dval (digits x) ^ (dval (digits e) mod 2 ^ i) =
      p ^ 2 ^ Suc i * dval (digits x) ^ (dval (digits e) mod 2 ^ Suc i)"
  proof -
    have "dval (digits e) mod 2 ^ Suc i = dval (digits e) mod 2 ^ i + 2 ^ i * ?b"
      using mod_mult2_eq [of "dval (digits e)" "2 ^ i" 2] by (simp add: mult.commute)
    then show ?thesis
      by (simp add: power_mult_distrib power_mult [symmetric] power_add mult_2 mult.commute mult.left_commute)
  qed
  have eq: "mod_exp_loop x e m (Suc i) a =
     Option.bind (op_mod (mul a a) m) (\<lambda>a.
     Option.bind (if test_bit e i then op_mod (mul a x) m else Some a) (\<lambda>a. mod_exp_loop x e m i a))"
    by simp
  show ?case
  proof (intro conjI allI impI)
    fix r assume r: "mod_exp_loop x e m (Suc i) a = Some r"
    then obtain a1 a2 where a: "op_mod (mul a a) m = Some a1"
      "(if test_bit e i then op_mod (mul a1 x) m else Some a1) = Some a2" "mod_exp_loop x e m i a2 = Some r"
      unfolding eq by (auto simp: bind_eq_Some_conv)
    have s2: "canonical a2" "\<not> neg a2" "dval (digits a2) = p * p * dval (digits x) ^ ?b mod ?M"
      using step2 [OF a(1,2)] by auto
    show "canonical r" "\<not> neg r"
      "dval (digits r) = p ^ (2 ^ Suc i) * dval (digits x) ^ (dval (digits e) mod 2 ^ Suc i) mod ?M"
      using Suc.IH [OF s2] a(3) unfolding e by auto
  next
    assume l: "length (digits m) \<le> 2"
    obtain a1 where a1: "op_mod (mul a a) m = Some a1"
      using om(2) [OF _ _ l] pos [OF Suc.prems(1,2) Suc.prems(1,2)] by blast
    obtain a2 where a2: "(if test_bit e i then op_mod (mul a1 x) m else Some a1) = Some a2"
      using om(2) [OF _ _ l, of "mul a1 x"] pos [of a1 x] step [OF a1] x by (cases "test_bit e i") auto
    have s2: "canonical a2" "\<not> neg a2" "dval (digits a2) = p * p * dval (digits x) ^ ?b mod ?M"
      using step2 [OF a1 a2] by auto
    show "mod_exp_loop x e m (Suc i) a \<noteq> None"
      using Suc.IH [OF s2] l a1 a2 by simp
  qed
qed simp

lemma mod_exp_ok:
  assumes m: "modulus_ok m" and n: "canonical n" "\<not> neg n"
  shows "(\<forall>r. mod_exp n e m = Some r \<longrightarrow>
            canonical r \<and> \<not> neg r \<and> dval (digits r) = dval (digits n) ^ dval (digits e) mod dval (digits m)) \<and>
         (length (digits m) \<le> 2 \<longrightarrow> mod_exp n e m \<noteq> None)"
proof -
  let ?M = "dval (digits m)"
  have mc: "canonical m" "\<not> neg m" "0 < ?M" using m by (simp_all add: modulus_ok_def)
  note om = op_mod_ok [OF n mc]
  define X where "X = (if length (digits n) > length (digits m) then op_mod n m else Some n)"
  have X: "canonical x \<and> \<not> neg x \<and> dval (digits x) mod ?M = dval (digits n) mod ?M \<and>
      length (digits x) \<le> length (digits m)" if x: "X = Some x" for x
  proof (cases "length (digits n) > length (digits m)")
    case True
    then have "canonical x" "\<not> neg x" "dval (digits x) = dval (digits n) mod ?M"
      using om(1) x by (auto simp: X_def)
    then show ?thesis using smaller_length [OF _ mc(1), of x] mc(3) by simp
  qed (use x n in \<open>auto simp: X_def\<close>)
  have inner: "(\<forall>r. (if is_odd m then monty_mod_exp x e m
            else map_option strip_lz (mod_exp_loop x e m (bit_len e) (of_u32 1))) = Some r \<longrightarrow>
            canonical r \<and> \<not> neg r \<and> dval (digits r) = dval (digits n) ^ dval (digits e) mod ?M) \<and>
         (length (digits m) \<le> 2 \<longrightarrow> (if is_odd m then monty_mod_exp x e m
            else map_option strip_lz (mod_exp_loop x e m (bit_len e) (of_u32 1))) \<noteq> None)"
    if "X = Some x" for x
  proof -
    have x: "canonical x" "\<not> neg x" "length (digits x) \<le> length (digits m)" using X [OF that] by auto
    have pw: "dval (digits x) ^ k mod ?M = dval (digits n) ^ k mod ?M" for k
      using X [OF that] by (metis power_mod)
    show ?thesis
    proof (cases "is_odd m")
      case True
      with monty_mod_exp_ok [OF m True x, of e] show ?thesis by (simp add: pw)
    next
      case False
      then have "?M \<noteq> 1" using odd_dval [OF canonical_nonempty [OF mc(1)]] by auto
      then have one: "dval (digits (of_u32 1)) = 1 mod ?M" "\<not> neg (of_u32 1)"
        using mc(3) by (simp_all add: of_u32_def)
      note l = mod_exp_loop_ok [OF m x(1,2) canonical_of_u32 one(2,1), of e "bit_len e"]
      show ?thesis
        using l False bit_len_upper [of e] by (auto simp: pw strip_lz_id)
    qed
  qed
  have eq: "mod_exp n e m = Option.bind X (\<lambda>x. if is_odd m then monty_mod_exp x e m
            else map_option strip_lz (mod_exp_loop x e m (bit_len e) (of_u32 1)))"
    using n by (simp add: mod_exp_def X_def)
  show ?thesis
  proof (intro conjI allI impI)
    fix r assume "mod_exp n e m = Some r"
    then obtain x where "X = Some x" "(if is_odd m then monty_mod_exp x e m
            else map_option strip_lz (mod_exp_loop x e m (bit_len e) (of_u32 1))) = Some r"
      unfolding eq by (auto simp only: bind_eq_Some_conv)
    with inner show "canonical r" "\<not> neg r" "dval (digits r) = dval (digits n) ^ dval (digits e) mod ?M"
      by blast+
  next
    assume l: "length (digits m) \<le> 2"
    obtain x where x: "X = Some x"
      using om(2) [OF l] by (cases "length (digits n) > length (digits m)") (auto simp: X_def)
    show "mod_exp n e m \<noteq> None"
      using inner [OF x] l unfolding eq x by simp
  qed
qed

subsection \<open>Modular inverse\<close>

text \<open>
  The coefficients bound each other and are, up to the sign \<open>iter\<close> stands for, quotients of
  the remainders by the number to invert.
\<close>

definition inv_state :: "int \<Rightarrow> int \<Rightarrow> BigNum \<Rightarrow> BigNum \<Rightarrow> BigNum \<Rightarrow> BigNum \<Rightarrow> int \<Rightarrow> bool" where
  "inv_state n m u1 u3 v1 v3 iter \<longleftrightarrow>
     canonical u1 \<and> canonical u3 \<and> canonical v1 \<and> canonical v3 \<and>
     0 \<le> val u1 \<and> 0 \<le> val u3 \<and> 0 \<le> val v1 \<and> 0 \<le> val v3 \<and> (iter = 1 \<or> iter = -1) \<and>
     m dvd val u1 * n - iter * val u3 \<and> m dvd val v1 * n + iter * val v3 \<and>
     gcd (val u3) (val v3) = gcd n m \<and> val u3 * val v1 + val v3 * val u1 = m \<and>
     val u1 \<le> m \<and> val v1 \<le> m"

lemma val_pos: "\<lbrakk>canonical v; 0 \<le> val v\<rbrakk> \<Longrightarrow> \<not> neg v \<and> val v = int (dval (digits v))"
  using canonical_val_nonneg [of v] by (simp add: val_def)

lemma of_u32_pos [simp]: "\<not> neg (of_u32 i)"
  by (simp add: of_u32_def)

lemma compare_u32:
  "\<lbrakk>canonical v; 0 \<le> val v\<rbrakk> \<Longrightarrow> compare v (of_u32 i) \<noteq> 0 \<longleftrightarrow> val v \<noteq> int (unat i)"
  using compare_nonneg [of v "of_u32 i"] val_pos [of v] by (simp add: sgn_if)

lemma inv_state_step:
  assumes s: "inv_state n m u1 u3 v1 v3 iter" and nz: "val v3 \<noteq> 0"
    and q: "op_div u3 v3 = Some q" and t3: "op_mod u3 v3 = Some t3"
    and t1: "op_plus u1 (op_times q v1) = Some t1"
  shows "inv_state n m v1 v3 t1 t3 (- iter) \<and> val t3 < val v3"
proof -
  have c: "canonical u1" "canonical u3" "canonical v1" "canonical v3" using s by (simp_all add: inv_state_def)
  have nn: "0 \<le> val u3" "0 \<le> val v3" using s by (simp_all add: inv_state_def)
  note pu = val_pos [OF c(2) nn(1)] and pv = val_pos [OF c(4) nn(2)]
  have pos: "\<not> neg u3" "\<not> neg v3" "0 < dval (digits v3)" "val u3 = int (dval (digits u3))" "val v3 = int (dval (digits v3))"
    using pu pv nz by simp_all
  note om = op_mod_ok [OF c(2) pos(1) c(4) pos(2,3)]
  have t3': "canonical t3" "val t3 = val u3 mod val v3"
    using om(1) [OF t3] by (simp_all add: val_def [of t3] pos(4,5) zmod_int)
  have q': "canonical q" "val q = val u3 div val v3"
    using om(3) [OF q] by (simp_all add: val_def [of q] pos(4,5) zdiv_int)
  have p: "canonical (op_times q v1)" "val (op_times q v1) = val q * val v1"
    using mul_ok [OF q'(1) c(3)] by (simp_all add: op_times_def)
  have t1': "canonical t1" "val t1 = val u1 + val q * val v1"
    using add_sub_exact [OF c(1) p(1), of False] t1 p(2) by (auto simp: exact_result_def op_plus_def)
  have v3: "0 < val v3" using pos(3,5) by simp
  have d: "val u3 = val q * val v3 + val t3" by (simp add: q'(2) t3'(2))
  have b: "0 \<le> val q" "0 \<le> val t3" "val t3 < val v3"
    using v3 s by (simp_all add: q'(2) t3'(2) inv_state_def pos_imp_zdiv_nonneg_iff)
  have "m dvd val t1 * n - iter * val t3"
  proof -
    have "val t1 * n - iter * val t3 = (val u1 * n - iter * val u3) + val q * (val v1 * n + iter * val v3)"
      unfolding t1'(2) d by (simp add: algebra_simps)
    then show ?thesis using s by (simp add: inv_state_def)
  qed
  moreover have "gcd (val v3) (val t3) = gcd n m"
    using s unfolding t3'(2) by (metis gcd.commute gcd_red_int inv_state_def)
  moreover have e: "val v3 * val t1 + val t3 * val v1 = m"
  proof -
    have "val v3 * val t1 + val t3 * val v1 = val u3 * val v1 + val v3 * val u1"
      unfolding t1'(2) d by (simp add: algebra_simps)
    then show ?thesis using s by (simp add: inv_state_def)
  qed
  moreover have "0 \<le> val t1" using s b by (simp add: t1'(2) inv_state_def)
  moreover have "val t1 \<le> m"
  proof -
    have "1 * val t1 \<le> val v3 * val t1" using v3 \<open>0 \<le> val t1\<close> by (intro mult_right_mono) auto
    moreover have "0 \<le> val t3 * val v1" using b s by (simp add: inv_state_def)
    ultimately show ?thesis using e by linarith
  qed
  ultimately show ?thesis
    using s c t1'(1) t3'(1) b by (auto simp: inv_state_def)
qed

lemma mod_inv_loop_exact:
  assumes "mod_inv_loop u1 u3 v1 v3 iter = Some res"
  shows "inv_state n m u1 u3 v1 v3 iter \<longrightarrow>
    (case res of (a, g, i) \<Rightarrow>
       canonical a \<and> canonical g \<and> 0 \<le> val a \<and> val a \<le> m \<and> (i = 1 \<or> i = -1) \<and>
       val g = gcd n m \<and> m dvd val a * n - i * val g)"
proof (rule mod_inv_loop.raw_induct [OF _ assms])
  fix f u1 u3 v1 v3 iter res
  assume IH: "\<And>u1 u3 v1 v3 iter res. f u1 u3 v1 v3 iter = Some res \<Longrightarrow>
      inv_state n m u1 u3 v1 v3 iter \<longrightarrow>
      (case res of (a, g, i) \<Rightarrow>
         canonical a \<and> canonical g \<and> 0 \<le> val a \<and> val a \<le> m \<and> (i = 1 \<or> i = -1) \<and>
         val g = gcd n m \<and> m dvd val a * n - i * val g)"
    and r: "(if compare v3 (of_u32 0) \<noteq> 0
      then Option.bind (op_div u3 v3) (\<lambda>q.
           Option.bind (op_mod u3 v3) (\<lambda>t3.
           Option.bind (op_plus u1 (op_times q v1)) (\<lambda>t1. f v1 v3 t1 t3 (- iter))))
      else Some (u1, u3, iter)) = Some res"
  show "inv_state n m u1 u3 v1 v3 iter \<longrightarrow>
      (case res of (a, g, i) \<Rightarrow>
         canonical a \<and> canonical g \<and> 0 \<le> val a \<and> val a \<le> m \<and> (i = 1 \<or> i = -1) \<and>
         val g = gcd n m \<and> m dvd val a * n - i * val g)"
  proof
    assume s: "inv_state n m u1 u3 v1 v3 iter"
    then have v3: "compare v3 (of_u32 0) \<noteq> 0 \<longleftrightarrow> val v3 \<noteq> 0"
      by (simp add: inv_state_def compare_u32)
    show "case res of (a, g, i) \<Rightarrow>
         canonical a \<and> canonical g \<and> 0 \<le> val a \<and> val a \<le> m \<and> (i = 1 \<or> i = -1) \<and>
         val g = gcd n m \<and> m dvd val a * n - i * val g"
    proof (cases "val v3 = 0")
      case True
      then have "res = (u1, u3, iter)" using r v3 by simp
      with s True show ?thesis by (auto simp: inv_state_def)
    next
      case False
      then obtain q t3 t1 where st: "op_div u3 v3 = Some q" "op_mod u3 v3 = Some t3"
        "op_plus u1 (op_times q v1) = Some t1" "f v1 v3 t1 t3 (- iter) = Some res"
        using r v3 by (auto simp: bind_eq_Some_conv)
      show ?thesis
        using IH [OF st(4)] inv_state_step [OF s False st(1-3)] by blast
    qed
  qed
qed

lemma mod_inv_loop_returns:
  "\<lbrakk>inv_state n m u1 u3 v1 v3 iter; length (digits v3) \<le> 2\<rbrakk> \<Longrightarrow>
   \<exists>res. mod_inv_loop u1 u3 v1 v3 iter = Some res"
proof (induction "nat (val v3)" arbitrary: u1 u3 v1 v3 iter rule: less_induct)
  case less
  have c: "canonical u1" "canonical u3" "canonical v1" "canonical v3" "0 \<le> val u3" "0 \<le> val v3"
    using less.prems by (simp_all add: inv_state_def)
  have v3: "compare v3 (of_u32 0) \<noteq> 0 \<longleftrightarrow> val v3 \<noteq> 0"
    using c by (simp add: compare_u32)
  show ?case
  proof (cases "val v3 = 0")
    case True
    with v3 show ?thesis by (simp add: mod_inv_loop.simps [of u1 u3 v1 v3])
  next
    case False
    note p = val_pos [OF c(2,5)] val_pos [OF c(4,6)]
    have d: "0 < dval (digits v3)" using p False by simp
    obtain q t3 where q: "op_div u3 v3 = Some q" "op_mod u3 v3 = Some t3"
      using op_mod_ok(2,4) [OF c(2) _ c(4) _ d less.prems(2)] p by blast
    have "canonical (op_times q v1)"
      using mul_ok [of q v1] op_mod_ok(3) [OF c(2) _ c(4) _ d q(1)] p c(3) by (simp add: op_times_def)
    then obtain t1 where t1: "op_plus u1 (op_times q v1) = Some t1"
      using add_sub_exact [OF c(1), of _ False] by (auto simp: exact_result_def op_plus_def)
    note s = inv_state_step [OF less.prems(1) False q t1]
    have c3: "canonical t3" "0 \<le> val t3" using s by (simp_all add: inv_state_def)
    have "length (digits t3) \<le> length (digits v3)"
      using s val_pos [OF c3] p by (intro smaller_length [OF c3(1) c(4)]) simp
    then obtain res where "mod_inv_loop v1 v3 t1 t3 (- iter) = Some res"
      using less.hyps [of t3 v1 v3 t1 "- iter"] s c3 less.prems(2) by auto
    then have "mod_inv_loop u1 u3 v1 v3 iter = Some res"
      using q t1 False v3 by (simp add: mod_inv_loop.simps [of u1 u3 v1 v3])
    then show ?thesis ..
  qed
qed

lemma inv_state_start:
  assumes "canonical n" "0 \<le> val n" "canonical m" "0 < val m"
  shows "inv_state (val n) (val m) (of_u32 1) n (of_u32 0) m 1"
  using assms by (simp add: inv_state_def)

lemma mod_inv_ok:
  assumes n: "canonical n" "0 \<le> val n" and m: "canonical m" "0 < val m"
  shows "(\<forall>r. mod_inv n m = Some r \<longrightarrow>
            canonical r \<and> 0 \<le> val r \<and> val r \<le> val m \<and>
            (if gcd (val n) (val m) = 1 then (val r * val n) mod val m = 1 mod val m else val r = 0)) \<and>
         (length (digits m) \<le> 2 \<longrightarrow> mod_inv n m \<noteq> None)"
proof -
  define F where "F = (\<lambda>(u1, u3, iter :: int).
          if compare u3 (of_u32 1) \<noteq> 0 then Some (of_u32 0)
          else if iter < 0 then op_minus m u1
          else Some u1)"
  have eq: "mod_inv n m = Option.bind (mod_inv_loop (of_u32 1) n (of_u32 0) m 1) F"
    using n m by (simp add: mod_inv_def F_def)
  note s = inv_state_start [OF n m]
  have fin: "\<exists>r. F res = Some r \<and> canonical r \<and> 0 \<le> val r \<and> val r \<le> val m \<and>
      (if gcd (val n) (val m) = 1 then (val r * val n) mod val m = 1 mod val m else val r = 0)"
    if "mod_inv_loop (of_u32 1) n (of_u32 0) m 1 = Some res" for res
  proof -
    obtain a g i where res: "res = (a, g, i)" by (cases res)
    have l: "canonical a" "canonical g" "0 \<le> val a" "val a \<le> val m" "i = 1 \<or> i = -1"
      "val g = gcd (val n) (val m)" "val m dvd val a * val n - i * val g"
      using mod_inv_loop_exact [OF that [unfolded res], of "val n" "val m"] s by auto
    have g: "compare g (of_u32 1) \<noteq> 0 \<longleftrightarrow> val g \<noteq> 1"
      using compare_u32 [OF l(2), of 1] l(6) by simp
    show ?thesis
    proof (cases "val g = 1")
      case False
      then show ?thesis using g m l(6) by (simp add: F_def res)
    next
      case True
      then have d: "val m dvd val a * val n - i" using l(7) by simp
      show ?thesis
      proof (cases "i < 0")
        case True
        obtain r where r: "op_minus m a = Some r" "canonical r" "val r = val m - val a"
          using add_sub_exact [OF m(1) l(1), of True] by (auto simp: exact_result_def op_minus_def)
        have i: "i = -1" using True l(5) by auto
        have "val r * val n - 1 = val m * val n - (val a * val n - i)"
          unfolding r(3) i by (simp add: algebra_simps)
        then have "val m dvd val r * val n - 1"
          using d by (metis dvd_diff dvd_triv_left)
        then have "(val r * val n) mod val m = 1 mod val m"
          by (simp add: mod_eq_dvd_iff)
        then show ?thesis
          using r True \<open>val g = 1\<close> g l(3,4,6) by (simp add: F_def res)
      next
        case False
        then have "(val a * val n) mod val m = 1 mod val m"
          using d l(5) by (auto simp: mod_eq_dvd_iff)
        then show ?thesis
          using False \<open>val g = 1\<close> g l(1,3,4,6) by (simp add: F_def res)
      qed
    qed
  qed
  show ?thesis
  proof (intro conjI allI impI)
    fix r assume "mod_inv n m = Some r"
    then obtain res where "mod_inv_loop (of_u32 1) n (of_u32 0) m 1 = Some res" "F res = Some r"
      unfolding eq by (auto simp: bind_eq_Some_conv)
    with fin [OF this(1)] show "canonical r" "0 \<le> val r" "val r \<le> val m"
      "if gcd (val n) (val m) = 1 then (val r * val n) mod val m = 1 mod val m else val r = 0" by simp_all
  next
    assume "length (digits m) \<le> 2"
    then obtain res where "mod_inv_loop (of_u32 1) n (of_u32 0) m 1 = Some res"
      using mod_inv_loop_returns [OF s] by blast
    with fin [OF this] show "mod_inv n m \<noteq> None" by (auto simp: eq)
  qed
qed

subsection \<open>Properties of the modular operations\<close>

text \<open>
  C16. For a canonical base that is not negative and a canonical positive modulus: modular
  exponentiation, by Montgomery multiplication for odd moduli and by reduction for even ones,
  gives the power (by the magnitude of the exponent) reduced by the modulus, whenever the
  divisions it makes return, and they do for moduli of at most two digits.
\<close>

theorem modular_exponentiation:
  assumes "canonical n" "0 \<le> val n" "canonical m" "0 < val m"
  shows "(\<forall>r. mod_exp n e m = Some r \<longrightarrow>
            canonical r \<and> val r = val n ^ dval (digits e) mod val m) \<and>
         (length (digits m) \<le> 2 \<longrightarrow> mod_exp n e m \<noteq> None)"
proof -
  note n = val_pos [OF assms(1,2)]
  have m: "\<not> neg m" "val m = int (dval (digits m))" using val_pos [OF assms(3)] assms(4) by simp_all
  then have "modulus_ok m" using assms(3,4) by (simp add: modulus_ok_def)
  from mod_exp_ok [OF this assms(1), of e] n m show ?thesis
    by (auto simp: val_def zmod_int)
qed

theorem modular_exponentiation_witness:
  "\<exists>r. mod_exp (of_u32 3) (of_u32 20) (of_u32 1001) = Some r \<and> canonical r \<and> val r = 3 ^ 20 mod 1001"
proof -
  have d: "dval (digits (of_u32 20)) = 20" "length (digits (of_u32 1001)) \<le> 2"
    by (simp_all add: of_u32_def)
  have "0 \<le> val (of_u32 3)" "0 < val (of_u32 1001)" by simp_all
  note t = modular_exponentiation [OF canonical_of_u32 this(1) canonical_of_u32 this(2), of "of_u32 20"]
  then obtain r where "mod_exp (of_u32 3) (of_u32 20) (of_u32 1001) = Some r"
    using d(2) by blast
  with t d(1) show ?thesis by auto
qed

text \<open>
  C18. For a canonical number that is not negative and a canonical positive modulus: when
  \<open>mod_inv\<close> returns, its result lies between zero and the modulus; if number and modulus
  have no common divisor its product with the number is 1 modulo the modulus, otherwise it is
  zero. It returns for moduli of at most two digits; for longer ones a division may fail.
\<close>

theorem modular_inverse:
  assumes "canonical n" "0 \<le> val n" "canonical m" "0 < val m"
  shows "(\<forall>r. mod_inv n m = Some r \<longrightarrow>
            canonical r \<and> 0 \<le> val r \<and> val r \<le> val m \<and>
            (if gcd (val n) (val m) = 1 then (val r * val n) mod val m = 1 mod val m else val r = 0)) \<and>
         (length (digits m) \<le> 2 \<longrightarrow> mod_inv n m \<noteq> None)"
  by (rule mod_inv_ok [OF assms])

theorem modular_inverse_witness:
  "\<exists>r. mod_inv (of_u32 3) (of_u32 1001) = Some r \<and> 0 \<le> val r \<and> (val r * 3) mod 1001 = 1"
proof -
  have d: "length (digits (of_u32 1001)) \<le> 2" by (simp add: of_u32_def)
  have g: "gcd (val (of_u32 3)) (val (of_u32 1001)) = 1"
    unfolding val_of_u32 by code_simp
  have "0 \<le> val (of_u32 3)" "0 < val (of_u32 1001)" by simp_all
  note t = modular_inverse [OF canonical_of_u32 this(1) canonical_of_u32 this(2)]
  then obtain r where r: "mod_inv (of_u32 3) (of_u32 1001) = Some r"
    using d by blast
  then have "0 \<le> val r" "(val r * val (of_u32 3)) mod val (of_u32 1001) = 1 mod val (of_u32 1001)"
    using t g by auto
  with r show ?thesis by simp
qed

end
