(* ===== verification/Big_Num_Text.thy ===== *)
theory Big_Num_Text
  imports Big_Num_Mul
begin

unbundle bit_operations_syntax

text \<open>
  The external forms of the numbers of \<^verbatim>\<open>common/src/BigNum.cc\<close>: hexadecimal text and
  big-endian byte arrays, in both directions, and random numbers from a source of bytes.
\<close>

subsection \<open>Operations\<close>

text \<open>
  Digits are built from the least significant end, \<open>w\<close> bits at a time; an item that is
  \<open>None\<close> is a character that is no digit, at which the code gives up.
\<close>

fun pack_digit :: "nat \<Rightarrow> u32 option list \<Rightarrow> nat \<Rightarrow> u32 \<Rightarrow> (u32 \<times> u32 option list) option" where
  "pack_digit w [] i n = Some (n, [])"
| "pack_digit w (c # cs) i n =
     (if i < 32
      then (case c of
              None \<Rightarrow> None
            | Some v \<Rightarrow> pack_digit w cs (i + w) (n OR push_bit i v))
      else Some (n, c # cs))"

lemma pack_digit_length:
  "pack_digit w cs i n = Some (m, rest) \<Longrightarrow> length rest \<le> length cs"
  by (induction w cs i n rule: pack_digit.induct) (force split: if_splits option.splits)+

lemma pack_digit_progress:
  "pack_digit w (c # cs) 0 n = Some (m, rest) \<Longrightarrow> length rest < Suc (length cs)"
  using pack_digit_length [of w cs w _ m rest] by (auto split: option.splits simp: less_Suc_eq_le)

function pack_digits :: "nat \<Rightarrow> u32 option list \<Rightarrow> u32 list option" where
  "pack_digits w [] = Some []"
| "pack_digits w (c # cs) =
     (case pack_digit w (c # cs) 0 0 of
        None \<Rightarrow> None
      | Some (n, rest) \<Rightarrow> map_option ((#) n) (pack_digits w rest))"
  by pat_completeness auto
termination
  by (relation "measure (\<lambda>(w, cs). length cs)") 
    (auto simp del: pack_digit.simps simp: pack_digit_progress)

definition hex_value :: "char \<Rightarrow> u32 option" where
  "hex_value c =
     (let k = (of_char c :: nat)
      in if 48 \<le> k \<and> k \<le> 57 then Some (of_nat (k - 48))
         else if 97 \<le> k \<and> k \<le> 102 then Some (of_nat (k + 10 - 97))
         else if 65 \<le> k \<and> k \<le> 70 then Some (of_nat (k + 10 - 65))
         else None)"

definition set_hex :: "string \<Rightarrow> BigNum option" where
  "set_hex number =
     (let (p, s) = (if peek number = CHR ''-'' then (tl number, True) else (number, False));
          p = (if peek p = CHR ''0'' \<and> peek (tl p) = CHR ''x'' then drop 2 p else p);
          p = dropWhile (\<lambda>c. c = CHR ''0'') p;
          len = (length p + 7) div 8
      in if len = 0 then Some zero
         else map_option (\<lambda>ds. \<lparr>digits = ds, neg = s\<rparr>) (pack_digits 4 (map hex_value (rev p))))"

definition set_bytes :: "byte list \<Rightarrow> BigNum" where
  "set_bytes data =
     \<lparr>digits = (case pack_digits 8 (map (\<lambda>b. Some (ucast b)) (rev data)) of
                 Some ds \<Rightarrow> ds | None \<Rightarrow> []),
      neg = False\<rparr>"

definition gen_rand :: "u32 list \<Rightarrow> nat \<Rightarrow> BigNum option" where
  "gen_rand random len =
     (let n = (3 + len) div 4;
          ds = take n random;
          excess = n * 4 - len
      in if n = 0 then None
         else Some \<lparr>digits = ds[n - 1 := ds ! (n - 1) AND drop_bit (8 * excess) 0xFFFFFFFF],
                    neg = False\<rparr>)"

text \<open>
  The bytes of the digits, most significant first, are stored one after the other; leading
  zeroes are stored too, but not counted. The room that is left is checked after a byte has
  been stored; storing one when there is no room is \<open>None\<close>.
\<close>

definition be_bytes :: "u32 \<Rightarrow> byte list" where
  "be_bytes d = [ucast (drop_bit 24 d), ucast (drop_bit 24 (push_bit 8 d)),
                 ucast (drop_bit 24 (push_bit 16 d)), ucast (drop_bit 24 (push_bit 24 d))]"

fun get_loop :: "byte list \<Rightarrow> byte \<Rightarrow> nat \<Rightarrow> byte list \<Rightarrow> byte list option" where
  "get_loop [] nZ len out = Some out"
| "get_loop (b # bs) nZ len out =
     (if len = 0 then None
      else let nZ = nZ OR b;
               (out, len) = (if nZ \<noteq> 0 then (out @ [b], len - 1) else (out, len))
           in if len = 0 then Some out else get_loop bs nZ len out)"

definition get_bytes :: "BigNum \<Rightarrow> nat \<Rightarrow> bool \<Rightarrow> byte list option" where
  "get_bytes n len pad =
     (let padLen = (if pad \<and> len > byte_len n then len - byte_len n else 0)
      in get_loop (concat (map be_bytes (rev (digits n)))) 0 (len - padLen) (replicate padLen 0))"

definition hex_char :: "bool \<Rightarrow> nat \<Rightarrow> char" where
  "hex_char toLower k = (if toLower then ''0123456789abcdef'' else ''0123456789ABCDEF'') ! k"

definition fmt_08x :: "bool \<Rightarrow> u32 \<Rightarrow> string" where
  "fmt_08x toLower d =
     map (\<lambda>i. hex_char toLower (unat (drop_bit (4 * i) d AND 15))) [7, 6, 5, 4, 3, 2, 1, 0]"

definition get_hex :: "BigNum \<Rightarrow> bool \<Rightarrow> string" where
  "get_hex n toLower =
     (let str = ''0'' @ concat (map (fmt_08x toLower) (rev (digits n)));
          nz = dropWhile (\<lambda>c. c = CHR ''0'') str
      in if nz = [] then ''0'' else if neg n then CHR ''-'' # nz else nz)"

subsection \<open>Packing\<close>

fun hval :: "nat \<Rightarrow> u32 list \<Rightarrow> nat" where
  "hval w [] = 0"
| "hval w (v # vs) = unat v + 2 ^ w * hval w vs"

lemma hval_append: "hval w (xs @ ys) = hval w xs + 2 ^ (w * length xs) * hval w ys"
  by (induction xs) (simp_all add: power_add algebra_simps)

lemma hval_less: "\<forall>v\<in>set vs. unat v < 2 ^ w \<Longrightarrow> hval w vs < 2 ^ (w * length vs)"
proof (induction vs)
  case (Cons v vs)
  then have "unat v + 2 ^ w * hval w vs < 2 ^ w * Suc (hval w vs)" by simp
  also have "\<dots> \<le> 2 ^ w * 2 ^ (w * length vs)"
    using Cons by (intro mult_le_mono2) (simp add: Suc_le_eq)
  finally show ?case by (simp add: power_add)
qed simp

lemma pack_digit_ok:
  assumes w: "0 < w" "w dvd 32"
  shows "\<lbrakk>\<forall>v\<in>set vs. unat v < 2 ^ w; w dvd i; i \<le> 32; unat n < 2 ^ i\<rbrakk> \<Longrightarrow>
    \<exists>m. pack_digit w (map Some vs) i n = Some (m, map Some (drop ((32 - i) div w) vs)) \<and>
        unat m = unat n + 2 ^ i * hval w (take ((32 - i) div w) vs)"
proof (induction vs arbitrary: i n)
  case (Cons v vs)
  show ?case
  proof (cases "i < 32")
    case False
    with Cons.prems(3) have "i = 32" by simp
    then show ?thesis by simp
  next
    case True
    have iw: "i + w \<le> 32"
    proof -
      have "w dvd 32 - i" using w(2) Cons.prems(2) by (simp add: dvd_diff_nat)
      then have "w \<le> 32 - i" using True by (intro dvd_imp_le) auto
      then show ?thesis using True by simp
    qed
    have v: "unat v < 2 ^ w" using Cons.prems(1) by simp
    have "unat v * 2 ^ i < 2 ^ w * 2 ^ i" using v by simp
    also have "(2 :: nat) ^ w * 2 ^ i \<le> 2 ^ 32"
      unfolding power_add [symmetric] using iw by (intro power_increasing) auto
    finally have lt: "unat v * 2 ^ i < 2 ^ 32" .
    have p: "unat (push_bit i v) = unat v * 2 ^ i"
      unfolding unsigned_push_bit_eq
      by (simp only: push_bit_eq_mult take_bit_eq_mod len_num1 len_bit0) (use lt in simp)
    have "n AND push_bit i v = push_bit i v AND n" by (rule and.commute)
    also have "\<dots> = 0"
      by (rule and_low_high [OF Cons.prems(4)]) (simp only: p dvd_triv_right)
    finally have o: "unat (n OR push_bit i v) = unat n + unat v * 2 ^ i"
      by (simp add: unat_or_disjoint p)
    have "unat n + unat v * 2 ^ i < 2 ^ (i + w)"
    proof -
      have "unat n + unat v * 2 ^ i < 2 ^ i * Suc (unat v)" using Cons.prems(4) by (simp add: mult.commute)
      also have "\<dots> \<le> 2 ^ i * 2 ^ w" using v by (intro mult_le_mono2) simp
      finally show ?thesis by (simp add: power_add)
    qed
    then obtain m where m: "pack_digit w (map Some vs) (i + w) (n OR push_bit i v) =
        Some (m, map Some (drop ((32 - (i + w)) div w) vs))"
      "unat m = unat (n OR push_bit i v) + 2 ^ (i + w) * hval w (take ((32 - (i + w)) div w) vs)"
      using Cons.IH [of "i + w" "n OR push_bit i v"] Cons.prems iw o by (auto simp: dvd_add)
    have k: "(32 - i) div w = Suc ((32 - (i + w)) div w)"
    proof -
      have "32 - i = 32 - (i + w) + w" using iw by simp
      then show ?thesis using w(1) by (metis div_add_self2 less_numeral_extra(3) plus_1_eq_Suc add.commute)
    qed
    show ?thesis
      using m True unfolding k by (simp add: o power_add algebra_simps)
  qed
qed simp

lemma pack_digits_ok:
  assumes w: "0 < w" "w dvd 32"
  shows "\<forall>v\<in>set vs. unat v < 2 ^ w \<Longrightarrow>
    \<exists>ds. pack_digits w (map Some vs) = Some ds \<and> dval ds = hval w vs \<and>
         length ds = (length vs + 32 div w - 1) div (32 div w)"
proof (induction "length vs" arbitrary: vs rule: less_induct)
  case less
  have k: "0 < 32 div w"
    using w dvd_imp_le [OF w(2)] by (simp add: div_greater_zero_iff)
  show ?case
  proof (cases vs)
    case Nil
    then show ?thesis using k by simp
  next
    case (Cons v us)
    let ?k = "32 div w"
    obtain m where m: "pack_digit w (map Some vs) 0 0 = Some (m, map Some (drop ?k vs))"
      "unat m = hval w (take ?k vs)"
      using pack_digit_ok [OF w less.prems, of 0 0] by auto
    have "length (drop ?k vs) < length vs" using k Cons by simp
    moreover have "\<forall>v\<in>set (drop ?k vs). unat v < 2 ^ w"
      using less.prems by (meson in_set_dropD)
    ultimately obtain ds where ds: "pack_digits w (map Some (drop ?k vs)) = Some ds"
      "dval ds = hval w (drop ?k vs)" "length ds = (length (drop ?k vs) + ?k - 1) div ?k"
      using less.hyps by blast
    have e: "pack_digits w (map Some vs) = Some (m # ds)"
      using m(1) ds(1) by (simp add: Cons del: pack_digit.simps)
    have wk: "w * ?k = 32" using w(2) by simp
    have v: "dval (m # ds) = hval w vs"
    proof (cases "?k \<le> length vs")
      case True
      then show ?thesis
        using hval_append [of w "take ?k vs" "drop ?k vs"] m(2) ds(2) wk by (simp add: min_absorb2)
    next
      case False
      then show ?thesis using m(2) ds(2) by simp
    qed
    have "Suc ((length vs - ?k + ?k - 1) div ?k) = (length vs + ?k - 1) div ?k"
    proof (cases "?k \<le> length vs")
      case True
      have "(length vs + ?k - 1) div ?k = ((length vs - 1) + ?k) div ?k" using Cons by simp
      also have "\<dots> = Suc ((length vs - 1) div ?k)" using k by simp
      finally show ?thesis using True by simp
    next
      case False
      have "length vs + ?k - 1 = (length vs - 1) + ?k" using Cons by simp
      then show ?thesis using False k Cons by simp
    qed
    then have "length (m # ds) = (length vs + ?k - 1) div ?k"
      using ds(3) by simp
    with e v show ?thesis by blast
  qed
qed

lemma unat_ucast_byte: "unat (ucast (b :: byte) :: u32) = unat b"
  using unsigned_less [of b, where ?'a = nat] by (simp add: unsigned_ucast_eq take_bit_eq_mod)

subsection \<open>Byte arrays\<close>

definition bval :: "byte list \<Rightarrow> nat" where
  "bval bs = hval 8 (map ucast (rev bs))"

lemma bval_simps [simp]: "bval [] = 0" "bval (b # bs) = unat b * 256 ^ length bs + bval bs"
  by (simp_all add: bval_def hval_append unat_ucast_byte power_mult)

lemma bval_lower:
  assumes "b \<noteq> 0"
  shows "256 ^ length bs \<le> bval (b # bs)"
proof -
  have "1 * 256 ^ length bs \<le> unat b * 256 ^ length bs"
    using assms by (intro mult_le_mono1) (simp add: Suc_le_eq unat_gt_0)
  then show ?thesis unfolding bval_simps by linarith
qed

lemma bval_append: "bval (xs @ ys) = bval xs * 256 ^ length ys + bval ys"
  by (induction xs) (simp_all add: power_add algebra_simps)

lemma bval_less: "bval bs < 256 ^ length bs"
proof -
  have "hval 8 (map ucast (rev bs)) < 2 ^ (8 * length (map (ucast :: byte \<Rightarrow> u32) (rev bs)))"
    by (rule hval_less) (use unsigned_less [where ?'a = nat and ?'b = 8] in \<open>auto simp: unat_ucast_byte\<close>)
  then show ?thesis by (simp add: bval_def power_mult)
qed

lemma bval_inj: "\<lbrakk>length xs = length ys; bval xs = bval ys\<rbrakk> \<Longrightarrow> xs = ys"
proof (induction xs ys rule: list_induct2)
  case (Cons x xs y ys)
  have "unat x = (unat x * 256 ^ length xs + bval xs) div 256 ^ length xs"
    "unat y = (unat y * 256 ^ length ys + bval ys) div 256 ^ length ys"
    using bval_less [of xs] bval_less [of ys] by simp_all
  with Cons have "unat x = unat y" by simp
  with Cons show ?case by (simp add: word_unat_eq_iff)
qed simp

lemma set_bytes_ok:
  "dval (digits (set_bytes data)) = bval data" "\<not> neg (set_bytes data)"
  "length (digits (set_bytes data)) = (length data + 3) div 4"
proof -
  have m: "map (\<lambda>b. Some (ucast b)) (rev data) = map Some (map (ucast :: byte \<Rightarrow> u32) (rev data))"
    by simp
  obtain ds where ds: "pack_digits 8 (map Some (map (ucast :: byte \<Rightarrow> u32) (rev data))) = Some ds"
    "dval ds = hval 8 (map ucast (rev data))" "length ds = (length data + 3) div 4"
    using pack_digits_ok [of 8 "map (ucast :: byte \<Rightarrow> u32) (rev data)"]
      unsigned_less [where ?'a = nat and ?'b = 8] by (auto simp: unat_ucast_byte)
  show "dval (digits (set_bytes data)) = bval data"
    "length (digits (set_bytes data)) = (length data + 3) div 4" "\<not> neg (set_bytes data)"
    unfolding set_bytes_def m ds(1) using ds(2,3) by (simp_all add: bval_def)
qed

lemma byte_of_u32: "unat (ucast (drop_bit k (d :: u32)) :: byte) = unat d div 2 ^ k mod 256"
proof -
  have "unat (drop_bit k d) = unat d div 2 ^ k"
    unfolding unsigned_drop_bit_eq
    unfolding drop_bit_eq_div take_bit_eq_mod using u32_lt [of d] by simp
  then show ?thesis by (simp add: unsigned_ucast_eq take_bit_eq_mod)
qed

lemma be_bytes_alt:
  "be_bytes d = [ucast (drop_bit 24 d), ucast (drop_bit 16 d), ucast (drop_bit 8 d), ucast (drop_bit 0 d)]"
proof -
  have "(ucast (drop_bit 24 (push_bit k d)) :: byte) = ucast (drop_bit (24 - k) d)" if "k \<le> 24" for k
    using that by (intro bit_eqI) (auto simp: bit_simps)
  from this [of 8] this [of 16] this [of 24] show ?thesis by (simp add: be_bytes_def)
qed

lemma be_bytes_val: "bval (be_bytes d) = unat d" "length (be_bytes d) = 4"
proof -
  define N where "N = unat d"
  have "N div 2 ^ 24 < 256" using u32_lt [of d] unfolding N_def by simp
  then have m: "N div 16777216 mod 256 = N div 16777216" by simp
  have "N = N mod 256 + 256 * (N div 256)" by simp
  moreover have "N div 256 = N div 2 ^ 8 mod 256 + 256 * (N div 2 ^ 16)"
    using div_mult2_eq [of N 256 256] mod_mult_div_eq [of "N div 256" 256] by simp
  moreover have "N div 2 ^ 16 = N div 2 ^ 16 mod 256 + 256 * (N div 2 ^ 24)"
    using div_mult2_eq [of N "2 ^ 16" 256] mod_mult_div_eq [of "N div 2 ^ 16" 256] by simp
  ultimately have "N div 2 ^ 24 * 16777216 + (N div 2 ^ 16 mod 256 * 65536 +
      (N div 2 ^ 8 mod 256 * 256 + N mod 256)) = N" by linarith
  then show "bval (be_bytes d) = unat d"
    using byte_of_u32 [of 0 d] by (simp add: be_bytes_alt byte_of_u32 N_def [symmetric] m del: drop_bit_0)
qed (simp add: be_bytes_def)

definition all_bytes :: "BigNum \<Rightarrow> byte list" where
  "all_bytes n = concat (map be_bytes (rev (digits n)))"

lemma all_bytes_val: "bval (concat (map be_bytes (rev ds))) = dval ds" 
  "length (concat (map be_bytes (rev ds))) = 4 * length ds"
  by (induction ds) (simp_all add: bval_append be_bytes_val)

definition sig_bytes :: "BigNum \<Rightarrow> byte list" where
  "sig_bytes n = dropWhile (\<lambda>b. b = 0) (all_bytes n)"

lemma bval_dropWhile: "bval (dropWhile (\<lambda>b. b = 0) bs) = bval bs"
  by (induction bs) auto

lemma sig_bytes_val: "bval (sig_bytes n) = dval (digits n)"
  by (simp add: sig_bytes_def bval_dropWhile all_bytes_def all_bytes_val)

lemma byte_len_sig: "byte_len n = length (sig_bytes n)"
proof (cases "sig_bytes n")
  case Nil
  then have "dval (digits n) = 0" using sig_bytes_val [of n] by simp
  with Nil show ?thesis by (simp add: byte_len_def bit_len_0)
next
  case (Cons b bs)
  have "b \<noteq> 0" using Cons hd_dropWhile [of "\<lambda>b. b = 0" "all_bytes n"] by (simp add: sig_bytes_def)
  from bval_lower [OF this, of bs] have lo: "256 ^ length bs \<le> dval (digits n)"
    using sig_bytes_val [of n] Cons by metis
  have hi: "dval (digits n) < 256 ^ Suc (length bs)"
    using bval_less [of "sig_bytes n"] sig_bytes_val [of n] Cons by simp
  have nz: "dval (digits n) \<noteq> 0" using lo by (metis le_zero_eq power_not_zero zero_neq_numeral)
  have p: "(256 :: nat) ^ k = 2 ^ (8 * k)" for k by (simp add: power_mult)
  have "2 ^ (8 * length bs) < (2 :: nat) ^ bit_len n"
    using lo bit_len_upper [of n] unfolding p by linarith
  then have 1: "8 * length bs < bit_len n" by simp
  have "2 ^ (bit_len n - 1) < (2 :: nat) ^ (8 * Suc (length bs))"
    using hi bit_len_lower [OF nz] unfolding p by linarith
  then have 2: "bit_len n - 1 < 8 * Suc (length bs)" by simp
  have "(7 + bit_len n) div 8 = Suc (length bs)" using 1 2 by (intro div_nat_eqI) simp_all
  with Cons show ?thesis by (simp add: byte_len_def)
qed

lemma get_loop_started:
  "\<lbrakk>nZ \<noteq> 0; 0 < len\<rbrakk> \<Longrightarrow> get_loop bs nZ len out = Some (out @ take len bs)"
proof (induction bs arbitrary: nZ len out)
  case (Cons b bs)
  have "nZ OR b \<noteq> 0" using Cons.prems(1) by (simp add: or_eq_0_iff)
  with Cons show ?case by (cases "len = 1") (auto simp: Let_def take_Cons')
qed simp

lemma get_loop_ok:
  "0 < len \<Longrightarrow> get_loop bs 0 len out = Some (out @ take len (dropWhile (\<lambda>b. b = 0) bs))"
proof (induction bs arbitrary: out)
  case (Cons b bs)
  then show ?case
    using get_loop_started [of b "len - 1" bs "out @ [b]"]
    by (cases "b = 0"; cases "len = 1") (auto simp: Let_def take_Cons')
qed simp

lemma get_bytes_alt:
  fixes pad len
  assumes "digits n \<noteq> []"
  defines "z \<equiv> (if pad \<and> len > length (sig_bytes n) then len - length (sig_bytes n) else 0)"
  shows "get_bytes n len pad =
    (if len - z = 0 then None else Some (replicate z 0 @ take (len - z) (sig_bytes n)))"
proof -
  have "all_bytes n \<noteq> []"
    using all_bytes_val(2) [of "digits n"] assms(1) unfolding all_bytes_def by (metis length_0_conv mult_eq_0_iff zero_neq_numeral)
  then obtain b bs where b: "all_bytes n = b # bs" by (cases "all_bytes n") auto
  show ?thesis
    unfolding get_bytes_def byte_len_sig Let_def z_def [symmetric] all_bytes_def [symmetric]
    using get_loop_ok [of "len - z" "all_bytes n" "replicate z 0"] b by (auto simp: sig_bytes_def)
qed

text \<open>Padded to the length it came from, an array comes back, if any byte of it is set.\<close>

lemma bytes_roundtrip:
  assumes "bval data \<noteq> 0"
  shows "get_bytes (set_bytes data) (length data) True = Some data"
proof -
  have "data \<noteq> []" using assms by auto
  then have ne: "digits (set_bytes data) \<noteq> []"
    using set_bytes_ok(3) [of data] by (cases data) auto
  define s where "s = sig_bytes (set_bytes data)"
  have v: "bval s = bval data" by (simp add: s_def sig_bytes_val set_bytes_ok(1))
  then have "s \<noteq> []" using assms by auto
  have "length s \<le> length data"
  proof (rule ccontr)
    assume "\<not> length s \<le> length data"
    obtain b bs where b: "s = b # bs" using \<open>s \<noteq> []\<close> by (cases s) auto
    have "b \<noteq> 0" using b hd_dropWhile [of "\<lambda>b. b = 0" "all_bytes (set_bytes data)"] by (simp add: s_def sig_bytes_def)
    from bval_lower [OF this, of bs] have "256 ^ length bs \<le> bval data"
      using v b by metis
    moreover have "(256 :: nat) ^ length data \<le> 256 ^ length bs"
      using \<open>\<not> length s \<le> length data\<close> b by (intro power_increasing) auto
    ultimately show False using bval_less [of data] by linarith
  qed
  define z where "z = length data - length s"
  have g: "get_bytes (set_bytes data) (length data) True = Some (replicate z 0 @ s)"
    using get_bytes_alt [OF ne, where pad = True and len = "length data"] \<open>length s \<le> length data\<close> \<open>s \<noteq> []\<close>
    by (cases "length s = length data") (auto simp: s_def [symmetric] z_def simp flip: length_greater_0_conv)
  have "bval (replicate z 0) = 0" by (induction z) auto
  then have "replicate z 0 @ s = data"
    using v \<open>length s \<le> length data\<close> by (intro bval_inj) (simp_all add: bval_append z_def)
  with g show ?thesis by simp
qed

text \<open>Zero has no byte to store after the padding, and one is stored behind the buffer.\<close>

lemma get_bytes_zero:
  assumes "digits n \<noteq> []" "dval (digits n) = 0"
  shows "get_bytes n len True = None"
proof -
  have "byte_len n = 0" using assms by (simp add: byte_len_def bit_len_0)
  then have "sig_bytes n = []" by (simp add: byte_len_sig)
  then show ?thesis using get_bytes_alt [OF assms(1), where pad = True and len = len] by simp
qed

subsection \<open>Hexadecimal text\<close>

definition nibbles :: "u32 \<Rightarrow> u32 list" where
  "nibbles d = map (\<lambda>i. drop_bit (4 * i) d AND 15) [7, 6, 5, 4, 3, 2, 1, 0]"

definition nib_char :: "bool \<Rightarrow> u32 \<Rightarrow> char" where
  "nib_char l v = hex_char l (unat v)"

lemma hex_table:
  "list_all (\<lambda>k. hex_value (hex_char l k) = Some (of_nat k) \<and> (hex_char l k = CHR ''0'' \<longleftrightarrow> k = 0) \<and>
      hex_char l k \<noteq> CHR ''-'') [0, 1, 2, 3, 4, 5, 6, 7, 8, 9, 10, 11, 12, 13, 14, 15]"
  by (cases l) (simp_all add: hex_value_def hex_char_def)

lemma nib_char_ok:
  assumes "unat v < 16"
  shows "hex_value (nib_char l v) = Some v" "nib_char l v = CHR ''0'' \<longleftrightarrow> v = 0" "nib_char l v \<noteq> CHR ''-''"
proof -
  have "unat v \<in> set [0, 1, 2, 3, 4, 5, 6, 7, 8, 9, 10, 11, 12, 13, 14, 15]"
    using assms by (simp, presburger)
  with hex_table [of l]
  have "hex_value (hex_char l (unat v)) = Some (of_nat (unat v)) \<and>
      (hex_char l (unat v) = CHR ''0'' \<longleftrightarrow> unat v = 0) \<and> hex_char l (unat v) \<noteq> CHR ''-''"
    unfolding list_all_iff by blast
  then show "hex_value (nib_char l v) = Some v" "nib_char l v = CHR ''0'' \<longleftrightarrow> v = 0" "nib_char l v \<noteq> CHR ''-''"
    by (simp_all add: nib_char_def of_nat_unat unsigned_eq_0_iff)
qed

lemma fmt_nibbles: "fmt_08x l d = map (nib_char l) (nibbles d)"
  by (simp add: fmt_08x_def nibbles_def nib_char_def)

lemma nibble_val: "unat (drop_bit k d AND 15 :: u32) = unat d div 2 ^ k mod 16"
proof -
  have "drop_bit k d AND 15 = take_bit 4 (drop_bit k d)"
    by (simp add: take_bit_eq_mask mask_eq_exp_minus_1)
  moreover have "unat (drop_bit k d) = unat d div 2 ^ k"
    unfolding unsigned_drop_bit_eq
    unfolding drop_bit_eq_div take_bit_eq_mod using u32_lt [of d] by simp
  ultimately show ?thesis
    by (simp only: unsigned_take_bit_eq) (simp add: take_bit_eq_mod)
qed

lemma nibbles_lt: "v \<in> set (nibbles d) \<Longrightarrow> unat v < 16"
  by (auto simp: nibbles_def nibble_val simp del: drop_bit_0)

lemma hval_nibbles: "hval 4 (rev (nibbles d)) = unat d"
proof -
  have "hval 4 (map (\<lambda>i. drop_bit (4 * i) d AND 15) [0..<k]) = unat d mod 2 ^ (4 * k)" for k
  proof (induction k)
    case (Suc k)
    have "unat d mod 2 ^ (4 * Suc k) = 2 ^ (4 * k) * (unat d div 2 ^ (4 * k) mod 16) + unat d mod 2 ^ (4 * k)"
    proof -
      have "(2 :: nat) ^ (4 * Suc k) = 2 ^ (4 * k) * 16" by (simp add: power_add)
      then show ?thesis by (simp only: mod_mult2_eq)
    qed
    with Suc show ?case by (simp add: hval_append nibble_val mult.commute)
  qed simp
  from this [of 8] have "hval 4 (map (\<lambda>i. drop_bit (4 * i) d AND 15) [0..<8]) = unat d"
    using u32_lt [of d] by simp
  moreover have "rev (nibbles d) = map (\<lambda>i. drop_bit (4 * i) d AND 15) [0..<8]"
    by (simp add: nibbles_def upt_rec)
  ultimately show ?thesis by simp
qed

lemma length_nibbles [simp]: "length (nibbles d) = 8"
  by (simp add: nibbles_def)

definition all_nibbles :: "u32 list \<Rightarrow> u32 list" where
  "all_nibbles ds = concat (map nibbles (rev ds))"

lemma all_nibbles_ok:
  "hval 4 (rev (all_nibbles ds)) = dval ds" "length (all_nibbles ds) = 8 * length ds"
  "v \<in> set (all_nibbles ds) \<Longrightarrow> unat v < 16"
proof -
  show l: "length (all_nibbles ds) = 8 * length ds" for ds
    by (induction ds) (simp_all add: all_nibbles_def)
  show "hval 4 (rev (all_nibbles ds)) = dval ds"
    by (induction ds) (simp_all add: all_nibbles_def hval_append hval_nibbles)
  show "v \<in> set (all_nibbles ds) \<Longrightarrow> unat v < 16"
    using nibbles_lt by (auto simp: all_nibbles_def)
qed

definition sig_nibbles :: "u32 list \<Rightarrow> u32 list" where
  "sig_nibbles ds = dropWhile (\<lambda>v. v = 0) (all_nibbles ds)"

lemma hval_dropWhile: "hval 4 (rev (dropWhile (\<lambda>v. v = 0) vs)) = hval 4 (rev vs)"
  by (induction vs) (auto simp: hval_append)

lemma sig_nibbles_ok:
  "hval 4 (rev (sig_nibbles ds)) = dval ds" "v \<in> set (sig_nibbles ds) \<Longrightarrow> unat v < 16"
  by (simp_all add: sig_nibbles_def hval_dropWhile all_nibbles_ok)
    (metis all_nibbles_ok(3) set_dropWhileD)

lemma dropWhile_nib_char:
  "(\<And>v. v \<in> set vs \<Longrightarrow> unat v < 16) \<Longrightarrow>
   dropWhile (\<lambda>c. c = CHR ''0'') (map (nib_char l) vs) = map (nib_char l) (dropWhile (\<lambda>v. v = 0) vs)"
  by (induction vs) (auto simp: nib_char_ok)

lemma get_hex_alt:
  "get_hex n l =
     (if sig_nibbles (digits n) = [] then ''0''
      else (if neg n then [CHR ''-''] else []) @ map (nib_char l) (sig_nibbles (digits n)))"
proof -
  have "concat (map (fmt_08x l) (rev ds)) = map (nib_char l) (all_nibbles ds)" for ds
    by (simp add: all_nibbles_def map_concat comp_def fmt_nibbles [abs_def])
  then have "dropWhile (\<lambda>c. c = CHR ''0'') (''0'' @ concat (map (fmt_08x l) (rev (digits n)))) =
      map (nib_char l) (sig_nibbles (digits n))"
    using dropWhile_nib_char [of "all_nibbles (digits n)" l] all_nibbles_ok(3)
    by (simp add: sig_nibbles_def)
  moreover have "get_hex n l =
      (let D = dropWhile (\<lambda>c. c = CHR ''0'') (''0'' @ concat (map (fmt_08x l) (rev (digits n))))
       in if D = [] then ''0'' else if neg n then CHR ''-'' # D else D)"
    by (simp only: get_hex_def Let_def)
  ultimately show ?thesis by (simp only: Let_def) simp
qed

text \<open>The text of a number is read back as the number.\<close>

lemma hex_roundtrip:
  assumes "canonical n"
  shows "set_hex (get_hex n l) = Some n"
proof (cases "sig_nibbles (digits n) = []")
  case True
  then have "dval (digits n) = 0" using sig_nibbles_ok(1) [of "digits n"] by simp
  then have "val n = val zero" by (simp add: val_def zero_def)
  then have "n = zero" using assms canonical_eq canonical_zero by blast
  moreover have "set_hex ''0'' = Some zero" by (simp add: set_hex_def Let_def)
  ultimately show ?thesis using True by (simp add: get_hex_alt)
next
  case False
  then obtain v vs where s: "sig_nibbles (digits n) = v # vs" by (cases "sig_nibbles (digits n)") auto
  have v: "v \<noteq> 0" "unat v < 16"
    using s hd_dropWhile [of "\<lambda>v. v = 0" "all_nibbles (digits n)"] sig_nibbles_ok(2) [of v "digits n"]
    by (simp_all add: sig_nibbles_def)
  let ?p = "map (nib_char l) (v # vs)"
  have sv: "\<And>x. x \<in> set (v # vs) \<Longrightarrow> unat x < 16"
    using sig_nibbles_ok(2) [of _ "digits n"] s by simp
  have hv: "map hex_value (rev ?p) = map Some (rev (v # vs))"
    unfolding rev_map map_map by (intro map_cong) (use sv nib_char_ok(1) in auto)
  obtain ds where ds: "pack_digits 4 (map Some (rev (v # vs))) = Some ds"
    "dval ds = hval 4 (rev (v # vs))" "length ds = (length (v # vs) + 7) div 8"
    using pack_digits_ok [of 4 "rev (v # vs)"] sv by auto
  have dv: "dval ds = dval (digits n)" using ds(2) sig_nibbles_ok(1) [of "digits n"] s by simp
  have set: "set_hex (get_hex n l) = Some \<lparr>digits = ds, neg = neg n\<rparr>"
  proof -
    have h: "nib_char l v \<noteq> CHR ''0''" "nib_char l v \<noteq> CHR ''-''" using nib_char_ok v by auto
    have "(length ?p + 7) div 8 \<noteq> 0" by simp
    then show ?thesis
      using h hv ds(1) unfolding get_hex_alt s by (cases "neg n") (simp_all add: set_hex_def Let_def del: rev.simps)
  qed
  have "canonical \<lparr>digits = ds, neg = neg n\<rparr>"
  proof -
    have ne: "ds \<noteq> []" using ds(3) by auto
    have "1 * 2 ^ (4 * length vs) \<le> unat v * 2 ^ (4 * length vs)"
      using v(1) by (intro mult_le_mono1) (simp add: Suc_le_eq unat_gt_0)
    then have lo: "2 ^ (4 * length vs) \<le> dval ds"
      unfolding ds(2) by (simp add: hval_append trans_le_add2 mult.commute)
    have "32 * (length ds - 1) \<le> 4 * length vs" using ds(3) by simp
    then have "(2 :: nat) ^ (32 * (length ds - 1)) \<le> 2 ^ (4 * length vs)"
      by (rule power_increasing) simp
    then have "last ds \<noteq> 0"
      using dval_last_0 [OF ne] lo by linarith
    moreover have "ds \<noteq> [0]" using \<open>last ds \<noteq> 0\<close> by auto
    ultimately show ?thesis using ne by (simp add: canonical_def haslz_def)
  qed
  moreover have "val \<lparr>digits = ds, neg = neg n\<rparr> = val n"
    using dv by (simp add: val_def)
  ultimately have "\<lparr>digits = ds, neg = neg n\<rparr> = n"
    using assms canonical_eq by blast
  with set show ?thesis by simp
qed

subsection \<open>Random numbers\<close>

lemma gen_rand_bound:
  assumes "0 < len" "(3 + len) div 4 \<le> length random"
  shows "\<exists>n. gen_rand random len = Some n \<and> dval (digits n) < 256 ^ len"
proof -
  define k where "k = (3 + len) div 4"
  define e where "e = k * 4 - len"
  have k: "0 < k" "k \<le> length random" "len + e = 4 * k" "e < 4"
    using assms by (simp_all add: k_def e_def)
  define ds where "ds = take k random"
  define x where "x = ds ! (k - 1) AND drop_bit (8 * e) 0xFFFFFFFF"
  have l: "length ds = k" using k by (simp add: ds_def)
  have g: "gen_rand random len = Some \<lparr>digits = ds[k - 1 := x], neg = False\<rparr>"
    using k(1) by (simp add: gen_rand_def Let_def k_def [symmetric] e_def [symmetric] ds_def x_def)
  have x: "unat x < 2 ^ (32 - 8 * e)"
  proof -
    have "unat (drop_bit (8 * e) (0xFFFFFFFF :: u32)) = 0xFFFFFFFF div 2 ^ (8 * e)"
      unfolding unsigned_drop_bit_eq
      unfolding drop_bit_eq_div take_bit_eq_mod by simp
    moreover have "(2 :: nat) ^ 32 = 2 ^ (32 - 8 * e) * 2 ^ (8 * e)"
      unfolding power_add [symmetric] using k(4) by simp
    then have "(0xFFFFFFFF :: nat) div 2 ^ (8 * e) < 2 ^ (32 - 8 * e)"
      by (intro less_mult_imp_div_less) simp
    moreover have "unat x \<le> unat (drop_bit (8 * e) (0xFFFFFFFF :: u32))"
      unfolding x_def by (simp only: word_le_nat_alt [symmetric] word_and_le1)
    ultimately show ?thesis by linarith
  qed
  have "ds[k - 1 := x] = take (k - 1) ds @ [x]"
    using l k(1) by (simp add: upd_conv_take_nth_drop)
  then have "dval (ds[k - 1 := x]) = dval (take (k - 1) ds) + 2 ^ (32 * (k - 1)) * unat x"
    using l by (simp add: dval_append min_absorb2)
  also have "\<dots> < 2 ^ (32 * (k - 1)) * Suc (unat x)"
    using dval_less [of "take (k - 1) ds"] l by (simp add: min_absorb2)
  also have "\<dots> \<le> 2 ^ (32 * (k - 1)) * 2 ^ (32 - 8 * e)"
    using x by (intro mult_le_mono2) simp
  also have "\<dots> = 256 ^ len"
  proof -
    have E: "32 * (k - 1) + (32 - 8 * e) = 8 * len" using k by simp
    have "(256 :: nat) ^ len = 2 ^ (8 * len)" by (simp add: power_mult)
    then show ?thesis by (simp only: power_add [symmetric] E)
  qed
  finally show ?thesis using g by simp
qed

subsection \<open>Properties of the external forms\<close>

text \<open>
  C32. A byte array that is read as a number and written back, padded to its length, is the
  same array if a byte of it is not zero; if all are zero, a byte is stored behind the buffer.
\<close>

theorem byte_array_roundtrip:
  assumes "data \<noteq> []"
  shows "get_bytes (set_bytes data) (length data) True = (if bval data = 0 then None else Some data)"
proof -
  have "digits (set_bytes data) \<noteq> []"
    using set_bytes_ok(3) [of data] assms by (cases data) auto
  then show ?thesis
    using bytes_roundtrip [of data] get_bytes_zero [of "set_bytes data" "length data"] set_bytes_ok(1) [of data]
    by auto
qed

theorem byte_array_roundtrip_witness:
  "get_bytes (set_bytes [0, 1, 2, 3, 4, 5]) 6 True = Some [0, 1, 2, 3, 4, 5] \<and>
   get_bytes (set_bytes [0, 0]) 2 True = None"
proof -
  have l: "length [0, 1, 2, 3, 4, 5 :: 8 word] = 6" "length [0, 0 :: 8 word] = 2" by simp_all
  have v: "bval [0, 1, 2, 3, 4, 5] \<noteq> 0" "bval [0, 0] = 0" by simp_all
  from byte_array_roundtrip [of "[0, 1, 2, 3, 4, 5]"] byte_array_roundtrip [of "[0, 0]"]
  show ?thesis unfolding l using v by simp
qed

text \<open>The hexadecimal text of a canonical number, in either case, reads back as that number.\<close>

theorem hex_text_roundtrip:
  assumes "canonical n"
  shows "set_hex (get_hex n toLower) = Some n"
  by (rule hex_roundtrip [OF assms])

theorem hex_text_roundtrip_witness:
  "set_hex (get_hex \<lparr>digits = [0xDEADBEEF, 0x1A], neg = True\<rparr> True) =
   Some \<lparr>digits = [0xDEADBEEF, 0x1A], neg = True\<rparr>"
  by (rule hex_text_roundtrip) (simp add: canonical_def haslz_def)

end
