(* ===== verification/Msg_Arg.thy ===== *)
theory Msg_Arg
  imports Signature_Grammar
begin

text \<open>
  Message arguments (\<^verbatim>\<open>alljoyn_core/inc/alljoyn/MsgArg.h\<close>) and what
  \<^verbatim>\<open>alljoyn_core/src/SignatureUtils.cc\<close> computes of them: the signature text, which is
  written into a fixed buffer, and the size of the marshalled form. A value is a tree; pointers
  that may be null are options, and an array of values or scalars whose pointer is null has a
  constructor of its own that keeps the count. Characters and bytes behind a string matter to
  the code, so a string comes with the character behind its last.
\<close>

unbundle bit_operations_syntax

subsection \<open>Values\<close>

datatype t16 = INT16 | UINT16
datatype t32 = INT32 | UINT32
datatype t64 = DOUBLE | UINT64 | INT64
datatype tstr = OBJECT_PATH | STRING

datatype scalar = S_BOOLEAN | S_BYTE | S_16 t16 | S_32 t32 | S_64 t64

datatype scalar_array =
    BOOLEAN_ARRAY "bool list"
  | BYTE_ARRAY "byte list"
  | ARRAY_16 t16 "u16 list"
  | ARRAY_32 t32 "u32 list"
  | ARRAY_64 t64 "u64 list"
  | NULL_ARRAY scalar nat

datatype ctext =
    Chars string char
  | NULL_text nat

datatype MsgArg =
    V_INVALID
  | V_BYTE byte
  | V_BOOLEAN bool
  | V_16 t16 u16
  | V_32 t32 u32
  | V_64 t64 u64
  | V_STR tstr ctext
  | V_SIGNATURE ctext
  | V_HANDLE int
  | V_SCALARS scalar_array
  | V_ARRAY "string option" "MsgArg list"
  | V_ARRAY_NULL "string option" nat
  | V_STRUCT "MsgArg list"
  | V_STRUCT_NULL nat
  | V_DICT_ENTRY "MsgArg option" "MsgArg option"
  | V_VARIANT "MsgArg option"

text \<open>
  Type ids are characters, or for arrays of scalars the element's character shifted by eight
  bits next to the one for arrays.
\<close>

datatype AllJoynTypeId = Tid char | Tid_array char

fun char16 :: "t16 \<Rightarrow> char" where
  "char16 INT16 = CHR ''n''" | "char16 UINT16 = CHR ''q''"

fun char32 :: "t32 \<Rightarrow> char" where
  "char32 INT32 = CHR ''i''" | "char32 UINT32 = CHR ''u''"

fun char64 :: "t64 \<Rightarrow> char" where
  "char64 DOUBLE = CHR ''d''" | "char64 UINT64 = CHR ''t''" | "char64 INT64 = CHR ''x''"

fun char_str :: "tstr \<Rightarrow> char" where
  "char_str OBJECT_PATH = CHR ''o''" | "char_str STRING = CHR ''s''"

fun scalar_char :: "scalar \<Rightarrow> char" where
  "scalar_char S_BOOLEAN = CHR ''b''"
| "scalar_char S_BYTE = CHR ''y''"
| "scalar_char (S_16 t) = char16 t"
| "scalar_char (S_32 t) = char32 t"
| "scalar_char (S_64 t) = char64 t"

fun elem_type :: "scalar_array \<Rightarrow> scalar" where
  "elem_type (BOOLEAN_ARRAY _) = S_BOOLEAN"
| "elem_type (BYTE_ARRAY _) = S_BYTE"
| "elem_type (ARRAY_16 t _) = S_16 t"
| "elem_type (ARRAY_32 t _) = S_32 t"
| "elem_type (ARRAY_64 t _) = S_64 t"
| "elem_type (NULL_ARRAY s _) = s"

fun numElements :: "scalar_array \<Rightarrow> nat" where
  "numElements (BOOLEAN_ARRAY bs) = length bs"
| "numElements (BYTE_ARRAY bs) = length bs"
| "numElements (ARRAY_16 _ ws) = length ws"
| "numElements (ARRAY_32 _ ws) = length ws"
| "numElements (ARRAY_64 _ ws) = length ws"
| "numElements (NULL_ARRAY _ n) = n"

fun text_len :: "ctext \<Rightarrow> nat" where
  "text_len (Chars s _) = length s"
| "text_len (NULL_text n) = n"

fun typeId :: "MsgArg \<Rightarrow> AllJoynTypeId" where
  "typeId V_INVALID = Tid NUL"
| "typeId (V_BYTE _) = Tid (CHR ''y'')"
| "typeId (V_BOOLEAN _) = Tid (CHR ''b'')"
| "typeId (V_16 t _) = Tid (char16 t)"
| "typeId (V_32 t _) = Tid (char32 t)"
| "typeId (V_64 t _) = Tid (char64 t)"
| "typeId (V_STR t _) = Tid (char_str t)"
| "typeId (V_SIGNATURE _) = Tid (CHR ''g'')"
| "typeId (V_HANDLE _) = Tid (CHR ''h'')"
| "typeId (V_SCALARS a) = Tid_array (scalar_char (elem_type a))"
| "typeId (V_ARRAY _ _) = Tid (CHR ''a'')"
| "typeId (V_ARRAY_NULL _ _) = Tid (CHR ''a'')"
| "typeId (V_STRUCT _) = Tid (CHR ''r'')"
| "typeId (V_STRUCT_NULL _) = Tid (CHR ''r'')"
| "typeId (V_DICT_ENTRY _ _) = Tid (CHR ''e'')"
| "typeId (V_VARIANT _) = Tid (CHR ''v'')"

fun AlignmentForType :: "AllJoynTypeId \<Rightarrow> nat" where
  "AlignmentForType (Tid c) =
     (if c \<in> set ''biuh'' then 4
      else if c \<in> set ''osa'' then 4
      else if c \<in> set ''nq'' then 2
      else if c \<in> set ''vgy'' then 1
      else if c \<in> set ''r(e{dtx'' then 8
      else 0)"
| "AlignmentForType (Tid_array c) = (if c \<in> set ''bdinqutxy'' then 4 else 0)"

definition GetElemSig :: "string option \<Rightarrow> string" where
  "GetElemSig elemSig = (case elemSig of None \<Rightarrow> [] | Some s \<Rightarrow> s)"

subsection \<open>The signature of values\<close>

text \<open>
  \<open>put\<close> stores a character in the buffer; storing behind its end is \<open>None\<close>, as is reading
  there. The writer of one value returns the status, the character that ends its type, the
  buffer and the length; the loop stores that character and, in the end, a NUL. The count of
  values is a \<^verbatim>\<open>uint8_t\<close>.
\<close>

definition put :: "string \<Rightarrow> nat \<Rightarrow> char \<Rightarrow> string option" where
  "put sig i c = (if i < length sig then Some (sig[i := c]) else None)"

definition make_array :: "string \<Rightarrow> string \<Rightarrow> nat \<Rightarrow> (QStatus \<times> char \<times> string \<times> nat) option" where
  "make_array elemSig sig len =
     Option.bind (put sig len ALLJOYN_ARRAY) (\<lambda>sig.
       let len = len + 1;
           sig = (if len + length elemSig < 254
                  then take len sig @ elemSig @ drop (len + length elemSig) sig else sig);
           len = len + length elemSig - 1
       in if len < length sig then Some (ER_OK, sig ! len, sig, len) else None)"

fun make_value :: "MsgArg \<Rightarrow> string \<Rightarrow> nat \<Rightarrow> (QStatus \<times> char \<times> string \<times> nat) option"
  and make_loop :: "nat \<Rightarrow> MsgArg list \<Rightarrow> string \<Rightarrow> nat \<Rightarrow> (QStatus \<times> string \<times> nat) option"
where
  "make_value (V_DICT_ENTRY None val) sig len =
     Option.bind (put sig len ALLJOYN_DICT_ENTRY_OPEN) (\<lambda>sig.
       Some (ER_BUS_BAD_VALUE, ALLJOYN_DICT_ENTRY_CLOSE, sig, len + 1))"
| "make_value (V_DICT_ENTRY (Some key) None) sig len =
     Option.bind (put sig len ALLJOYN_DICT_ENTRY_OPEN) (\<lambda>sig.
       Option.bind (if len + 1 > 254 then Some (ER_BUS_BAD_VALUE, sig, len + 1)
                    else make_loop 1 [key] sig (len + 1)) (\<lambda>(status, sig, len).
         Some (if status = ER_OK then ER_BUS_BAD_VALUE else status, ALLJOYN_DICT_ENTRY_CLOSE, sig, len)))"
| "make_value (V_DICT_ENTRY (Some key) (Some val)) sig len =
     Option.bind (put sig len ALLJOYN_DICT_ENTRY_OPEN) (\<lambda>sig.
       Option.bind (if len + 1 > 254 then Some (ER_BUS_BAD_VALUE, sig, len + 1)
                    else make_loop 1 [key] sig (len + 1)) (\<lambda>(status, sig, len).
         if status \<noteq> ER_OK then Some (status, ALLJOYN_DICT_ENTRY_CLOSE, sig, len)
         else Option.bind (if len > 254 then Some (ER_BUS_BAD_VALUE, sig, len)
                           else make_loop 1 [val] sig len) (\<lambda>(status, sig, len).
           Some (status, ALLJOYN_DICT_ENTRY_CLOSE, sig, len))))"
| "make_value (V_STRUCT ms) sig len =
     Option.bind (put sig len ALLJOYN_STRUCT_OPEN) (\<lambda>sig.
       Option.bind (if len + 1 > 254 then Some (ER_BUS_BAD_VALUE, sig, len + 1)
                    else make_loop (length ms mod 256) ms sig (len + 1)) (\<lambda>(status, sig, len).
         Some (status, ALLJOYN_STRUCT_CLOSE, sig, len)))"
| "make_value (V_STRUCT_NULL n) sig len =
     Option.bind (put sig len ALLJOYN_STRUCT_OPEN) (\<lambda>sig.
       Some (if n mod 256 = 0 then ER_OK else ER_BUS_BAD_VALUE, ALLJOYN_STRUCT_CLOSE, sig, len + 1))"
| "make_value (V_ARRAY elemSig es) sig len = make_array (GetElemSig elemSig) sig len"
| "make_value (V_ARRAY_NULL elemSig n) sig len = make_array (GetElemSig elemSig) sig len"
| "make_value (V_SCALARS a) sig len =
     Option.bind (put sig len ALLJOYN_ARRAY) (\<lambda>sig. Some (ER_OK, scalar_char (elem_type a), sig, len + 1))"
| "make_value (V_BYTE _) sig len = Some (ER_OK, CHR ''y'', sig, len)"
| "make_value (V_BOOLEAN _) sig len = Some (ER_OK, CHR ''b'', sig, len)"
| "make_value (V_16 t _) sig len = Some (ER_OK, char16 t, sig, len)"
| "make_value (V_32 t _) sig len = Some (ER_OK, char32 t, sig, len)"
| "make_value (V_64 t _) sig len = Some (ER_OK, char64 t, sig, len)"
| "make_value (V_STR t _) sig len = Some (ER_OK, char_str t, sig, len)"
| "make_value (V_SIGNATURE _) sig len = Some (ER_OK, CHR ''g'', sig, len)"
| "make_value (V_HANDLE _) sig len = Some (ER_OK, CHR ''h'', sig, len)"
| "make_value (V_VARIANT _) sig len = Some (ER_OK, CHR ''v'', sig, len)"
| "make_value V_INVALID sig len = Some (ER_BUS_BAD_VALUE_TYPE, NUL, sig, len)"
| "make_loop 0 vs sig len = Option.bind (put sig len NUL) (\<lambda>sig. Some (ER_OK, sig, len))"
| "make_loop (Suc n) [] sig len = None"
| "make_loop (Suc n) (v # vs) sig len =
     Option.bind (make_value v sig len) (\<lambda>(status, typeChar, sig, len).
       let status = (if len > 254 then ER_BUS_BAD_VALUE else status)
       in if status \<noteq> ER_OK
          then Option.bind (put sig len NUL) (\<lambda>sig. Some (status, sig, len))
          else Option.bind (put sig len typeChar) (\<lambda>sig. make_loop n vs sig (len + 1)))"

definition MakeSignature :: "MsgArg list \<Rightarrow> string \<Rightarrow> nat \<Rightarrow> (QStatus \<times> string \<times> nat) option" where
  "MakeSignature values sig len =
     (if len > 254 then Some (ER_BUS_BAD_VALUE, sig, len)
      else make_loop (length values mod 256) values sig len)"

definition c_str :: "string \<Rightarrow> string" where
  "c_str s = takeWhile (\<lambda>c. c \<noteq> NUL) s"

definition HasSignature :: "string \<Rightarrow> MsgArg \<Rightarrow> string \<Rightarrow> bool option" where
  "HasSignature buf v signature =
     Option.bind (MakeSignature [v] (take 256 buf) 0) (\<lambda>(status, sig, len). Some (signature = c_str sig))"

subsection \<open>The marshalled size of values\<close>

definition PadUp :: "nat \<Rightarrow> nat \<Rightarrow> nat" where
  "PadUp n i = nat ((int n + int i - 1) AND NOT (int i - 1))"

fun scalar_size :: "scalar \<Rightarrow> nat" where
  "scalar_size S_BOOLEAN = 4" | "scalar_size S_BYTE = 1" | "scalar_size (S_16 _) = 2"
| "scalar_size (S_32 _) = 4" | "scalar_size (S_64 _) = 8"

text \<open>
  \<open>None\<close> stands for the signature writer running over its buffer, and for reading an element
  signature through a null pointer. The code returns 0 from
  the loop at a value of unknown type, dropping the size so far.
\<close>

fun size_value :: "string \<Rightarrow> MsgArg \<Rightarrow> nat \<Rightarrow> nat option option"
  and size_loop :: "string \<Rightarrow> MsgArg list \<Rightarrow> nat \<Rightarrow> nat option"
where
  "size_value buf (V_DICT_ENTRY key val) sz =
     Option.bind (case key of None \<Rightarrow> Some (PadUp sz 8) | Some k \<Rightarrow> size_loop buf [k] (PadUp sz 8)) (\<lambda>sz.
       Option.bind (case val of None \<Rightarrow> Some sz | Some v \<Rightarrow> size_loop buf [v] sz) (\<lambda>sz. Some (Some sz)))"
| "size_value buf (V_STRUCT ms) sz = Option.bind (size_loop buf ms (PadUp sz 8)) (\<lambda>sz. Some (Some sz))"
| "size_value buf (V_STRUCT_NULL n) sz = Some (Some (PadUp sz 8))"
| "size_value buf (V_ARRAY elemSig es) sz =
     (let sz = PadUp sz 4 + 4 in
      if es \<noteq> [] then Option.bind (size_loop buf es sz) (\<lambda>sz. Some (Some sz))
      else (case elemSig of None \<Rightarrow> None | Some s \<Rightarrow> Some (Some (PadUp sz (AlignmentForType (Tid (peek s)))))))"
| "size_value buf (V_ARRAY_NULL elemSig n) sz =
     (let sz = PadUp sz 4 + 4 in
      if n > 0 then Some (Some sz)
      else (case elemSig of None \<Rightarrow> None | Some s \<Rightarrow> Some (Some (PadUp sz (AlignmentForType (Tid (peek s)))))))"
| "size_value buf (V_SCALARS a) sz =
     (case elem_type a of
        S_64 _ \<Rightarrow> Some (Some (PadUp (PadUp sz 4 + 4) 8 + 8 * numElements a))
      | s \<Rightarrow> Some (Some (PadUp sz 4 + 4 + scalar_size s * numElements a)))"
| "size_value buf (V_BOOLEAN _) sz = Some (Some (PadUp sz 4 + 4))"
| "size_value buf (V_32 _ _) sz = Some (Some (PadUp sz 4 + 4))"
| "size_value buf (V_HANDLE _) sz = Some (Some (PadUp sz 4 + 4))"
| "size_value buf (V_64 _ _) sz = Some (Some (PadUp sz 8 + 8))"
| "size_value buf (V_SIGNATURE s) sz = Some (Some (sz + 1 + text_len s + 1))"
| "size_value buf (V_16 _ _) sz = Some (Some (PadUp sz 2 + 2))"
| "size_value buf (V_STR _ s) sz = Some (Some (PadUp sz 4 + 4 + text_len s + 1))"
| "size_value buf (V_VARIANT None) sz = Some (Some (sz + 1 + 1))"
| "size_value buf (V_VARIANT (Some v)) sz =
     Option.bind (MakeSignature [v] (take 256 buf) 0) (\<lambda>(status, sig, len).
       Option.bind (size_loop buf [v] (sz + 1 + len + 1)) (\<lambda>sz. Some (Some sz)))"
| "size_value buf (V_BYTE _) sz = Some (Some (sz + 1))"
| "size_value buf V_INVALID sz = Some None"
| "size_loop buf [] sz = Some sz"
| "size_loop buf (v # vs) sz =
     Option.bind (size_value buf v sz) (\<lambda>r. case r of None \<Rightarrow> Some 0 | Some sz \<Rightarrow> size_loop buf vs sz)"

definition SU_GetSize :: "string \<Rightarrow> MsgArg list \<Rightarrow> nat \<Rightarrow> nat option" where
  "SU_GetSize buf values offset = size_loop buf values offset"

subsection \<open>Typed values\<close>

text \<open>
  Which values have which type: the contract of a value that can be sent. The value of a
  variant carries a complete type of its own, short enough for the buffer it is written to.
\<close>

lemma list_all2_monoI [mono]:
  "(\<And>x y. R x y \<longrightarrow> S x y) \<Longrightarrow> list_all2 R xs ys \<longrightarrow> list_all2 S xs ys"
  by (auto elim: list_all2_mono)

fun has_data :: "scalar_array \<Rightarrow> bool" where
  "has_data (NULL_ARRAY _ _) = False"
| "has_data _ = True"

fun is_dict :: "sigty \<Rightarrow> bool" where
  "is_dict (Dict _) = True"
| "is_dict _ = False"

text \<open>Types that can be sent: the wild card and the struct type id stand for no value.\<close>

fun sent :: "sigty \<Rightarrow> bool" where
  "sent (Leaf c) \<longleftrightarrow> c \<noteq> CHR ''*'' \<and> c \<noteq> CHR ''r''"
| "sent (Arr t) \<longleftrightarrow> sent t"
| "sent (Str ts) \<longleftrightarrow> (\<forall>t \<in> set ts. sent t)"
| "sent (Dict ts) \<longleftrightarrow> (\<forall>t \<in> set ts. sent t)"

inductive typed :: "MsgArg \<Rightarrow> sigty \<Rightarrow> bool" where
  byte: "typed (V_BYTE b) (Leaf (CHR ''y''))"
| boolean: "typed (V_BOOLEAN b) (Leaf (CHR ''b''))"
| word16: "typed (V_16 t w) (Leaf (char16 t))"
| word32: "typed (V_32 t x) (Leaf (char32 t))"
| word64: "typed (V_64 t y) (Leaf (char64 t))"
| string: "\<lbrakk>t = OBJECT_PATH \<Longrightarrow> s \<noteq> []; length s < 2 ^ 32\<rbrakk> \<Longrightarrow>
    typed (V_STR t (Chars s NUL)) (Leaf (char_str t))"
| signature: "length s < 256 \<Longrightarrow> typed (V_SIGNATURE (Chars s NUL)) (Leaf (CHR ''g''))"
| scalars: "has_data a \<Longrightarrow> typed (V_SCALARS a) (Arr (Leaf (scalar_char (elem_type a))))"
| array: "\<lbrakk>\<And>e. e \<in> set es \<Longrightarrow> typed e E; sent E\<rbrakk> \<Longrightarrow> typed (V_ARRAY (Some (show_ty E)) es) (Arr E)"
| struct: "\<lbrakk>ms \<noteq> []; list_all2 typed ms Ts\<rbrakk> \<Longrightarrow> typed (V_STRUCT ms) (Str Ts)"
| dict: "\<lbrakk>typed k K; typed v V\<rbrakk> \<Longrightarrow> typed (V_DICT_ENTRY (Some k) (Some v)) (Dict [K, V])"
| variant: "\<lbrakk>typed v U; complete_type U; \<not> is_dict U; length (show_ty U) \<le> 253\<rbrakk> \<Longrightarrow>
    typed (V_VARIANT (Some v)) (Leaf (CHR ''v''))"

inductive_cases typed_structE: "typed (V_STRUCT ms) T"
inductive_cases typed_arrayE: "typed (V_ARRAY es xs) T"
inductive_cases typed_dictE: "typed (V_DICT_ENTRY k v) T"
inductive_cases typed_variantE: "typed (V_VARIANT v) T"

subsection \<open>The signature writer\<close>

text \<open>
  A value whose signature leaves two characters of the 255 unused is written exactly; the
  writer of a single value leaves its last character to the loop.
\<close>

definition wrote :: "string \<Rightarrow> nat \<Rightarrow> string \<Rightarrow> string \<Rightarrow> bool" where
  "wrote sig len s sig' \<longleftrightarrow>
     length sig' = length sig \<and> take (len + length s) sig' = take len sig @ s"

lemma wrote_put:
  "len < length sig \<Longrightarrow> put sig len c = Some (sig[len := c]) \<and> wrote sig len [c] (sig[len := c])"
  by (simp add: put_def wrote_def take_Suc_conv_app_nth take_update_cancel)

lemma wrote_trans:
  assumes "wrote sig len s sig1" "wrote sig1 (len + length s) t sig2"
  shows "wrote sig len (s @ t) sig2"
  using assms by (simp add: wrote_def add.assoc)

lemma wrote_Nil [simp]: "wrote sig len [] sig"
  by (simp add: wrote_def)

lemma wrote_keep:
  assumes "wrote sig len s sig1" "len + length s < length sig"
  shows "\<exists>sig2. put sig1 (len + length s) c = Some sig2 \<and> wrote sig len s sig2 \<and> sig2 ! (len + length s) = c"
  using assms by (auto simp: wrote_def put_def)

definition makes :: "MsgArg \<Rightarrow> sigty \<Rightarrow> bool" where
  "makes v T \<longleftrightarrow> (\<forall>sig len. len + length (show_ty T) \<le> 253 \<longrightarrow> 256 \<le> length sig \<longrightarrow>
     (\<exists>sig'. make_value v sig len =
              Some (ER_OK, last (show_ty T), sig', len + length (butlast (show_ty T))) \<and>
            wrote sig len (butlast (show_ty T)) sig'))"

lemma makesD:
  assumes "makes v T" "len + length (show_ty T) \<le> 253" "256 \<le> length sig"
  obtains sig' where "make_value v sig len =
      Some (ER_OK, last (show_ty T), sig', len + length (butlast (show_ty T)))"
    "wrote sig len (butlast (show_ty T)) sig'"
  using assms unfolding makes_def by blast

lemma make_loop_makes:
  assumes "list_all2 makes vs Ts" "len + length (concat (map show_ty Ts)) \<le> 253" "256 \<le> length sig"
  shows "\<exists>sig'. make_loop (length vs) vs sig len =
            Some (ER_OK, sig', len + length (concat (map show_ty Ts))) \<and>
          wrote sig len (concat (map show_ty Ts)) sig' \<and>
          sig' ! (len + length (concat (map show_ty Ts))) = NUL"
  using assms
proof (induction vs Ts arbitrary: sig len rule: list_all2_induct)
  case Nil
  then show ?case by (simp add: put_def wrote_def)
next
  case (Cons v vs T Ts)
  let ?s = "show_ty T"
  obtain n where n: "length (butlast ?s) = n" "length ?s = Suc n"
    by (metis append_butlast_last_id length_append_singleton show_ty_nonempty)
  have a: "len + length ?s \<le> 253" "256 \<le> length sig" using Cons.prems by simp_all
  obtain sig1 where 1: "make_value v sig len = Some (ER_OK, last ?s, sig1, len + n)"
    "wrote sig len (butlast ?s) sig1"
    using makesD [OF Cons.hyps(1) a] unfolding n by blast
  let ?sig1 = "sig1[len + n := last ?s]"
  have b: "len + n < length sig1" "256 \<le> length sig1"
    using a n(2) 1(2) by (simp_all add: wrote_def)
  have w: "wrote sig len ?s ?sig1"
    using wrote_trans [OF 1(2), of "[last ?s]" ?sig1] wrote_put [OF b(1), of "last ?s"] n(1) by simp
  have "Suc (len + n) + length (concat (map show_ty Ts)) \<le> 253"
    using Cons.prems(1) n(2) by simp
  then obtain sig2 where 2: "make_loop (length vs) vs ?sig1 (Suc (len + n)) =
        Some (ER_OK, sig2, Suc (len + n) + length (concat (map show_ty Ts)))"
      "wrote ?sig1 (Suc (len + n)) (concat (map show_ty Ts)) sig2"
      "sig2 ! (Suc (len + n) + length (concat (map show_ty Ts))) = NUL"
    using Cons.IH [of "Suc (len + n)" ?sig1] b(2) by auto
  have "len + n \<le> 254" using a n(2) by simp
  then have "make_loop (length (v # vs)) (v # vs) sig len = make_loop (length vs) vs ?sig1 (Suc (len + n))"
    using 1 b(1) by (simp add: put_def)
  then show ?case
    using 2 wrote_trans [OF w, of "concat (map show_ty Ts)" sig2] n(2) by (simp add: add.assoc)
qed

lemma makes_leaf:
  "(\<And>sig len. make_value v sig len = Some (ER_OK, c, sig, len)) \<Longrightarrow> makes v (Leaf c)"
  by (simp add: makes_def)

lemma makes_container:
  assumes "list_all2 makes vs Ts" "length vs < 256"
    and eq: "\<And>sig len. make_value v sig len = Option.bind (put sig len op) (\<lambda>sig.
       Option.bind (if len + 1 > 254 then Some (ER_BUS_BAD_VALUE, sig, len + 1)
                    else make_loop (length vs) vs sig (len + 1)) (\<lambda>(status, sig, len).
         Some (status, cl, sig, len)))"
    and T: "show_ty T = op # concat (map show_ty Ts) @ [cl]"
  shows "makes v T"
  unfolding makes_def
proof (intro allI impI)
  fix sig len assume len: "len + length (show_ty T) \<le> 253" and sig: "256 \<le> length (sig :: string)"
  let ?sig = "sig[len := op]"
  have p: "put sig len op = Some ?sig" "wrote sig len [op] ?sig"
    using wrote_put [of len sig op] len sig by simp_all
  have "Suc len + length (concat (map show_ty Ts)) \<le> 253" "256 \<le> length ?sig" using len sig T by simp_all
  from make_loop_makes [OF assms(1) this] obtain sig2 where
    2: "make_loop (length vs) vs ?sig (Suc len) =
          Some (ER_OK, sig2, Suc len + length (concat (map show_ty Ts)))"
      "wrote ?sig (Suc len) (concat (map show_ty Ts)) sig2" by blast
  have "wrote sig len (op # concat (map show_ty Ts)) sig2"
    using wrote_trans [OF p(2), of "concat (map show_ty Ts)" sig2] 2(2) by simp
  then show "\<exists>sig'. make_value v sig len =
       Some (ER_OK, last (show_ty T), sig', len + length (butlast (show_ty T))) \<and>
     wrote sig len (butlast (show_ty T)) sig'"
    using p 2 len unfolding eq T by (simp add: butlast_append)
qed

lemma makes_array:
  assumes "\<And>sig len. make_value v sig len = make_array (show_ty E) sig len"
  shows "makes v (Arr E)"
  unfolding makes_def
proof (intro allI impI)
  fix sig len assume len: "len + length (show_ty (Arr E)) \<le> 253" and sig: "256 \<le> length (sig :: string)"
  let ?e = "show_ty E" and ?sig = "sig[len := ALLJOYN_ARRAY]"
  let ?sig2 = "take (Suc len) ?sig @ ?e @ drop (Suc len + length ?e) ?sig"
  obtain m where e: "?e = butlast ?e @ [last ?e]" "length (butlast ?e) = m" "length ?e = Suc m"
    by (metis append_butlast_last_id length_append_singleton show_ty_nonempty)
  have p: "put sig len ALLJOYN_ARRAY = Some ?sig" using len sig by (simp add: put_def)
  have t: "take (Suc len) ?sig = take len sig @ [ALLJOYN_ARRAY]"
    using len sig by (simp add: take_Suc_conv_app_nth take_update_cancel)
  have "?sig2 = (take len sig @ ALLJOYN_ARRAY # butlast ?e) @ last ?e # drop (Suc len + length ?e) ?sig"
    using e(1) unfolding t by (metis append.assoc append_Cons append_Nil)
  moreover have l: "length (take len sig @ ALLJOYN_ARRAY # butlast ?e) = Suc (len + m)"
    using len sig e(2) by simp
  ultimately have n: "?sig2 ! Suc (len + m) = last ?e"
    and w: "take (Suc (len + m)) ?sig2 = take len sig @ ALLJOYN_ARRAY # butlast ?e"
    by (metis nth_append_length, metis append_eq_conv_conj)
  have s: "length ?sig2 = length sig" using len sig by simp
  have "wrote sig len (ALLJOYN_ARRAY # butlast ?e) ?sig2"
    unfolding wrote_def using s w e(2) by simp
  moreover have "make_value v sig len = Some (ER_OK, last ?e, ?sig2, Suc (len + m))"
    using p n s len sig e(3) unfolding assms make_array_def by (simp add: Let_def)
  ultimately show "\<exists>sig'. make_value v sig len =
       Some (ER_OK, last (show_ty (Arr E)), sig', len + length (butlast (show_ty (Arr E)))) \<and>
     wrote sig len (butlast (show_ty (Arr E))) sig'"
    using e(2) by simp
qed

lemma makes_dict:
  assumes "makes k K" "makes v V"
  shows "makes (V_DICT_ENTRY (Some k) (Some v)) (Dict [K, V])"
  unfolding makes_def
proof (intro allI impI)
  fix sig len
  assume len: "len + length (show_ty (Dict [K, V])) \<le> 253" and sig: "256 \<le> length (sig :: string)"
  let ?sig = "sig[len := ALLJOYN_DICT_ENTRY_OPEN]" and ?l1 = "Suc len + length (show_ty K)"
  have p: "put sig len ALLJOYN_DICT_ENTRY_OPEN = Some ?sig" "wrote sig len [ALLJOYN_DICT_ENTRY_OPEN] ?sig"
    using wrote_put [of len sig] len sig by simp_all
  obtain sig1 where 1: "make_loop 1 [k] ?sig (Suc len) = Some (ER_OK, sig1, ?l1)"
      "wrote ?sig (Suc len) (show_ty K) sig1"
    using make_loop_makes [of "[k]" "[K]" "Suc len" ?sig] assms(1) len sig by auto
  have b1: "256 \<le> length sig1" using 1(2) sig by (simp add: wrote_def)
  obtain sig2 where 2: "make_loop 1 [v] sig1 ?l1 = Some (ER_OK, sig2, ?l1 + length (show_ty V))"
      "wrote sig1 ?l1 (show_ty V) sig2"
    using make_loop_makes [of "[v]" "[V]" ?l1 sig1] assms(2) len b1 by auto
  have w: "wrote sig len (ALLJOYN_DICT_ENTRY_OPEN # show_ty K @ show_ty V) sig2"
    using wrote_trans [OF wrote_trans [OF p(2)], of "show_ty K" sig1 "show_ty V" sig2] 1(2) 2(2) by simp
  have c: "\<not> len + 1 > 254" "\<not> ?l1 > 254" using len by simp_all
  have "make_value (V_DICT_ENTRY (Some k) (Some v)) sig len =
      Some (ER_OK, ALLJOYN_DICT_ENTRY_CLOSE, sig2, ?l1 + length (show_ty V))"
    using p(1) 1(1) 2(1) c by (simp del: make_loop.simps)
  then show "\<exists>sig'. make_value (V_DICT_ENTRY (Some k) (Some v)) sig len =
       Some (ER_OK, last (show_ty (Dict [K, V])), sig', len + length (butlast (show_ty (Dict [K, V])))) \<and>
     wrote sig len (butlast (show_ty (Dict [K, V]))) sig'"
    using w by (simp add: butlast_append)
qed

lemma makes_typed: "typed v T \<Longrightarrow> makes v T"
proof (induction rule: typed.induct)
  case (struct ms Ts)
  then have "list_all2 makes ms Ts" by (auto elim: list_all2_mono)
  then have s: "length ms < 256 \<Longrightarrow> makes (V_STRUCT ms) (Str Ts)"
    by (intro makes_container [of ms Ts]) (simp_all cong: if_cong)
  have "length Ts \<le> length (concat (map show_ty Ts))" by (rule length_show_members)
  then have "makes (V_STRUCT ms) (Str Ts)" if "\<not> length ms < 256"
    using that list_all2_lengthD [OF struct.IH] by (simp add: makes_def)
  with s show ?case by blast
next
  case (dict k K v V)
  then show ?case by (intro makes_dict)
next
  case (array es E)
  show ?case by (rule makes_array) (simp add: GetElemSig_def)
next
  case (scalars a)
  show ?case using wrote_put [of _ _ ALLJOYN_ARRAY] by (fastforce simp: makes_def)
qed (rule makes_leaf; simp)+

lemma MakeSignature_typed:
  assumes "list_all2 typed vs Ts" "len + length (concat (map show_ty Ts)) \<le> 253" "256 \<le> length sig"
  shows "\<exists>sig'. MakeSignature vs sig len = Some (ER_OK, sig', len + length (concat (map show_ty Ts))) \<and>
          wrote sig len (concat (map show_ty Ts)) sig' \<and>
          sig' ! (len + length (concat (map show_ty Ts))) = NUL"
proof -
  have "length vs < 256"
    using list_all2_lengthD [OF assms(1)] length_show_members [of Ts] assms(2) by simp
  moreover have "list_all2 makes vs Ts"
    using assms(1) makes_typed by (auto elim: list_all2_mono)
  ultimately show ?thesis
    using make_loop_makes [of vs Ts len sig] assms(2,3) by (simp add: MakeSignature_def)
qed

lemma c_str_wrote:
  assumes "wrote sig 0 s sig'" "sig' ! length s = NUL" "cstring s" "length s < length sig"
  shows "c_str sig' = s"
proof -
  have "sig' = s @ NUL # drop (Suc (length s)) sig'"
    using assms(1,2,4) id_take_nth_drop [of "length s" sig'] by (simp add: wrote_def)
  moreover have "takeWhile (\<lambda>c. c \<noteq> NUL) (s @ NUL # r) = s" for r
    using assms(3) by (induction s) auto
  ultimately show ?thesis unfolding c_str_def by metis
qed

lemma cstring_show: "wt b T \<Longrightarrow> cstring (show_ty T)"
proof (induction T arbitrary: b)
  case (Leaf c)
  then show ?case by auto
next
  case (Arr T)
  then show ?case by (auto simp: NUL_def)
next
  case (Str ts)
  then have "\<forall>t \<in> set ts. cstring (show_ty t)" by auto
  then show ?case by (auto simp: NUL_def cstring_def)
next
  case (Dict ts)
  then have "\<forall>t \<in> set ts. cstring (show_ty t)" by auto
  then show ?case by (auto simp: NUL_def cstring_def)
qed

lemma HasSignature_typed:
  assumes "typed v T" "wt b T" "length (show_ty T) \<le> 253" "256 \<le> length buf"
  shows "HasSignature buf v (show_ty T) = Some True"
proof -
  have "256 \<le> length (take 256 buf)" using assms(4) by simp
  from MakeSignature_typed [of "[v]" "[T]" 0, OF _ _ this] assms(1,3)
  obtain sig' where "MakeSignature [v] (take 256 buf) 0 = Some (ER_OK, sig', length (show_ty T))"
    "wrote (take 256 buf) 0 (show_ty T) sig'" "sig' ! length (show_ty T) = NUL" by auto
  then show ?thesis
    using c_str_wrote [OF _ _ cstring_show [OF assms(2)]] assms(3,4) by (simp add: HasSignature_def)
qed

subsection \<open>Where the writer fails\<close>

lemma make_array_overrun:
  assumes "length sig \<le> len + length elemSig" "254 \<le> len + length elemSig"
  shows "make_array elemSig sig len = None"
  using assms by (auto simp: make_array_def put_def Let_def)

lemma make_array_uninitialised:
  assumes "len + length elemSig = 253" "256 \<le> length sig" "elemSig \<noteq> []"
  shows "make_array elemSig sig len = Some (ER_OK, sig ! 253, sig[len := ALLJOYN_ARRAY], 253)"
proof -
  have "len < 253" using assms(1,3) by (cases elemSig) auto
  then show ?thesis using assms by (simp add: make_array_def put_def Let_def)
qed

definition wide :: "nat \<Rightarrow> sigty" where
  "wide n = Str (replicate n (Leaf (CHR ''y'')))"

lemma show_wide: "show_ty (wide n) = ALLJOYN_STRUCT_OPEN # replicate n (CHR ''y'') @ [ALLJOYN_STRUCT_CLOSE]"
  unfolding wide_def by (induction n) auto

text \<open>
  C37. The writer of signatures does not keep to its 256 characters: for a byte followed by an
  array whose element type takes 255 characters, a struct of 253 bytes, it reads and writes
  behind them. And a signature of 254 characters that ends in an array is reported as good
  although the element type was never copied: what the buffer held before is still there.
\<close>

theorem make_signature_overrun:
  "complete_type (wide 253) \<and> complete_type (Arr (wide 251)) \<and>
   MakeSignature [V_BYTE b, V_ARRAY (Some (show_ty (wide 253))) es] (replicate 256 c) 0 = None \<and>
   MakeSignature [V_ARRAY (Some (show_ty (wide 251))) es] (replicate 256 c) 0 =
     Some (ER_OK, CHR ''a'' # replicate 253 c @ [NUL, c], 254)"
proof (intro conjI)
  have "wf_ty b (wide n) \<and> fits 32 32 (wide n) \<and> wf_top (wide n)" if "0 < n" for n b
    using that by (auto simp: wide_def leaf_types_def)
  then show "complete_type (wide 253)" "complete_type (Arr (wide 251))"
    by (auto simp: complete_type_def wide_def leaf_types_def)
  show "MakeSignature [V_BYTE b, V_ARRAY (Some (show_ty (wide 253))) es] (replicate 256 c) 0 = None"
    by (simp add: MakeSignature_def put_def GetElemSig_def make_array_overrun show_wide)
  have "make_array (show_ty (wide 251)) (replicate 256 c) 0 =
      Some (ER_OK, replicate 256 c ! 253, (replicate 256 c)[0 := ALLJOYN_ARRAY], 253)"
    by (rule make_array_uninitialised) (simp_all add: show_wide)
  moreover have "((replicate 256 c)[0 := CHR ''a'', 253 := c])[254 := NUL] = CHR ''a'' # replicate 253 c @ [NUL, c]"
    by (auto simp: list_eq_iff_nth_eq nth_list_update nth_append nth_Cons split: nat.splits)
  ultimately show "MakeSignature [V_ARRAY (Some (show_ty (wide 251))) es] (replicate 256 c) 0 =
     Some (ER_OK, CHR ''a'' # replicate 253 c @ [NUL, c], 254)"
    by (simp add: MakeSignature_def put_def GetElemSig_def)
qed

end
