(* ===== verification/Msg_Marshal.thy ===== *)
theory Msg_Marshal
  imports Msg_Arg
begin

text \<open>
  Marshalling of message arguments, \<^verbatim>\<open>_Message::MarshalArgs\<close> of
  \<^verbatim>\<open>alljoyn_core/src/Message_Gen.cc\<close>. The state is what has been written since the start
  of the message buffer, which is aligned to eight bytes, and the handles collected so far; the
  machine is little-endian, and \<open>endianSwap\<close> asks for the other order. The encoding itself is
  \<open>enc\<close>, a function of the position and the value; the code is shown to append it, and the
  size computed in advance to be its length.
\<close>

subsection \<open>Results\<close>

text \<open>
  An operation fails with a status, or by an access outside its memory; the second is a result
  of its own so that theorems can exclude it.
\<close>

datatype fail = Fault | Failed QStatus

definition and_then :: "fail + 'a \<Rightarrow> ('a \<Rightarrow> fail + 'b) \<Rightarrow> fail + 'b" where
  "and_then r f = (case r of Inl e \<Rightarrow> Inl e | Inr x \<Rightarrow> f x)"

lemma and_then_simps [simp]: "and_then (Inl e) f = Inl e" "and_then (Inr x) f = f x"
  by (simp_all add: and_then_def)

lemma and_then_cong [fundef_cong]:
  "r = r' \<Longrightarrow> (\<And>x. r' = Inr x \<Longrightarrow> f x = g x) \<Longrightarrow> and_then r f = and_then r' g"
  by (cases r') auto

lemma and_then_Inr: "and_then r f = Inr y \<longleftrightarrow> (\<exists>x. r = Inr x \<and> f x = Inr y)"
  by (cases r) auto

lemma and_then_Inl: "and_then r f = Inl e \<longleftrightarrow> r = Inl e \<or> (\<exists>x. r = Inr x \<and> f x = Inl e)"
  by (cases r) auto

definition defined :: "'a option \<Rightarrow> fail + 'a" where
  "defined r = (case r of None \<Rightarrow> Inl Fault | Some x \<Rightarrow> Inr x)"

lemma defined_simps [simp]: "defined None = Inl Fault" "defined (Some x) = Inr x"
  by (simp_all add: defined_def)

subsection \<open>Writing numbers and padding\<close>

definition w16 :: "bool \<Rightarrow> u16 \<Rightarrow> byte list" where
  "w16 swap w = (if swap then rev (le16 w) else le16 w)"

definition w32 :: "bool \<Rightarrow> u32 \<Rightarrow> byte list" where
  "w32 swap w = (if swap then rev (le32 w) else le32 w)"

definition w64 :: "bool \<Rightarrow> u64 \<Rightarrow> byte list" where
  "w64 swap w = (if swap then rev (le64 w) else le64 w)"

lemma length_w [simp]: "length (w16 s v) = 2" "length (w32 s w) = 4" "length (w64 s x) = 8"
  by (simp_all add: w16_def w32_def w64_def)

definition PadBytes :: "nat \<Rightarrow> nat \<Rightarrow> nat" where
  "PadBytes p b = unat ((of_nat b - of_nat p :: u64) AND (of_nat b - 1))"

definition MarshalPad :: "nat \<Rightarrow> byte list \<Rightarrow> byte list" where
  "MarshalPad alignment out =
     (let pad = PadBytes (length out) alignment;
          out = (if bit pad 0 then out @ [0] else out);
          out = (if bit pad 1 then out @ [0, 0] else out)
      in if bit pad 2 then out @ [0, 0, 0, 0] else out)"

definition ALLJOYN_MAX_ARRAY_LEN :: nat where
  "ALLJOYN_MAX_ARRAY_LEN = 131072"

definition CheckedArraySize :: "nat \<Rightarrow> fail + u32" where
  "CheckedArraySize sz =
     (if sz > ALLJOYN_MAX_ARRAY_LEN then Inl (Failed ER_BUS_BAD_LENGTH) else Inr (of_nat sz))"

subsection \<open>Marshalling\<close>

record marshaller =
  endianSwap :: bool
  sig_buf :: string
  SocketDup :: "int \<Rightarrow> nat \<Rightarrow> QStatus + int"

type_synonym mstate = "byte list \<times> int list"

text \<open>
  An array of scalars. \<open>words\<close> is the list of its elements as the code writes them, already
  in the order of bytes asked for.
\<close>

fun words :: "bool \<Rightarrow> scalar_array \<Rightarrow> byte list option" where
  "words swap (BOOLEAN_ARRAY bs) = Some (concat (map (\<lambda>b. w32 swap (if b then 1 else 0)) bs))"
| "words swap (BYTE_ARRAY bs) = Some bs"
| "words swap (ARRAY_16 _ ws) = Some (concat (map (w16 swap) ws))"
| "words swap (ARRAY_32 _ ws) = Some (concat (map (w32 swap) ws))"
| "words swap (ARRAY_64 _ ws) = Some (concat (map (w64 swap) ws))"
| "words swap (NULL_ARRAY _ _) = None"

definition marshal_scalars :: "bool \<Rightarrow> scalar_array \<Rightarrow> byte list \<Rightarrow> fail + byte list" where
  "marshal_scalars swap a out =
     and_then (CheckedArraySize (scalar_size (elem_type a) * numElements a)) (\<lambda>len.
       if len \<noteq> 0 \<and> words swap a = None then Inl (Failed ER_BUS_BAD_VALUE)
       else let out = out @ w32 swap len;
                out = (case elem_type a of S_64 _ \<Rightarrow> MarshalPad 8 out | _ \<Rightarrow> out)
            in Inr (out @ (case words swap a of None \<Rightarrow> [] | Some bs \<Rightarrow> bs)))"

fun is_null :: "ctext \<Rightarrow> bool" where
  "is_null (NULL_text _) = True"
| "is_null (Chars _ _) = False"

fun marshal_text :: "bool \<Rightarrow> ctext \<Rightarrow> byte list \<Rightarrow> fail + byte list" where
  "marshal_text swap (Chars s c) out =
     (if c \<noteq> NUL then Inl (Failed ER_BUS_NOT_NUL_TERMINATED)
      else Inr (out @ w32 swap (of_nat (length s)) @ map char_byte s @ [char_byte c]))"
| "marshal_text swap (NULL_text n) out = Inr (out @ w32 False 0 @ [0])"

fun marshal_signature :: "ctext \<Rightarrow> byte list \<Rightarrow> fail + byte list" where
  "marshal_signature (Chars s c) out =
     (if c \<noteq> NUL then Inl (Failed ER_BUS_NOT_NUL_TERMINATED)
      else Inr (out @ [of_nat (length s)] @ map char_byte s @ [char_byte c]))"
| "marshal_signature (NULL_text n) out = Inr (out @ [0, 0])"

definition marshal_handle :: "marshaller \<Rightarrow> int \<Rightarrow> mstate \<Rightarrow> fail + mstate" where
  "marshal_handle m fd st =
     (case st of (out, handles) \<Rightarrow>
        let index = length (takeWhile (\<lambda>h. h \<noteq> fd) handles)
        in and_then (if index = length handles
                     then (case SocketDup m fd index of
                             Inl status \<Rightarrow> Inl (Failed status)
                           | Inr h \<Rightarrow> Inr (handles @ [h]))
                     else Inr handles) (\<lambda>handles.
             Inr (out @ w32 (endianSwap m) (of_nat index), handles)))"

definition check_elements :: "string \<Rightarrow> string \<Rightarrow> MsgArg list \<Rightarrow> fail + unit" where
  "check_elements buf elemSig es =
     foldr (\<lambda>e rest. and_then (defined (HasSignature buf e elemSig)) (\<lambda>ok.
              if ok then rest else Inl (Failed ER_BUS_BAD_VALUE))) es (Inr ())"

definition patch :: "byte list \<Rightarrow> nat \<Rightarrow> byte list \<Rightarrow> byte list" where
  "patch out pos bs = take pos out @ bs @ drop (pos + length bs) out"

fun marshal_value :: "marshaller \<Rightarrow> MsgArg \<Rightarrow> mstate \<Rightarrow> fail + mstate"
  and MarshalArgs :: "marshaller \<Rightarrow> MsgArg list \<Rightarrow> mstate \<Rightarrow> fail + mstate"
where
  "marshal_value m (V_DICT_ENTRY None val) st = Inl (Failed ER_BUS_BAD_VALUE)"
| "marshal_value m (V_DICT_ENTRY (Some key) None) st =
     and_then (MarshalArgs m [key] st) (\<lambda>st. Inl (Failed ER_BUS_BAD_VALUE))"
| "marshal_value m (V_DICT_ENTRY (Some key) (Some val)) st =
     and_then (MarshalArgs m [key] st) (\<lambda>st. MarshalArgs m [val] st)"
| "marshal_value m (V_STRUCT ms) st = MarshalArgs m ms st"
| "marshal_value m (V_STRUCT_NULL n) st = (if n = 0 then Inr st else Inl (Failed ER_BUS_BAD_VALUE))"
| "marshal_value m (V_ARRAY None es) st = Inl (Failed ER_BUS_BAD_VALUE)"
| "marshal_value m (V_ARRAY (Some elemSig) es) st =
     (let alignment = AlignmentForType (Tid (peek elemSig)) in
      if es \<noteq> []
      then and_then (check_elements (sig_buf m) elemSig es) (\<lambda>_.
             let (out, handles) = st;
                 lenPos = length out;
                 out = out @ replicate 4 0;
                 out = (if alignment = 8 then MarshalPad 8 out else out);
                 elemPos = length out
             in and_then (MarshalArgs m es (out, handles)) (\<lambda>(out, handles).
                  and_then (CheckedArraySize (length out - elemPos)) (\<lambda>len.
                    Inr (patch out lenPos (w32 (endianSwap m) len), handles))))
      else let out = fst st @ w32 False 0
           in Inr (if alignment = 8 then MarshalPad 8 out else out, snd st))"
| "marshal_value m (V_ARRAY_NULL None n) st = Inl (Failed ER_BUS_BAD_VALUE)"
| "marshal_value m (V_ARRAY_NULL (Some elemSig) n) st =
     (if n > 0 then Inl (Failed ER_BUS_BAD_VALUE)
      else let out = fst st @ w32 False 0
           in Inr (if AlignmentForType (Tid (peek elemSig)) = 8 then MarshalPad 8 out else out, snd st))"
| "marshal_value m (V_SCALARS a) st =
     and_then (marshal_scalars (endianSwap m) a (fst st)) (\<lambda>out. Inr (out, snd st))"
| "marshal_value m (V_BOOLEAN b) st =
     Inr (fst st @ (if b then w32 (endianSwap m) 1 else w32 False 0), snd st)"
| "marshal_value m (V_32 _ w) st = Inr (fst st @ w32 (endianSwap m) w, snd st)"
| "marshal_value m (V_64 _ w) st = Inr (fst st @ w64 (endianSwap m) w, snd st)"
| "marshal_value m (V_SIGNATURE s) st =
     and_then (marshal_signature s (fst st)) (\<lambda>out. Inr (out, snd st))"
| "marshal_value m (V_16 _ w) st = Inr (fst st @ w16 (endianSwap m) w, snd st)"
| "marshal_value m (V_STR t s) st =
     (if t = OBJECT_PATH \<and> (is_null s \<or> text_len s = 0)
      then Inl (Failed ER_BUS_BAD_OBJ_PATH)
      else and_then (marshal_text (endianSwap m) s (fst st)) (\<lambda>out. Inr (out, snd st)))"
| "marshal_value m (V_VARIANT None) st = Inl (Failed ER_BUS_BAD_VALUE)"
| "marshal_value m (V_VARIANT (Some v)) st =
     and_then (defined (MakeSignature [v] (take 256 (sig_buf m)) 0)) (\<lambda>(status, sig, len).
       if status \<noteq> ER_OK then Inl (Failed status)
       else MarshalArgs m [v] (fst st @ [of_nat len] @ map char_byte (take (len + 1) sig), snd st))"
| "marshal_value m (V_BYTE b) st = Inr (fst st @ [b], snd st)"
| "marshal_value m (V_HANDLE fd) st = marshal_handle m fd st"
| "marshal_value m V_INVALID st = Inl (Failed ER_BUS_BAD_VALUE_TYPE)"
| "MarshalArgs m [] st = Inr st"
| "MarshalArgs m (v # vs) st =
     and_then (marshal_value m v (MarshalPad (AlignmentForType (typeId v)) (fst st), snd st))
       (\<lambda>st. MarshalArgs m vs st)"

subsection \<open>Padding\<close>

definition pad_len :: "nat \<Rightarrow> nat \<Rightarrow> nat" where
  "pad_len p b = (b - p mod b) mod b"

definition pad :: "nat \<Rightarrow> nat \<Rightarrow> byte list" where
  "pad b p = replicate (pad_len p b) 0"

lemma length_pad [simp]: "length (pad b p) = pad_len p b"
  by (simp add: pad_def)

lemma pad_len_less: "0 < b \<Longrightarrow> pad_len p b < b"
  by (simp add: pad_len_def)

lemma pad_aligned: "0 < b \<Longrightarrow> (p + pad_len p b) mod b = 0"
proof -
  assume b: "0 < b"
  have "p mod b \<le> b" using b by simp
  then have "p + (b - p mod b) = b * (p div b) + b"
    using mult_div_mod_eq [of b p] by linarith
  then have "(p + (b - p mod b)) mod b = 0" by simp
  then show ?thesis by (simp add: pad_len_def mod_add_right_eq)
qed

lemma pad_len_aligned [simp]: "p mod b = 0 \<Longrightarrow> pad_len p b = 0"
  by (simp add: pad_len_def)

lemma PadBytes_word:
  "PadBytes p (2 ^ k) = pad_len p (2 ^ k)" if "k \<le> 3" for k
proof -
  have k: "(2 :: nat) ^ k \<le> 8"
    using power_increasing [of k 3 "2 :: nat"] that by simp
  have m: "(of_nat (2 ^ k) - 1 :: u64) = mask k"
    by (simp add: mask_eq_exp_minus_1)
  have "unat ((of_nat (2 ^ k) - of_nat p :: u64) AND mask k) = unat (of_nat (2 ^ k) - of_nat p :: u64) mod 2 ^ k"
    unfolding take_bit_eq_mask [symmetric] unsigned_take_bit_eq by (rule take_bit_eq_mod)
  also have "int \<dots> = (int (2 ^ k) - int p) mod 2 ^ 64 mod 2 ^ k"
  proof -
    have "(of_nat (2 ^ k) - of_nat p :: u64) = word_of_int (int (2 ^ k) - int p)" by simp
    then show ?thesis by (simp only: zmod_int of_nat_unat uint_word_of_int) (simp add: take_bit_eq_mod)
  qed
  also have "\<dots> = (int (2 ^ k) - int p) mod 2 ^ k"
    using that by (intro mod_mod_cancel le_imp_power_dvd) simp
  also have "\<dots> = int (pad_len p (2 ^ k))"
    by (simp add: pad_len_def zmod_int of_nat_diff less_imp_le mod_diff_right_eq mod_minus_eq)
  finally show ?thesis unfolding PadBytes_def m by (simp only: of_nat_eq_iff)
qed

lemma PadBytes_simps:
  "PadBytes p 1 = pad_len p 1" "PadBytes p 2 = pad_len p 2"
  "PadBytes p 4 = pad_len p 4" "PadBytes p 8 = pad_len p 8"
  using PadBytes_word [of 0 p] PadBytes_word [of 1 p] PadBytes_word [of 2 p] PadBytes_word [of 3 p]
  by simp_all

lemma pad_bits:
  "n < 8 \<Longrightarrow> (if bit n 0 then [0] else []) @ (if bit n 1 then [0, 0] else []) @
     (if bit n (2 :: nat) then [0, 0, 0, 0] else []) = replicate n (0 :: byte)"
  for n :: nat
proof -
  assume "n < 8"
  then consider "n = 0" | "n = 1" | "n = 2" | "n = 3" | "n = 4" | "n = 5" | "n = 6" | "n = 7" by linarith
  then show ?thesis
    by cases (hypsubst, code_simp)+
qed

lemma MarshalPad_ok:
  assumes "b \<in> {1, 2, 4, 8}"
  shows "MarshalPad b out = out @ pad b (length out)"
proof -
  have n: "PadBytes (length out) b = pad_len (length out) b" "pad_len (length out) b < 8"
    using assms PadBytes_simps [of "length out"] pad_len_less [of b "length out"] by auto
  show ?thesis
    using pad_bits [OF n(2)] unfolding MarshalPad_def n(1) pad_def Let_def
    by (auto split: if_splits)
qed

subsection \<open>The encoding\<close>

text \<open>
  The wire form of a value at a position: every value is padded to the alignment of its type;
  the length of an array does not count the padding before its first element.
\<close>

fun sig_of :: "MsgArg \<Rightarrow> string" where
  "sig_of (V_ARRAY es _) = ALLJOYN_ARRAY # GetElemSig es"
| "sig_of (V_SCALARS a) = [ALLJOYN_ARRAY, scalar_char (elem_type a)]"
| "sig_of (V_STRUCT ms) = ALLJOYN_STRUCT_OPEN # concat (map sig_of ms) @ [ALLJOYN_STRUCT_CLOSE]"
| "sig_of (V_DICT_ENTRY (Some k) (Some v)) =
     ALLJOYN_DICT_ENTRY_OPEN # sig_of k @ sig_of v @ [ALLJOYN_DICT_ENTRY_CLOSE]"
| "sig_of v = (case typeId v of Tid c \<Rightarrow> [c] | _ \<Rightarrow> [])"

fun chars_of :: "ctext \<Rightarrow> string" where
  "chars_of (Chars s _) = s"
| "chars_of (NULL_text _) = []"

definition elem_align :: "string option \<Rightarrow> nat" where
  "elem_align es = AlignmentForType (Tid (peek (GetElemSig es)))"

fun enc :: "bool \<Rightarrow> nat \<Rightarrow> MsgArg \<Rightarrow> byte list"
  and encs :: "bool \<Rightarrow> nat \<Rightarrow> MsgArg list \<Rightarrow> byte list"
where
  "enc sw p (V_BYTE b) = [b]"
| "enc sw p (V_BOOLEAN b) = pad 4 p @ w32 sw (if b then 1 else 0)"
| "enc sw p (V_16 _ w) = pad 2 p @ w16 sw w"
| "enc sw p (V_32 _ w) = pad 4 p @ w32 sw w"
| "enc sw p (V_64 _ w) = pad 8 p @ w64 sw w"
| "enc sw p (V_STR _ s) =
     pad 4 p @ w32 sw (of_nat (length (chars_of s))) @ map char_byte (chars_of s) @ [0]"
| "enc sw p (V_SIGNATURE s) = [of_nat (length (chars_of s))] @ map char_byte (chars_of s) @ [0]"
| "enc sw p (V_SCALARS a) =
     pad 4 p @ w32 sw (of_nat (scalar_size (elem_type a) * numElements a)) @
     (case elem_type a of S_64 _ \<Rightarrow> pad 8 (p + pad_len p 4 + 4) | _ \<Rightarrow> []) @
     (case words sw a of None \<Rightarrow> [] | Some bs \<Rightarrow> bs)"
| "enc sw p (V_ARRAY es xs) =
     (let q = p + pad_len p 4 + 4;
          pd = (if elem_align es = 8 then pad 8 q else []);
          body = encs sw (q + length pd) xs
      in pad 4 p @ w32 sw (of_nat (length body)) @ pd @ body)"
| "enc sw p (V_STRUCT ms) = pad 8 p @ encs sw (p + pad_len p 8) ms"
| "enc sw p (V_DICT_ENTRY (Some k) (Some v)) =
     (let q = p + pad_len p 8; e = enc sw q k
      in pad 8 p @ e @ enc sw (q + length e) v)"
| "enc sw p (V_VARIANT (Some v)) =
     [of_nat (length (sig_of v))] @ map char_byte (sig_of v) @ [0] @ enc sw (p + length (sig_of v) + 2) v"
| "enc sw p _ = []"
| "encs sw p [] = []"
| "encs sw p (v # vs) = (let e = enc sw p v in e @ encs sw (p + length e) vs)"

lemma sig_of_typed: "typed v T \<Longrightarrow> sig_of v = show_ty T"
proof (induction rule: typed.induct)
  case (struct ms Ts)
  from struct.IH have "map sig_of ms = map show_ty Ts" by (induction rule: list_all2_induct) auto
  then show ?case by simp
qed (auto simp: GetElemSig_def)

lemma char_align: "AlignmentForType (Tid (char16 t)) = 2" "AlignmentForType (Tid (char32 u)) = 4"
  "AlignmentForType (Tid (char64 v)) = 8" "AlignmentForType (Tid (char_str w)) = 4"
  by (cases t; cases u; cases v; cases w; simp)+

lemma scalar_char_known: "scalar_char s \<in> set ''bdinqtuxy''"
proof (cases s)
  case (S_16 t)
  then show ?thesis by (cases t) auto
next
  case (S_32 t)
  then show ?thesis by (cases t) auto
next
  case (S_64 t)
  then show ?thesis by (cases t) auto
qed auto

lemma align_scalars: "AlignmentForType (Tid_array (scalar_char s)) = 4"
  using scalar_char_known [of s] by auto

lemma align_typed: "typed v T \<Longrightarrow> AlignmentForType (typeId v) = AlignmentForType (Tid (peek (show_ty T)))"
  by (induction rule: typed.induct) (auto simp: align_scalars simp del: AlignmentForType.simps(2))

subsection \<open>The code appends the encoding\<close>

definition marshals :: "marshaller \<Rightarrow> MsgArg \<Rightarrow> bool" where
  "marshals m v \<longleftrightarrow> (\<forall>out hs. length (enc (endianSwap m) (length out) v) \<le> ALLJOYN_MAX_ARRAY_LEN \<longrightarrow>
     marshal_value m v (MarshalPad (AlignmentForType (typeId v)) out, hs) =
       Inr (out @ enc (endianSwap m) (length out) v, hs))"

lemma marshalsD:
  "marshals m v \<Longrightarrow> length (enc (endianSwap m) (length out) v) \<le> ALLJOYN_MAX_ARRAY_LEN \<Longrightarrow>
   marshal_value m v (MarshalPad (AlignmentForType (typeId v)) out, hs) =
     Inr (out @ enc (endianSwap m) (length out) v, hs)"
  by (simp add: marshals_def)

lemma MarshalArgs_marshals:
  assumes "\<forall>v \<in> set vs. marshals m v"
    and "length (encs (endianSwap m) (length out) vs) \<le> ALLJOYN_MAX_ARRAY_LEN"
  shows "MarshalArgs m vs (out, hs) = Inr (out @ encs (endianSwap m) (length out) vs, hs)"
  using assms
proof (induction vs arbitrary: out)
  case (Cons v vs)
  let ?e = "enc (endianSwap m) (length out) v"
  have "length ?e \<le> ALLJOYN_MAX_ARRAY_LEN" using Cons.prems(2) by (simp add: Let_def)
  then have "MarshalArgs m (v # vs) (out, hs) = MarshalArgs m vs (out @ ?e, hs)"
    using marshalsD [of m v out hs] Cons.prems(1) by simp
  also have "\<dots> = Inr ((out @ ?e) @ encs (endianSwap m) (length (out @ ?e)) vs, hs)"
    using Cons.prems by (intro Cons.IH) (simp_all add: Let_def)
  finally show ?case by (simp add: Let_def)
qed simp

lemma marshals_padded:
  assumes "AlignmentForType (typeId v) = b" "b \<in> {1, 2, 4, 8}"
    and "\<And>out hs. length (enc (endianSwap m) (length out) v) \<le> ALLJOYN_MAX_ARRAY_LEN \<Longrightarrow>
       marshal_value m v (out @ pad b (length out), hs) =
         Inr (out @ enc (endianSwap m) (length out) v, hs)"
  shows "marshals m v"
  using assms by (simp add: marshals_def MarshalPad_ok)

lemma length_concat_words:
  "(\<And>x. length (f x) = n) \<Longrightarrow> length (concat (map f xs)) = length xs * n"
  by (induction xs) auto

lemma words_length:
  assumes "has_data a"
  shows "\<exists>bs. words sw a = Some bs \<and> length bs = scalar_size (elem_type a) * numElements a"
proof (cases a)
  case (BOOLEAN_ARRAY bs)
  then show ?thesis using length_concat_words [of "\<lambda>b. w32 sw (if b then 1 else 0)" 4 bs] by simp
next
  case (ARRAY_16 t ws)
  then show ?thesis using length_concat_words [of "w16 sw" 2 ws] by simp
next
  case (ARRAY_32 t ws)
  then show ?thesis using length_concat_words [of "w32 sw" 4 ws] by simp
next
  case (ARRAY_64 t ws)
  then show ?thesis using length_concat_words [of "w64 sw" 8 ws] by simp
qed (use assms in auto)

lemma pad_1 [simp]: "pad 1 p = []" "pad (Suc 0) p = []"
  by (simp_all add: pad_def pad_len_def)

lemma marshals_scalars:
  assumes "has_data a"
  shows "marshals m (V_SCALARS a)"
proof (rule marshals_padded [of _ 4])
  fix out :: "byte list" and hs :: "int list"
  let ?sw = "endianSwap m" and ?n = "scalar_size (elem_type a) * numElements a"
  assume l: "length (enc ?sw (length out) (V_SCALARS a)) \<le> ALLJOYN_MAX_ARRAY_LEN"
  obtain bs where bs: "words ?sw a = Some bs" "length bs = ?n" using words_length [OF assms] by blast
  have n: "?n \<le> ALLJOYN_MAX_ARRAY_LEN" using l bs by simp
  show "marshal_value m (V_SCALARS a) (out @ pad 4 (length out), hs) =
      Inr (out @ enc ?sw (length out) (V_SCALARS a), hs)"
    using n bs(1) by (cases "elem_type a") (simp_all add: marshal_scalars_def CheckedArraySize_def Let_def MarshalPad_ok
      add.assoc)
qed (simp_all add: align_scalars del: AlignmentForType.simps(2))

lemma w32_zero: "w32 False 0 = w32 sw 0"
proof -
  have "le32 0 = [0, 0, 0, 0]" by (simp add: le32_def upt_rec numeral_nat)
  then show ?thesis by (simp add: w32_def)
qed

lemma char_byte_NUL [simp]: "char_byte NUL = 0"
  by (simp add: char_byte_def NUL_def)

lemma elem_align_known: "wt b E \<Longrightarrow> AlignmentForType (Tid (peek (show_ty E))) \<in> {1, 2, 4, 8} \<or> peek (show_ty E) = CHR ''*''"
  by (cases E) (auto simp: leaf_types_def)

lemma check_elements_ok:
  assumes "\<And>e. e \<in> set es \<Longrightarrow> typed e E" "wt b E" "length (show_ty E) \<le> 253" "256 \<le> length buf"
  shows "check_elements buf (show_ty E) es = Inr ()"
  using assms(1) by (induction es) (simp_all add: check_elements_def HasSignature_typed [OF _ assms(2-4)])

lemma patch_ok: "length bs = n \<Longrightarrow> patch (out @ replicate n 0 @ rest) (length out) bs = out @ bs @ rest"
  by (simp add: patch_def)

lemma marshals_array:
  assumes es: "\<And>e. e \<in> set es \<Longrightarrow> typed e E" "\<And>e. e \<in> set es \<Longrightarrow> marshals m e"
    and E: "wt b E" "length (show_ty E) \<le> 253" and buf: "256 \<le> length (sig_buf m)"
  shows "marshals m (V_ARRAY (Some (show_ty E)) es)"
proof (rule marshals_padded [of _ 4])
  fix out :: "byte list" and hs :: "int list"
  let ?sw = "endianSwap m" and ?al = "AlignmentForType (Tid (peek (show_ty E)))"
  define o1 where "o1 = out @ pad 4 (length out)"
  define pd where "pd = (if ?al = 8 then pad 8 (length o1 + 4) else [])"
  define body where "body = encs ?sw (length o1 + 4 + length pd) es"
  have enc: "enc ?sw (length out) (V_ARRAY (Some (show_ty E)) es) =
      pad 4 (length out) @ w32 ?sw (of_nat (length body)) @ pd @ body"
    by (simp add: Let_def elem_align_def GetElemSig_def body_def pd_def o1_def)
  have al: "(if ?al = 8 then MarshalPad 8 (o1 @ zs) else o1 @ zs) = o1 @ zs @ pd" if "length zs = 4" for zs
    using that by (simp add: MarshalPad_ok pd_def)
  assume "length (enc ?sw (length out) (V_ARRAY (Some (show_ty E)) es)) \<le> ALLJOYN_MAX_ARRAY_LEN"
  then have l: "length body \<le> ALLJOYN_MAX_ARRAY_LEN" unfolding enc by simp
  have "MarshalArgs m es (o1 @ replicate 4 0 @ pd, hs) = Inr ((o1 @ replicate 4 0 @ pd) @ body, hs)"
    using MarshalArgs_marshals [of es m "o1 @ replicate 4 0 @ pd" hs] es(2) l
    by (simp add: body_def add.assoc)
  moreover have "patch (o1 @ replicate 4 0 @ pd @ body) (length o1) (w32 ?sw (of_nat (length body))) =
      o1 @ w32 ?sw (of_nat (length body)) @ pd @ body"
    by (simp add: patch_ok)
  ultimately have full: "and_then (MarshalArgs m es (o1 @ replicate 4 0 @ pd, hs)) (\<lambda>(out, handles).
        and_then (CheckedArraySize (length out - (length o1 + 4 + length pd))) (\<lambda>len.
          Inr (patch out (length o1) (w32 ?sw len), handles))) =
      Inr (o1 @ w32 ?sw (of_nat (length body)) @ pd @ body, hs)"
    using l by (simp add: CheckedArraySize_def)
  have o1: "out @ pad 4 (length out) @ x = o1 @ x" for x by (simp add: o1_def)
  show "marshal_value m (V_ARRAY (Some (show_ty E)) es) (out @ pad 4 (length out), hs) =
      Inr (out @ enc ?sw (length out) (V_ARRAY (Some (show_ty E)) es), hs)"
  proof (cases "es = []")
    case True
    then have "body = []" by (simp add: body_def)
    then have "marshal_value m (V_ARRAY (Some (show_ty E)) es) (o1, hs) = Inr (o1 @ w32 ?sw 0 @ pd, hs)"
      using True al [of "w32 ?sw 0"]
      by (simp add: Let_def w32_zero [of ?sw] del: AlignmentForType.simps)
    with \<open>body = []\<close> show ?thesis unfolding enc o1_def [symmetric] o1 by simp
  next
    case False
    then have "marshal_value m (V_ARRAY (Some (show_ty E)) es) (o1, hs) =
        and_then (MarshalArgs m es (o1 @ replicate 4 0 @ pd, hs)) (\<lambda>(out, handles).
          and_then (CheckedArraySize (length out - (length o1 + 4 + length pd))) (\<lambda>len.
            Inr (patch out (length o1) (w32 ?sw len), handles)))"
      using check_elements_ok [OF es(1) E buf] al [of "replicate 4 0"]
      by (simp add: Let_def add.assoc del: AlignmentForType.simps)
    with full show ?thesis unfolding enc o1_def [symmetric] o1 by simp
  qed
qed simp_all

lemma MarshalArgs_one:
  assumes "marshals m v" "length (enc (endianSwap m) (length out) v) \<le> ALLJOYN_MAX_ARRAY_LEN"
  shows "MarshalArgs m [v] (out, hs) = Inr (out @ enc (endianSwap m) (length out) v, hs)"
  using MarshalArgs_marshals [of "[v]" m out hs] assms by (simp add: Let_def)

lemma marshals_struct:
  assumes "\<forall>v \<in> set ms. marshals m v"
  shows "marshals m (V_STRUCT ms)"
proof (rule marshals_padded [of _ 8])
  fix out :: "byte list" and hs :: "int list"
  assume "length (enc (endianSwap m) (length out) (V_STRUCT ms)) \<le> ALLJOYN_MAX_ARRAY_LEN"
  then show "marshal_value m (V_STRUCT ms) (out @ pad 8 (length out), hs) =
      Inr (out @ enc (endianSwap m) (length out) (V_STRUCT ms), hs)"
    using MarshalArgs_marshals [OF assms, of "out @ pad 8 (length out)" hs] by simp
qed simp_all

lemma marshals_dict:
  assumes "marshals m k" "marshals m v"
  shows "marshals m (V_DICT_ENTRY (Some k) (Some v))"
proof (rule marshals_padded [of _ 8])
  fix out :: "byte list" and hs :: "int list"
  let ?sw = "endianSwap m"
  define o1 where "o1 = out @ pad 8 (length out)"
  define e where "e = enc ?sw (length o1) k"
  have enc: "enc ?sw (length out) (V_DICT_ENTRY (Some k) (Some v)) =
      pad 8 (length out) @ e @ enc ?sw (length o1 + length e) v"
    by (simp add: Let_def e_def o1_def)
  assume "length (enc ?sw (length out) (V_DICT_ENTRY (Some k) (Some v))) \<le> ALLJOYN_MAX_ARRAY_LEN"
  then have "length e \<le> ALLJOYN_MAX_ARRAY_LEN" "length (enc ?sw (length o1 + length e) v) \<le> ALLJOYN_MAX_ARRAY_LEN"
    unfolding enc by simp_all
  then show "marshal_value m (V_DICT_ENTRY (Some k) (Some v)) (out @ pad 8 (length out), hs) =
      Inr (out @ enc ?sw (length out) (V_DICT_ENTRY (Some k) (Some v)), hs)"
    using MarshalArgs_one [OF assms(1), of o1 hs] MarshalArgs_one [OF assms(2), of "o1 @ e" hs]
    unfolding enc o1_def [symmetric] by (simp add: e_def del: MarshalArgs.simps) (simp add: o1_def)
qed simp_all

lemma marshals_variant:
  assumes v: "typed v U" "length (show_ty U) \<le> 253" and m: "marshals m v" and buf: "256 \<le> length (sig_buf m)"
  shows "marshals m (V_VARIANT (Some v))"
proof (rule marshals_padded [of _ 1])
  fix out :: "byte list" and hs :: "int list"
  let ?sw = "endianSwap m" and ?s = "show_ty U"
  let ?o = "out @ [of_nat (length ?s)] @ map char_byte (?s @ [NUL])"
  have "256 \<le> length (take 256 (sig_buf m))" using buf by simp
  from MakeSignature_typed [of "[v]" "[U]" 0, OF _ _ this] v
  obtain sig' where mk: "MakeSignature [v] (take 256 (sig_buf m)) 0 = Some (ER_OK, sig', length ?s)"
    "wrote (take 256 (sig_buf m)) 0 ?s sig'" "sig' ! length ?s = NUL" by auto
  have t: "take (Suc (length ?s)) sig' = ?s @ [NUL]"
    using mk(2,3) v(2) buf by (simp add: wrote_def take_Suc_conv_app_nth)
  have enc: "enc ?sw (length out) (V_VARIANT (Some v)) =
      [of_nat (length ?s)] @ map char_byte (?s @ [NUL]) @ enc ?sw (length ?o) v"
    by (simp add: sig_of_typed [OF v(1)])
  assume "length (enc ?sw (length out) (V_VARIANT (Some v))) \<le> ALLJOYN_MAX_ARRAY_LEN"
  then have "length (enc ?sw (length ?o) v) \<le> ALLJOYN_MAX_ARRAY_LEN" unfolding enc by simp
  then have "MarshalArgs m [v] (?o, hs) = Inr (?o @ enc ?sw (length ?o) v, hs)"
    by (rule MarshalArgs_one [OF m])
  then show "marshal_value m (V_VARIANT (Some v)) (out @ pad 1 (length out), hs) =
      Inr (out @ enc ?sw (length out) (V_VARIANT (Some v)), hs)"
    using mk(1) t unfolding enc by (simp del: MarshalArgs.simps)
qed simp_all

lemma marshals_typed:
  assumes "256 \<le> length (sig_buf m)"
  shows "typed v T \<Longrightarrow> wt b T \<Longrightarrow> length (show_ty T) \<le> 253 \<Longrightarrow> marshals m v"
proof (induction arbitrary: b rule: typed.induct)
  case (string t s)
  then show ?case
    by (intro marshals_padded [of _ 4]) (auto simp: char_align simp del: AlignmentForType.simps(1))
next
  case (signature s)
  show ?case by (intro marshals_padded [of _ 1]) auto
next
  case (scalars a)
  then show ?case by (intro marshals_scalars)
next
  case (array es E)
  then show ?case using assms by (intro marshals_array [of es E m True]) auto
next
  case (struct ms Ts)
  have "\<forall>t \<in> set Ts. wt False t \<and> length (show_ty t) \<le> 253"
    using struct.prems show_member_le [of _ Ts] by fastforce
  with struct.IH have "\<forall>v \<in> set ms. marshals m v"
    by (induction rule: list_all2_induct) auto
  then show ?case by (rule marshals_struct)
next
  case (dict k K v V)
  then show ?case by (intro marshals_dict) auto
next
  case (variant v U)
  then have "wf_ty False U" by (cases U) (auto simp: complete_type_def)
  then have "wt False U" using wt_wf_ty [of U False] variant.hyps by simp
  then show ?case using variant assms by (intro marshals_variant [of v U]) auto
next
  case (boolean b)
  show ?case by (intro marshals_padded [of _ 4]) (auto simp: w32_zero [of "endianSwap m"])
next
  case (byte b)
  show ?case by (intro marshals_padded [of _ 1]) auto
next
  case (word16 t w)
  show ?case by (intro marshals_padded [of _ 2]) (auto simp: char_align simp del: AlignmentForType.simps(1))
next
  case (word32 t w)
  show ?case by (intro marshals_padded [of _ 4]) (auto simp: char_align simp del: AlignmentForType.simps(1))
next
  case (word64 t w)
  show ?case by (intro marshals_padded [of _ 8]) (auto simp: char_align simp del: AlignmentForType.simps(1))
qed

subsection \<open>The size computed in advance\<close>

lemma enc_pad:
  assumes "typed e E" "AlignmentForType (Tid (peek (show_ty E))) = 8"
  shows "enc sw q e = pad 8 q @ enc sw (q + pad_len q 8) e"
proof -
  have "pad_len (q + pad_len q 8) 8 = 0" using pad_aligned [of 8 q] by simp
  then have p: "pad 8 (q + pad_len q 8) = []" "pad_len (q + pad_len q 8) 8 = 0" by (simp_all add: pad_def)
  from assms show ?thesis
    by (cases rule: typed.cases) (simp_all add: char_align p Let_def del: AlignmentForType.simps(1), simp_all)
qed

lemma encs_pad:
  assumes "typed e E" "AlignmentForType (Tid (peek (show_ty E))) = 8"
  shows "encs sw q (e # es) = pad 8 q @ encs sw (q + pad_len q 8) (e # es)"
proof -
  define f where "f = enc sw (q + pad_len q 8) e"
  have "enc sw q e = pad 8 q @ f" unfolding f_def by (rule enc_pad [OF assms])
  then show ?thesis unfolding encs.simps f_def [symmetric] by (simp add: Let_def add.assoc)
qed

lemma int_and_not_mask: "(x :: int) AND NOT (mask k) = x - x mod 2 ^ k"
proof -
  have "x AND NOT (mask k) = push_bit k (drop_bit k x)"
    by (rule bit_eqI) (auto simp: bit_simps)
  then show ?thesis
    using bits_ident [of k x] by (simp add: take_bit_eq_mod)
qed

lemma PadUp_ok:
  assumes "i \<in> {1, 2, 4, 8}"
  shows "PadUp n i = n + pad_len n i"
proof -
  obtain k where "i = 2 ^ k" using assms by (metis insertE empty_iff power_0 power_one_right power2_eq_square
      power3_eq_cube numeral_Bit0 mult_2 mult.assoc numeral_times_numeral)
  then have k: "i = 2 ^ k" "int i - 1 = mask k" by (simp_all add: mask_eq_exp_minus_1)
  then have i: "0 < i" by simp
  have "int (PadUp n i) = int n + int i - 1 - (int n + int i - 1) mod int i"
    using zmod_le_nonneg_dividend [of "int n + int i - 1" "int i"] add_nonneg_pos [of "int n" "2 ^ k"] i
    unfolding PadUp_def k(2) int_and_not_mask by (simp add: k(1))
  also have "int n + int i - 1 = int (n + i - 1)" using i by (simp add: of_nat_diff)
  also have "int (n + i - 1) - int (n + i - 1) mod int i = int ((n + i - 1) div i * i)"
    by (simp only: minus_mod_eq_div_mult zdiv_int of_nat_mult)
  finally have u: "PadUp n i = (n + i - 1) div i * i" by (simp only: of_nat_eq_iff)
  have "(n + pad_len n i) mod i = 0" using pad_aligned [OF i] .
  then obtain q where q: "n + pad_len n i = i * q" by auto
  have l: "pad_len n i < i" using pad_len_less [OF i] .
  have "n + i - 1 = i * q + (i - 1 - pad_len n i)" using q l by linarith
  moreover have "i - 1 - pad_len n i < i" using i by simp
  ultimately have "(n + i - 1) div i = q" using i by simp
  with u q show ?thesis by (simp add: mult.commute)
qed

definition sizes :: "string \<Rightarrow> bool \<Rightarrow> MsgArg \<Rightarrow> bool" where
  "sizes buf sw v \<longleftrightarrow> (\<forall>p. size_value buf v p = Some (Some (p + length (enc sw p v))))"

lemma size_loop_sizes:
  "\<forall>v \<in> set vs. sizes buf sw v \<Longrightarrow> size_loop buf vs p = Some (p + length (encs sw p vs))"
  by (induction vs arbitrary: p) (simp_all add: sizes_def Let_def add.assoc)

lemma sent_align: "sent T \<Longrightarrow> wt b T \<Longrightarrow> AlignmentForType (Tid (peek (show_ty T))) \<in> {1, 2, 4, 8}"
  by (cases T) (auto simp: leaf_types_def)

lemma pad_len_4: "p mod 4 = 0 \<Longrightarrow> b \<in> {1, 2, 4} \<Longrightarrow> pad_len p b = 0"
  by (auto simp: pad_len_def)

lemma sizes_typed:
  assumes "256 \<le> length buf"
  shows "typed v T \<Longrightarrow> wt b T \<Longrightarrow> length (show_ty T) \<le> 253 \<Longrightarrow> sizes buf sw v"
proof (induction arbitrary: b rule: typed.induct)
  case (scalars a)
  obtain bs where "words sw a = Some bs" "length bs = scalar_size (elem_type a) * numElements a"
    using words_length [OF scalars(1)] by blast
  then show ?case by (cases "elem_type a") (simp_all add: sizes_def PadUp_ok add.assoc)
next
  case (array es E)
  let ?al = "AlignmentForType (Tid (peek (show_ty E)))"
  have E: "\<forall>e \<in> set es. sizes buf sw e" using array by auto
  have "?al \<in> {1, 2, 4, 8}" using sent_align [of E True] array.prems array.hyps by simp
  then have al: "PadUp q ?al = q + (if ?al = 8 then pad_len q 8 else 0)" if "q mod 4 = 0" for q
    using that pad_len_4 [OF that, of ?al] PadUp_ok [of ?al q] by auto
  have q: "(p + pad_len p 4 + 4) mod 4 = 0" for p
    using pad_aligned [of 4 p] by presburger
  show ?case
    unfolding sizes_def
  proof
    fix p
    show "size_value buf (V_ARRAY (Some (show_ty E)) es) p =
        Some (Some (p + length (enc sw p (V_ARRAY (Some (show_ty E)) es))))"
    proof (cases es)
      case Nil
      then show ?thesis
        using al [OF q] by (simp add: PadUp_ok Let_def elem_align_def GetElemSig_def del: AlignmentForType.simps)
    next
      case (Cons e es')
      then have ne: "es \<noteq> []" by simp
      define q where "q = p + pad_len p 4 + 4"
      define pd where "pd = (if ?al = 8 then pad 8 q else [])"
      have "encs sw q es = pd @ encs sw (q + length pd) es"
        using encs_pad [of e E sw q es'] array.hyps(1) Cons by (simp add: pd_def)
      then have n: "length (encs sw q es) = length pd + length (encs sw (q + length pd) es)"
        by (metis length_append)
      have "size_value buf (V_ARRAY (Some (show_ty E)) es) p = Some (Some (q + length (encs sw q es)))"
        using ne size_loop_sizes [OF E, of q] by (simp add: PadUp_ok Let_def q_def)
      moreover have "length (enc sw p (V_ARRAY (Some (show_ty E)) es)) =
          pad_len p 4 + 4 + length pd + length (encs sw (q + length pd) es)"
        by (simp add: Let_def elem_align_def GetElemSig_def pd_def q_def del: AlignmentForType.simps)
      then have "q + length (encs sw q es) = p + length (enc sw p (V_ARRAY (Some (show_ty E)) es))"
        using n q_def by linarith
      ultimately show ?thesis by (simp only:)
    qed
  qed
next
  case (struct ms Ts)
  have "\<forall>t \<in> set Ts. wt False t \<and> length (show_ty t) \<le> 253"
    using struct.prems show_member_le [of _ Ts] by fastforce
  with struct.IH have "\<forall>v \<in> set ms. sizes buf sw v"
    by (induction rule: list_all2_induct) auto
  then have "size_loop buf ms q = Some (q + length (encs sw q ms))" for q by (rule size_loop_sizes)
  then show ?case by (simp add: sizes_def PadUp_ok add.assoc)
next
  case (dict k K v V)
  then have "sizes buf sw k" "sizes buf sw v" by auto
  then show ?case by (simp add: sizes_def PadUp_ok Let_def add.assoc)
next
  case (variant v U)
  then have "wf_ty False U" by (cases U) (auto simp: complete_type_def)
  then have "wt False U" using wt_wf_ty [of U False] variant.hyps by simp
  then have "sizes buf sw v" using variant by auto
  moreover have "256 \<le> length (take 256 buf)" using assms by simp
  ultimately show ?case
    using MakeSignature_typed [of "[v]" "[U]" 0 "take 256 buf"] variant.hyps sig_of_typed [of v U]
    by (auto simp: sizes_def add.assoc)
qed (simp_all add: sizes_def PadUp_ok add.assoc)

text \<open>The form of a value depends on its position only by what is left modulo eight.\<close>

lemma pad_len_mod_eq: "p mod 8 = q mod 8 \<Longrightarrow> b \<in> {2, 4, 8} \<Longrightarrow> pad_len p b = pad_len q b"
proof -
  assume m: "p mod 8 = q mod 8" and b: "b \<in> {2, 4, 8}"
  then have "b dvd 8" by auto
  then have "p mod b = q mod b" using m by (metis mod_mod_cancel)
  then show ?thesis by (simp add: pad_len_def)
qed

lemma pad_mod_eq: "p mod 8 = q mod 8 \<Longrightarrow> b \<in> {2, 4, 8} \<Longrightarrow> pad b p = pad b q"
  unfolding pad_def by (rule arg_cong [OF pad_len_mod_eq])

lemma add_mod_eq: "p mod 8 = q mod 8 \<Longrightarrow> (p + n) mod 8 = (q + n) mod (8 :: nat)"
  by (rule mod_add_cong) simp_all

lemma enc_mod_eq:
  "p mod 8 = q mod 8 \<Longrightarrow> enc sw p v = enc sw q v"
  "p mod 8 = q mod 8 \<Longrightarrow> encs sw p vs = encs sw q vs"
proof (induction sw p v and sw p vs arbitrary: q and q rule: enc_encs.induct)
  case (8 sw p a)
  have n: "pad_len p 4 = pad_len q 4" "pad 4 p = pad 4 q" using 8 by (intro pad_len_mod_eq pad_mod_eq; simp)+
  have "(p + pad_len q 4 + 4) mod 8 = (q + pad_len q 4 + 4) mod 8" using 8 by (intro add_mod_eq)
  then have "pad 8 (p + pad_len q 4 + 4) = pad 8 (q + pad_len q 4 + 4)" by (rule pad_mod_eq) simp
  then show ?case using n by (cases "elem_type a") simp_all
next
  case (9 sw p es xs)
  define pd where "pd = (if elem_align es = 8 then pad 8 (q + pad_len q 4 + 4) else [])"
  have n: "pad_len p 4 = pad_len q 4" "pad 4 p = pad 4 q" using 9(2) by (intro pad_len_mod_eq pad_mod_eq; simp)+
  have pn: "(p + pad_len q 4 + 4) mod 8 = (q + pad_len q 4 + 4) mod 8" using 9(2) by (intro add_mod_eq)
  have pd': "(if elem_align es = 8 then pad 8 (p + pad_len q 4 + 4) else []) = pd"
    unfolding pd_def using pad_mod_eq [OF pn, of 8] by (cases "elem_align es = 8") simp_all
  have "encs sw (p + pad_len q 4 + 4 + length pd) xs = encs sw (q + pad_len q 4 + 4 + length pd) xs"
    using 9(1) [OF refl refl, of "q + pad_len q 4 + 4 + length pd"] add_mod_eq [OF pn, of "length pd"]
    unfolding n pd' by blast
  then show ?case
    unfolding enc.simps Let_def n pd' pd_def [symmetric] by (simp only:)
next
  case (10 sw p ms)
  have n: "pad_len p 8 = pad_len q 8" "pad 8 p = pad 8 q" using 10(2) by (intro pad_len_mod_eq pad_mod_eq; simp)+
  then show ?case using 10(1) [of "q + pad_len q 8"] add_mod_eq [OF 10(2), of "pad_len q 8"] by simp
next
  case (11 sw p k v)
  have n: "pad_len p 8 = pad_len q 8" "pad 8 p = pad 8 q" using 11(3) by (intro pad_len_mod_eq pad_mod_eq; simp)+
  have k: "enc sw (p + pad_len q 8) k = enc sw (q + pad_len q 8) k"
    using 11(1) [OF refl, of "q + pad_len q 8"] add_mod_eq [OF 11(3), of "pad_len q 8"] n by simp
  show ?case
    using 11(2) [OF refl refl, of "q + pad_len q 8 + length (enc sw (q + pad_len q 8) k)"] n k
      add_mod_eq [OF 11(3), of "pad_len q 8 + length (enc sw (q + pad_len q 8) k)"]
    by (simp add: Let_def add.assoc)
next
  case (12 sw p v)
  then show ?case using add_mod_eq [OF 12(2), of "length (sig_of v) + 2"] by (simp add: add.assoc)
next
  case (15 sw p v vs)
  have "enc sw p v = enc sw q v" using 15 by blast
  then show ?case
    using 15(2) [OF refl, of "q + length (enc sw q v)"] add_mod_eq [OF 15(3), of "length (enc sw q v)"]
    by (simp add: Let_def)
qed ((simp only: enc.simps encs.simps)?; (rule arg_cong2 [where f = "(@)"], erule pad_mod_eq, simp, rule refl)?)+

subsection \<open>Arguments of a message\<close>

text \<open>Arguments that fit a signature of complete types the receiver can read back.\<close>

definition sendable :: "MsgArg list \<Rightarrow> sigty list \<Rightarrow> bool" where
  "sendable vs Ts \<longleftrightarrow> list_all2 typed vs Ts \<and> (\<forall>T \<in> set Ts. complete_type T \<and> \<not> is_dict T) \<and>
     length (concat (map show_ty Ts)) \<le> 253"

lemma sendable_types:
  assumes "sendable vs Ts" "T \<in> set Ts"
  shows "wt False T" "fits 32 32 T" "length (show_ty T) \<le> 253"
proof -
  show l: "length (show_ty T) \<le> 253"
    using assms show_member_le [of T Ts] by (simp add: sendable_def)
  have c: "complete_type T" "\<not> is_dict T" using assms by (auto simp: sendable_def)
  then show "fits 32 32 T" by (simp add: complete_type_def)
  from c have "wf_ty False T" by (cases T) (auto simp: complete_type_def)
  then show "wt False T" using wt_wf_ty [of T False] l by simp
qed

lemma sendable_all:
  assumes "sendable vs Ts" "\<And>v T. typed v T \<Longrightarrow> wt False T \<Longrightarrow> fits 32 32 T \<Longrightarrow> length (show_ty T) \<le> 253 \<Longrightarrow> P v T"
  shows "list_all2 P vs Ts"
proof -
  have "list_all2 typed vs Ts" using assms(1) by (simp add: sendable_def)
  moreover have "typed v T \<Longrightarrow> T \<in> set Ts \<Longrightarrow> P v T" for v T
    using assms(2) sendable_types [OF assms(1)] by blast
  ultimately show ?thesis by (metis (no_types, lifting) list_all2_mono list_all2_conv_all_nth nth_mem)
qed

lemma list_all2_fst: "list_all2 (\<lambda>v T. P v) vs Ts \<Longrightarrow> \<forall>v \<in> set vs. P v"
  by (induction rule: list_all2_induct) auto

text \<open>
  C10. Marshalling refines the encoding: for arguments that fit their signature, after the
  header, which ends at a multiple of eight, the code appends exactly the encoding, whatever
  the byte order, and \<^verbatim>\<open>GetSize\<close>, from which the buffer was allocated, returns its length.
  That is the assertion at the end of \<^verbatim>\<open>MarshalMessage\<close>.
\<close>

theorem marshal_refines_encoding:
  assumes "sendable vs Ts" "256 \<le> length (sig_buf m)" "length hdr mod 8 = 0"
    and "length (encs (endianSwap m) 0 vs) \<le> ALLJOYN_MAX_ARRAY_LEN"
  shows "MarshalArgs m vs (hdr, hs) = Inr (hdr @ encs (endianSwap m) 0 vs, hs) \<and>
    SU_GetSize (sig_buf m) vs 0 = Some (length (encs (endianSwap m) 0 vs))"
proof -
  have "encs (endianSwap m) (length hdr) vs = encs (endianSwap m) 0 vs"
    using assms(3) by (intro enc_mod_eq) simp
  moreover have "\<forall>v \<in> set vs. marshals m v"
    using sendable_all [OF assms(1), of "\<lambda>v T. marshals m v"] marshals_typed [OF assms(2)] list_all2_fst by blast
  moreover have "\<forall>v \<in> set vs. sizes (sig_buf m) (endianSwap m) v"
    using sendable_all [OF assms(1), of "\<lambda>v T. sizes (sig_buf m) (endianSwap m) v"]
      sizes_typed [OF assms(2)] list_all2_fst by blast
  ultimately show ?thesis
    using MarshalArgs_marshals [of vs m hdr hs] size_loop_sizes [of vs "sig_buf m" "endianSwap m" 0] assms(4)
    by (simp add: SU_GetSize_def)
qed

definition sample_args :: "MsgArg list" where
  "sample_args = [V_BYTE 7, V_ARRAY (Some ''as'') [V_ARRAY (Some ''s'') [V_STR STRING (Chars ''hi'' NUL)]],
     V_VARIANT (Some (V_64 UINT64 5))]"

definition sample_types :: "sigty list" where
  "sample_types = [Leaf (CHR ''y''), Arr (Arr (Leaf (CHR ''s''))), Leaf (CHR ''v'')]"

lemma sample_sendable: "sendable sample_args sample_types"
proof -
  have s: "typed (V_STR STRING (Chars ''hi'' NUL)) (Leaf (char_str STRING))" by (rule typed.string) simp_all
  have 1: "typed (V_ARRAY (Some (show_ty (Leaf (CHR ''s'')))) [V_STR STRING (Chars ''hi'' NUL)]) (Arr (Leaf (CHR ''s'')))"
    using s by (intro typed.array) simp_all
  then have 2: "typed (V_ARRAY (Some (show_ty (Arr (Leaf (CHR ''s''))))) [V_ARRAY (Some ''s'') [V_STR STRING (Chars ''hi'' NUL)]])
      (Arr (Arr (Leaf (CHR ''s''))))"
    by (intro typed.array) simp_all
  have "typed (V_VARIANT (Some (V_64 UINT64 5))) (Leaf (CHR ''v''))"
    by (rule typed.variant [OF typed.word64]) (auto simp: complete_type_def leaf_types_def)
  with 2 show ?thesis
    by (auto simp: sendable_def sample_args_def sample_types_def complete_type_def leaf_types_def typed.byte)
qed

lemma sample_size: "length (encs sw 0 sample_args) = 32"
proof -
  let ?buf = "replicate 256 NUL"
  have "\<forall>v \<in> set sample_args. sizes ?buf sw v"
    by (rule list_all2_fst [OF sendable_all [OF sample_sendable]], rule sizes_typed) simp_all
  then have "size_loop ?buf sample_args 0 = Some (length (encs sw 0 sample_args))"
    using size_loop_sizes [of sample_args ?buf sw 0] by simp
  moreover have "size_loop ?buf sample_args 0 = Some 32"
    by (simp add: sample_args_def PadUp_ok pad_len_def MakeSignature_def put_def)
  ultimately show ?thesis by simp
qed

lemma marshal_refines_encoding_witness:
  "MarshalArgs \<lparr>endianSwap = True, sig_buf = replicate 256 NUL, SocketDup = (\<lambda>fd i. Inr fd)\<rparr> sample_args ([], []) =
     Inr ([] @ encs True 0 sample_args, [])"
proof -
  have "length (encs True 0 sample_args) \<le> ALLJOYN_MAX_ARRAY_LEN"
    by (simp add: sample_size ALLJOYN_MAX_ARRAY_LEN_def)
  then show ?thesis
    using marshal_refines_encoding [OF sample_sendable, of
        "\<lparr>endianSwap = True, sig_buf = replicate 256 NUL, SocketDup = (\<lambda>fd i. Inr fd)\<rparr>" "[]" "[]"]
    by simp
qed

end
