(* ===== verification/Msg_Parse.thy ===== *)
theory Msg_Parse
  imports Msg_Marshal
begin

text \<open>
  Unmarshalling of message arguments, \<^verbatim>\<open>ParseValue\<close> and its companions in
  \<^verbatim>\<open>alljoyn_core/src/Message_Parse.cc\<close>, over the whole message buffer: positions are
  offsets from its start, which is aligned to eight bytes. A read outside the buffer is the
  result \<open>Fault\<close>. The main result on arbitrary input is that there is none, because the buffer
  is allocated with padding behind the data.
\<close>

subsection \<open>Reading the buffer\<close>

text \<open>
  The buffer, the end of the data in it (\<^verbatim>\<open>bufEOD\<close>), whether the byte order is the foreign
  one, the handles that came with the message and the number the header announces.
\<close>

record reader =
  buf :: "byte list"
  bufEOD :: nat
  swap :: bool
  handles :: "int list"
  num_handles :: nat

definition ALLJOYN_MAX_PACKET_LEN :: nat where
  "ALLJOYN_MAX_PACKET_LEN = ALLJOYN_MAX_ARRAY_LEN + 4096"

definition EndianSwap16 :: "u16 \<Rightarrow> u16" where
  "EndianSwap16 w = of_le16 (rev (le16 w))"

definition EndianSwap32 :: "u32 \<Rightarrow> u32" where
  "EndianSwap32 w = of_le32 (rev (le32 w))"

definition EndianSwap64 :: "u64 \<Rightarrow> u64" where
  "EndianSwap64 w = of_le64 (rev (le64 w))"

definition fetch :: "reader \<Rightarrow> nat \<Rightarrow> nat \<Rightarrow> fail + byte list" where
  "fetch r pos n = (if pos + n \<le> length (buf r) then Inr (take n (drop pos (buf r))) else Inl Fault)"

definition order16 :: "reader \<Rightarrow> byte list \<Rightarrow> u16" where
  "order16 r bs = (if swap r then EndianSwap16 (of_le16 bs) else of_le16 bs)"

definition order32 :: "reader \<Rightarrow> byte list \<Rightarrow> u32" where
  "order32 r bs = (if swap r then EndianSwap32 (of_le32 bs) else of_le32 bs)"

definition order64 :: "reader \<Rightarrow> byte list \<Rightarrow> u64" where
  "order64 r bs = (if swap r then EndianSwap64 (of_le64 bs) else of_le64 bs)"

definition get32 :: "reader \<Rightarrow> nat \<Rightarrow> fail + u32" where
  "get32 r pos = and_then (fetch r pos 4) (\<lambda>bs. Inr (order32 r bs))"

definition AlignPtr :: "nat \<Rightarrow> nat \<Rightarrow> nat" where
  "AlignPtr p b = p + PadBytes p b"

subsection \<open>Values without parts\<close>

definition ParseBoolean :: "reader \<Rightarrow> nat \<Rightarrow> fail + MsgArg \<times> nat" where
  "ParseBoolean r pos =
     (let pos = AlignPtr pos 4
      in and_then (get32 r pos) (\<lambda>v.
           if v > 1 then Inl (Failed ER_BUS_BAD_VALUE) else Inr (V_BOOLEAN (v = 1), pos + 4)))"

text \<open>The tail of a string and of a signature: the characters and the NUL that must follow.\<close>

definition parse_chars :: "reader \<Rightarrow> nat \<Rightarrow> nat \<Rightarrow> fail + string \<times> nat" where
  "parse_chars r pos len =
     (if pos + len \<ge> bufEOD r then Inl (Failed ER_BUS_BAD_LENGTH)
      else and_then (fetch r pos (len + 1)) (\<lambda>bs.
             if bs ! len \<noteq> 0 then Inl (Failed ER_BUS_NOT_NUL_TERMINATED)
             else Inr (map byte_char (take len bs), pos + len + 1)))"

definition ParseString :: "reader \<Rightarrow> tstr \<Rightarrow> nat \<Rightarrow> fail + MsgArg \<times> nat" where
  "ParseString r t pos =
     (let pos = AlignPtr pos 4
      in and_then (get32 r pos) (\<lambda>len.
           if unat len > ALLJOYN_MAX_PACKET_LEN then Inl (Failed ER_BUS_BAD_LENGTH)
           else and_then (parse_chars r (pos + 4) (unat len)) (\<lambda>(s, pos).
                  Inr (V_STR t (Chars s NUL), pos))))"

definition ParseSignature :: "reader \<Rightarrow> nat \<Rightarrow> fail + MsgArg \<times> nat" where
  "ParseSignature r pos =
     and_then (fetch r pos 1) (\<lambda>bs.
       and_then (parse_chars r (pos + 1) (unat (bs ! 0))) (\<lambda>(s, pos).
         Inr (V_SIGNATURE (Chars s NUL), pos)))"

definition ParseHandle :: "reader \<Rightarrow> nat \<Rightarrow> fail + MsgArg \<times> nat" where
  "ParseHandle r pos =
     (let pos = AlignPtr pos 4
      in and_then (get32 r pos) (\<lambda>index.
           if unat index \<ge> num_handles r then Inl (Failed ER_BUS_NO_SUCH_HANDLE)
           else if unat index < length (handles r) then Inr (V_HANDLE (handles r ! unat index), pos + 4)
           else Inl Fault))"

definition parse16 :: "reader \<Rightarrow> t16 \<Rightarrow> nat \<Rightarrow> fail + MsgArg \<times> nat" where
  "parse16 r t pos =
     (let pos = AlignPtr pos 2
      in and_then (fetch r pos 2) (\<lambda>bs. Inr (V_16 t (order16 r bs), pos + 2)))"

definition parse32 :: "reader \<Rightarrow> t32 \<Rightarrow> nat \<Rightarrow> fail + MsgArg \<times> nat" where
  "parse32 r t pos =
     (let pos = AlignPtr pos 4
      in and_then (fetch r pos 4) (\<lambda>bs. Inr (V_32 t (order32 r bs), pos + 4)))"

definition parse64 :: "reader \<Rightarrow> t64 \<Rightarrow> nat \<Rightarrow> fail + MsgArg \<times> nat" where
  "parse64 r t pos =
     (let pos = AlignPtr pos 8
      in and_then (fetch r pos 8) (\<lambda>bs. Inr (V_64 t (order64 r bs), pos + 8)))"

definition ParseBasic :: "reader \<Rightarrow> char \<Rightarrow> nat \<Rightarrow> fail + MsgArg \<times> nat" where
  "ParseBasic r tc pos =
     (if tc = CHR ''y'' then and_then (fetch r pos 1) (\<lambda>bs. Inr (V_BYTE (bs ! 0), pos + 1))
      else if tc = CHR ''n'' then parse16 r INT16 pos
      else if tc = CHR ''q'' then parse16 r UINT16 pos
      else if tc = CHR ''b'' then ParseBoolean r pos
      else if tc = CHR ''i'' then parse32 r INT32 pos
      else if tc = CHR ''u'' then parse32 r UINT32 pos
      else if tc = CHR ''d'' then parse64 r DOUBLE pos
      else if tc = CHR ''t'' then parse64 r UINT64 pos
      else if tc = CHR ''x'' then parse64 r INT64 pos
      else if tc = CHR ''o'' then ParseString r OBJECT_PATH pos
      else if tc = CHR ''s'' then ParseString r STRING pos
      else if tc = CHR ''g'' then ParseSignature r pos
      else if tc = CHR ''h'' then ParseHandle r pos
      else Inl (Failed ER_BUS_BAD_VALUE_TYPE))"

subsection \<open>Arrays of scalars\<close>

definition chunks :: "nat \<Rightarrow> byte list \<Rightarrow> byte list list" where
  "chunks n bs = map (\<lambda>i. take n (drop (n * i) bs)) [0..<length bs div n]"

definition scalar_of_char :: "char \<Rightarrow> scalar option" where
  "scalar_of_char c =
     (if c = CHR ''y'' then Some S_BYTE
      else if c = CHR ''n'' then Some (S_16 INT16)
      else if c = CHR ''q'' then Some (S_16 UINT16)
      else if c = CHR ''b'' then Some S_BOOLEAN
      else if c = CHR ''i'' then Some (S_32 INT32)
      else if c = CHR ''u'' then Some (S_32 UINT32)
      else if c = CHR ''d'' then Some (S_64 DOUBLE)
      else if c = CHR ''t'' then Some (S_64 UINT64)
      else if c = CHR ''x'' then Some (S_64 INT64)
      else None)"

definition parse_scalars :: "reader \<Rightarrow> scalar \<Rightarrow> nat \<Rightarrow> nat \<Rightarrow> fail + scalar_array \<times> nat" where
  "parse_scalars r s len pos =
     (if len mod scalar_size s \<noteq> 0 then Inl (Failed ER_BUS_BAD_LENGTH)
      else case s of
        S_BYTE \<Rightarrow> and_then (fetch r pos len) (\<lambda>bs. Inr (BYTE_ARRAY bs, pos + len))
      | S_16 t \<Rightarrow> and_then (fetch r pos len) (\<lambda>bs. Inr (ARRAY_16 t (map (order16 r) (chunks 2 bs)), pos + len))
      | S_32 t \<Rightarrow> and_then (fetch r pos len) (\<lambda>bs. Inr (ARRAY_32 t (map (order32 r) (chunks 4 bs)), pos + len))
      | S_BOOLEAN \<Rightarrow> and_then (fetch r pos len) (\<lambda>bs.
          let ws = map (order32 r) (chunks 4 bs)
          in if \<forall>w \<in> set ws. w \<le> 1 then Inr (BOOLEAN_ARRAY (map (\<lambda>w. w = 1) ws), pos + len)
             else Inl (Failed ER_BUS_BAD_VALUE))
      | S_64 t \<Rightarrow>
          (let pos = AlignPtr pos 8
           in and_then (fetch r pos len) (\<lambda>bs.
                Inr (ARRAY_64 t (map (order64 r) (chunks 8 bs)), pos + len))))"

text \<open>
  The signature of an array's elements, and the length that starts it; both are checked before
  anything else is read. A container parser that does not come back would be a fault.
\<close>

definition container_sig :: "container \<Rightarrow> string \<Rightarrow> fail + string \<times> nat" where
  "container_sig c sigPtr =
     (case ParseContainerSignature c sigPtr of
        Done status rest n \<Rightarrow> if status = ER_OK then Inr (rest, n) else Inl (Failed status)
      | _ \<Rightarrow> Inl Fault)"

definition array_len :: "reader \<Rightarrow> nat \<Rightarrow> fail + nat \<times> nat" where
  "array_len r pos =
     (let pos = AlignPtr pos 4
      in and_then (get32 r pos) (\<lambda>len.
           if unat len > ALLJOYN_MAX_ARRAY_LEN \<or> unat len + (pos + 4) > bufEOD r
           then Inl (Failed ER_BUS_BAD_LENGTH)
           else Inr (unat len, pos + 4)))"

text \<open>What \<^verbatim>\<open>SetElements\<close> leaves in the array; the caller does not look at its status.\<close>

definition SetElements :: "string \<Rightarrow> MsgArg list \<Rightarrow> fail + MsgArg" where
  "SetElements elemSig elements =
     and_then (defined (CountCompleteTypes (Some elemSig))) (\<lambda>n.
       Inr (if n = 1 \<and> (elements = [] \<or> (\<forall>e \<in> set (tl elements). typeId e = typeId (hd elements)))
            then V_ARRAY (Some elemSig) elements else V_ARRAY None []))"

text \<open>How far the parts move; the recursion of the parser below rests on this.\<close>

lemma AlignPtr_ge: "p \<le> AlignPtr p b"
  by (simp add: AlignPtr_def)

lemma parse_chars_adv: "parse_chars r pos len = Inr (s, p) \<Longrightarrow> pos < p"
  by (auto simp: parse_chars_def and_then_Inr split: if_splits)

lemma ParseBasic_adv:
  assumes "ParseBasic r c pos = Inr (v, p)"
  shows "pos < p"
proof -
  note ge = AlignPtr_ge [of pos 2] AlignPtr_ge [of pos 4] AlignPtr_ge [of pos 8]
  have "parse16 r t pos = Inr (v, p) \<Longrightarrow> ?thesis" "parse32 r t' pos = Inr (v, p) \<Longrightarrow> ?thesis"
    "parse64 r u pos = Inr (v, p) \<Longrightarrow> ?thesis" "ParseBoolean r pos = Inr (v, p) \<Longrightarrow> ?thesis"
    "ParseHandle r pos = Inr (v, p) \<Longrightarrow> ?thesis" for t t' u
    using ge by (auto simp: parse16_def parse32_def parse64_def ParseBoolean_def ParseHandle_def Let_def
        and_then_Inr split: if_splits)
  moreover have "ParseString r t pos = Inr (v, p) \<Longrightarrow> ?thesis" for t
    using ge by (auto simp: ParseString_def Let_def and_then_Inr split: if_splits dest!: parse_chars_adv)
  moreover have "ParseSignature r pos = Inr (v, p) \<Longrightarrow> ?thesis"
    by (auto simp: ParseSignature_def and_then_Inr dest!: parse_chars_adv)
  moreover have "and_then (fetch r pos 1) (\<lambda>bs. Inr (V_BYTE (bs ! 0), pos + 1)) = Inr (v, p) \<Longrightarrow> ?thesis"
    by (auto simp: and_then_Inr)
  ultimately show ?thesis using assms unfolding ParseBasic_def by (simp split: if_splits)
qed

lemma array_len_adv: "array_len r pos = Inr (len, p) \<Longrightarrow> pos < p \<and> len + p \<le> bufEOD r"
  using AlignPtr_ge [of pos 4] by (auto simp: array_len_def Let_def and_then_Inr split: if_splits)

lemma parse_scalars_adv: "parse_scalars r s len pos = Inr (a, p) \<Longrightarrow> pos \<le> p"
  using AlignPtr_ge [of pos 8]
  by (auto simp: parse_scalars_def Let_def and_then_Inr split: if_splits scalar.splits)

lemma container_sig_adv:
  assumes "container_sig c s = Inr (rest, n)"
  shows "length rest \<le> length (tl s)" and "c = STRUCT \<Longrightarrow> 0 < n"
proof -
  have d: "ParseContainerSignature c s = Done ER_OK rest n"
    using assms by (auto simp: container_sig_def split: outcome.splits if_splits)
  then show "length rest \<le> length (tl s)"
    unfolding ParseContainerSignature_def by (rule parse_loop_rest)
  assume c: "c = STRUCT"
  obtain T where T: "opener c # s = show_ty T @ rest" "reads_top T"
    using ParseContainerSignature_sound [OF d] by blast
  then obtain ts where "T = Str ts" using c by (cases T) (auto simp: leaf_types_def)
  with T c have "ParseContainerSignature STRUCT s = Done ER_OK rest (length ts mod 256)" "0 < length ts mod 256"
    using ParseContainerSignature_members [of ts rest] by auto
  with d c show "0 < n" by simp
qed

subsection \<open>Values with parts\<close>

function ParseValue :: "reader \<Rightarrow> string \<Rightarrow> bool \<Rightarrow> nat \<Rightarrow> fail + MsgArg \<times> nat \<times> string"
  and ParseArray :: "reader \<Rightarrow> string \<Rightarrow> nat \<Rightarrow> fail + MsgArg \<times> nat \<times> string"
  and parse_elements :: "reader \<Rightarrow> string \<Rightarrow> nat \<Rightarrow> nat \<Rightarrow> fail + MsgArg list \<times> nat"
  and ParseStruct :: "reader \<Rightarrow> string \<Rightarrow> nat \<Rightarrow> fail + MsgArg \<times> nat \<times> string"
  and parse_members :: "reader \<Rightarrow> nat \<Rightarrow> string \<Rightarrow> nat \<Rightarrow> fail + MsgArg list \<times> nat"
  and ParseDictEntry :: "reader \<Rightarrow> string \<Rightarrow> nat \<Rightarrow> fail + MsgArg \<times> nat \<times> string"
  and ParseVariant :: "reader \<Rightarrow> nat \<Rightarrow> fail + MsgArg \<times> nat"
where
  "ParseValue r sigPtr arrayElem pos =
     and_then
       (if peek sigPtr = ALLJOYN_ARRAY then ParseArray r (tl sigPtr) pos
        else if peek sigPtr = ALLJOYN_DICT_ENTRY_OPEN then
          (if arrayElem then ParseDictEntry r (tl sigPtr) pos else Inl (Failed ER_BUS_BAD_SIGNATURE))
        else if peek sigPtr = ALLJOYN_STRUCT_OPEN then ParseStruct r (tl sigPtr) pos
        else if peek sigPtr = CHR ''v'' then
          and_then (ParseVariant r pos) (\<lambda>(v, pos). Inr (v, pos, tl sigPtr))
        else and_then (ParseBasic r (peek sigPtr) pos) (\<lambda>(v, pos). Inr (v, pos, tl sigPtr)))
       (\<lambda>(v, pos, rest). if pos > bufEOD r then Inl (Failed ER_BUS_BAD_SIGNATURE) else Inr (v, pos, rest))"
| "ParseArray r sigPtr pos =
     and_then (container_sig ARRAY sigPtr) (\<lambda>(rest, n).
       and_then (array_len r pos) (\<lambda>(len, pos).
         case scalar_of_char (peek sigPtr) of
           Some s \<Rightarrow> and_then (parse_scalars r s len pos) (\<lambda>(a, pos). Inr (V_SCALARS a, pos, rest))
         | None \<Rightarrow>
             (let pos = (if peek sigPtr = ALLJOYN_STRUCT_OPEN \<or> peek sigPtr = ALLJOYN_DICT_ENTRY_OPEN
                         then AlignPtr pos 8 else pos);
                  elemSig = take (length sigPtr - length rest) sigPtr
              in and_then (parse_elements r elemSig (pos + len) pos) (\<lambda>(elements, pos).
                   and_then (SetElements elemSig elements) (\<lambda>v. Inr (v, pos, rest))))))"
| "parse_elements r elemSig endOfArray pos =
     (if pos < endOfArray then
        and_then (ParseValue r elemSig True pos) (\<lambda>(v, pos, rest).
          and_then (parse_elements r elemSig endOfArray pos) (\<lambda>(vs, pos). Inr (v # vs, pos)))
      else Inr ([], pos))"
| "ParseStruct r sigPtr pos =
     and_then (container_sig STRUCT sigPtr) (\<lambda>(rest, numMembers).
       and_then (parse_members r numMembers sigPtr (AlignPtr pos 8)) (\<lambda>(ms, pos).
         Inr (V_STRUCT ms, pos, rest)))"
| "parse_members r n memberSig pos =
     (if n = 0 then Inr ([], pos)
      else and_then (ParseValue r memberSig False pos) (\<lambda>(v, pos, memberSig).
             and_then (parse_members r (n - 1) memberSig pos) (\<lambda>(vs, pos). Inr (v # vs, pos))))"
| "ParseDictEntry r sigPtr pos =
     and_then (container_sig DICT_ENTRY sigPtr) (\<lambda>(rest, n).
       and_then (ParseValue r sigPtr False (AlignPtr pos 8)) (\<lambda>(key, pos, memberSig).
         and_then (ParseValue r memberSig False pos) (\<lambda>(val, pos, _).
           Inr (V_DICT_ENTRY (Some key) (Some val), pos, rest))))"
| "ParseVariant r pos =
     and_then (fetch r pos 1) (\<lambda>bs.
       let len = unat (bs ! 0); sigPos = pos + 1; pos = sigPos + len
       in if pos \<ge> bufEOD r then Inl (Failed ER_BUS_BAD_LENGTH)
          else and_then (fetch r sigPos (len + 1)) (\<lambda>bs.
            if bs ! len \<noteq> 0 then Inl (Failed ER_BUS_BAD_SIGNATURE)
            else and_then (ParseValue r (c_str (map byte_char (take len bs))) False (pos + 1))
                   (\<lambda>(v, pos, rest).
                     if rest \<noteq> [] then Inl (Failed ER_BUS_BAD_SIGNATURE)
                     else Inr (V_VARIANT (Some v), pos))))"
  by pat_completeness auto

text \<open>
  Every value that is parsed moves the position forward, within the data, and takes at least a
  character of the signature. The recursion ends because of that, so it is shown first, for
  the arguments on which it does end.
\<close>

abbreviation "parse_dom \<equiv> ParseValue_ParseArray_parse_elements_ParseStruct_parse_members_ParseDictEntry_ParseVariant_dom"

lemma parse_adv_dom:
  "parse_dom (Inl (Inl (r, s, ae, pos))) \<Longrightarrow>
     (\<And>v p s'. ParseValue r s ae pos = Inr (v, p, s') \<Longrightarrow> pos < p \<and> p \<le> bufEOD r \<and> length s' < length s)"
  "parse_dom (Inl (Inr (Inl (r1, s1, pos1)))) \<Longrightarrow>
     (\<And>v p s'. ParseArray r1 s1 pos1 = Inr (v, p, s') \<Longrightarrow> pos1 < p \<and> length s' \<le> length s1)"
  "parse_dom (Inl (Inr (Inr (r2, s2, e2, pos2)))) \<Longrightarrow>
     (\<And>vs p. parse_elements r2 s2 e2 pos2 = Inr (vs, p) \<Longrightarrow> pos2 \<le> p)"
  "parse_dom (Inr (Inl (Inl (r3, s3, pos3)))) \<Longrightarrow>
     (\<And>v p s'. ParseStruct r3 s3 pos3 = Inr (v, p, s') \<Longrightarrow> pos3 < p \<and> length s' \<le> length s3)"
  "parse_dom (Inr (Inl (Inr (r4, n4, s4, pos4)))) \<Longrightarrow>
     (\<And>vs p. parse_members r4 n4 s4 pos4 = Inr (vs, p) \<Longrightarrow> (if n4 = 0 then p = pos4 else pos4 < p))"
  "parse_dom (Inr (Inr (Inl (r5, s5, pos5)))) \<Longrightarrow>
     (\<And>v p s'. ParseDictEntry r5 s5 pos5 = Inr (v, p, s') \<Longrightarrow> pos5 < p \<and> length s' \<le> length s5)"
  "parse_dom (Inr (Inr (Inr (r6, pos6)))) \<Longrightarrow>
     (\<And>v p. ParseVariant r6 pos6 = Inr (v, p) \<Longrightarrow> pos6 < p)"
proof (induction rule: ParseValue_ParseArray_parse_elements_ParseStruct_parse_members_ParseDictEntry_ParseVariant.pinduct)
  case (1 r s ae pos)
  note eq = 1(6) [unfolded ParseValue.psimps [OF 1(1)]]
  have "s \<noteq> []" using eq by (auto simp: NUL_def ParseBasic_def)
  then have "length (tl s) < length s" by simp
  moreover have "peek s = ALLJOYN_DICT_ENTRY_OPEN \<Longrightarrow> ae \<Longrightarrow> ParseDictEntry r (tl s) pos = Inr (v, p, s') \<Longrightarrow>
        pos < p \<and> length s' \<le> length (tl s)"
    "peek s = ALLJOYN_STRUCT_OPEN \<Longrightarrow> ParseStruct r (tl s) pos = Inr (v, p, s') \<Longrightarrow>
        pos < p \<and> length s' \<le> length (tl s)"
    "peek s = CHR ''v'' \<Longrightarrow> ParseVariant r pos = Inr (v, p) \<Longrightarrow> pos < p" for v p s'
    using 1(3-5) by simp_all
  ultimately show ?case
    using eq by (auto simp: and_then_Inr split: if_splits dest!: 1(2) ParseBasic_adv)
next
  case (2 r s pos)
  note eq = 2(3) [unfolded ParseArray.psimps [OF 2(1)]]
  obtain rest n len q where c: "container_sig ARRAY s = Inr (rest, n)" "array_len r pos = Inr (len, q)"
    using eq by (auto simp: and_then_Inr)
  have "length rest \<le> length s" "pos < q"
    using container_sig_adv [OF c(1)] array_len_adv [OF c(2)] by auto
  moreover note AlignPtr_ge [of q 8]
  ultimately show ?case
    using eq c by (auto simp: and_then_Inr Let_def split: option.splits dest!: 2(2) [OF c(1) refl c(2) refl _ refl refl]
        parse_scalars_adv split: if_splits)
next
  case (3 r es en pos)
  note eq = 3(4) [unfolded parse_elements.psimps [OF 3(1)]]
  show ?case
  proof (cases "pos < en")
    case True
    with eq obtain v q rest vs' where a: "ParseValue r es True pos = Inr (v, q, rest)"
      "parse_elements r es en q = Inr (vs', p)" by (auto simp: and_then_Inr)
    then show ?thesis using 3(2) [OF True a(1)] 3(3) [OF True a(1) refl refl a(2)] by simp
  qed (use eq in simp)
next
  case (4 r s pos)
  note eq = 4(3) [unfolded ParseStruct.psimps [OF 4(1)]]
  obtain rest n where c: "container_sig STRUCT s = Inr (rest, n)"
    using eq by (auto simp: and_then_Inr)
  have "length rest \<le> length s" "0 < n" using container_sig_adv [OF c] by auto
  moreover obtain ms where "parse_members r n s (AlignPtr pos 8) = Inr (ms, p)" "s' = rest"
    using eq c by (auto simp: and_then_Inr)
  ultimately show ?case using 4(2) [OF c refl] AlignPtr_ge [of pos 8] by fastforce
next
  case (5 r n s pos)
  note eq = 5(4) [unfolded parse_members.psimps [OF 5(1)]]
  show ?case
  proof (cases "n = 0")
    case False
    with eq obtain v q s1 vs' where a: "ParseValue r s False pos = Inr (v, q, s1)"
      "parse_members r (n - 1) s1 q = Inr (vs', p)" by (auto simp: and_then_Inr)
    then show ?thesis using 5(2) [OF False a(1)] 5(3) [OF False a(1) refl refl a(2)] False
      by (auto split: if_splits)
  qed (use eq in simp)
next
  case (6 r s pos)
  note eq = 6(4) [unfolded ParseDictEntry.psimps [OF 6(1)]]
  obtain rest n where c: "container_sig DICT_ENTRY s = Inr (rest, n)"
    using eq by (auto simp: and_then_Inr)
  moreover from eq c obtain k q s1 val s2 where a: "ParseValue r s False (AlignPtr pos 8) = Inr (k, q, s1)"
    "ParseValue r s1 False q = Inr (val, p, s2)" "s' = rest" by (auto simp: and_then_Inr)
  moreover have "length rest \<le> length s" using container_sig_adv [OF c] by auto
  ultimately show ?case
    using AlignPtr_ge [of pos 8] 6(2) [OF c refl a(1)] 6(3) [OF c refl a(1) refl refl a(2)] by simp
next
  case (7 r pos)
  note eq = 7(3) [unfolded ParseVariant.psimps [OF 7(1)]]
  obtain bs cs where b: "fetch r pos 1 = Inr bs" "\<not> bufEOD r \<le> pos + 1 + unat (bs ! 0)"
    "fetch r (pos + 1) (unat (bs ! 0) + 1) = Inr cs" "\<not> cs ! unat (bs ! 0) \<noteq> 0"
    using eq by (auto simp: and_then_Inr Let_def split: if_splits)
  with eq obtain v' s1 where "ParseValue r (c_str (map byte_char (take (unat (bs ! 0)) cs))) False
      (pos + 1 + unat (bs ! 0) + 1) = Inr (v', p, s1)" by (auto simp: and_then_Inr Let_def split: if_splits)
  from 7(2) [OF b(1) refl refl refl b(2,3,4) this] show ?case by simp
qed

lemma diff_Suc_less_length: "peek s = c \<Longrightarrow> c \<noteq> NUL \<Longrightarrow> length s - Suc 0 < length s"
  by (cases s) auto

definition parse_measure ::
  "((reader \<times> string \<times> bool \<times> nat) + (reader \<times> string \<times> nat) + (reader \<times> string \<times> nat \<times> nat)) +
   ((reader \<times> string \<times> nat) + (reader \<times> nat \<times> string \<times> nat)) +
   (reader \<times> string \<times> nat) + (reader \<times> nat) \<Rightarrow> nat \<times> nat \<times> nat" where
  "parse_measure x =
     (case x of
        Inl (Inl (r, s, ae, pos)) \<Rightarrow> (bufEOD r - pos, length s, 0)
      | Inl (Inr (Inl (r, s, pos))) \<Rightarrow> (bufEOD r - pos, length s, 2)
      | Inl (Inr (Inr (r, s, en, pos))) \<Rightarrow> (bufEOD r - pos, length s, 1)
      | Inr (Inl (Inl (r, s, pos))) \<Rightarrow> (bufEOD r - pos, length s, 2)
      | Inr (Inl (Inr (r, n, s, pos))) \<Rightarrow> (bufEOD r - pos, length s, 1)
      | Inr (Inr (Inl (r, s, pos))) \<Rightarrow> (bufEOD r - pos, length s, 2)
      | Inr (Inr (Inr (r, pos))) \<Rightarrow> (bufEOD r - pos, 0, 0))"

lemma parse_total: "All parse_dom"
proof (relation "inv_image (less_than <*lex*> less_than <*lex*> less_than) parse_measure", goal_cases)
  case 1
  then show ?case by (intro wf_inv_image wf_lex_prod wf_less_than)
qed (auto simp: parse_measure_def NUL_def AlignPtr_def diff_Suc_less_length dest!: parse_adv_dom array_len_adv split: if_splits)

termination ParseValue
  by (rule parse_total)

declare ParseValue.simps [simp del] ParseArray.simps [simp del] parse_elements.simps [simp del]
  ParseStruct.simps [simp del] parse_members.simps [simp del] ParseDictEntry.simps [simp del]
  ParseVariant.simps [simp del]

lemmas parse_induct = ParseValue_ParseArray_parse_elements_ParseStruct_parse_members_ParseDictEntry_ParseVariant.induct

lemma ParseValue_adv:
  "ParseValue r s ae pos = Inr (v, p, s') \<Longrightarrow> pos < p \<and> p \<le> bufEOD r \<and> length s' < length s"
  using parse_adv_dom(1) [OF spec [OF parse_total]] .

subsection \<open>No read outside the buffer\<close>

text \<open>
  The buffer is allocated with its size rounded up to eight bytes and eight bytes more
  (\<^verbatim>\<open>InterpretHeader\<close>). Between values the position is within the data; inside a value
  alignment may bring it to the next multiple of eight, where eight bytes can still be read.
\<close>

definition buf_limit :: "reader \<Rightarrow> nat" where
  "buf_limit r = AlignPtr (bufEOD r) 8"

definition wf_reader :: "reader \<Rightarrow> bool" where
  "wf_reader r \<longleftrightarrow> buf_limit r + 8 \<le> length (buf r) \<and> num_handles r \<le> length (handles r)"

lemma AlignPtr_ok: "b \<in> {1, 2, 4, 8} \<Longrightarrow> AlignPtr p b = p + pad_len p b"
  using PadBytes_simps [of p] by (auto simp: AlignPtr_def)

lemma AlignPtr_limit:
  assumes "pos \<le> buf_limit r" "b \<in> {1, 2, 4, 8}"
  shows "AlignPtr pos b \<le> buf_limit r"
proof -
  obtain m where m: "buf_limit r = b * m"
  proof -
    have "buf_limit r mod 8 = 0" unfolding buf_limit_def using pad_aligned [of 8] by (simp add: AlignPtr_ok)
    then have "buf_limit r = b * ((8 div b) * (buf_limit r div 8))"
      using assms(2) by auto
    then show ?thesis using that by blast
  qed
  have b: "0 < b" using assms(2) by auto
  obtain q where q: "pos + pad_len pos b = b * q" using pad_aligned [OF b, of pos] by auto
  have "b * q < b * m + b" using assms(1) m q pad_len_less [OF b, of pos] by linarith
  then have "q \<le> m" using b by (metis Suc_leI mult_Suc_right nat_mult_less_cancel_disj less_Suc_eq_le add.commute)
  then show ?thesis using assms(2) q m by (simp add: AlignPtr_ok)
qed

lemma limit_ge: "bufEOD r \<le> buf_limit r"
  by (simp add: buf_limit_def AlignPtr_ge)

lemma fetch_safe: "pos + n \<le> length (buf r) \<Longrightarrow> fetch r pos n \<noteq> Inl Fault"
  by (simp add: fetch_def)

lemma fetch_limit: "wf_reader r \<Longrightarrow> pos \<le> buf_limit r \<Longrightarrow> n \<le> 8 \<Longrightarrow> \<exists>bs. fetch r pos n = Inr bs"
  by (simp add: fetch_def wf_reader_def)

lemma get32_limit: "wf_reader r \<Longrightarrow> pos \<le> buf_limit r \<Longrightarrow> \<exists>w. get32 r pos = Inr w"
  using fetch_limit [of r pos 4] by (auto simp: get32_def)

lemma parse_chars_safe: "wf_reader r \<Longrightarrow> parse_chars r pos len \<noteq> Inl Fault"
  using limit_ge [of r] by (auto simp: parse_chars_def and_then_Inl wf_reader_def fetch_def split: if_splits)

lemma ParseBasic_safe:
  assumes "wf_reader r" "pos \<le> buf_limit r"
  shows "ParseBasic r c pos \<noteq> Inl Fault"
proof -
  note al = AlignPtr_limit [OF assms(2)]
  have "parse16 r t pos \<noteq> Inl Fault" "parse32 r t' pos \<noteq> Inl Fault" "parse64 r u pos \<noteq> Inl Fault" for t t' u
    using fetch_limit [OF assms(1) al, of 2 2] fetch_limit [OF assms(1) al, of 4 4] fetch_limit [OF assms(1) al, of 8 8]
    by (auto simp: parse16_def parse32_def parse64_def Let_def)
  moreover have "ParseBoolean r pos \<noteq> Inl Fault" "ParseHandle r pos \<noteq> Inl Fault" "ParseString r t pos \<noteq> Inl Fault" for t
    using get32_limit [OF assms(1) al, of 4] parse_chars_safe [OF assms(1)] assms(1)
    by (auto simp: ParseBoolean_def ParseHandle_def ParseString_def Let_def and_then_Inl wf_reader_def)
  moreover have "ParseSignature r pos \<noteq> Inl Fault"
    using fetch_limit [OF assms, of 1] parse_chars_safe [OF assms(1)]
    by (auto simp: ParseSignature_def and_then_Inl)
  moreover have "and_then (fetch r pos 1) (\<lambda>bs. Inr (V_BYTE (bs ! 0), pos + 1)) \<noteq> Inl Fault"
    using fetch_limit [OF assms, of 1] by auto
  ultimately show ?thesis unfolding ParseBasic_def by (simp split: if_splits)
qed

lemma container_sig_safe: "container_sig c s \<noteq> Inl Fault"
  using ParseContainerSignature_agrees [of c s]
  by (auto simp: container_sig_def agrees_def split: option.splits)

lemma array_len_safe:
  assumes "wf_reader r" "pos \<le> buf_limit r"
  shows "array_len r pos \<noteq> Inl Fault"
  using get32_limit [OF assms(1) AlignPtr_limit [OF assms(2), of 4]]
  by (auto simp: array_len_def Let_def split: if_splits)

lemma parse_scalars_safe:
  assumes "wf_reader r" "len + pos \<le> bufEOD r"
  shows "parse_scalars r s len pos \<noteq> Inl Fault"
proof -
  have "fetch r pos len \<noteq> Inl Fault"
    using assms limit_ge [of r] by (intro fetch_safe) (simp add: wf_reader_def)
  moreover have "AlignPtr pos 8 < pos + 8" using pad_len_less [of 8 pos] by (simp add: AlignPtr_ok)
  then have "fetch r (AlignPtr pos 8) len \<noteq> Inl Fault"
    using assms limit_ge [of r] by (intro fetch_safe) (simp add: wf_reader_def)
  ultimately show ?thesis
    by (auto simp: parse_scalars_def Let_def and_then_Inl split: scalar.splits if_splits)
qed

lemma count_types_loop_returns: "\<exists>n. count_types_loop s c = Some n"
proof (induction s c rule: count_types_loop.induct)
  case (1 s c)
  obtain rest n where "ParseCompleteType s = Done ER_OK rest n \<or> ParseCompleteType s = Done ER_BUS_BAD_SIGNATURE rest n"
    using ParseCompleteType_returns by blast
  then show ?case using "1.IH" by (subst count_types_loop.simps) auto
qed

lemma SetElements_safe: "SetElements es xs \<noteq> Inl Fault"
  using count_types_loop_returns [of es 0] by (auto simp: SetElements_def CountCompleteTypes_def)

text \<open>The mutual induction over the parser, one case per function.\<close>

lemma parse_safe:
  "wf_reader r \<Longrightarrow> pos \<le> buf_limit r \<Longrightarrow> ParseValue r s ae pos \<noteq> Inl Fault"
  "wf_reader r1 \<Longrightarrow> pos1 \<le> buf_limit r1 \<Longrightarrow> ParseArray r1 s1 pos1 \<noteq> Inl Fault"
  "wf_reader r2 \<Longrightarrow> pos2 \<le> buf_limit r2 \<Longrightarrow> parse_elements r2 s2 e2 pos2 \<noteq> Inl Fault"
  "wf_reader r3 \<Longrightarrow> pos3 \<le> buf_limit r3 \<Longrightarrow> ParseStruct r3 s3 pos3 \<noteq> Inl Fault"
  "wf_reader r4 \<Longrightarrow> pos4 \<le> buf_limit r4 \<Longrightarrow> parse_members r4 n4 s4 pos4 \<noteq> Inl Fault"
  "wf_reader r5 \<Longrightarrow> pos5 \<le> buf_limit r5 \<Longrightarrow> ParseDictEntry r5 s5 pos5 \<noteq> Inl Fault"
  "wf_reader r6 \<Longrightarrow> pos6 \<le> buf_limit r6 \<Longrightarrow> ParseVariant r6 pos6 \<noteq> Inl Fault"
proof (induction r s ae pos and r1 s1 pos1 and r2 s2 e2 pos2 and r3 s3 pos3 and r4 n4 s4 pos4
    and r5 s5 pos5 and r6 pos6 rule: parse_induct)
  case (1 r s ae pos)
  have "peek s = ALLJOYN_ARRAY \<Longrightarrow> ParseArray r (tl s) pos \<noteq> Inl Fault"
    "peek s = ALLJOYN_DICT_ENTRY_OPEN \<Longrightarrow> ae \<Longrightarrow> ParseDictEntry r (tl s) pos \<noteq> Inl Fault"
    "peek s = ALLJOYN_STRUCT_OPEN \<Longrightarrow> ParseStruct r (tl s) pos \<noteq> Inl Fault"
    "peek s = CHR ''v'' \<Longrightarrow> ParseVariant r pos \<noteq> Inl Fault"
    using 1 by simp_all
  then show ?case
    using ParseBasic_safe [OF 1(5,6)]
    by (subst ParseValue.simps) (auto simp: and_then_Inl split: if_splits)
next
  case (2 r s pos)
  show ?case
  proof
    assume "ParseArray r s pos = Inl Fault"
    then obtain rest n len q where c: "container_sig ARRAY s = Inr (rest, n)" "array_len r pos = Inr (len, q)"
      and eq: "(case scalar_of_char (peek s) of
           Some t \<Rightarrow> and_then (parse_scalars r t len q) (\<lambda>(a, pos). Inr (V_SCALARS a, pos, rest))
         | None \<Rightarrow>
             (let pos = (if peek s = ALLJOYN_STRUCT_OPEN \<or> peek s = ALLJOYN_DICT_ENTRY_OPEN
                         then AlignPtr q 8 else q);
                  elemSig = take (length s - length rest) s
              in and_then (parse_elements r elemSig (pos + len) pos) (\<lambda>(elements, pos).
                   and_then (SetElements elemSig elements) (\<lambda>v. Inr (v, pos, rest))))) = Inl Fault"
      using container_sig_safe [of ARRAY s] array_len_safe [OF 2(2,3)]
      by (auto simp: ParseArray.simps and_then_Inl)
    have q: "len + q \<le> bufEOD r" using array_len_adv [OF c(2)] by simp
    then have "q \<le> buf_limit r" using limit_ge [of r] by simp
    then have "AlignPtr q 8 \<le> buf_limit r" "q \<le> buf_limit r" by (simp_all add: AlignPtr_limit)
    then show False
      using eq parse_scalars_safe [OF 2(2) q] SetElements_safe 2(1) [OF c(1) refl c(2) refl _ refl refl 2(2)]
      by (auto simp: and_then_Inl Let_def split: option.splits if_splits)
  qed
next
  case (3 r es en pos)
  show ?case
  proof (cases "pos < en")
    case True
    then show ?thesis
      using 3(1) [OF True 3(3,4)] 3(2) [OF True _ refl refl 3(3)] limit_ge [of r]
      by (subst parse_elements.simps) (fastforce simp: and_then_Inl dest: ParseValue_adv)
  qed (simp add: parse_elements.simps)
next
  case (4 r s pos)
  then show ?case
    using container_sig_safe [of STRUCT s]
    by (auto simp: ParseStruct.simps and_then_Inl AlignPtr_limit)
next
  case (5 r n s pos)
  show ?case
  proof (cases "n = 0")
    case False
    then show ?thesis
      using 5(1) [OF False 5(3,4)] 5(2) [OF False _ refl refl 5(3)] limit_ge [of r]
      by (subst parse_members.simps) (fastforce simp: and_then_Inl dest: ParseValue_adv)
  qed (simp add: parse_members.simps)
next
  case (6 r s pos)
  then have a: "AlignPtr pos 8 \<le> buf_limit r" by (simp add: AlignPtr_limit)
  show ?case
    using container_sig_safe [of DICT_ENTRY s] 6(1) [OF _ refl 6(3) a] 6(2) [OF _ refl _ refl refl 6(3)] limit_ge [of r]
    by (subst ParseDictEntry.simps) (fastforce simp: and_then_Inl dest: ParseValue_adv)
next
  case (7 r pos)
  obtain bs where b: "fetch r pos 1 = Inr bs" using fetch_limit [OF 7(2,3), of 1] by auto
  define len where "len = unat (bs ! 0)"
  show ?case
  proof (cases "pos + 1 + len < bufEOD r")
    case True
    obtain cs where c: "fetch r (pos + 1) (len + 1) = Inr cs"
      using True limit_ge [of r] 7(2) by (simp add: fetch_def wf_reader_def)
    have "ParseValue r (c_str (map byte_char (take len cs))) False (pos + 1 + len + 1) \<noteq> Inl Fault"
      if "cs ! len = 0"
      using 7(1) [OF b refl refl refl _ _ _ 7(2)] that c True limit_ge [of r] by (simp add: len_def)
    with True b c show ?thesis
      by (subst ParseVariant.simps) (auto simp: Let_def and_then_Inl simp flip: len_def split: if_splits)
  next
    case False
    with b show ?thesis by (subst ParseVariant.simps) (simp add: Let_def len_def)
  qed
qed

subsection \<open>The body of a message\<close>

text \<open>
  \<^verbatim>\<open>UnmarshalArgs\<close> up to decryption, which is left out: the checks of the signature, and
  the arguments one after the other from the start of the body.
\<close>

definition check_signature :: "string \<Rightarrow> string \<Rightarrow> nat \<Rightarrow> QStatus" where
  "check_signature expectedSignature sig bodyLen =
     (if expectedSignature \<noteq> sig \<and> expectedSignature \<noteq> ''*'' then ER_BUS_SIGNATURE_MISMATCH
      else if bodyLen = 0 \<and> (sig \<noteq> [] \<or> expectedSignature \<noteq> [] \<and> expectedSignature \<noteq> ''*'')
      then ER_BUS_BAD_BODY_LEN
      else ER_OK)"

definition unmarshal_body :: "reader \<Rightarrow> string \<Rightarrow> nat \<Rightarrow> nat \<Rightarrow> fail + MsgArg list" where
  "unmarshal_body r sig bodyPtr bodyLen =
     and_then (defined (CountCompleteTypes (Some sig))) (\<lambda>n.
       and_then (parse_members r n sig bodyPtr) (\<lambda>(args, pos).
         if int pos - int bodyPtr \<noteq> int bodyLen then Inl (Failed ER_BUS_BAD_SIGNATURE) else Inr args))"

definition unmarshal_args :: "reader \<Rightarrow> string \<Rightarrow> string \<Rightarrow> nat \<Rightarrow> nat \<Rightarrow> fail + MsgArg list" where
  "unmarshal_args r expectedSignature sig bodyPtr bodyLen =
     (let status = check_signature expectedSignature sig bodyLen
      in if status \<noteq> ER_OK then Inl (Failed status) else unmarshal_body r sig bodyPtr bodyLen)"

lemma parse_members_end:
  "parse_members r n s pos = Inr (vs, p) \<Longrightarrow> length vs = n \<and> (p \<le> bufEOD r \<or> vs = [] \<and> p = pos)"
proof (induction n arbitrary: s pos vs)
  case 0
  then show ?case by (simp add: parse_members.simps)
next
  case (Suc n)
  then obtain v q s1 ws where a: "ParseValue r s False pos = Inr (v, q, s1)"
    "parse_members r n s1 q = Inr (ws, p)" "vs = v # ws"
    by (subst (asm) (2) parse_members.simps) (auto simp: and_then_Inr)
  then show ?case using Suc.IH [OF a(2)] ParseValue_adv [OF a(1)] by auto
qed

text \<open>
  C9. Whatever bytes and whatever signature a peer sends, unmarshalling comes to an end and
  reads nothing outside the buffer; when it succeeds there are as many arguments as the
  signature has types, and the body they were read from lies within the data received.
\<close>

theorem unmarshal_safe:
  assumes "wf_reader r" "bodyPtr \<le> bufEOD r"
  shows "unmarshal_args r expected sig bodyPtr bodyLen \<noteq> Inl Fault \<and>
    (\<forall>args. unmarshal_args r expected sig bodyPtr bodyLen = Inr args \<longrightarrow>
       CountCompleteTypes (Some sig) = Some (length args) \<and> bodyPtr + bodyLen \<le> bufEOD r)"
proof -
  obtain n where n: "CountCompleteTypes (Some sig) = Some n"
    using count_types_loop_returns [of sig 0] by (auto simp: CountCompleteTypes_def)
  have "parse_members r n sig bodyPtr \<noteq> Inl Fault"
    using assms limit_ge [of r] by (intro parse_safe(5)) auto
  moreover have "length args = n \<and> bodyPtr + bodyLen \<le> bufEOD r"
    if "parse_members r n sig bodyPtr = Inr (args, p)" "int p - int bodyPtr = int bodyLen" for args p
    using parse_members_end [OF that(1)] that(2) assms(2) by auto
  ultimately show ?thesis
    using n by (auto simp: unmarshal_args_def unmarshal_body_def Let_def and_then_Inl and_then_Inr split: if_splits)
qed

definition garbage :: reader where
  "garbage = \<lparr>buf = replicate 24 255, bufEOD = 16, swap = False, handles = [], num_handles = 0\<rparr>"

lemma unmarshal_safe_witness: "unmarshal_args garbage ''*'' ''a{sv}'' 8 8 \<noteq> Inl Fault"
proof -
  have "wf_reader garbage" by (simp add: wf_reader_def garbage_def buf_limit_def AlignPtr_ok pad_len_def)
  then show ?thesis using unmarshal_safe [of garbage 8 "''*''" "''a{sv}''" 8] by (simp add: garbage_def)
qed

end
