(* ===== verification/Msg_Roundtrip.thy ===== *)
theory Msg_Roundtrip
  imports Msg_Parse
begin

text \<open>
  What marshalling writes, parsing reads back. The value that comes back is the value sent in
  canonical form: an array of scalars that was given element by element comes back as an array
  of scalars.
\<close>

subsection \<open>The canonical form\<close>

fun gather :: "scalar \<Rightarrow> MsgArg list \<Rightarrow> scalar_array" where
  "gather S_BYTE vs = BYTE_ARRAY (map (\<lambda>v. case v of V_BYTE b \<Rightarrow> b | _ \<Rightarrow> 0) vs)"
| "gather S_BOOLEAN vs = BOOLEAN_ARRAY (map (\<lambda>v. case v of V_BOOLEAN b \<Rightarrow> b | _ \<Rightarrow> False) vs)"
| "gather (S_16 t) vs = ARRAY_16 t (map (\<lambda>v. case v of V_16 _ w \<Rightarrow> w | _ \<Rightarrow> 0) vs)"
| "gather (S_32 t) vs = ARRAY_32 t (map (\<lambda>v. case v of V_32 _ w \<Rightarrow> w | _ \<Rightarrow> 0) vs)"
| "gather (S_64 t) vs = ARRAY_64 t (map (\<lambda>v. case v of V_64 _ w \<Rightarrow> w | _ \<Rightarrow> 0) vs)"

definition array_form :: "string option \<Rightarrow> MsgArg list \<Rightarrow> MsgArg list \<Rightarrow> MsgArg" where
  "array_form es vs cs =
     (case scalar_of_char (peek (GetElemSig es)) of
        Some s \<Rightarrow> V_SCALARS (gather s vs)
      | None \<Rightarrow> V_ARRAY es cs)"

fun canon :: "MsgArg \<Rightarrow> MsgArg" where
  "canon (V_ARRAY es vs) = array_form es vs (map canon vs)"
| "canon (V_STRUCT ms) = V_STRUCT (map canon ms)"
| "canon (V_DICT_ENTRY (Some k) (Some v)) = V_DICT_ENTRY (Some (canon k)) (Some (canon v))"
| "canon (V_VARIANT (Some v)) = V_VARIANT (Some (canon v))"
| "canon v = v"

subsection \<open>Bytes at a position\<close>

definition at :: "reader \<Rightarrow> nat \<Rightarrow> byte list \<Rightarrow> bool" where
  "at r pos bs \<longleftrightarrow> pos + length bs \<le> length (buf r) \<and> take (length bs) (drop pos (buf r)) = bs"

lemma at_append: "at r pos (xs @ ys) \<longleftrightarrow> at r pos xs \<and> at r (pos + length xs) ys"
proof -
  have t: "take (length xs + n) (drop pos b) = take (length xs) (drop pos b) @ take n (drop (pos + length xs) b)"
    for n and b :: "byte list"
    unfolding take_add drop_drop by (simp add: add.commute)
  show ?thesis
    unfolding at_def length_append t
    by (cases "pos + length xs + length ys \<le> length (buf r)") (auto simp: append_eq_append_conv)
qed

lemma at_Nil: "at r pos [] \<longleftrightarrow> pos \<le> length (buf r)"
  by (simp add: at_def)

lemma at_Cons: "at r pos (b # bs) \<longleftrightarrow> at r pos [b] \<and> at r (Suc pos) bs"
  using at_append [of r pos "[b]" bs] by simp

lemma at_fetch: "at r pos bs \<Longrightarrow> n = length bs \<Longrightarrow> fetch r pos n = Inr bs"
  by (simp add: at_def fetch_def)

lemma at_pad: "at r pos (pad b pos @ bs) \<Longrightarrow> b \<in> {1, 2, 4, 8} \<Longrightarrow> at r (AlignPtr pos b) bs"
  by (simp add: at_append AlignPtr_ok)

lemma le16_of_le16:
  assumes "length bs = 2"
  shows "le16 (of_le16 bs) = bs"
proof -
  obtain a b where "bs = [a, b]" using assms by (auto simp: length_Suc_conv eval_nat_numeral)
  then show ?thesis
    unfolding le16_def of_le16_def u16_lo_def u16_hi_def u16_of_bytes_def
    by (auto intro!: bit_word_eqI simp: bit_simps u16_0xff_mask)
qed

lemma le32_of_le32:
  assumes "length bs = 4"
  shows "le32 (of_le32 bs) = bs"
proof (rule nth_equalityI)
  fix i assume "i < length (le32 (of_le32 bs))"
  then have i: "i < 4" by simp
  show "le32 (of_le32 bs) ! i = bs ! i"
  proof (rule bit_word_eqI)
    fix n assume n: "n < LENGTH(8)"
    then have "(8 * i + n) div 8 = i" "(8 * i + n) mod 8 = n" "8 * i + n < 32" using i by auto
    with i n assms show "bit (le32 (of_le32 bs) ! i) n = bit (bs ! i) n"
      by (simp add: le32_def of_le32_def bit_simps bit_fold_bytes)
  qed
qed (use assms in simp)

lemma le64_of_le64:
  assumes "length bs = 8"
  shows "le64 (of_le64 bs) = bs"
proof (rule nth_equalityI)
  fix i assume "i < length (le64 (of_le64 bs))"
  then have i: "i < 8" by simp
  show "le64 (of_le64 bs) ! i = bs ! i"
  proof (rule bit_word_eqI)
    fix n assume n: "n < LENGTH(8)"
    then have "(8 * i + n) div 8 = i" "(8 * i + n) mod 8 = n" "8 * i + n < 64" using i by auto
    with i n assms show "bit (le64 (of_le64 bs) ! i) n = bit (bs ! i) n"
      by (simp add: le64_def of_le64_def bit_simps bit_fold_bytes)
  qed
qed (use assms in simp)

lemma order_w [simp]:
  "order16 r (w16 (swap r) v) = v" "order32 r (w32 (swap r) w) = w" "order64 r (w64 (swap r) x) = x"
  by (simp_all add: order16_def w16_def EndianSwap16_def le16_of_le16
      order32_def w32_def EndianSwap32_def le32_of_le32 order64_def w64_def EndianSwap64_def le64_of_le64)

lemma get32_at: "at r pos (w32 (swap r) w) \<Longrightarrow> get32 r pos = Inr w"
  by (simp add: get32_def at_fetch [where n = 4])

subsection \<open>Values without parts\<close>

text \<open>
  Reading a value back at a position: for all that follows it in the signature, within the
  data of the buffer.
\<close>

definition reads :: "reader \<Rightarrow> MsgArg \<Rightarrow> sigty \<Rightarrow> bool" where
  "reads r v T \<longleftrightarrow>
     (\<forall>pos rest ae. at r pos (enc (swap r) pos v) \<longrightarrow>
        pos + length (enc (swap r) pos v) \<le> bufEOD r \<longrightarrow>
        length (enc (swap r) pos v) \<le> ALLJOYN_MAX_ARRAY_LEN \<longrightarrow> (is_dict T \<longrightarrow> ae) \<longrightarrow>
        ParseValue r (show_ty T @ rest) ae pos =
          Inr (canon v, pos + length (enc (swap r) pos v), rest))"

lemma readsD:
  "reads r v T \<Longrightarrow> at r pos (enc (swap r) pos v) \<Longrightarrow> pos + length (enc (swap r) pos v) \<le> bufEOD r \<Longrightarrow>
   length (enc (swap r) pos v) \<le> ALLJOYN_MAX_ARRAY_LEN \<Longrightarrow> (is_dict T \<longrightarrow> ae) \<Longrightarrow>
   ParseValue r (show_ty T @ rest) ae pos = Inr (canon v, pos + length (enc (swap r) pos v), rest)"
  by (simp add: reads_def)

lemma reads_basic:
  assumes "c \<notin> {CHR ''v'', ALLJOYN_ARRAY, ALLJOYN_STRUCT_OPEN, ALLJOYN_DICT_ENTRY_OPEN}"
    and "\<And>pos. at r pos (enc (swap r) pos v) \<Longrightarrow> pos + length (enc (swap r) pos v) \<le> bufEOD r \<Longrightarrow>
        length (enc (swap r) pos v) \<le> ALLJOYN_MAX_ARRAY_LEN \<Longrightarrow>
        ParseBasic r c pos = Inr (canon v, pos + length (enc (swap r) pos v))"
  shows "reads r v (Leaf c)"
  using assms by (simp add: reads_def ParseValue.simps)

lemma parse_chars_at:
  assumes "at r pos (map char_byte s @ [0])" "pos + length s < bufEOD r"
  shows "parse_chars r pos (length s) = Inr (s, pos + length s + 1)"
proof -
  have "fetch r pos (length s + 1) = Inr (map char_byte s @ [0])"
    using assms(1) by (rule at_fetch) simp
  then show ?thesis using assms(2) by (simp add: parse_chars_def nth_append)
qed

lemma reads_string:
  assumes "length s < 2 ^ 32"
  shows "reads r (V_STR t (Chars s NUL)) (Leaf (char_str t))"
proof (rule reads_basic)
  fix pos
  let ?b = "enc (swap r) pos (V_STR t (Chars s NUL))"
  assume at: "at r pos ?b" and l: "pos + length ?b \<le> bufEOD r" "length ?b \<le> ALLJOYN_MAX_ARRAY_LEN"
  have a: "at r (AlignPtr pos 4) (w32 (swap r) (of_nat (length s)) @ map char_byte s @ [0])"
    using at_pad [of r pos 4] at by simp
  have n: "unat (of_nat (length s) :: u32) = length s" using assms by (simp add: unat_of_nat)
  have q: "AlignPtr pos 4 = pos + pad_len pos 4" by (simp add: AlignPtr_ok)
  have "ParseString r t pos = Inr (V_STR t (Chars s NUL), AlignPtr pos 4 + 4 + length s + 1)"
    using a l parse_chars_at [of r "AlignPtr pos 4 + 4" s] get32_at [of r "AlignPtr pos 4" "of_nat (length s)"]
    by (simp add: ParseString_def Let_def at_append n q ALLJOYN_MAX_PACKET_LEN_def)
  then show "ParseBasic r (char_str t) pos = Inr (canon (V_STR t (Chars s NUL)), pos + length ?b)"
    by (cases t) (simp_all add: ParseBasic_def q)
qed (cases t; simp)

lemma reads_signature:
  assumes "length s < 256"
  shows "reads r (V_SIGNATURE (Chars s NUL)) (Leaf (CHR ''g''))"
proof (rule reads_basic)
  fix pos
  let ?b = "enc (swap r) pos (V_SIGNATURE (Chars s NUL))"
  assume at: "at r pos ?b" and l: "pos + length ?b \<le> bufEOD r"
  have a: "at r pos [of_nat (length s)]" "at r (pos + 1) (map char_byte s @ [0])"
    using at at_append [of r pos "[of_nat (length s)]" "map char_byte s @ [0]"] by simp_all
  have n: "unat (of_nat (length s) :: byte) = length s" using assms by (simp add: unat_of_nat)
  have "ParseSignature r pos = Inr (V_SIGNATURE (Chars s NUL), pos + 1 + length s + 1)"
    using a(1) l parse_chars_at [OF a(2)] by (simp add: ParseSignature_def at_fetch [where n = "Suc 0"] n)
  then show "ParseBasic r (CHR ''g'') pos = Inr (canon (V_SIGNATURE (Chars s NUL)), pos + length ?b)"
    by (simp add: ParseBasic_def)
qed simp

lemma reads_words:
  "reads r (V_16 t16 w) (Leaf (char16 t16))" "reads r (V_32 t32 x) (Leaf (char32 t32))"
  "reads r (V_64 t64 y) (Leaf (char64 t64))" "reads r (V_BYTE b) (Leaf (CHR ''y''))"
  "reads r (V_BOOLEAN c) (Leaf (CHR ''b''))"
proof -
  show "reads r (V_16 t16 w) (Leaf (char16 t16))"
    by (rule reads_basic; cases t16)
      (auto simp: ParseBasic_def parse16_def Let_def at_fetch [where n = 2] AlignPtr_ok dest!: at_pad)
  show "reads r (V_32 t32 x) (Leaf (char32 t32))"
    by (rule reads_basic; cases t32)
      (auto simp: ParseBasic_def parse32_def Let_def at_fetch [where n = 4] AlignPtr_ok dest!: at_pad)
  show "reads r (V_64 t64 y) (Leaf (char64 t64))"
    by (rule reads_basic; cases t64)
      (auto simp: ParseBasic_def parse64_def Let_def at_fetch [where n = 8] AlignPtr_ok dest!: at_pad)
  show "reads r (V_BYTE b) (Leaf (CHR ''y''))"
    by (rule reads_basic) (auto simp: ParseBasic_def at_fetch [where n = "Suc 0"])
  show "reads r (V_BOOLEAN c) (Leaf (CHR ''b''))"
    by (rule reads_basic)
      (auto simp: ParseBasic_def ParseBoolean_def Let_def AlignPtr_ok dest!: at_pad get32_at split: if_splits)
qed

subsection \<open>Arrays of scalars\<close>

lemma chunks_concat:
  assumes "\<And>x. length (f x) = n" "0 < n"
  shows "chunks n (concat (map f xs)) = map f xs"
proof (induction xs)
  case (Cons x xs)
  have l: "length (concat (map f xs)) = length xs * n" using length_concat_words [OF assms(1)] .
  have "[0..<Suc (length xs)] = 0 # map Suc [0..<length xs]" by (simp add: upt_conv_Cons map_Suc_upt del: upt_Suc)
  moreover have "(n + length xs * n) div n = Suc (length xs)" "length xs * n div n = length xs"
    using assms(2) by simp_all
  ultimately show ?case
    using Cons.IH assms by (simp add: chunks_def l o_def del: upt_Suc)
qed (simp add: chunks_def)

lemma scalar_of_scalar_char [simp]: "scalar_of_char (scalar_char s) = Some s"
proof (cases s)
  case (S_16 t)
  then show ?thesis by (cases t) (simp_all add: scalar_of_char_def)
next
  case (S_32 t)
  then show ?thesis by (cases t) (simp_all add: scalar_of_char_def)
next
  case (S_64 t)
  then show ?thesis by (cases t) (simp_all add: scalar_of_char_def)
qed (simp_all add: scalar_of_char_def)

lemma scalar_of_char_Some: "scalar_of_char c = Some s \<Longrightarrow> c = scalar_char s"
  by (auto simp: scalar_of_char_def split: if_splits)

lemma parse_scalars_at:
  assumes "has_data a" "words (swap r) a = Some bs"
    and "at r (case elem_type a of S_64 _ \<Rightarrow> AlignPtr pos 8 | _ \<Rightarrow> pos) bs"
  shows "parse_scalars r (elem_type a) (length bs) pos =
    Inr (a, (case elem_type a of S_64 _ \<Rightarrow> AlignPtr pos 8 | _ \<Rightarrow> pos) + length bs)"
proof -
  have m: "length bs mod scalar_size (elem_type a) = 0"
    using words_length [OF assms(1), of "swap r"] assms(2) by auto
  have b: "w32 sw (if c then 1 else 0) = w32 sw (of_bool c)" for c sw by simp
  show ?thesis
  proof (cases a)
    case (BOOLEAN_ARRAY cs)
    have "chunks 4 (concat (map (\<lambda>b. w32 (swap r) (of_bool b)) cs)) = map (\<lambda>b. w32 (swap r) (of_bool b)) cs"
      by (rule chunks_concat) simp_all
    then have ch: "chunks 4 bs = map (\<lambda>b. w32 (swap r) (of_bool b)) cs"
      using BOOLEAN_ARRAY assms(2) by (simp add: b)
    then show ?thesis
      using BOOLEAN_ARRAY assms m at_fetch [OF assms(3) refl]
      by (simp add: parse_scalars_def ch o_def Let_def)
  next
    case (BYTE_ARRAY bs')
    then show ?thesis using assms m at_fetch [OF assms(3) refl] by (simp add: parse_scalars_def)
  next
    case (ARRAY_16 t ws)
    have "chunks 2 (concat (map (w16 (swap r)) ws)) = map (w16 (swap r)) ws"
      by (rule chunks_concat) simp_all
    then show ?thesis using ARRAY_16 assms m at_fetch [OF assms(3) refl]
      by (simp add: parse_scalars_def o_def)
  next
    case (ARRAY_32 t ws)
    have "chunks 4 (concat (map (w32 (swap r)) ws)) = map (w32 (swap r)) ws"
      by (rule chunks_concat) simp_all
    then show ?thesis using ARRAY_32 assms m at_fetch [OF assms(3) refl]
      by (simp add: parse_scalars_def o_def)
  next
    case (ARRAY_64 t ws)
    have "chunks 8 (concat (map (w64 (swap r)) ws)) = map (w64 (swap r)) ws"
      by (rule chunks_concat) simp_all
    then show ?thesis using ARRAY_64 assms m at_fetch [OF assms(3) refl]
      by (simp add: parse_scalars_def o_def Let_def)
  qed (use assms in simp)
qed

subsection \<open>The start of an array\<close>

lemma container_sig_complete:
  "reads_top T \<Longrightarrow> opener c # s = show_ty T @ rest \<Longrightarrow> \<exists>n. container_sig c s = Inr (rest, n)"
  using ParseContainerSignature_complete [of T c s rest] by (auto simp: container_sig_def)

lemma array_len_at:
  assumes "at r pos (pad 4 pos @ w32 (swap r) (of_nat n))" "n \<le> ALLJOYN_MAX_ARRAY_LEN"
    and "n + (pos + pad_len pos 4 + 4) \<le> bufEOD r"
  shows "array_len r pos = Inr (n, pos + pad_len pos 4 + 4)"
proof -
  have "get32 r (AlignPtr pos 4) = Inr (of_nat n)" using assms(1) by (intro get32_at at_pad) auto
  moreover have "unat (of_nat n :: u32) = n"
    using assms(2) by (simp add: unat_of_nat ALLJOYN_MAX_ARRAY_LEN_def)
  ultimately show ?thesis using assms(2,3) by (simp add: array_len_def AlignPtr_ok Let_def)
qed

lemma reads_scalars:
  assumes a: "has_data a"
  shows "reads r (V_SCALARS a) (Arr (Leaf (scalar_char (elem_type a))))"
  unfolding reads_def
proof (intro allI impI)
  fix pos rest ae
  let ?b = "enc (swap r) pos (V_SCALARS a)" and ?c = "scalar_char (elem_type a)"
  obtain bs where bs: "words (swap r) a = Some bs" "length bs = scalar_size (elem_type a) * numElements a"
    using words_length [OF a] by blast
  define q where "q = pos + pad_len pos 4 + 4"
  define pd where "pd = (case elem_type a of S_64 _ \<Rightarrow> pad 8 q | _ \<Rightarrow> [])"
  have e: "?b = (pad 4 pos @ w32 (swap r) (of_nat (length bs))) @ pd @ bs"
    unfolding pd_def q_def using bs by simp
  have lq: "pos + length (pad 4 pos @ w32 (swap r) (of_nat (length bs))) = q" by (simp add: q_def)
  assume at: "at r pos ?b" and l: "pos + length ?b \<le> bufEOD r" "length ?b \<le> ALLJOYN_MAX_ARRAY_LEN"
  have A: "at r pos (pad 4 pos @ w32 (swap r) (of_nat (length bs)))" "at r q (pd @ bs)"
    using at unfolding e at_append [of r pos "pad 4 pos @ _"] lq by auto
  have al: "(case elem_type a of S_64 _ \<Rightarrow> AlignPtr q 8 | _ \<Rightarrow> q) = q + length pd"
    by (simp add: pd_def AlignPtr_ok split: scalar.split)
  have "array_len r pos = Inr (length bs, q)"
    using array_len_at [OF A(1)] l unfolding q_def e by simp
  moreover have "parse_scalars r (elem_type a) (length bs) q = Inr (a, q + length pd + length bs)"
    using parse_scalars_at [OF a bs(1), of q] A(2) unfolding al by (simp add: at_append)
  moreover have "reads_top (Arr (Leaf ?c))" using scalar_char_known [of "elem_type a"] by (auto simp: leaf_types_def)
  then obtain n where "container_sig ARRAY (?c # rest) = Inr (rest, n)"
    using container_sig_complete [of "Arr (Leaf ?c)" ARRAY "?c # rest" rest] by auto
  ultimately have "ParseArray r (?c # rest) pos = Inr (V_SCALARS a, q + length pd + length bs, rest)"
    by (simp add: ParseArray.simps)
  moreover have "q + length pd + length bs = pos + length ?b" unfolding e by (simp add: q_def)
  ultimately show "ParseValue r (show_ty (Arr (Leaf ?c)) @ rest) ae pos = Inr (canon (V_SCALARS a), pos + length ?b, rest)"
    using l by (simp add: ParseValue.simps)
qed

subsection \<open>Arrays of values\<close>

text \<open>Scalars given one by one are encoded as the array of scalars that comes back.\<close>

inductive_cases typed_leafE: "typed v (Leaf c)"

lemma typed_scalar:
  assumes "typed v (Leaf (scalar_char s))"
  shows "case s of S_BYTE \<Rightarrow> \<exists>b. v = V_BYTE b | S_BOOLEAN \<Rightarrow> \<exists>b. v = V_BOOLEAN b
    | S_16 t \<Rightarrow> \<exists>w. v = V_16 t w | S_32 t \<Rightarrow> \<exists>w. v = V_32 t w | S_64 t \<Rightarrow> \<exists>w. v = V_64 t w"
proof -
  have i: "scalar_char s = scalar_char s' \<Longrightarrow> s = s'" for s'
    by (metis scalar_of_scalar_char option.inject)
  have n: "scalar_char s \<noteq> char_str t" "scalar_char s \<noteq> CHR ''g''" "scalar_char s \<noteq> CHR ''v''" for t
    using scalar_char_known [of s] by (cases t; auto)+
  from assms show ?thesis
    by (rule typed_leafE)
      (use n i [of S_BYTE] i [of S_BOOLEAN] i [of "S_16 _"] i [of "S_32 _"] i [of "S_64 _"] in auto)
qed

lemma encs_words:
  assumes "\<And>e q. e \<in> set es \<Longrightarrow> q mod n = 0 \<Longrightarrow> enc sw q e = f e" "\<And>e. e \<in> set es \<Longrightarrow> length (f e) = n" "q mod n = 0"
  shows "encs sw q es = concat (map f es)"
  using assms
proof (induction es arbitrary: q)
  case (Cons e es)
  have "(q + n) mod n = 0" using Cons.prems(3) by simp
  then show ?case using Cons by (simp add: Let_def)
qed simp

lemma words_gather:
  assumes "\<And>e. e \<in> set es \<Longrightarrow> typed e (Leaf (scalar_char s))" "q mod scalar_size s = 0"
  shows "words sw (gather s es) = Some (encs sw q es)"
proof -
  note ts = typed_scalar [OF assms(1)]
  show ?thesis
  proof (cases s)
    case S_BYTE
    have "encs sw q es = concat (map (\<lambda>e. [case e of V_BYTE b \<Rightarrow> b | _ \<Rightarrow> 0]) es)"
      using ts assms(2) S_BYTE by (intro encs_words [where n = 1]) fastforce+
    then show ?thesis using S_BYTE by simp
  next
    case S_BOOLEAN
    have "encs sw q es = concat (map (\<lambda>e. w32 sw (if (case e of V_BOOLEAN b \<Rightarrow> b | _ \<Rightarrow> False) then 1 else 0)) es)"
      using ts assms(2) S_BOOLEAN by (intro encs_words [where n = 4]) (fastforce simp: pad_def)+
    then show ?thesis using S_BOOLEAN by (simp add: o_def)
  next
    case (S_16 t)
    have "encs sw q es = concat (map (\<lambda>e. w16 sw (case e of V_16 _ w \<Rightarrow> w | _ \<Rightarrow> 0)) es)"
      using ts assms(2) S_16 by (intro encs_words [where n = 2]) (fastforce simp: pad_def)+
    then show ?thesis using S_16 by (simp add: o_def)
  next
    case (S_32 t)
    have "encs sw q es = concat (map (\<lambda>e. w32 sw (case e of V_32 _ w \<Rightarrow> w | _ \<Rightarrow> 0)) es)"
      using ts assms(2) S_32 by (intro encs_words [where n = 4]) (fastforce simp: pad_def)+
    then show ?thesis using S_32 by (simp add: o_def)
  next
    case (S_64 t)
    have "encs sw q es = concat (map (\<lambda>e. w64 sw (case e of V_64 _ w \<Rightarrow> w | _ \<Rightarrow> 0)) es)"
      using ts assms(2) S_64 by (intro encs_words [where n = 8]) (fastforce simp: pad_def)+
    then show ?thesis using S_64 by (simp add: o_def)
  qed
qed

lemma gather_simps [simp]:
  "elem_type (gather s es) = s" "numElements (gather s es) = length es" "has_data (gather s es)"
  by (cases s; simp)+

lemma elem_align_scalar:
  "AlignmentForType (Tid (scalar_char s)) = scalar_size s"
proof (cases s)
  case (S_16 t) then show ?thesis by (cases t) simp_all
next
  case (S_32 t) then show ?thesis by (cases t) simp_all
next
  case (S_64 t) then show ?thesis by (cases t) simp_all
qed simp_all

lemma enc_gather:
  assumes "\<And>e. e \<in> set es \<Longrightarrow> typed e (Leaf (scalar_char s))"
  shows "enc sw p (V_ARRAY (Some [scalar_char s]) es) = enc sw p (V_SCALARS (gather s es))"
proof -
  define q where "q = p + pad_len p 4 + 4"
  define pd where "pd = (if elem_align (Some [scalar_char s]) = 8 then pad 8 q else [])"
  have al: "elem_align (Some [scalar_char s]) = scalar_size s"
    using elem_align_scalar [of s] by (simp add: elem_align_def GetElemSig_def del: AlignmentForType.simps)
  have pd: "pd = (case s of S_64 _ \<Rightarrow> pad 8 q | _ \<Rightarrow> [])" unfolding pd_def al by (cases s) simp_all
  have "q mod 4 = 0" using pad_aligned [of 4 p] by (simp add: q_def)
  then have a: "(q + length pd) mod scalar_size s = 0"
    using pad_aligned [of 8 q] unfolding pd by (cases s) (auto simp: mod_eq_0_iff_dvd intro: dvd_trans [of 2 4])
  have w: "words sw (gather s es) = Some (encs sw (q + length pd) es)"
    using assms a by (rule words_gather)
  then have n: "length (encs sw (q + length pd) es) = scalar_size s * length es"
    using words_length [of "gather s es" sw] by simp
  have "enc sw p (V_ARRAY (Some [scalar_char s]) es) =
      pad 4 p @ w32 sw (of_nat (scalar_size s * length es)) @ pd @ encs sw (q + length pd) es"
    unfolding n [symmetric] by (simp add: Let_def pd_def q_def)
  then show ?thesis using w unfolding pd q_def by simp
qed

text \<open>Values of one type come back with one type id, which is what \<^verbatim>\<open>SetElements\<close> asks for.\<close>

fun canon_id :: "sigty \<Rightarrow> AllJoynTypeId" where
  "canon_id (Leaf c) = Tid c"
| "canon_id (Arr t) =
     (case scalar_of_char (peek (show_ty t)) of None \<Rightarrow> Tid ALLJOYN_ARRAY | Some s \<Rightarrow> Tid_array (scalar_char s))"
| "canon_id (Str ts) = Tid (CHR ''r'')"
| "canon_id (Dict ts) = Tid (CHR ''e'')"

lemma typeId_canon: "typed v T \<Longrightarrow> typeId (canon v) = canon_id T"
  by (induction rule: typed.induct) (auto simp: array_form_def GetElemSig_def split: option.split)

lemma fits_mono: "fits s a T \<Longrightarrow> s \<le> s' \<Longrightarrow> a \<le> a' \<Longrightarrow> fits s' a' T"
proof (induction T arbitrary: s a s' a')
  case (Arr t)
  then have "fits s (a - 1) t" "a - 1 \<le> a' - 1" "0 < a'" by auto
  then show ?case using Arr by auto
next
  case (Str ts)
  then have f: "0 < s'" "s - 1 \<le> s' - 1" "\<And>t. t \<in> set ts \<Longrightarrow> fits (s - 1) a t" by simp_all
  then show ?case using Str.IH [OF _ f(3) f(2) Str.prems(3)] by simp
next
  case (Dict ts)
  then have f: "0 < s'" "s - 1 \<le> s' - 1" "\<And>t. t \<in> set ts \<Longrightarrow> fits (s - 1) a t" by simp_all
  then show ?case using Dict.IH [OF _ f(3) f(2) Dict.prems(3)] by simp
qed simp

lemma peek_show: "peek (show_ty E @ rest) = peek (show_ty E)"
  by (cases E) auto

lemma wt_top_wt: "wt b T \<Longrightarrow> wt_top T"
  by (cases T) auto

lemma count_one: "reads_top T \<Longrightarrow> CountCompleteTypes (Some (show_ty T)) = Some 1"
proof -
  assume "reads_top T"
  then obtain n where "ParseCompleteType (show_ty T) = Done ER_OK [] n"
    using ParseCompleteType_ok [of "show_ty T" "[]"] by auto
  then show ?thesis by (simp add: CountCompleteTypes_def count_types_loop.simps inc8_def)
qed

lemma SetElements_ok:
  assumes "reads_top E" "\<And>v. v \<in> set vs \<Longrightarrow> typed v E"
  shows "SetElements (show_ty E) (map canon vs) = Inr (V_ARRAY (Some (show_ty E)) (map canon vs))"
proof -
  have "\<forall>e \<in> set (map canon vs). typeId e = canon_id E" using assms(2) typeId_canon by auto
  moreover have "map canon vs \<noteq> [] \<longrightarrow> hd (map canon vs) \<in> set (map canon vs)" by (cases vs) auto
  ultimately have "map canon vs = [] \<or> (\<forall>e \<in> set (tl (map canon vs)). typeId e = typeId (hd (map canon vs)))"
    by (metis list.set_sel(2))
  then show ?thesis using count_one [OF assms(1)] by (simp add: SetElements_def)
qed

lemma parse_elements_at:
  assumes "\<And>v. v \<in> set vs \<Longrightarrow> reads r v E" "at r pos (encs (swap r) pos vs)"
    and "pos + length (encs (swap r) pos vs) \<le> bufEOD r" "length (encs (swap r) pos vs) \<le> ALLJOYN_MAX_ARRAY_LEN"
  shows "parse_elements r (show_ty E) (pos + length (encs (swap r) pos vs)) pos =
     Inr (map canon vs, pos + length (encs (swap r) pos vs))"
  using assms
proof (induction vs arbitrary: pos)
  case Nil
  then show ?case by (simp add: parse_elements.simps)
next
  case (Cons v vs)
  define e where "e = enc (swap r) pos v"
  define es where "es = encs (swap r) (pos + length e) vs"
  have en: "encs (swap r) pos (v # vs) = e @ es" by (simp add: e_def es_def Let_def)
  have a: "at r pos e" "at r (pos + length e) es" using Cons.prems(2) unfolding en at_append by auto
  have v: "ParseValue r (show_ty E @ []) True pos = Inr (canon v, pos + length e, [])"
    using readsD [of r v E pos True "[]"] Cons.prems a(1) unfolding en e_def by simp
  then have p: "pos < pos + length e" using ParseValue_adv by blast
  have "parse_elements r (show_ty E) (pos + length e + length es) (pos + length e) =
      Inr (map canon vs, pos + length e + length es)"
    using Cons.IH [of "pos + length e"] Cons.prems a(2) unfolding en es_def by simp
  then show ?case unfolding en using v p by (subst parse_elements.simps) (simp add: add.assoc)
qed

lemma reads_array:
  assumes es: "\<And>e. e \<in> set es \<Longrightarrow> typed e E" "\<And>e. e \<in> set es \<Longrightarrow> reads r e E"
    and E: "wt True E" "fits 32 31 E" "sent E"
  shows "reads r (V_ARRAY (Some (show_ty E)) es) (Arr E)"
proof (cases "scalar_of_char (peek (show_ty E))")
  case (Some s)
  then have "E = Leaf (scalar_char s)"
    using E(1) scalar_of_char_Some [OF Some] scalar_char_known [of s] by (cases E) auto
  then show ?thesis
    using reads_scalars [of "gather s es" r] enc_gather [of es s] es(1)
    by (simp add: reads_def array_form_def GetElemSig_def)
next
  case None
  show ?thesis
    unfolding reads_def
  proof (intro allI impI)
    fix pos rest ae
    let ?v = "V_ARRAY (Some (show_ty E)) es" and ?al = "AlignmentForType (Tid (peek (show_ty E)))"
    define q where "q = pos + pad_len pos 4 + 4"
    define pd where "pd = (if ?al = 8 then pad 8 q else [])"
    define body where "body = encs (swap r) (q + length pd) es"
    let ?b = "enc (swap r) pos ?v"
    have e: "?b = (pad 4 pos @ w32 (swap r) (of_nat (length body))) @ pd @ body"
      unfolding body_def pd_def q_def
      by (simp add: Let_def elem_align_def GetElemSig_def del: AlignmentForType.simps)
    have lq: "pos + length (pad 4 pos @ w32 (swap r) (of_nat (length body))) = q" by (simp add: q_def)
    assume at: "at r pos ?b" and l: "pos + length ?b \<le> bufEOD r" "length ?b \<le> ALLJOYN_MAX_ARRAY_LEN"
    have A: "at r pos (pad 4 pos @ w32 (swap r) (of_nat (length body)))" "at r (q + length pd) body"
      using at unfolding e at_append [of r pos "pad 4 pos @ _"] at_append [of r q pd] lq by auto
    have len: "array_len r pos = Inr (length body, q)"
      using array_len_at [OF A(1)] l unfolding q_def e by simp
    have al: "?al = 8 \<longleftrightarrow> peek (show_ty E) = ALLJOYN_STRUCT_OPEN \<or> peek (show_ty E) = ALLJOYN_DICT_ENTRY_OPEN"
      using E None by (cases E) (auto simp: leaf_types_def scalar_of_char_def)
    have q8: "(if peek (show_ty E) = ALLJOYN_STRUCT_OPEN \<or> peek (show_ty E) = ALLJOYN_DICT_ENTRY_OPEN
               then AlignPtr q 8 else q) = q + length pd"
      unfolding al [symmetric] by (simp add: pd_def AlignPtr_ok)
    have els: "parse_elements r (show_ty E) (q + length pd + length body) (q + length pd) =
        Inr (map canon es, q + length pd + length body)"
      using parse_elements_at [OF es(2) A(2) [unfolded body_def]] l unfolding e body_def [symmetric] lq
      by (simp add: q_def)
    have "reads_top E" using E fits_mono [OF E(2), of 32 32] wt_top_wt by auto
    then have set: "SetElements (show_ty E) (map canon es) = Inr (V_ARRAY (Some (show_ty E)) (map canon es))"
      using SetElements_ok es(1) by blast
    obtain n where "container_sig ARRAY (show_ty E @ rest) = Inr (rest, n)"
      using container_sig_complete [of "Arr E" ARRAY "show_ty E @ rest" rest] E by auto
    then have "ParseArray r (show_ty E @ rest) pos =
        Inr (V_ARRAY (Some (show_ty E)) (map canon es), q + length pd + length body, rest)"
      using len q8 els set None by (subst ParseArray.simps) (simp add: peek_show Let_def)
    moreover have "q + length pd + length body = pos + length ?b" unfolding e by (simp add: q_def)
    ultimately show "ParseValue r (show_ty (Arr E) @ rest) ae pos = Inr (canon ?v, pos + length ?b, rest)"
      using l None by (simp add: ParseValue.simps array_form_def GetElemSig_def)
  qed
qed

subsection \<open>Structs, dictionary entries and variants\<close>

lemma parse_members_at:
  assumes "list_all2 (\<lambda>v t. reads r v t \<and> \<not> is_dict t) vs ts" "at r pos (encs (swap r) pos vs)"
    and "pos + length (encs (swap r) pos vs) \<le> bufEOD r" "length (encs (swap r) pos vs) \<le> ALLJOYN_MAX_ARRAY_LEN"
  shows "parse_members r (length vs) (concat (map show_ty ts) @ rest) pos =
     Inr (map canon vs, pos + length (encs (swap r) pos vs))"
  using assms
proof (induction vs ts arbitrary: pos rule: list_all2_induct)
  case Nil
  then show ?case by (simp add: parse_members.simps)
next
  case (Cons v vs t ts)
  define e where "e = enc (swap r) pos v"
  define es where "es = encs (swap r) (pos + length e) vs"
  have en: "encs (swap r) pos (v # vs) = e @ es" by (simp add: e_def es_def Let_def)
  have a: "at r pos e" "at r (pos + length e) es" using Cons.prems(1) unfolding en at_append by auto
  have "ParseValue r (show_ty t @ concat (map show_ty ts) @ rest) False pos =
      Inr (canon v, pos + length e, concat (map show_ty ts) @ rest)"
    using readsD [of r v t pos False] Cons.hyps(1) Cons.prems a(1) unfolding en e_def by simp
  moreover have "parse_members r (length vs) (concat (map show_ty ts) @ rest) (pos + length e) =
      Inr (map canon vs, pos + length e + length es)"
    using Cons.IH [of "pos + length e"] Cons.prems a(2) unfolding en es_def by simp
  ultimately show ?case unfolding en by (subst parse_members.simps) (simp add: add.assoc)
qed

lemma reads_struct:
  assumes "list_all2 (\<lambda>v t. reads r v t \<and> \<not> is_dict t) ms ts"
    and "reads_top (Str ts)" "length (show_ty (Str ts)) \<le> 253"
  shows "reads r (V_STRUCT ms) (Str ts)"
  unfolding reads_def
proof (intro allI impI)
  fix pos rest ae
  let ?b = "enc (swap r) pos (V_STRUCT ms)"
  define q where "q = pos + pad_len pos 8"
  have e: "?b = pad 8 pos @ encs (swap r) q ms" by (simp add: q_def)
  assume at: "at r pos ?b" and l: "pos + length ?b \<le> bufEOD r" "length ?b \<le> ALLJOYN_MAX_ARRAY_LEN"
  have "at r q (encs (swap r) q ms)" using at unfolding e at_append by (simp add: q_def)
  then have m: "parse_members r (length ms) (concat (map show_ty ts) @ ALLJOYN_STRUCT_CLOSE # rest) q =
      Inr (map canon ms, q + length (encs (swap r) q ms))"
    using l parse_members_at [OF assms(1), of q] unfolding e by (simp add: q_def)
  have "length ts < 256" using length_show_members [of ts] assms(3) by simp
  then have "container_sig STRUCT (concat (map show_ty ts) @ ALLJOYN_STRUCT_CLOSE # rest) = Inr (rest, length ms)"
    using ParseContainerSignature_members [of ts rest] assms(2) list_all2_lengthD [OF assms(1)]
    by (simp add: container_sig_def)
  then have "ParseStruct r (concat (map show_ty ts) @ ALLJOYN_STRUCT_CLOSE # rest) pos =
      Inr (V_STRUCT (map canon ms), q + length (encs (swap r) q ms), rest)"
    using m by (simp add: ParseStruct.simps AlignPtr_ok q_def)
  moreover have "q + length (encs (swap r) q ms) = pos + length ?b" unfolding e by (simp add: q_def)
  ultimately show "ParseValue r (show_ty (Str ts) @ rest) ae pos = Inr (canon (V_STRUCT ms), pos + length ?b, rest)"
    using l by (simp add: ParseValue.simps)
qed

lemma reads_dict:
  assumes k: "reads r k K" "\<not> is_dict K" and v: "reads r v V" "\<not> is_dict V" and T: "reads_top (Dict [K, V])"
  shows "reads r (V_DICT_ENTRY (Some k) (Some v)) (Dict [K, V])"
  unfolding reads_def
proof (intro allI impI)
  fix pos rest ae
  let ?v = "V_DICT_ENTRY (Some k) (Some v)" and ?cl = "ALLJOYN_DICT_ENTRY_CLOSE # rest"
  let ?b = "enc (swap r) pos ?v"
  define q where "q = pos + pad_len pos 8"
  define e where "e = enc (swap r) q k"
  define f where "f = enc (swap r) (q + length e) v"
  have en: "?b = pad 8 pos @ e @ f" by (simp add: q_def e_def f_def Let_def)
  assume at: "at r pos ?b" and l: "pos + length ?b \<le> bufEOD r" "length ?b \<le> ALLJOYN_MAX_ARRAY_LEN"
    and ae: "is_dict (Dict [K, V]) \<longrightarrow> ae"
  have a: "at r q e" "at r (q + length e) f" using at unfolding en at_append by (simp_all add: q_def)
  have 1: "ParseValue r (show_ty K @ show_ty V @ ?cl) False q = Inr (canon k, q + length e, show_ty V @ ?cl)"
    using readsD [OF k(1), of q False] k(2) a(1) l unfolding en e_def by (simp add: q_def)
  have 2: "ParseValue r (show_ty V @ ?cl) False (q + length e) = Inr (canon v, q + length e + length f, ?cl)"
    using readsD [OF v(1), of "q + length e" False] v(2) a(2) l unfolding en f_def by (simp add: q_def)
  obtain n where "container_sig DICT_ENTRY (show_ty K @ show_ty V @ ?cl) = Inr (rest, n)"
    using container_sig_complete [OF T, of DICT_ENTRY "show_ty K @ show_ty V @ ?cl" rest] by auto
  then have "ParseDictEntry r (show_ty K @ show_ty V @ ?cl) pos =
      Inr (V_DICT_ENTRY (Some (canon k)) (Some (canon v)), q + length e + length f, rest)"
    using 1 2 by (simp add: ParseDictEntry.simps AlignPtr_ok q_def)
  moreover have "q + length e + length f = pos + length ?b" unfolding en by (simp add: q_def)
  ultimately show "ParseValue r (show_ty (Dict [K, V]) @ rest) ae pos = Inr (canon ?v, pos + length ?b, rest)"
    using l ae by (simp add: ParseValue.simps)
qed

lemma c_str_show: "cstring s \<Longrightarrow> c_str s = s"
  by (induction s) (auto simp: c_str_def)

lemma reads_variant:
  assumes v: "typed v U" "reads r v U" and U: "\<not> is_dict U" "wt b U" "length (show_ty U) \<le> 253"
  shows "reads r (V_VARIANT (Some v)) (Leaf (CHR ''v''))"
  unfolding reads_def
proof (intro allI impI)
  fix pos rest ae
  let ?s = "show_ty U" and ?v = "V_VARIANT (Some v)"
  let ?b = "enc (swap r) pos ?v" and ?n = "length ?s"
  define e where "e = enc (swap r) (pos + ?n + 2) v"
  have en: "?b = [of_nat ?n] @ (map char_byte ?s @ [0]) @ e"
    by (simp add: e_def sig_of_typed [OF v(1)])
  assume at: "at r pos ?b" and l: "pos + length ?b \<le> bufEOD r" "length ?b \<le> ALLJOYN_MAX_ARRAY_LEN"
  have a: "at r pos [of_nat ?n]" "at r (pos + 1) (map char_byte ?s @ [0])" "at r (pos + ?n + 2) e"
    using at unfolding en at_append [of r pos "[of_nat ?n]"] at_append [of r _ "map char_byte ?s @ [0]"]
    by (simp_all add: add.commute add.left_commute)
  have n: "unat (of_nat ?n :: byte) = ?n" using U(3) by (simp add: unat_of_nat)
  have c: "c_str ?s = ?s" using cstring_show [OF U(2)] by (rule c_str_show)
  have p: "ParseValue r (?s @ []) False (pos + ?n + 2) = Inr (canon v, pos + ?n + 2 + length e, [])"
    using readsD [OF v(2), of "pos + ?n + 2" False "[]"] U(1) a(3) l unfolding en e_def by simp
  have f: "fetch r pos 1 = Inr [of_nat ?n]" "fetch r (pos + 1) (?n + 1) = Inr (map char_byte ?s @ [0])"
    using at_fetch [OF a(1), of 1] at_fetch [OF a(2), of "?n + 1"] by simp_all
  have "ParseVariant r pos = Inr (V_VARIANT (Some (canon v)), pos + ?n + 2 + length e)"
    using p f l unfolding en by (subst ParseVariant.simps) (simp add: Let_def n c nth_append)
  moreover have "pos + ?n + 2 + length e = pos + length ?b" unfolding en by simp
  ultimately show "ParseValue r (show_ty (Leaf (CHR ''v'')) @ rest) ae pos = Inr (canon ?v, pos + length ?b, rest)"
    using l by (simp add: ParseValue.simps)
qed

subsection \<open>All values\<close>

lemma reads_typed:
  "typed v T \<Longrightarrow> wt b T \<Longrightarrow> fits 32 32 T \<Longrightarrow> length (show_ty T) \<le> 253 \<Longrightarrow> reads r v T"
proof (induction arbitrary: b rule: typed.induct)
  case (string t s)
  then show ?case by (intro reads_string)
next
  case (signature s)
  then show ?case by (intro reads_signature)
next
  case (scalars a)
  then show ?case by (intro reads_scalars)
next
  case (array es E)
  have "fits 32 32 E" using array.prems fits_mono [of 32 31 E 32 32] by simp
  then show ?case using array by (intro reads_array) auto
next
  case (struct ms Ts)
  have "\<forall>t \<in> set Ts. wt False t \<and> fits 32 32 t \<and> length (show_ty t) \<le> 253"
    using struct.prems show_member_le [of _ Ts] fits_mono [of 31 32 _ 32 32] by fastforce
  with struct.IH have "list_all2 (\<lambda>v t. reads r v t \<and> \<not> is_dict t) ms Ts"
    by (induction rule: list_all2_induct) (auto elim: is_dict.elims)
  then show ?case using struct.prems by (intro reads_struct) auto
next
  case (dict k K v V)
  then have "fits 32 32 K" "fits 32 32 V" using fits_mono [of 31 32 _ 32 32] by auto
  moreover have "\<not> is_dict K" "\<not> is_dict V" using dict.prems by (auto elim: is_dict.elims)
  ultimately show ?case using dict by (intro reads_dict) (auto simp: dest: wt_top_wt)
next
  case (variant v U)
  then have "wf_ty False U" by (cases U) (auto simp: complete_type_def)
  then have w: "wt False U" using wt_wf_ty [of U False] variant.hyps by simp
  then have "reads r v U" using variant.IH [of False] variant.hyps by (simp add: complete_type_def)
  then show ?case using w variant.hyps by (intro reads_variant [of v U r False]) auto
qed (rule reads_words)+

subsection \<open>The arguments of a message\<close>

lemma count_types_loop_show:
  "\<forall>T \<in> set Ts. reads_top T \<Longrightarrow> c + length Ts < 256 \<Longrightarrow>
   count_types_loop (concat (map show_ty Ts)) c = Some (c + length Ts)"
proof (induction Ts arbitrary: c)
  case (Cons T Ts)
  then obtain n where "ParseCompleteType (show_ty T @ concat (map show_ty Ts)) = Done ER_OK (concat (map show_ty Ts)) n"
    using ParseCompleteType_ok [of "show_ty T @ concat (map show_ty Ts)" "concat (map show_ty Ts)"] by auto
  then show ?case using Cons by (simp add: count_types_loop.simps inc8_def)
qed (simp add: count_types_loop.simps)

text \<open>
  C8. The whole way of the arguments: the sender's signature writer produces a text, the
  marshaller appends the body to a header that ends at a multiple of eight, and the receiver,
  with whatever behind the data and in either byte order, reads the signature and the body
  back to the values sent, in canonical form.
\<close>

theorem message_body_roundtrip:
  assumes "sendable vs Ts" "256 \<le> length (sig_buf m)" "length hdr mod 8 = 0"
    and "length (encs (endianSwap m) 0 vs) \<le> ALLJOYN_MAX_ARRAY_LEN"
  shows "\<exists>sig body. MakeSignature vs (sig_buf m) 0 = Some (ER_OK, sig, length (c_str sig)) \<and>
     MarshalArgs m vs (hdr, hs) = Inr (hdr @ body, hs) \<and>
     (\<forall>slack nh. unmarshal_body
        \<lparr>buf = hdr @ body @ slack, bufEOD = length (hdr @ body), swap = endianSwap m, handles = hs, num_handles = nh\<rparr>
        (c_str sig) (length hdr) (length body) = Inr (map canon vs))"
proof -
  let ?s = "concat (map show_ty Ts)" and ?body = "encs (endianSwap m) 0 vs"
  have Ts: "\<forall>T \<in> set Ts. wt False T \<and> reads_top T" using sendable_types [OF assms(1)] wt_top_wt by blast
  obtain sig where sig: "MakeSignature vs (sig_buf m) 0 = Some (ER_OK, sig, length ?s)"
      "wrote (sig_buf m) 0 ?s sig" "sig ! length ?s = NUL"
    using MakeSignature_typed [of vs Ts 0 "sig_buf m"] assms(1,2) by (auto simp: sendable_def)
  have "cstring ?s" using Ts cstring_show by (auto simp: cstring_def)
  then have c: "c_str sig = ?s" using sig(2,3) c_str_wrote assms(1,2) by (auto simp: sendable_def)
  have b: "encs (endianSwap m) (length hdr) vs = ?body" using assms(3) by (intro enc_mod_eq) simp
  have m: "MarshalArgs m vs (hdr, hs) = Inr (hdr @ ?body, hs)"
    using MarshalArgs_marshals [of vs m hdr hs] sendable_all [OF assms(1), of "\<lambda>v T. marshals m v"]
      marshals_typed [OF assms(2)] list_all2_fst assms(4) b by metis
  have n: "length vs = length Ts" using assms(1) list_all2_lengthD by (auto simp: sendable_def)
  have "length Ts < 256" using length_show_members [of Ts] assms(1) by (simp add: sendable_def)
  then have count: "CountCompleteTypes (Some ?s) = Some (length vs)"
    using count_types_loop_show [of Ts 0] Ts n by (simp add: CountCompleteTypes_def)
  have "unmarshal_body r ?s (length hdr) (length ?body) = Inr (map canon vs)"
    if r: "r = \<lparr>buf = hdr @ ?body @ slack, bufEOD = length (hdr @ ?body), swap = endianSwap m, handles = hs, num_handles = nh\<rparr>"
    for r slack nh
  proof -
    have "list_all2 (\<lambda>v T. reads r v T \<and> \<not> is_dict T) vs Ts"
      using assms(1) by (rule sendable_all) (auto intro: reads_typed elim: is_dict.elims)
    moreover have sw: "swap r = endianSwap m" using r by simp
    moreover have "at r (length hdr) ?body" using r by (simp add: at_def)
    ultimately have "parse_members r (length vs) (?s @ []) (length hdr) = Inr (map canon vs, length hdr + length ?body)"
      using parse_members_at [of r vs Ts "length hdr" "[]"] r assms(4) b by simp
    then show ?thesis by (simp add: unmarshal_body_def count)
  qed
  with sig(1) m c show ?thesis by metis
qed

lemma message_body_roundtrip_witness:
  "\<exists>sig body. MarshalArgs \<lparr>endianSwap = True, sig_buf = replicate 256 NUL, SocketDup = (\<lambda>fd i. Inr fd)\<rparr>
       sample_args ([], []) = Inr (body, []) \<and>
     unmarshal_body \<lparr>buf = body, bufEOD = length body, swap = True, handles = [], num_handles = 0\<rparr>
       sig 0 (length body) = Inr (map canon sample_args)"
proof -
  have "length (encs True 0 sample_args) \<le> ALLJOYN_MAX_ARRAY_LEN"
    by (simp add: sample_size ALLJOYN_MAX_ARRAY_LEN_def)
  then obtain sig body where s: "MarshalArgs \<lparr>endianSwap = True, sig_buf = replicate 256 NUL, SocketDup = (\<lambda>fd i. Inr fd)\<rparr>
       sample_args ([], []) = Inr ([] @ body, [])"
    "\<forall>slack nh. unmarshal_body
        \<lparr>buf = [] @ body @ slack, bufEOD = length ([] @ body), swap = True, handles = [], num_handles = nh\<rparr>
        (c_str sig) (length ([] :: byte list)) (length body) = Inr (map canon sample_args)"
    using message_body_roundtrip [OF sample_sendable, of
        "\<lparr>endianSwap = True, sig_buf = replicate 256 NUL, SocketDup = (\<lambda>fd i. Inr fd)\<rparr>" "[]" "[]"]
    unfolding marshaller.simps by auto
  from s(1) s(2) [rule_format, of "[]" 0] show ?thesis by auto
qed

end
