(* ===== verification/Slap_Packet.thy ===== *)
theory Slap_Packet
  imports AJ_Prelude
begin

text \<open>
  Packets of the serial link (\<^verbatim>\<open>common/src/SLAPPacket.cc\<close>): a payload is framed by boundary
  bytes, with escapes for the two special bytes, and protected by a checksum. The buffers are
  lists of bytes of their fixed length; a store outside one is \<open>None\<close>. Positions and lengths are
  \<^verbatim>\<open>uint16_t\<close> and wrap.
\<close>

unbundle bit_operations_syntax

subsection \<open>The checksum\<close>

definition crcTable :: "u16 list" where
  "crcTable =
   [0x0000, 0x1189, 0x2312, 0x329B, 0x4624, 0x57AD, 0x6536, 0x74BF,
    0x8C48, 0x9DC1, 0xAF5A, 0xBED3, 0xCA6C, 0xDBE5, 0xE97E, 0xF8F7,
    0x1081, 0x0108, 0x3393, 0x221A, 0x56A5, 0x472C, 0x75B7, 0x643E,
    0x9CC9, 0x8D40, 0xBFDB, 0xAE52, 0xDAED, 0xCB64, 0xF9FF, 0xE876,
    0x2102, 0x308B, 0x0210, 0x1399, 0x6726, 0x76AF, 0x4434, 0x55BD,
    0xAD4A, 0xBCC3, 0x8E58, 0x9FD1, 0xEB6E, 0xFAE7, 0xC87C, 0xD9F5,
    0x3183, 0x200A, 0x1291, 0x0318, 0x77A7, 0x662E, 0x54B5, 0x453C,
    0xBDCB, 0xAC42, 0x9ED9, 0x8F50, 0xFBEF, 0xEA66, 0xD8FD, 0xC974,
    0x4204, 0x538D, 0x6116, 0x709F, 0x0420, 0x15A9, 0x2732, 0x36BB,
    0xCE4C, 0xDFC5, 0xED5E, 0xFCD7, 0x8868, 0x99E1, 0xAB7A, 0xBAF3,
    0x5285, 0x430C, 0x7197, 0x601E, 0x14A1, 0x0528, 0x37B3, 0x263A,
    0xDECD, 0xCF44, 0xFDDF, 0xEC56, 0x98E9, 0x8960, 0xBBFB, 0xAA72,
    0x6306, 0x728F, 0x4014, 0x519D, 0x2522, 0x34AB, 0x0630, 0x17B9,
    0xEF4E, 0xFEC7, 0xCC5C, 0xDDD5, 0xA96A, 0xB8E3, 0x8A78, 0x9BF1,
    0x7387, 0x620E, 0x5095, 0x411C, 0x35A3, 0x242A, 0x16B1, 0x0738,
    0xFFCF, 0xEE46, 0xDCDD, 0xCD54, 0xB9EB, 0xA862, 0x9AF9, 0x8B70,
    0x8408, 0x9581, 0xA71A, 0xB693, 0xC22C, 0xD3A5, 0xE13E, 0xF0B7,
    0x0840, 0x19C9, 0x2B52, 0x3ADB, 0x4E64, 0x5FED, 0x6D76, 0x7CFF,
    0x9489, 0x8500, 0xB79B, 0xA612, 0xD2AD, 0xC324, 0xF1BF, 0xE036,
    0x18C1, 0x0948, 0x3BD3, 0x2A5A, 0x5EE5, 0x4F6C, 0x7DF7, 0x6C7E,
    0xA50A, 0xB483, 0x8618, 0x9791, 0xE32E, 0xF2A7, 0xC03C, 0xD1B5,
    0x2942, 0x38CB, 0x0A50, 0x1BD9, 0x6F66, 0x7EEF, 0x4C74, 0x5DFD,
    0xB58B, 0xA402, 0x9699, 0x8710, 0xF3AF, 0xE226, 0xD0BD, 0xC134,
    0x39C3, 0x284A, 0x1AD1, 0x0B58, 0x7FE7, 0x6E6E, 0x5CF5, 0x4D7C,
    0xC60C, 0xD785, 0xE51E, 0xF497, 0x8028, 0x91A1, 0xA33A, 0xB2B3,
    0x4A44, 0x5BCD, 0x6956, 0x78DF, 0x0C60, 0x1DE9, 0x2F72, 0x3EFB,
    0xD68D, 0xC704, 0xF59F, 0xE416, 0x90A9, 0x8120, 0xB3BB, 0xA232,
    0x5AC5, 0x4B4C, 0x79D7, 0x685E, 0x1CE1, 0x0D68, 0x3FF3, 0x2E7A,
    0xE70E, 0xF687, 0xC41C, 0xD595, 0xA12A, 0xB0A3, 0x8238, 0x93B1,
    0x6B46, 0x7ACF, 0x4854, 0x59DD, 0x2D62, 0x3CEB, 0x0E70, 0x1FF9,
    0xF78F, 0xE606, 0xD49D, 0xC514, 0xB1AB, 0xA022, 0x92B9, 0x8330,
    0x7BC7, 0x6A4E, 0x58D5, 0x495C, 0x3DE3, 0x2C6A, 0x1EF1, 0x0F78]"

definition CRC16_Compute :: "byte list \<Rightarrow> u16 \<Rightarrow> u16" where
  "CRC16_Compute bs crc =
     foldl (\<lambda>crc b. crcTable ! unat ((crc XOR ucast b) AND 0xFF) XOR drop_bit 8 crc) crc bs"

definition CRC_INIT :: u16 where
  "CRC_INIT = 0xFFFF"

definition rev_nibble :: "byte list" where
  "rev_nibble = [0x0, 0x8, 0x4, 0xc, 0x2, 0xa, 0x6, 0xe, 0x1, 0x9, 0x5, 0xd, 0x3, 0xb, 0x7, 0xf]"

definition CRC16_Complete :: "u16 \<Rightarrow> byte list" where
  "CRC16_Complete crc =
     [push_bit 4 (rev_nibble ! unat (crc AND 0xF)) OR rev_nibble ! unat (drop_bit 4 crc AND 0xF),
      push_bit 4 (rev_nibble ! unat (drop_bit 8 crc AND 0xF)) OR rev_nibble ! unat (drop_bit 12 crc)]"

subsection \<open>Packets to be written\<close>

definition BOUNDARY_BYTE :: byte where "BOUNDARY_BYTE = 0xC0"
definition BOUNDARY_SUBSTITUTE :: byte where "BOUNDARY_SUBSTITUTE = 0xDC"
definition ESCAPE_BYTE :: byte where "ESCAPE_BYTE = 0xDB"
definition ESCAPE_SUBSTITUTE :: byte where "ESCAPE_SUBSTITUTE = 0xDD"

lemmas special_bytes = BOUNDARY_BYTE_def BOUNDARY_SUBSTITUTE_def ESCAPE_BYTE_def ESCAPE_SUBSTITUTE_def

datatype PacketType = INVALID_PACKET | RELIABLE_DATA_PACKET | CTRL_PACKET | ACK_PACKET

datatype ControlPacketType =
  UNKNOWN_PKT | CONN_PKT | ACCEPT_PKT | NEGO_PKT | NEGO_RESP_PKT | DISCONN_PKT | DISCONN_RESP_PKT

fun type_byte :: "PacketType \<Rightarrow> byte" where
  "type_byte INVALID_PACKET = 255"
| "type_byte RELIABLE_DATA_PACKET = 0"
| "type_byte CTRL_PACKET = 14"
| "type_byte ACK_PACKET = 15"

fun LinkCtrlPacketName :: "ControlPacketType \<Rightarrow> string" where
  "LinkCtrlPacketName UNKNOWN_PKT = ''NONE''"
| "LinkCtrlPacketName CONN_PKT = ''CONN''"
| "LinkCtrlPacketName ACCEPT_PKT = ''ACPT''"
| "LinkCtrlPacketName NEGO_PKT = ''NEGO''"
| "LinkCtrlPacketName NEGO_RESP_PKT = ''NRSP''"
| "LinkCtrlPacketName DISCONN_PKT = ''DISC''"
| "LinkCtrlPacketName DISCONN_RESP_PKT = ''DRSP''"

definition ctrl_name :: "ControlPacketType \<Rightarrow> byte list" where
  "ctrl_name t = map char_byte (LinkCtrlPacketName t)"

definition SLAP_SLIPPED_LENGTH :: "nat \<Rightarrow> nat" where
  "SLAP_SLIPPED_LENGTH payloadSize = (4 + payloadSize + 2) * 2 + 2"

definition SLAP_DESLIPPED_LENGTH :: "nat \<Rightarrow> nat" where
  "SLAP_DESLIPPED_LENGTH payloadSize = 4 + payloadSize + 2"

record SLAPWritePacket =
  w_maxPacketSize :: nat
  w_ackNum :: byte
  w_sequenceNum :: byte
  payloadBuffer :: "byte list"
  payloadLen :: nat
  w_buffer :: "byte list"
  bufEOD :: nat
  startPos :: nat
  writePtr :: nat
  slippedLen :: nat
  endPos :: nat
  pktType :: PacketType

definition new_write_packet :: "nat \<Rightarrow> SLAPWritePacket" where
  "new_write_packet packetSize =
     \<lparr>w_maxPacketSize = packetSize, w_ackNum = 0, w_sequenceNum = 0,
      payloadBuffer = replicate packetSize 0, payloadLen = 0,
      w_buffer = replicate (SLAP_SLIPPED_LENGTH packetSize) 0, bufEOD = 0, startPos = 0,
      writePtr = 0, slippedLen = 0, endPos = 0, pktType = INVALID_PACKET\<rparr>"

definition w_Clear :: "SLAPWritePacket \<Rightarrow> SLAPWritePacket" where
  "w_Clear w = w\<lparr>w_ackNum := 0, w_sequenceNum := 0, payloadLen := 0, bufEOD := 0, startPos := 0,
     writePtr := 0, slippedLen := 0, endPos := 0, pktType := INVALID_PACKET\<rparr>"

definition SetSeqNum :: "byte \<Rightarrow> SLAPWritePacket \<Rightarrow> SLAPWritePacket" where
  "SetSeqNum n w = w\<lparr>w_sequenceNum := n\<rparr>"

definition SetAck :: "byte \<Rightarrow> SLAPWritePacket \<Rightarrow> SLAPWritePacket" where
  "SetAck n w = w\<lparr>w_ackNum := n\<rparr>"

definition inc16 :: "nat \<Rightarrow> nat" where
  "inc16 n = (n + 1) mod 65536"

definition dec16 :: "nat \<Rightarrow> nat" where
  "dec16 n = (n + 65535) mod 65536"

definition store :: "byte list \<Rightarrow> nat \<Rightarrow> byte \<Rightarrow> byte list option" where
  "store buf i b = (if i < length buf then Some (buf[i := b]) else None)"

text \<open>One byte to the buffer, escaped if need be, forwards or backwards.\<close>

definition slip_byte :: "byte \<Rightarrow> byte list \<times> nat \<Rightarrow> (byte list \<times> nat) option" where
  "slip_byte b st =
     (case st of (buf, pos) \<Rightarrow>
        if b = BOUNDARY_BYTE then
          Option.bind (store buf pos ESCAPE_BYTE) (\<lambda>buf.
            Option.bind (store buf (inc16 pos) BOUNDARY_SUBSTITUTE) (\<lambda>buf. Some (buf, inc16 (inc16 pos))))
        else if b = ESCAPE_BYTE then
          Option.bind (store buf pos ESCAPE_BYTE) (\<lambda>buf.
            Option.bind (store buf (inc16 pos) ESCAPE_SUBSTITUTE) (\<lambda>buf. Some (buf, inc16 (inc16 pos))))
        else Option.bind (store buf pos b) (\<lambda>buf. Some (buf, inc16 pos)))"

definition slip_back :: "byte \<Rightarrow> byte list \<times> nat \<Rightarrow> (byte list \<times> nat) option" where
  "slip_back b st =
     (case st of (buf, pos) \<Rightarrow>
        if b = BOUNDARY_BYTE then
          Option.bind (store buf pos BOUNDARY_SUBSTITUTE) (\<lambda>buf.
            Option.bind (store buf (dec16 pos) ESCAPE_BYTE) (\<lambda>buf. Some (buf, dec16 (dec16 pos))))
        else if b = ESCAPE_BYTE then
          Option.bind (store buf pos ESCAPE_SUBSTITUTE) (\<lambda>buf.
            Option.bind (store buf (dec16 pos) ESCAPE_BYTE) (\<lambda>buf. Some (buf, dec16 (dec16 pos))))
        else Option.bind (store buf pos b) (\<lambda>buf. Some (buf, dec16 pos)))"

fun slip_loop :: "byte list \<Rightarrow> byte list \<times> nat \<Rightarrow> (byte list \<times> nat) option" where
  "slip_loop [] st = Some st"
| "slip_loop (b # bs) st = Option.bind (slip_byte b st) (slip_loop bs)"

fun slip_back_loop :: "byte list \<Rightarrow> byte list \<times> nat \<Rightarrow> (byte list \<times> nat) option" where
  "slip_back_loop [] st = Some st"
| "slip_back_loop (b # bs) st = Option.bind (slip_back b st) (slip_back_loop bs)"

definition SlipPayload :: "SLAPWritePacket \<Rightarrow> SLAPWritePacket option" where
  "SlipPayload w =
     Option.bind (slip_loop (take (payloadLen w) (payloadBuffer w)) (w_buffer w, 9)) (\<lambda>(buf, pos).
       Some (w\<lparr>w_buffer := buf, slippedLen := pos\<rparr>))"

text \<open>\<open>copy\<close> is the \<^verbatim>\<open>memcpy\<close> to the start of the payload buffer.\<close>

definition copy :: "byte list \<Rightarrow> nat \<Rightarrow> byte list \<Rightarrow> byte list option" where
  "copy buf i bs = (if i + length bs \<le> length buf then Some (take i buf @ bs @ drop (i + length bs) buf) else None)"

definition DataPacket :: "byte list \<Rightarrow> SLAPWritePacket \<Rightarrow> (SLAPWritePacket \<times> nat) option" where
  "DataPacket bs w =
     (let n = (if length bs < w_maxPacketSize w then length bs else w_maxPacketSize w) mod 65536
      in Option.bind (copy (payloadBuffer w) 0 (take n bs)) (\<lambda>buf.
           Option.bind (SlipPayload (w\<lparr>pktType := RELIABLE_DATA_PACKET, payloadLen := n, payloadBuffer := buf\<rparr>)) (\<lambda>w.
             Some (w, n))))"

definition AckPacket :: "SLAPWritePacket \<Rightarrow> SLAPWritePacket option" where
  "AckPacket w = SlipPayload (w\<lparr>payloadLen := 0, pktType := ACK_PACKET\<rparr>)"

text \<open>The configuration field is three bytes; without it a negotiation packet fails an assertion.\<close>

definition ControlPacket :: "ControlPacketType \<Rightarrow> byte list option \<Rightarrow> SLAPWritePacket \<Rightarrow> SLAPWritePacket option" where
  "ControlPacket t configField w =
     Option.bind (copy (payloadBuffer w) 0 (ctrl_name t)) (\<lambda>buf.
       let w = w\<lparr>pktType := CTRL_PACKET, payloadLen := 4, payloadBuffer := buf\<rparr>
       in if t = NEGO_PKT \<or> t = NEGO_RESP_PKT then
            Option.bind configField (\<lambda>cf.
              Option.bind (copy (payloadBuffer w) 4 (take 3 cf)) (\<lambda>buf.
                SlipPayload (w\<lparr>payloadBuffer := buf, payloadLen := 7\<rparr>)))
          else SlipPayload w)"

definition packet_header :: "SLAPWritePacket \<Rightarrow> byte list" where
  "packet_header w =
     [(if pktType w = RELIABLE_DATA_PACKET then push_bit 4 (w_sequenceNum w) else 0) OR
        (if pktType w \<noteq> CTRL_PACKET then w_ackNum w else 0),
      type_byte (pktType w), of_nat (payloadLen w div 256), of_nat (payloadLen w mod 256)]"

definition packet_crc :: "SLAPWritePacket \<Rightarrow> byte list" where
  "packet_crc w =
     CRC16_Complete (CRC16_Compute (take (payloadLen w) (payloadBuffer w))
       (CRC16_Compute (packet_header w) CRC_INIT))"

definition PrependHeader :: "SLAPWritePacket \<Rightarrow> SLAPWritePacket option" where
  "PrependHeader w =
     Option.bind (slip_back_loop (rev (packet_header w)) (w_buffer w, 8)) (\<lambda>(buf, start).
       Option.bind (slip_loop (packet_crc w) (buf, slippedLen w)) (\<lambda>(buf, en).
         Option.bind (store buf start BOUNDARY_BYTE) (\<lambda>buf.
           Option.bind (store buf en BOUNDARY_BYTE) (\<lambda>buf.
             Some (w\<lparr>w_buffer := buf, startPos := start, endPos := en, writePtr := start, bufEOD := en\<rparr>)))))"

text \<open>
  What is left to be sent, and sending part of it. The code advances the pointer by the count
  that the device reports even when the write fails; a device that leaves the count unset then
  makes it move by an unknown amount, where the model has the value that \<open>push\<close> gives.
\<close>

definition to_send :: "SLAPWritePacket \<Rightarrow> byte list" where
  "to_send w = take (bufEOD w - writePtr w + 1) (drop (writePtr w) (w_buffer w))"

definition Deliver :: "(byte list \<Rightarrow> QStatus \<times> nat) \<Rightarrow> SLAPWritePacket \<Rightarrow> QStatus \<times> SLAPWritePacket" where
  "Deliver push w =
     (case push (to_send w) of (status, actual) \<Rightarrow> (status, w\<lparr>writePtr := writePtr w + actual\<rparr>))"

subsection \<open>Packets that are read\<close>

datatype PACKET_READ_STATE = PACKET_NEW | PACKET_OPEN | PACKET_FLUSH | PACKET_ESCAPE

record SLAPReadPacket =
  r_maxPacketSize :: nat
  r_buffer :: "byte list"
  readPtr :: nat
  totalLen :: nat
  remainingLen :: nat
  readState :: PACKET_READ_STATE
  packetType :: PacketType
  controlType :: ControlPacketType
  ackNum :: byte
  sequenceNum :: byte
  configField :: "byte list"

definition new_read_packet :: "nat \<Rightarrow> SLAPReadPacket" where
  "new_read_packet packetSize =
     \<lparr>r_maxPacketSize = packetSize, r_buffer = replicate (SLAP_DESLIPPED_LENGTH packetSize) 0,
      readPtr = 0, totalLen = 0, remainingLen = 0, readState = PACKET_NEW,
      packetType = INVALID_PACKET, controlType = UNKNOWN_PKT, ackNum = 0, sequenceNum = 0,
      configField = [0, 0, 0]\<rparr>"

definition r_Clear :: "SLAPReadPacket \<Rightarrow> SLAPReadPacket" where
  "r_Clear r = r\<lparr>readPtr := 0, totalLen := 0, remainingLen := 0, readState := PACKET_NEW,
     packetType := INVALID_PACKET, controlType := UNKNOWN_PKT, ackNum := 0, sequenceNum := 0,
     configField := [0, 0, 0]\<rparr>"

definition append_byte :: "byte \<Rightarrow> SLAPReadPacket \<Rightarrow> SLAPReadPacket option" where
  "append_byte b r =
     Option.bind (store (r_buffer r) (totalLen r) b) (\<lambda>buf.
       Some (r\<lparr>r_buffer := buf, totalLen := inc16 (totalLen r)\<rparr>))"

text \<open>The result is the status, the packet and the input that is left.\<close>

function DeSlip :: "SLAPReadPacket \<Rightarrow> byte list \<Rightarrow> (QStatus \<times> SLAPReadPacket \<times> byte list) option" where
  "DeSlip r [] = Some (ER_TIMEOUT, r, [])"
| "DeSlip r (rx # bs) =
     (case readState r of
        PACKET_FLUSH \<Rightarrow> DeSlip (if rx = BOUNDARY_BYTE then r\<lparr>readState := PACKET_NEW\<rparr> else r) bs
      | PACKET_NEW \<Rightarrow>
          DeSlip (r\<lparr>readState := (if rx = BOUNDARY_BYTE then PACKET_OPEN else PACKET_FLUSH),
                    totalLen := 0, packetType := INVALID_PACKET, controlType := UNKNOWN_PKT\<rparr>) bs
      | PACKET_ESCAPE \<Rightarrow>
          if rx = BOUNDARY_SUBSTITUTE then
            Option.bind (append_byte BOUNDARY_BYTE (r\<lparr>readState := PACKET_OPEN\<rparr>)) (\<lambda>r. DeSlip r bs)
          else if rx = ESCAPE_SUBSTITUTE then
            Option.bind (append_byte ESCAPE_BYTE (r\<lparr>readState := PACKET_OPEN\<rparr>)) (\<lambda>r. DeSlip r bs)
          else DeSlip (r\<lparr>readState := PACKET_NEW\<rparr>) (rx # bs)
      | PACKET_OPEN \<Rightarrow>
          if rx = BOUNDARY_BYTE then Some (ER_OK, r, bs)
          else if rx = ESCAPE_BYTE then DeSlip (r\<lparr>readState := PACKET_ESCAPE\<rparr>) bs
          else if totalLen r = r_maxPacketSize r + 4 + 2 then DeSlip (r\<lparr>readState := PACKET_NEW\<rparr>) bs
          else Option.bind (append_byte rx r) (\<lambda>r. DeSlip r bs))"
  by pat_completeness auto

termination DeSlip
  by (relation "measure (\<lambda>(r, bs). 2 * length bs + (if readState r = PACKET_ESCAPE then 1 else 0))") auto

declare DeSlip.simps(2) [simp del]

fun type_of_byte :: "byte \<Rightarrow> PacketType" where
  "type_of_byte b =
     (if b = 0 then RELIABLE_DATA_PACKET else if b = 15 then ACK_PACKET else if b = 14 then CTRL_PACKET
      else INVALID_PACKET)"

text \<open>
  The control packet whose name stands at the start of the payload. The comparison reads four
  bytes of the buffer, which the payload may not fill.
\<close>

fun ExpectedLen :: "ControlPacketType \<Rightarrow> nat" where
  "ExpectedLen UNKNOWN_PKT = 0"
| "ExpectedLen NEGO_PKT = 7"
| "ExpectedLen NEGO_RESP_PKT = 7"
| "ExpectedLen _ = 4"

definition ctrl_types :: "ControlPacketType list" where
  "ctrl_types = [CONN_PKT, ACCEPT_PKT, NEGO_PKT, NEGO_RESP_PKT, DISCONN_PKT, DISCONN_RESP_PKT]"

definition validate_ctrl :: "SLAPReadPacket \<Rightarrow> (QStatus \<times> SLAPReadPacket) option" where
  "validate_ctrl r =
     (if length (r_buffer r) < 8 then None
      else Some (case find (\<lambda>t. take 4 (drop 4 (r_buffer r)) = ctrl_name t) ctrl_types of
          None \<Rightarrow> (ER_SLAP_ERROR, r)
        | Some t \<Rightarrow>
            if totalLen r - 4 = ExpectedLen t
            then (ER_OK, if t = NEGO_PKT \<or> t = NEGO_RESP_PKT
                         then r\<lparr>controlType := t, configField := take 3 (drop 8 (r_buffer r))\<rparr>
                         else r\<lparr>controlType := t\<rparr>)
            else (ER_SLAP_INVALID_PACKET_LEN, r)))"

definition Validate :: "SLAPReadPacket \<Rightarrow> (QStatus \<times> SLAPReadPacket) option" where
  "Validate r =
     (if totalLen r < 6 then Some (ER_SLAP_INVALID_PACKET_LEN, r)
      else if length (r_buffer r) < totalLen r then None
      else let r = r\<lparr>totalLen := totalLen r - 2\<rparr>;
               buf = r_buffer r; total = totalLen r;
               checkCrc = CRC16_Complete (CRC16_Compute (take total buf) CRC_INIT)
           in if take 2 (drop total buf) \<noteq> checkCrc then Some (ER_SLAP_CRC_ERROR, r)
              else let r = r\<lparr>ackNum := buf ! 0 AND 0x0F, sequenceNum := drop_bit 4 (buf ! 0) AND 0x0F,
                             packetType := type_of_byte (buf ! 1 AND 0x0F)\<rparr>
                   in if packetType r = INVALID_PACKET then Some (ER_SLAP_INVALID_PACKET_TYPE, r)
                      else if unat (buf ! 2) * 256 + unat (buf ! 3) \<noteq> total - 4
                      then Some (ER_SLAP_LEN_MISMATCH, r)
                      else (case packetType r of
                              RELIABLE_DATA_PACKET \<Rightarrow> Some (ER_OK, r\<lparr>readPtr := 4, remainingLen := total - 4\<rparr>)
                            | ACK_PACKET \<Rightarrow> Some (ER_OK, r)
                            | CTRL_PACKET \<Rightarrow> validate_ctrl r
                            | _ \<Rightarrow> Some (ER_SLAP_ERROR, r)))"

text \<open>The bytes handed out, whether the packet is used up, and the packet.\<close>

definition FillBuffer :: "nat \<Rightarrow> SLAPReadPacket \<Rightarrow> byte list \<times> bool \<times> SLAPReadPacket" where
  "FillBuffer reqBytes r =
     (let toRead = reqBytes mod 65536;
          actual = (if toRead < remainingLen r then toRead else remainingLen r);
          bs = take actual (drop (readPtr r) (r_buffer r))
      in if actual = remainingLen r then (bs, True, r_Clear r)
         else (bs, False, r\<lparr>readPtr := readPtr r + actual, remainingLen := remainingLen r - actual\<rparr>))"

subsection \<open>Framing\<close>

text \<open>What is sent for a sequence of bytes.\<close>

definition esc :: "byte \<Rightarrow> byte list" where
  "esc b = (if b = BOUNDARY_BYTE then [ESCAPE_BYTE, BOUNDARY_SUBSTITUTE]
            else if b = ESCAPE_BYTE then [ESCAPE_BYTE, ESCAPE_SUBSTITUTE] else [b])"

definition slip :: "byte list \<Rightarrow> byte list" where
  "slip bs = concat (map esc bs)"

definition overwrite :: "byte list \<Rightarrow> nat \<Rightarrow> byte list \<Rightarrow> byte list" where
  "overwrite buf pos bs = take pos buf @ bs @ drop (pos + length bs) buf"

lemma slip_simps [simp]: "slip [] = []" "slip (b # bs) = esc b @ slip bs" "slip (xs @ ys) = slip xs @ slip ys"
  by (simp_all add: slip_def)

lemma esc_length: "length (esc b) \<le> 2" "length (esc b) = 1 \<or> length (esc b) = 2"
  by (simp_all add: esc_def)

lemma slip_length: "length (slip bs) \<le> 2 * length bs"
proof (induction bs)
  case (Cons b bs)
  then show ?case using esc_length(1) [of b] by simp
qed simp

lemma length_overwrite [simp]: "pos + length bs \<le> length buf \<Longrightarrow> length (overwrite buf pos bs) = length buf"
  by (simp add: overwrite_def)

lemma overwrite_overwrite:
  "pos + length xs + length ys \<le> length buf \<Longrightarrow>
   overwrite (overwrite buf pos xs) (pos + length xs) ys = overwrite buf pos (xs @ ys)"
  by (simp add: overwrite_def add.assoc add.commute add.left_commute)

lemma store_overwrite: "pos < length buf \<Longrightarrow> store buf pos b = Some (overwrite buf pos [b])"
  by (simp add: store_def overwrite_def upd_conv_take_nth_drop)

lemma overwrite_Nil [simp]: "overwrite buf pos [] = buf"
  by (simp add: overwrite_def)

lemma overwrite_self: "overwrite (pre @ mid @ post) (length pre) bs = pre @ bs @ post" if "length bs = length mid"
  using that by (simp add: overwrite_def)

lemma slip_byte_ok:
  assumes "pos + length (esc b) < length buf" "length buf \<le> 65536"
  shows "slip_byte b (buf, pos) = Some (overwrite buf pos (esc b), pos + length (esc b))"
proof -
  have 1: "store buf pos c = Some (overwrite buf pos [c])" for c
    using assms esc_length(2) [of b] by (intro store_overwrite) auto
  have 2: "store (overwrite buf pos [c]) (Suc pos) d = Some (overwrite buf pos [c, d])"
    if "length (esc b) = 2" for c d
    using assms that overwrite_overwrite [of pos "[c]" "[d]" buf] by (simp add: store_overwrite)
  have i: "inc16 pos = Suc pos" "length (esc b) = 2 \<Longrightarrow> inc16 (Suc pos) = Suc (Suc pos)"
    using assms esc_length(2) [of b] by (auto simp: inc16_def)
  show ?thesis
    using 1 2 i by (auto simp: slip_byte_def esc_def)
qed

lemma slip_loop_ok:
  assumes "pos + length (slip bs) < length buf" "length buf \<le> 65536"
  shows "slip_loop bs (buf, pos) = Some (overwrite buf pos (slip bs), pos + length (slip bs))"
  using assms
proof (induction bs arbitrary: buf pos)
  case (Cons b bs)
  then have "slip_byte b (buf, pos) = Some (overwrite buf pos (esc b), pos + length (esc b))"
    by (intro slip_byte_ok) auto
  then show ?case
    using Cons.prems Cons.IH [of "pos + length (esc b)" "overwrite buf pos (esc b)"]
    by (simp add: overwrite_overwrite add.assoc)
qed simp

lemma slip_back_ok:
  assumes "length (esc b) \<le> pos" "pos < length buf" "length buf \<le> 65536"
  shows "slip_back b (buf, pos) = Some (overwrite buf (pos + 1 - length (esc b)) (esc b), pos - length (esc b))"
proof -
  have d: "dec16 pos = pos - 1" "length (esc b) = 2 \<Longrightarrow> dec16 (pos - 1) = pos - 2"
    using assms esc_length(2) [of b] by (auto simp: dec16_def mod_if)
  have "overwrite (overwrite buf pos [d]) (pos - 1) [c] = overwrite buf (pos - 1) [c, d]"
    if h: "length (esc b) = 2" for c d
  proof -
    obtain p where "pos = Suc p" using assms(1) h by (cases pos) auto
    then show ?thesis using assms(2) by (simp add: overwrite_def)
  qed
  then show ?thesis
    using assms d store_overwrite [of pos buf] store_overwrite [of "pos - 1" "overwrite buf pos [_]"]
    by (auto simp: slip_back_def esc_def numeral_2_eq_2)
qed

lemma slip_back_loop_ok:
  assumes "length (slip hs) \<le> pos" "pos < length buf" "length buf \<le> 65536"
  shows "slip_back_loop (rev hs) (buf, pos) =
    Some (overwrite buf (pos + 1 - length (slip hs)) (slip hs), pos - length (slip hs))"
  using assms
proof (induction hs arbitrary: buf pos rule: rev_induct)
  case (snoc h hs)
  let ?e = "length (esc h)" and ?s = "length (slip hs)"
  have 1: "slip_back h (buf, pos) = Some (overwrite buf (pos + 1 - ?e) (esc h), pos - ?e)"
    using snoc.prems by (intro slip_back_ok) auto
  have "overwrite (overwrite buf (pos + 1 - ?e) (esc h)) (pos + 1 - ?e - ?s) (slip hs) =
      overwrite buf (pos + 1 - ?e - ?s) (slip hs @ esc h)"
    using snoc.prems by (simp add: overwrite_def min_def)
  moreover have "pos - ?e + 1 - ?s = pos + 1 - ?e - ?s" using snoc.prems by simp
  ultimately show ?case
    using 1 snoc.prems snoc.IH [of "pos - ?e" "overwrite buf (pos + 1 - ?e) (esc h)"]
    by (simp add: add.commute)
qed simp

text \<open>A written packet: the frame around header, payload and checksum is what will be sent.\<close>

definition frame :: "byte list \<Rightarrow> byte list" where
  "frame bs = BOUNDARY_BYTE # slip bs @ [BOUNDARY_BYTE]"

definition payload :: "SLAPWritePacket \<Rightarrow> byte list" where
  "payload w = take (payloadLen w) (payloadBuffer w)"

definition packet_bytes :: "SLAPWritePacket \<Rightarrow> byte list" where
  "packet_bytes w = packet_header w @ payload w @ packet_crc w"

definition wf_write :: "SLAPWritePacket \<Rightarrow> bool" where
  "wf_write w \<longleftrightarrow> length (w_buffer w) = SLAP_SLIPPED_LENGTH (w_maxPacketSize w) \<and>
     length (payloadBuffer w) = w_maxPacketSize w \<and> SLAP_SLIPPED_LENGTH (w_maxPacketSize w) \<le> 65536"

text \<open>A payload that has been slipped into the buffer, as all three constructors leave it.\<close>

definition slipped :: "SLAPWritePacket \<Rightarrow> bool" where
  "slipped w \<longleftrightarrow> wf_write w \<and> payloadLen w \<le> w_maxPacketSize w \<and> slippedLen w = 9 + length (slip (payload w)) \<and>
     take (length (slip (payload w))) (drop 9 (w_buffer w)) = slip (payload w)"

lemma length_header [simp]: "length (packet_header w) = 4"
  by (simp add: packet_header_def)

lemma length_crc [simp]: "length (CRC16_Complete c) = 2" "length (packet_crc w) = 2"
  by (simp_all add: CRC16_Complete_def packet_crc_def)

lemma SlipPayload_ok:
  assumes "wf_write w" "payloadLen w \<le> w_maxPacketSize w"
  shows "\<exists>w'. SlipPayload w = Some w' \<and> slipped w' \<and> w' = w\<lparr>w_buffer := w_buffer w', slippedLen := slippedLen w'\<rparr>"
proof -
  let ?n = "length (slip (payload w))"
  have "length (payload w) \<le> payloadLen w" by (simp add: payload_def)
  then have n: "?n \<le> 2 * payloadLen w" using slip_length [of "payload w"] by linarith
  then have "9 + ?n < length (w_buffer w)" "length (w_buffer w) \<le> 65536"
    using assms by (simp_all add: wf_write_def SLAP_SLIPPED_LENGTH_def)
  then have s: "slip_loop (payload w) (w_buffer w, 9) = Some (overwrite (w_buffer w) 9 (slip (payload w)), 9 + ?n)"
    "9 + ?n \<le> length (w_buffer w)"
    by (simp_all add: slip_loop_ok)
  let ?w = "w\<lparr>w_buffer := overwrite (w_buffer w) 9 (slip (payload w)), slippedLen := 9 + ?n\<rparr>"
  have "SlipPayload w = Some ?w" using s(1) by (simp add: SlipPayload_def payload_def)
  moreover have "payload ?w = payload w" by (simp add: payload_def)
  then have "slipped ?w"
    using assms s(2) unfolding slipped_def by (simp add: wf_write_def overwrite_def)
  ultimately show ?thesis by auto
qed

lemma PrependHeader_ok:
  assumes "slipped w"
  shows "\<exists>w'. PrependHeader w = Some w' \<and> to_send w' = frame (packet_bytes w)"
proof -
  let ?h = "slip (packet_header w)" and ?p = "slip (payload w)" and ?c = "slip (packet_crc w)"
  let ?b = "w_buffer w"
  define S where "S = 8 - length ?h"
  have h: "length ?h \<le> 8" "length ?c \<le> 4"
    using slip_length [of "packet_header w"] slip_length [of "packet_crc w"] by simp_all
  have p: "length ?p \<le> 2 * payloadLen w"
    using slip_length [of "payload w"] by (simp add: payload_def min_def split: if_splits)
  have L: "13 + length ?p < length ?b" "length ?b \<le> 65536"
    using assms p by (simp_all add: slipped_def wf_write_def SLAP_SLIPPED_LENGTH_def)
  define b1 where "b1 = overwrite ?b (9 - length ?h) ?h"
  define b2 where "b2 = overwrite b1 (9 + length ?p) ?c"
  let ?E = "9 + length ?p + length ?c"
  define b3 where "b3 = overwrite b2 S [BOUNDARY_BYTE]"
  define b4 where "b4 = overwrite b3 ?E [BOUNDARY_BYTE]"
  have l: "length b1 = length ?b" "length b2 = length ?b" "length b3 = length ?b"
    using L h by (simp_all add: b1_def b2_def b3_def S_def)
  have 1: "slip_back_loop (rev (packet_header w)) (?b, 8) = Some (b1, S)"
    using slip_back_loop_ok [of "packet_header w" 8 ?b] h L by (simp add: b1_def S_def)
  have 2: "slip_loop (packet_crc w) (b1, slippedLen w) = Some (b2, ?E)"
    using assms L h l slip_loop_ok [of "9 + length ?p" "packet_crc w" b1] by (simp add: slipped_def b2_def)
  have 3: "store b2 S BOUNDARY_BYTE = Some b3" "store b3 ?E BOUNDARY_BYTE = Some b4"
    using L h l by (simp_all add: store_overwrite b3_def b4_def S_def)
  let ?w = "w\<lparr>w_buffer := b4, startPos := S, endPos := ?E, writePtr := S, bufEOD := ?E\<rparr>"
  have w: "PrependHeader w = Some ?w" by (simp add: PrependHeader_def 1 2 3)
  have mid: "take (length ?p) (drop 9 ?b) = ?p" using assms by (simp add: slipped_def)
  have b: "?b = take S ?b @ drop S (take 9 ?b) @ ?p @ drop (9 + length ?p) ?b"
  proof -
    have "?b = take 9 ?b @ take (length ?p) (drop 9 ?b) @ drop (9 + length ?p) ?b"
      by (metis append_take_drop_id drop_drop add.commute)
    moreover have "take 9 ?b = take S ?b @ drop S (take 9 ?b)"
      using append_take_drop_id [of S "take 9 ?b"] by (simp add: S_def take_take)
    ultimately show ?thesis unfolding mid by (metis append.assoc)
  qed
  obtain pre x hs post where d: "?b = pre @ x # hs @ ?p @ post" "length pre = S" "length hs = length ?h"
    "length post = length ?b - (9 + length ?p)"
  proof -
    have "length (drop S (take 9 ?b)) = Suc (length ?h)" using L h by (simp add: S_def)
    then obtain x hs where "drop S (take 9 ?b) = x # hs" "length hs = length ?h"
      by (cases "drop S (take 9 ?b)") auto
    then show ?thesis using b L that [of "take S ?b" x hs "drop (9 + length ?p) ?b"] by (simp add: S_def)
  qed
  obtain c e rest where post: "post = c @ e # rest" "length c = length ?c"
  proof -
    have "length ?c < length post" using d(4) L h by simp
    then show ?thesis using that id_take_nth_drop [of "length ?c" post] by (metis length_take less_imp_le min.absorb2)
  qed
  have S9: "9 - length ?h = length (pre @ [x])" "Suc (S + length ?h) = 9" using h d(2) by (simp_all add: S_def)
  have P: "9 + length ?p = length (pre @ x # ?h @ ?p)" using d(2) S9(2) by simp
  have "b1 = (pre @ [x]) @ ?h @ ?p @ post"
    unfolding b1_def S9(1) using overwrite_self [of ?h hs "pre @ [x]" "?p @ post"] d by simp
  then have "b2 = pre @ x # ?h @ ?p @ ?c @ e # rest"
    unfolding b2_def post(1) P using overwrite_self [of ?c c "pre @ x # ?h @ ?p" "e # rest"] post(2) by simp
  then have "b3 = pre @ BOUNDARY_BYTE # ?h @ ?p @ ?c @ e # rest"
    unfolding b3_def using overwrite_self [of "[BOUNDARY_BYTE]" "[x]" pre] d(2) by simp
  then have "b4 = pre @ BOUNDARY_BYTE # ?h @ ?p @ ?c @ BOUNDARY_BYTE # rest"
    unfolding b4_def P using overwrite_self [of "[BOUNDARY_BYTE]" "[e]" "pre @ BOUNDARY_BYTE # ?h @ ?p @ ?c" rest]
    by (simp add: add.assoc)
  then have "b4 = pre @ frame (packet_bytes w) @ rest" by (simp add: frame_def packet_bytes_def)
  moreover have "?E - S + 1 = length (frame (packet_bytes w))"
    using S9(2) by (simp add: frame_def packet_bytes_def)
  ultimately have "to_send ?w = frame (packet_bytes w)" using d(2) by (simp add: to_send_def)
  with w show ?thesis by blast
qed

subsection \<open>Reading a frame\<close>

definition wf_read :: "SLAPReadPacket \<Rightarrow> bool" where
  "wf_read r \<longleftrightarrow> length (r_buffer r) = SLAP_DESLIPPED_LENGTH (r_maxPacketSize r) \<and>
     SLAP_DESLIPPED_LENGTH (r_maxPacketSize r) < 65536"

lemma DeSlip_byte:
  assumes "wf_read r" "readState r = PACKET_OPEN" "totalLen r < length (r_buffer r)"
  shows "DeSlip r (esc b @ bs) =
    DeSlip (r\<lparr>r_buffer := overwrite (r_buffer r) (totalLen r) [b], totalLen := totalLen r + 1\<rparr>) bs"
proof -
  have "store (r_buffer r) (totalLen r) c = Some (overwrite (r_buffer r) (totalLen r) [c])" for c
    using assms(3) by (rule store_overwrite)
  moreover have "inc16 (totalLen r) = totalLen r + 1"
    using assms(1,3) by (simp add: inc16_def wf_read_def)
  moreover have "totalLen r \<noteq> r_maxPacketSize r + 4 + 2"
    using assms(1,3) by (simp add: wf_read_def SLAP_DESLIPPED_LENGTH_def)
  ultimately show ?thesis
    using assms(2) unfolding esc_def
    by (cases r) (simp add: DeSlip.simps(2) append_byte_def special_bytes)
qed

lemma DeSlip_slip:
  assumes "wf_read r" "readState r = PACKET_OPEN" "totalLen r + length xs \<le> length (r_buffer r)"
  shows "DeSlip r (slip xs @ bs) =
    DeSlip (r\<lparr>r_buffer := overwrite (r_buffer r) (totalLen r) xs, totalLen := totalLen r + length xs\<rparr>) bs"
  using assms
proof (induction xs arbitrary: r)
  case (Cons x xs)
  let ?r = "r\<lparr>r_buffer := overwrite (r_buffer r) (totalLen r) [x], totalLen := totalLen r + 1\<rparr>"
  have "wf_read ?r" using Cons.prems by (simp add: wf_read_def)
  then have "DeSlip ?r (slip xs @ bs) =
      DeSlip (?r\<lparr>r_buffer := overwrite (r_buffer ?r) (totalLen ?r) xs, totalLen := totalLen ?r + length xs\<rparr>) bs"
    using Cons.prems by (intro Cons.IH) simp_all
  moreover have "DeSlip r (slip (x # xs) @ bs) = DeSlip ?r (slip xs @ bs)"
    using DeSlip_byte [of r x "slip xs @ bs"] Cons.prems by simp
  ultimately show ?case
    using overwrite_overwrite [of "totalLen r" "[x]" xs "r_buffer r"] Cons.prems by simp
qed simp

lemma DeSlip_frame:
  assumes "wf_read r" "readState r = PACKET_NEW" "length xs \<le> length (r_buffer r)"
  shows "DeSlip r (frame xs @ bs) =
    Some (ER_OK, r\<lparr>readState := PACKET_OPEN, packetType := INVALID_PACKET, controlType := UNKNOWN_PKT,
      r_buffer := overwrite (r_buffer r) 0 xs, totalLen := length xs\<rparr>, bs)"
proof -
  let ?r = "r\<lparr>readState := PACKET_OPEN, totalLen := 0, packetType := INVALID_PACKET, controlType := UNKNOWN_PKT\<rparr>"
  have "DeSlip r (frame xs @ bs) = DeSlip ?r (slip xs @ BOUNDARY_BYTE # bs)"
    using assms(2) by (simp add: frame_def DeSlip.simps(2))
  also have "\<dots> = DeSlip (?r\<lparr>r_buffer := overwrite (r_buffer ?r) (totalLen ?r) xs, totalLen := totalLen ?r + length xs\<rparr>)
      (BOUNDARY_BYTE # bs)"
    using assms by (intro DeSlip_slip) (simp_all add: wf_read_def)
  finally show ?thesis by (simp add: DeSlip.simps(2))
qed

lemma CRC16_Compute_append: "CRC16_Compute (xs @ ys) c = CRC16_Compute ys (CRC16_Compute xs c)"
  by (simp add: CRC16_Compute_def)

lemma nibble_bound: "(a :: byte) < 16 \<Longrightarrow> bit a n \<Longrightarrow> n < 4"
proof -
  assume "a < 16" and b: "bit a n"
  then have "take_bit 4 a = a" by (simp add: take_bit_eq_mod word_arith_nat_mod word_less_nat_alt)
  then show "n < 4" using b by (metis bit_take_bit_iff)
qed

lemma nibbles:
  assumes "(a :: byte) < 16" "b < 16"
  shows "(push_bit 4 a OR b) AND 0x0F = b" "drop_bit 4 (push_bit 4 a OR b) AND 0x0F = a"
proof -
  have m: "(0x0F :: byte) = mask 4" by (simp add: mask_eq_exp_minus_1)
  show "(push_bit 4 a OR b) AND 0x0F = b" "drop_bit 4 (push_bit 4 a OR b) AND 0x0F = a"
    using assms unfolding m by (intro bit_word_eqI; auto simp: bit_simps dest: nibble_bound)+
qed

text \<open>What the reader makes of a packet with the given fields.\<close>

definition fields_ok :: "SLAPWritePacket \<Rightarrow> bool" where
  "fields_ok w \<longleftrightarrow> w_ackNum w < 16 \<and> w_sequenceNum w < 16 \<and> pktType w \<noteq> INVALID_PACKET"

definition header_seq :: "SLAPWritePacket \<Rightarrow> byte" where
  "header_seq w = (if pktType w = RELIABLE_DATA_PACKET then w_sequenceNum w else 0)"

definition header_ack :: "SLAPWritePacket \<Rightarrow> byte" where
  "header_ack w = (if pktType w = CTRL_PACKET then 0 else w_ackNum w)"

lemma header_decode:
  assumes "fields_ok w"
  shows "packet_header w ! 0 AND 0x0F = header_ack w" "drop_bit 4 (packet_header w ! 0) AND 0x0F = header_seq w"
    "type_of_byte (packet_header w ! 1 AND 0x0F) = pktType w"
proof -
  have "header_ack w < 16" "header_seq w < 16" using assms by (auto simp: fields_ok_def header_ack_def header_seq_def)
  moreover have "packet_header w ! 0 = push_bit 4 (header_seq w) OR header_ack w"
    by (auto simp: packet_header_def header_ack_def header_seq_def)
  ultimately show "packet_header w ! 0 AND 0x0F = header_ack w" "drop_bit 4 (packet_header w ! 0) AND 0x0F = header_seq w"
    using nibbles by metis+
  show "type_of_byte (packet_header w ! 1 AND 0x0F) = pktType w"
    using assms by (cases "pktType w") (simp_all add: packet_header_def fields_ok_def)
qed

lemma header_len:
  assumes "payloadLen w < 65536"
  shows "unat (packet_header w ! 2) * 256 + unat (packet_header w ! 3) = payloadLen w"
proof -
  have "payloadLen w div 256 < 256" using assms by simp
  then show ?thesis by (simp add: packet_header_def unat_of_nat)
qed

lemma ctrl_name_inj: "ctrl_name u = ctrl_name t \<longleftrightarrow> u = t"
proof -
  have i: "inj char_byte" by (metis byte_char_byte injI)
  show ?thesis unfolding ctrl_name_def inj_map_eq_map [OF i] by (cases u; cases t; simp)
qed

lemma Validate_written:
  assumes w: "fields_ok w" "payloadLen w < 65536" "payloadLen w \<le> length (payloadBuffer w)"
    and r: "totalLen r = length (packet_bytes w)" "r_buffer r = overwrite buf 0 (packet_bytes w)"
      "length (packet_bytes w) \<le> length buf"
    and ctrl: "pktType w = CTRL_PACKET \<Longrightarrow> \<exists>t cf. t \<noteq> UNKNOWN_PKT \<and> payload w = ctrl_name t @ cf \<and> payloadLen w = ExpectedLen t"
  shows "\<exists>r'. Validate r = Some (ER_OK, r') \<and> packetType r' = pktType w \<and>
    ackNum r' = header_ack w \<and> sequenceNum r' = header_seq w \<and>
    (pktType w = RELIABLE_DATA_PACKET \<longrightarrow> FillBuffer (payloadLen w) r' = (payload w, True, r_Clear r')) \<and>
    (\<forall>t cf. t \<noteq> UNKNOWN_PKT \<longrightarrow> pktType w = CTRL_PACKET \<longrightarrow> payload w = ctrl_name t @ cf \<longrightarrow>
       controlType r' = t \<and> (t = NEGO_PKT \<or> t = NEGO_RESP_PKT \<longrightarrow> configField r' = take 3 cf))"
proof -
  let ?n = "payloadLen w" and ?hp = "packet_header w @ payload w"
  have pl: "length (payload w) = ?n" using w(3) by (simp add: payload_def)
  have len: "length (packet_bytes w) = ?n + 6" by (simp add: packet_bytes_def pl)
  define buf' where "buf' = r_buffer r"
  have b: "buf' = ?hp @ packet_crc w @ drop (?n + 6) buf"
    using r(2) by (simp add: buf'_def overwrite_def packet_bytes_def pl add.commute)
  have b1: "length buf' = length buf" "?n + 6 \<le> length buf'" using r(3) len by (simp_all add: b pl)
  have take: "take (?n + 4) buf' = ?hp" "take 2 (drop (?n + 4) buf') = packet_crc w"
    by (simp_all add: b pl)
  have crc: "packet_crc w = CRC16_Complete (CRC16_Compute ?hp CRC_INIT)"
    by (simp add: packet_crc_def CRC16_Compute_append payload_def)
  have hd: "buf' ! 0 = packet_header w ! 0" "buf' ! 1 = packet_header w ! 1" "buf' ! 2 = packet_header w ! 2"
    "buf' ! 3 = packet_header w ! 3"
    by (simp_all add: b nth_append)
  define r1 where "r1 = r\<lparr>totalLen := ?n + 4, ackNum := header_ack w, sequenceNum := header_seq w, packetType := pktType w\<rparr>"
  have r1: "packetType r1 = pktType w" "r_buffer r1 = buf'" "totalLen r1 = ?n + 4"
    "ackNum r1 = header_ack w" "sequenceNum r1 = header_seq w" by (simp_all add: r1_def buf'_def)
  have v: "Validate r = (case pktType w of RELIABLE_DATA_PACKET \<Rightarrow> Some (ER_OK, r1\<lparr>readPtr := 4, remainingLen := ?n\<rparr>)
      | ACK_PACKET \<Rightarrow> Some (ER_OK, r1) | CTRL_PACKET \<Rightarrow> validate_ctrl r1 | _ \<Rightarrow> Some (ER_SLAP_ERROR, r1))"
  proof -
    have c0: "\<not> totalLen r < 6" "\<not> length buf' < totalLen r" "totalLen r - 2 = ?n + 4"
      using r(1) len b1 by simp_all
    have "type_of_byte (buf' ! 1 AND 0x0F) = pktType w" "pktType w \<noteq> INVALID_PACKET"
      "unat (buf' ! 2) * 256 + unat (buf' ! 3) = ?n"
      using header_decode [OF w(1)] header_len [OF w(2)] w(1) hd by (simp_all add: fields_ok_def)
    moreover have "buf' ! 0 AND 0x0F = header_ack w" "drop_bit 4 (buf' ! 0) AND 0x0F = header_seq w"
      using header_decode [OF w(1)] hd by simp_all
    ultimately show ?thesis
      unfolding Validate_def Let_def
      by (simp add: c0 take crc r1_def flip: buf'_def del: type_of_byte.simps split: PacketType.split)
  qed
  show ?thesis
  proof (cases "pktType w")
    case RELIABLE_DATA_PACKET
    have "take ?n (drop 4 buf') = payload w" by (simp add: b pl)
    then show ?thesis using v RELIABLE_DATA_PACKET r1 w(2) by (simp add: FillBuffer_def Let_def r_Clear_def)
  next
    case ACK_PACKET
    then show ?thesis using v r1 by simp
  next
    case CTRL_PACKET
    then obtain t cf where t: "t \<noteq> UNKNOWN_PKT" "payload w = ctrl_name t @ cf" "?n = ExpectedLen t" using ctrl by blast
    have name: "length (ctrl_name u) = 4" for u by (cases u) (simp_all add: ctrl_name_def)
    have n4: "take 4 (drop 4 buf') = ctrl_name t" using name by (simp add: b t(2))
    have f: "find (\<lambda>u. take 4 (drop 4 buf') = ctrl_name u) ctrl_types = Some t"
      unfolding n4 using t(1) by (cases t) (simp_all add: ctrl_types_def ctrl_name_inj)
    have "length cf = ?n - 4" using pl t(2) name by simp
    then have cf: "t = NEGO_PKT \<or> t = NEGO_RESP_PKT \<Longrightarrow> take 3 (drop 8 buf') = take 3 cf"
      using name t by (auto simp: b)
    have "8 \<le> length buf'" using b1(2) t(1,3) by (cases t) simp_all
    then have "validate_ctrl r1 = Some (ER_OK, if t = NEGO_PKT \<or> t = NEGO_RESP_PKT
         then r1\<lparr>controlType := t, configField := take 3 (drop 8 buf')\<rparr> else r1\<lparr>controlType := t\<rparr>)"
      using f r1 t(3) by (simp add: validate_ctrl_def)
    moreover have "u = t \<and> cf' = cf" if "payload w = ctrl_name u @ cf'" for u cf'
      using that t(2) name ctrl_name_inj by (metis append_eq_append_conv)
    ultimately show ?thesis using v CTRL_PACKET r1 cf by auto
  next
    case INVALID_PACKET
    then show ?thesis using w(1) by (simp add: fields_ok_def)
  qed
qed

subsection \<open>Properties\<close>

lemma packet_crosses:
  assumes "slipped w" "fields_ok w" "wf_read r" "readState r = PACKET_NEW" "payloadLen w \<le> r_maxPacketSize r"
    and ctrl: "pktType w = CTRL_PACKET \<Longrightarrow> \<exists>t cf. t \<noteq> UNKNOWN_PKT \<and> payload w = ctrl_name t @ cf \<and> payloadLen w = ExpectedLen t"
  shows "\<exists>w' r1 r2. PrependHeader w = Some w' \<and> DeSlip r (to_send w' @ rest) = Some (ER_OK, r1, rest) \<and>
    Validate r1 = Some (ER_OK, r2) \<and> packetType r2 = pktType w \<and>
    ackNum r2 = header_ack w \<and> sequenceNum r2 = header_seq w \<and>
    (pktType w = RELIABLE_DATA_PACKET \<longrightarrow> FillBuffer (payloadLen w) r2 = (payload w, True, r_Clear r2)) \<and>
    (\<forall>t cf. t \<noteq> UNKNOWN_PKT \<longrightarrow> pktType w = CTRL_PACKET \<longrightarrow> payload w = ctrl_name t @ cf \<longrightarrow>
       controlType r2 = t \<and> (t = NEGO_PKT \<or> t = NEGO_RESP_PKT \<longrightarrow> configField r2 = take 3 cf))"
proof -
  obtain w' where w': "PrependHeader w = Some w'" "to_send w' = frame (packet_bytes w)"
    using PrependHeader_ok [OF assms(1)] by blast
  have b: "payloadLen w \<le> length (payloadBuffer w)" "payloadLen w < 65536"
    using assms(1) by (auto simp: slipped_def wf_write_def SLAP_SLIPPED_LENGTH_def)
  then have "length (packet_bytes w) = payloadLen w + 6" by (simp add: packet_bytes_def payload_def)
  then have l: "length (packet_bytes w) \<le> length (r_buffer r)"
    using assms(3,5) by (simp add: wf_read_def SLAP_DESLIPPED_LENGTH_def)
  let ?r1 = "r\<lparr>readState := PACKET_OPEN, packetType := INVALID_PACKET, controlType := UNKNOWN_PKT,
      r_buffer := overwrite (r_buffer r) 0 (packet_bytes w), totalLen := length (packet_bytes w)\<rparr>"
  have 1: "DeSlip r (to_send w' @ rest) = Some (ER_OK, ?r1, rest)"
    unfolding w'(2) using assms(3,4) l by (rule DeSlip_frame)
  have "totalLen ?r1 = length (packet_bytes w)" "r_buffer ?r1 = overwrite (r_buffer r) 0 (packet_bytes w)" by simp_all
  from Validate_written [OF assms(2) b(2,1) this l ctrl] w'(1) 1 show ?thesis by blast
qed

text \<open>
  C11. A data packet crosses the link: as many bytes as a packet holds are taken, the frame fits
  the writer's buffer however many bytes must be escaped, and a reader of the same packet size,
  whatever follows in its input, finds the end of the packet, accepts the checksum and hands
  out the sequence number, the acknowledgement and the bytes.
\<close>

theorem slap_packet_roundtrip:
  assumes "wf_write w" "w_ackNum w < 16" "w_sequenceNum w < 16"
    and "wf_read r" "readState r = PACKET_NEW" "r_maxPacketSize r = w_maxPacketSize w"
  shows "\<exists>w1 w2 r1 r2 n. n = min (length bs) (w_maxPacketSize w) \<and>
    DataPacket bs w = Some (w1, n) \<and> PrependHeader w1 = Some w2 \<and>
    DeSlip r (to_send w2 @ rest) = Some (ER_OK, r1, rest) \<and> Validate r1 = Some (ER_OK, r2) \<and>
    packetType r2 = RELIABLE_DATA_PACKET \<and> ackNum r2 = w_ackNum w \<and> sequenceNum r2 = w_sequenceNum w \<and>
    FillBuffer n r2 = (take n bs, True, r_Clear r2)"
proof -
  define n where "n = min (length bs) (w_maxPacketSize w)"
  have n: "(if length bs < w_maxPacketSize w then length bs else w_maxPacketSize w) mod 65536 = n"
    "n \<le> w_maxPacketSize w" "n \<le> length bs"
    using assms(1) by (auto simp: n_def wf_write_def SLAP_SLIPPED_LENGTH_def min_def)
  have l: "length (payloadBuffer w) = w_maxPacketSize w" using assms(1) by (simp add: wf_write_def)
  let ?buf = "take n bs @ drop n (payloadBuffer w)"
  let ?w = "w\<lparr>pktType := RELIABLE_DATA_PACKET, payloadLen := n, payloadBuffer := ?buf\<rparr>"
  have "wf_write ?w" "payloadLen ?w \<le> w_maxPacketSize ?w" using assms(1) n l by (simp_all add: wf_write_def)
  then obtain w1 where w1: "SlipPayload ?w = Some w1" "slipped w1"
    "w1 = ?w\<lparr>w_buffer := w_buffer w1, slippedLen := slippedLen w1\<rparr>"
    using SlipPayload_ok by blast
  have f: "pktType w1 = RELIABLE_DATA_PACKET" "payloadLen w1 = n" "w_ackNum w1 = w_ackNum w"
    "w_sequenceNum w1 = w_sequenceNum w" "payload w1 = take n bs"
    using n by (subst w1(3); simp add: payload_def)+
  have "DataPacket bs w = Some (w1, n)"
    unfolding DataPacket_def Let_def n(1) using n(2,3) l w1(1) by (simp add: copy_def del: take_all_iff take_all)
  moreover have "fields_ok w1" using f assms(2,3) by (simp add: fields_ok_def)
  ultimately show ?thesis
    using packet_crosses [OF w1(2) _ assms(4,5), of rest] f n assms(6)
    by (auto simp: header_ack_def header_seq_def simp flip: n_def)
qed

lemma slap_packet_roundtrip_witness:
  "\<exists>w1 w2 r1 r2 n. DataPacket [0xC0, 1] (SetSeqNum 3 (new_write_packet 32)) = Some (w1, n) \<and>
    PrependHeader w1 = Some w2 \<and> DeSlip (new_read_packet 32) (to_send w2 @ []) = Some (ER_OK, r1, []) \<and>
    Validate r1 = Some (ER_OK, r2) \<and> FillBuffer n r2 = (take n [0xC0, 1], True, r_Clear r2)"
proof -
  have "wf_write (SetSeqNum 3 (new_write_packet 32))" "wf_read (new_read_packet 32)"
    by (simp_all add: wf_write_def wf_read_def SetSeqNum_def new_write_packet_def new_read_packet_def
        SLAP_SLIPPED_LENGTH_def SLAP_DESLIPPED_LENGTH_def)
  then show ?thesis
    using slap_packet_roundtrip [of "SetSeqNum 3 (new_write_packet 32)" "new_read_packet 32" "[0xC0, 1]" "[]"]
    by (auto simp: SetSeqNum_def new_write_packet_def new_read_packet_def)
qed

text \<open>
  C36. The reader's check for overrun covers bytes that arrive as they are, not escaped ones: a
  frame of escaped bytes, one more than the buffer holds, is stored behind its end, whatever
  the packet size.
\<close>

theorem slap_escape_overrun:
  assumes "m + 6 < 65536"
  shows "DeSlip (new_read_packet m) (BOUNDARY_BYTE # slip (replicate (m + 7) ESCAPE_BYTE)) = None"
proof -
  let ?r = "(new_read_packet m)\<lparr>readState := PACKET_OPEN, totalLen := 0, packetType := INVALID_PACKET, controlType := UNKNOWN_PKT\<rparr>"
  let ?r1 = "?r\<lparr>r_buffer := overwrite (r_buffer ?r) (totalLen ?r) (replicate (m + 6) ESCAPE_BYTE),
      totalLen := totalLen ?r + length (replicate (m + 6) ESCAPE_BYTE)\<rparr>"
  have e: "m + 7 = Suc (m + 6)" by simp
  have split: "slip (replicate (m + 7) ESCAPE_BYTE) = slip (replicate (m + 6) ESCAPE_BYTE) @ [ESCAPE_BYTE, ESCAPE_SUBSTITUTE]"
    unfolding e replicate_Suc replicate_append_same [symmetric] by (simp add: esc_def special_bytes)
  have "DeSlip (new_read_packet m) (BOUNDARY_BYTE # x) = DeSlip ?r x" for x
    by (simp add: DeSlip.simps(2) new_read_packet_def)
  then have "DeSlip (new_read_packet m) (BOUNDARY_BYTE # slip (replicate (m + 7) ESCAPE_BYTE)) =
      DeSlip ?r (slip (replicate (m + 6) ESCAPE_BYTE) @ [ESCAPE_BYTE, ESCAPE_SUBSTITUTE])"
    unfolding split .
  also have "\<dots> = DeSlip ?r1 [ESCAPE_BYTE, ESCAPE_SUBSTITUTE]"
    using assms by (intro DeSlip_slip) (simp_all add: new_read_packet_def wf_read_def SLAP_DESLIPPED_LENGTH_def)
  also have "\<dots> = None"
    by (simp add: DeSlip.simps(2) append_byte_def store_def new_read_packet_def SLAP_DESLIPPED_LENGTH_def special_bytes overwrite_def)
  finally show ?thesis .
qed

lemma slap_escape_overrun_witness:
  "DeSlip (new_read_packet 32) (BOUNDARY_BYTE # slip (replicate (32 + 7) ESCAPE_BYTE)) = None"
  by (rule slap_escape_overrun) simp

subsection \<open>The checksum is a polynomial remainder\<close>

definition crc_bit :: "u16 \<Rightarrow> u16" where
  "crc_bit c = (if bit c 0 then drop_bit 1 c XOR 0x8408 else drop_bit 1 c)"

definition crc_byte :: "u16 \<Rightarrow> u16" where
  "crc_byte c = crc_bit (crc_bit (crc_bit (crc_bit (crc_bit (crc_bit (crc_bit (crc_bit c)))))))"

lemma crc_bit_xor: "crc_bit (a XOR b) = crc_bit a XOR crc_bit b"
proof -
  have "drop_bit 1 (a XOR b) = drop_bit 1 a XOR drop_bit 1 b" by (rule drop_bit_xor)
  moreover have "bit (a XOR b) 0 \<longleftrightarrow> bit a 0 \<noteq> bit b 0" by (simp add: bit_xor_iff)
  ultimately show ?thesis unfolding crc_bit_def
    by (cases "bit a 0"; cases "bit b 0") (auto intro!: bit_word_eqI simp: bit_xor_iff)
qed

lemma crc_byte_xor: "crc_byte (a XOR b) = crc_byte a XOR crc_byte b"
  by (simp add: crc_byte_def crc_bit_xor)

lemma crc_byte_high: "crc_byte (push_bit 8 c) = take_bit 8 c"
proof -
  have s: "crc_bit (push_bit (Suc n) (x :: u16)) = drop_bit 1 (push_bit (Suc n) x)" for n x
  proof -
    have "\<not> bit (push_bit (Suc n) x) 0" by (simp only: bit_push_bit_iff) simp
    then show ?thesis by (simp only: crc_bit_def if_False)
  qed
  have d: "drop_bit 1 (push_bit (Suc n) (take_bit 8 c)) = push_bit n (take_bit 8 c)" if "n < 8" for n
    using that by (intro bit_word_eqI) (auto simp: bit_drop_bit_eq bit_push_bit_iff bit_take_bit_iff simp del: push_bit_Suc)
  have "push_bit 8 c = push_bit 8 (take_bit 8 c)"
    by (rule bit_word_eqI) (auto simp: bit_simps)
  also have "crc_byte \<dots> = take_bit 8 c"
  proof -
    have e: "(8 :: nat) = Suc 7" "(7 :: nat) = Suc 6" "(6 :: nat) = Suc 5" "(5 :: nat) = Suc 4" "(4 :: nat) = Suc 3"
      "(3 :: nat) = Suc 2" "(2 :: nat) = Suc 1" "(1 :: nat) = Suc 0" by simp_all
    have r: "n < 8 \<Longrightarrow> crc_bit (push_bit (Suc n) (take_bit 8 c)) = push_bit n (take_bit 8 c)" for n
      using s d by metis
    have "crc_bit (push_bit 8 (take_bit 8 c)) = push_bit 7 (take_bit 8 c)"
      "crc_bit (push_bit 7 (take_bit 8 c)) = push_bit 6 (take_bit 8 c)"
      "crc_bit (push_bit 6 (take_bit 8 c)) = push_bit 5 (take_bit 8 c)"
      "crc_bit (push_bit 5 (take_bit 8 c)) = push_bit 4 (take_bit 8 c)"
      "crc_bit (push_bit 4 (take_bit 8 c)) = push_bit 3 (take_bit 8 c)"
      "crc_bit (push_bit 3 (take_bit 8 c)) = push_bit 2 (take_bit 8 c)"
      "crc_bit (push_bit 2 (take_bit 8 c)) = push_bit 1 (take_bit 8 c)"
      "crc_bit (push_bit 1 (take_bit 8 c)) = push_bit 0 (take_bit 8 c)"
      using r [of 7] r [of 6] r [of 5] r [of 4] r [of 3] r [of 2] r [of 1] r [of 0] by (simp_all only: e [symmetric])
    then show ?thesis by (simp only: crc_byte_def) simp
  qed
  finally show ?thesis .
qed

lemma table_double:
  assumes "map (\<lambda>i. crc_byte (of_nat i)) [0..<2 ^ k] = t" "k < 8"
  shows "map (\<lambda>i. crc_byte (of_nat i)) [0..<2 ^ Suc k] = t @ map (\<lambda>x. crc_byte (of_nat (2 ^ k)) XOR x) t"
proof -
  have x: "(of_nat (2 ^ k + i) :: u16) = of_nat (2 ^ k) XOR of_nat i" if i: "i < 2 ^ k" for i
  proof -
    have "take_bit k i = i" using i by (simp add: take_bit_nat_eq_self)
    then have b: "bit i n \<Longrightarrow> n < k" for n by (metis bit_take_bit_iff)
    have "(of_nat (2 ^ k) :: u16) AND of_nat i = 0"
      by (rule bit_word_eqI) (use b in \<open>auto simp: bit_and_iff bit_simps\<close>)
    then show ?thesis by (simp only: of_nat_add disjunctive_add_eq_xor)
  qed
  have "[0..<2 ^ Suc k] = [0..<2 ^ k] @ map (\<lambda>i. 2 ^ k + i) [0..<2 ^ k]"
    using map_add_upt [of "2 ^ k" "2 ^ k"] upt_add_eq_append [of 0 "2 ^ k" "2 ^ k"] by (simp add: mult_2 add.commute)
  then show ?thesis
    using assms(1) x by (auto simp: crc_byte_xor simp del: of_nat_add of_nat_power)
qed
lemma crc_table_bitwise: "map (\<lambda>i. crc_byte (of_nat i)) [0..<256] = crcTable"
proof -
  have b: "crc_byte 1 = 0x1189" "crc_byte 2 = 0x2312" "crc_byte 4 = 0x4624" "crc_byte 8 = 0x8C48"
    "crc_byte 16 = 0x1081" "crc_byte 32 = 0x2102" "crc_byte 64 = 0x4204" "crc_byte 128 = 0x8408"
    by (simp_all add: crc_byte_def crc_bit_def)
  have t0: "map (\<lambda>i. crc_byte (of_nat i)) [0..<2 ^ 0] = [0]" by (simp add: crc_byte_def crc_bit_def)
  have t1: "map (\<lambda>i. crc_byte (of_nat i)) [0..<2 ^ 1] = [0, 0x1189]"
    using table_double [OF t0] b by simp
  have t2: "map (\<lambda>i. crc_byte (of_nat i)) [0..<2 ^ 2] = take 4 crcTable"
    using table_double [OF t1] b by (simp add: crcTable_def)
  have t3: "map (\<lambda>i. crc_byte (of_nat i)) [0..<2 ^ 3] = take 8 crcTable"
    using table_double [OF t2] b by (simp add: crcTable_def)
  have t4: "map (\<lambda>i. crc_byte (of_nat i)) [0..<2 ^ 4] = take 16 crcTable"
    using table_double [OF t3] b by (simp add: crcTable_def)
  have t5: "map (\<lambda>i. crc_byte (of_nat i)) [0..<2 ^ 5] = take 32 crcTable"
    using table_double [OF t4] b by (simp add: crcTable_def)
  have t6: "map (\<lambda>i. crc_byte (of_nat i)) [0..<2 ^ 6] = take 64 crcTable"
    using table_double [OF t5] b by (simp add: crcTable_def)
  have t7: "map (\<lambda>i. crc_byte (of_nat i)) [0..<2 ^ 7] = take 128 crcTable"
    using table_double [OF t6] b by (simp add: crcTable_def)
  have t8: "map (\<lambda>i. crc_byte (of_nat i)) [0..<2 ^ 8] = take 256 crcTable"
    using table_double [OF t7] b by (simp add: crcTable_def)
  then show ?thesis by (simp add: crcTable_def)
qed

lemma crc_step: "crcTable ! unat ((crc XOR ucast b) AND 0xFF) XOR drop_bit 8 crc = crc_byte (crc XOR ucast (b :: byte))"
proof -
  define x where "x = crc XOR ucast b"
  have m: "(0xFF :: u16) = mask 8" by (simp add: mask_eq_exp_minus_1)
  have "unat (x AND 0xFF) < 2 ^ 8"
    unfolding m by (simp add: take_bit_eq_mask [symmetric] unsigned_take_bit_eq take_bit_nat_less_exp del: power_numeral)
  then have "unat (x AND 0xFF) < length [0..<256]" by simp
  then have t: "crcTable ! unat (x AND 0xFF) = crc_byte (x AND 0xFF)"
    unfolding crc_table_bitwise [symmetric] by (simp only: nth_map nth_upt) simp
  have "x = (x AND 0xFF) XOR push_bit 8 (drop_bit 8 x)"
    unfolding m by (rule bit_word_eqI) (auto simp: bit_simps)
  then have "crc_byte x = crc_byte (x AND 0xFF) XOR take_bit 8 (drop_bit 8 x)"
    by (metis crc_byte_xor crc_byte_high)
  moreover have "take_bit 8 (drop_bit 8 x) = drop_bit 8 crc"
    unfolding x_def by (rule bit_word_eqI) (auto simp: bit_simps dest: bit_imp_le_length)
  ultimately show ?thesis using t unfolding x_def by simp
qed

text \<open>
  C21. The table-driven checksum is the bitwise one, the remainder for the polynomial of CCITT
  with the bits of each byte taken from the lowest.
\<close>

theorem crc_is_bitwise:
  "CRC16_Compute bs crc = foldl (\<lambda>crc b. (crc_bit ^^ 8) (crc XOR ucast b)) crc bs"
proof -
  have "(crc_bit ^^ 8) c = crc_byte c" for c by (simp add: crc_byte_def numeral_nat)
  then show ?thesis by (simp add: CRC16_Compute_def crc_step)
qed

end
