(* ===== verification/Slap_Stream.thy ===== *)
theory Slap_Stream
  imports Slap_Packet
begin

text \<open>
  The reliable stream over the serial link (\<^verbatim>\<open>common/src/SLAPStream.cc\<close>) at the level of
  packets: what is queued, sent and acknowledged, and what a received packet changes. Packets
  on the way are values of \<open>wire\<close>; how they are framed is the subject of the previous theory.
  Sequence numbers are below eight. Free packets are counted. Timers are left out: an alarm
  may go off at any time.
\<close>

subsection \<open>State\<close>

datatype wire =
    W_data (w_seq: nat) (w_ack: nat) "byte list"
  | W_ack nat
  | W_ctrl ControlPacketType "byte list"

datatype entry = E_ctrl | E_data nat "byte list"

datatype ctl = CtlAck | Ctl ControlPacketType "byte list"

text \<open>
  The packet being transmitted, as its header was written. When the control packet is
  overwritten half-way, what is left of it is no frame.
\<close>

datatype current = C_none | C_data nat nat "byte list" | C_ctrl wire | C_spoiled

datatype LinkState = LINK_UNINITIALIZED | LINK_INITIALIZED | LINK_ACTIVE | LINK_DYING | LINK_DEAD

record SLAPStream =
  linkState :: LinkState
  packetSize :: nat
  maxPacketSize :: nat
  windowSize :: nat
  maxWindowSize :: nat
  protocolVersion :: nat
  st_configField :: "byte list"
  txIdle :: bool
  getNextPacket :: bool
  expectedSeq :: nat
  txSeqNum :: nat
  currentTxAck :: nat
  pendingAcks :: nat
  rxFree :: nat
  rxQueue :: "byte list list"
  txFree :: nat
  txQueue :: "entry list"
  txSent :: "(nat \<times> byte list) list"
  txCurrent :: current
  txCtrl :: ctl

definition SLAP_PROTOCOL_VERSION_NUMBER :: nat where "SLAP_PROTOCOL_VERSION_NUMBER = 1"
definition SLAP_MAX_WINDOW_SIZE :: nat where "SLAP_MAX_WINDOW_SIZE = 4"

definition new_SLAPStream :: "nat \<Rightarrow> nat \<Rightarrow> SLAPStream" where
  "new_SLAPStream maxPacket maxWindow =
     (let w = (if maxWindow \<noteq> 1 \<and> maxWindow \<noteq> 2 \<and> maxWindow \<noteq> 4 then SLAP_MAX_WINDOW_SIZE else maxWindow);
          w = (if w > SLAP_MAX_WINDOW_SIZE then SLAP_MAX_WINDOW_SIZE else w)
      in \<lparr>linkState = LINK_UNINITIALIZED, packetSize = maxPacket, maxPacketSize = maxPacket,
          windowSize = w, maxWindowSize = w, protocolVersion = 0, st_configField = [0, 0, 0],
          txIdle = True, getNextPacket = True, expectedSeq = 0, txSeqNum = 0, currentTxAck = 0,
          pendingAcks = 0, rxFree = 0, rxQueue = [], txFree = 0, txQueue = [], txSent = [],
          txCurrent = C_none, txCtrl = CtlAck\<rparr>)"

definition SEQ_GT :: "nat \<Rightarrow> nat \<Rightarrow> SLAPStream \<Rightarrow> bool" where
  "SEQ_GT s1 s2 s \<longleftrightarrow> (7 + int s1 - int s2) mod 8 < int (windowSize s)"

subsection \<open>Control packets\<close>

text \<open>The control packet is a single object, put at the head of the queue unless it is there.\<close>

fun spoil :: "current \<Rightarrow> current" where
  "spoil (C_ctrl w) = C_spoiled"
| "spoil c = c"

definition put_ctrl :: "ctl \<Rightarrow> SLAPStream \<Rightarrow> SLAPStream" where
  "put_ctrl c s =
     s\<lparr>txCtrl := c,
       txCurrent := (if getNextPacket s then txCurrent s else spoil (txCurrent s)),
       txQueue := (case txQueue s of E_ctrl # q \<Rightarrow> E_ctrl # q | q \<Rightarrow> E_ctrl # q)\<rparr>"

definition EnqueueCtrl :: "ControlPacketType \<Rightarrow> byte list \<Rightarrow> SLAPStream \<Rightarrow> SLAPStream" where
  "EnqueueCtrl t config s = put_ctrl (Ctl t config) s"

definition encodedWindow :: "nat \<Rightarrow> nat" where
  "encodedWindow w = (if w = 1 then 0 else if w = 2 then 1 else if w = 4 then 2 else 3)"

definition config_bytes :: "nat \<Rightarrow> nat \<Rightarrow> nat \<Rightarrow> byte list" where
  "config_bytes sz version w =
     [of_nat (sz div 256), of_nat (sz mod 256), of_nat (version * 4) OR of_nat (encodedWindow w)]"

definition config_size :: "byte list \<Rightarrow> nat" where
  "config_size cf = unat (cf ! 0) * 256 + unat (cf ! 1)"

definition config_window :: "byte list \<Rightarrow> nat" where
  "config_window cf = 2 ^ (unat (cf ! 2) mod 4)"

definition config_version :: "byte list \<Rightarrow> nat" where
  "config_version cf = unat (cf ! 2) div 4"

text \<open>
  The answer to a configuration. The check of the packet size compares it with itself; the
  buffers are allocated when the configuration is accepted.
\<close>

definition configure_link :: "byte list \<Rightarrow> SLAPStream \<Rightarrow> SLAPStream" where
  "configure_link cf s =
     (let s = s\<lparr>packetSize := config_size cf, windowSize := config_window cf, protocolVersion := config_version cf\<rparr>
      in if packetSize s > packetSize s then s\<lparr>linkState := LINK_DEAD\<rparr>
         else if windowSize s > maxWindowSize s then s\<lparr>linkState := LINK_DEAD\<rparr>
         else s\<lparr>txFree := txFree s + windowSize s, rxFree := rxFree s + windowSize s, linkState := LINK_ACTIVE\<rparr>)"

definition agree_link :: "byte list \<Rightarrow> SLAPStream \<Rightarrow> SLAPStream" where
  "agree_link cf s =
     (let sz = (if config_size cf < maxPacketSize s then config_size cf else packetSize s);
          w = (if config_window cf < maxWindowSize s then config_window cf else maxWindowSize s);
          v = (if config_version cf < SLAP_PROTOCOL_VERSION_NUMBER then config_version cf else SLAP_PROTOCOL_VERSION_NUMBER)
      in EnqueueCtrl NEGO_RESP_PKT (config_bytes sz v w)
           (s\<lparr>packetSize := sz, windowSize := w, protocolVersion := v, st_configField := config_bytes sz v w\<rparr>))"

definition ProcessControlPacket :: "ControlPacketType \<Rightarrow> byte list \<Rightarrow> SLAPStream \<Rightarrow> SLAPStream" where
  "ProcessControlPacket t cf s =
     (if t = UNKNOWN_PKT then s
      else case linkState s of
        LINK_UNINITIALIZED \<Rightarrow>
          if t = CONN_PKT then EnqueueCtrl ACCEPT_PKT [] s
          else if t = ACCEPT_PKT then
            (let c = config_bytes (maxPacketSize s) SLAP_PROTOCOL_VERSION_NUMBER (maxWindowSize s)
             in EnqueueCtrl NEGO_PKT c (s\<lparr>linkState := LINK_INITIALIZED, st_configField := c\<rparr>))
          else s
      | LINK_INITIALIZED \<Rightarrow>
          if t = CONN_PKT then EnqueueCtrl ACCEPT_PKT [] s
          else if t = NEGO_RESP_PKT then configure_link cf s
          else if t = NEGO_PKT then agree_link cf s
          else s
      | LINK_ACTIVE \<Rightarrow>
          if t = NEGO_PKT then
            (let c = config_bytes (packetSize s) (protocolVersion s) (windowSize s)
             in EnqueueCtrl NEGO_RESP_PKT c (s\<lparr>st_configField := c\<rparr>))
          else if t = CONN_PKT then s\<lparr>linkState := LINK_DEAD\<rparr>
          else if t = DISCONN_PKT then (EnqueueCtrl DISCONN_RESP_PKT [] s)\<lparr>linkState := LINK_DEAD\<rparr>
          else s
      | LINK_DYING \<Rightarrow>
          if t = DISCONN_RESP_PKT then s\<lparr>linkState := LINK_DEAD\<rparr>
          else if t = DISCONN_PKT then EnqueueCtrl DISCONN_RESP_PKT [] s
          else s
      | LINK_DEAD \<Rightarrow> s)"

definition ScheduleLinkControlPacket :: "SLAPStream \<Rightarrow> SLAPStream" where
  "ScheduleLinkControlPacket s =
     (case linkState s of
        LINK_UNINITIALIZED \<Rightarrow> EnqueueCtrl CONN_PKT [] s
      | LINK_INITIALIZED \<Rightarrow> EnqueueCtrl NEGO_PKT (st_configField s) s
      | LINK_DYING \<Rightarrow> EnqueueCtrl DISCONN_PKT (st_configField s) s
      | _ \<Rightarrow> s)"

text \<open>Closing sends a packet and waits; what happens when the wait is over is the second part.\<close>

definition Close_begin :: "SLAPStream \<Rightarrow> SLAPStream" where
  "Close_begin s =
     (if protocolVersion s \<ge> 1
      then (if linkState s \<noteq> LINK_DEAD then ScheduleLinkControlPacket (s\<lparr>linkState := LINK_DYING\<rparr>) else s)
      else s\<lparr>linkState := LINK_DEAD\<rparr>)"

definition Close_end :: "SLAPStream \<Rightarrow> SLAPStream" where
  "Close_end s = s\<lparr>linkState := LINK_DEAD\<rparr>"

subsection \<open>Sending\<close>

text \<open>
  Queues as many packets as are free, and tells how many bytes that took. Where the
  code waits for more free packets, without limit if the caller gave no time-out, the model
  takes the wait to have timed out.
\<close>

fun queue_packets :: "nat \<Rightarrow> byte list \<Rightarrow> SLAPStream \<Rightarrow> nat \<times> SLAPStream" where
  "queue_packets 0 bs s = (0, s)"
| "queue_packets (Suc free) bs s =
     (if bs = [] then (0, s)
      else let p = take (packetSize s) bs;
               (n, s') = queue_packets free (drop (packetSize s) bs)
                 (s\<lparr>txFree := free, txQueue := txQueue s @ [E_data (txSeqNum s) p],
                    txSeqNum := (txSeqNum s + 1) mod 8\<rparr>)
           in (length p + n, s'))"

definition PushBytes :: "byte list \<Rightarrow> SLAPStream \<Rightarrow> QStatus \<times> nat \<times> SLAPStream" where
  "PushBytes bs s =
     (if linkState s = LINK_DEAD \<and> bs \<noteq> [] then (ER_SLAP_OTHER_END_CLOSED, 0, s)
      else case queue_packets (txFree s) bs s of (n, s) \<Rightarrow>
            (if n = 0 \<and> bs \<noteq> [] then ER_TIMEOUT else ER_OK, n, s))"

text \<open>
  Transmission up to the first delivery that fails; the list says which succeed, and all do
  when it is used up. What is left of the packet is sent when transmission goes on.
\<close>

definition load_packet :: "SLAPStream \<Rightarrow> SLAPStream" where
  "load_packet s =
     (case txQueue s of
        [] \<Rightarrow> s
      | E_data n p # q \<Rightarrow>
          s\<lparr>txQueue := q, txCurrent := C_data n (currentTxAck s) p, pendingAcks := 0, getNextPacket := False\<rparr>
      | E_ctrl # q \<Rightarrow>
          (case txCtrl s of
             CtlAck \<Rightarrow> s\<lparr>txQueue := q, txCurrent := C_ctrl (W_ack (currentTxAck s)), pendingAcks := 0, getNextPacket := False\<rparr>
           | Ctl t c \<Rightarrow> s\<lparr>txQueue := q, txCurrent := C_ctrl (W_ctrl t c), getNextPacket := False\<rparr>))"

fun frames_of :: "current \<Rightarrow> wire list" where
  "frames_of (C_data n a p) = [W_data n a p]"
| "frames_of (C_ctrl w) = [w]"
| "frames_of _ = []"

fun sent_of :: "current \<Rightarrow> (nat \<times> byte list) list" where
  "sent_of (C_data n a p) = [(n, p)]"
| "sent_of _ = []"

definition finish_packet :: "SLAPStream \<Rightarrow> SLAPStream" where
  "finish_packet s = s\<lparr>txSent := txSent s @ sent_of (txCurrent s), getNextPacket := True\<rparr>"

function transmit_loop :: "bool list \<Rightarrow> SLAPStream \<Rightarrow> wire list \<times> SLAPStream" where
  "transmit_loop ok s =
     (if txQueue s = [] then ([], s)
      else let s = (if getNextPacket s then load_packet s else s)
           in if ok \<noteq> [] \<and> \<not> hd ok then ([], s)
              else case transmit_loop (tl ok) (finish_packet s) of
                     (ws, s') \<Rightarrow> (frames_of (txCurrent s) @ ws, s'))"
  by pat_completeness auto

termination transmit_loop
proof (relation "measure (\<lambda>(ok, s). length (txQueue s) + (if getNextPacket s then 0 else 1))", goal_cases)
  case (2 ok s x)
  then show ?case
    by (cases "txQueue s") (auto simp: load_packet_def finish_packet_def split: entry.splits ctl.splits)
qed simp

declare transmit_loop.simps [simp del]

definition TransmitToLink :: "bool list \<Rightarrow> SLAPStream \<Rightarrow> wire list \<times> SLAPStream" where
  "TransmitToLink ok s =
     (case transmit_loop ok (s\<lparr>txIdle := False\<rparr>) of (ws, s) \<Rightarrow> (ws, s\<lparr>txIdle := True\<rparr>))"

subsection \<open>Alarms\<close>

datatype CallbackType = SEND_DATA_ALARM | RESEND_DATA_ALARM | ACK_ALARM | RESEND_CONTROL_ALARM

definition requeue_sent :: "SLAPStream \<Rightarrow> SLAPStream" where
  "requeue_sent s =
     (let es = map (\<lambda>(n, p). E_data n p) (txSent s)
      in s\<lparr>txQueue := (case txQueue s of E_ctrl # q \<Rightarrow> E_ctrl # es @ q | q \<Rightarrow> es @ q), txSent := []\<rparr>)"

definition AlarmTriggered :: "CallbackType \<Rightarrow> bool list \<Rightarrow> SLAPStream \<Rightarrow> wire list \<times> SLAPStream" where
  "AlarmTriggered a ok s =
     (case a of
        SEND_DATA_ALARM \<Rightarrow> TransmitToLink ok s
      | RESEND_DATA_ALARM \<Rightarrow>
          if linkState s \<noteq> LINK_ACTIVE \<or> txSent s = [] then ([], s) else TransmitToLink ok (requeue_sent s)
      | ACK_ALARM \<Rightarrow>
          (case (if pendingAcks s > 0 then TransmitToLink ok (put_ctrl CtlAck (s\<lparr>pendingAcks := 0\<rparr>)) else ([], s)) of
             (ws, s) \<Rightarrow> (ws, ScheduleLinkControlPacket s))
      | RESEND_CONTROL_ALARM \<Rightarrow> ([], ScheduleLinkControlPacket s))"

subsection \<open>Receiving\<close>

definition ProcessDataSeqNum :: "nat \<Rightarrow> SLAPStream \<Rightarrow> SLAPStream" where
  "ProcessDataSeqNum seq s =
     (let s = (if \<not> SEQ_GT (currentTxAck s) seq s then s\<lparr>currentTxAck := (seq + 1) mod 8\<rparr> else s)
      in if \<not> txIdle s then s else s\<lparr>pendingAcks := (pendingAcks s + 1) mod 256\<rparr>)"

definition ProcessAckNum :: "nat \<Rightarrow> SLAPStream \<Rightarrow> SLAPStream" where
  "ProcessAckNum ack s =
     (let freed = takeWhile (\<lambda>(n, p). SEQ_GT ack n s) (txSent s)
      in s\<lparr>txSent := drop (length freed) (txSent s), txFree := txFree s + length freed\<rparr>)"

definition receive_data :: "nat \<Rightarrow> byte list \<Rightarrow> SLAPStream \<Rightarrow> SLAPStream" where
  "receive_data seq p s =
     (if seq \<noteq> expectedSeq s then
        (if SEQ_GT seq (expectedSeq s) s then s else ProcessDataSeqNum seq s)
      else if rxFree s > 0 then
        (let s = ProcessDataSeqNum seq (s\<lparr>expectedSeq := (expectedSeq s + 1) mod 8\<rparr>)
         in s\<lparr>rxQueue := rxQueue s @ [p], rxFree := rxFree s - 1\<rparr>)
      else s)"

fun receive_packet :: "wire \<Rightarrow> SLAPStream \<Rightarrow> SLAPStream" where
  "receive_packet (W_data seq ack p) s = receive_data seq p (ProcessAckNum ack s)"
| "receive_packet (W_ack ack) s = ProcessAckNum ack s"
| "receive_packet (W_ctrl t cf) s = ProcessControlPacket t cf s"

text \<open>
  Reading takes from the first packets what is there. Where the code waits for more, without
  limit if the caller gave no time-out, the model takes the wait to have timed out. The count
  of bytes is cut to sixteen bits for each packet; when that leaves none, the loop makes no
  progress and does not end.
\<close>

fun pull_loop :: "nat \<Rightarrow> byte list list \<Rightarrow> nat \<Rightarrow> (byte list \<times> byte list list \<times> nat) option" where
  "pull_loop req [] free = Some ([], [], free)"
| "pull_loop req (p # ps) free =
     (if req = 0 then Some ([], p # ps, free)
      else let n = min (req mod 65536) (length p)
           in if n = length p then
                map_option (\<lambda>(bs, qs, f). (p @ bs, qs, f)) (pull_loop (req - n) ps (free + 1))
              else if n = req then Some (take n p, drop n p # ps, free)
              else None)"

definition SLAP_PullBytes :: "nat \<Rightarrow> SLAPStream \<Rightarrow> (QStatus \<times> byte list \<times> SLAPStream) option" where
  "SLAP_PullBytes req s =
     (if linkState s = LINK_DEAD \<and> req > 0 then Some (ER_SLAP_OTHER_END_CLOSED, [], s)
      else map_option (\<lambda>(bs, q, f). (if bs = [] \<and> req > 0 then ER_TIMEOUT else ER_OK, bs, s\<lparr>rxQueue := q, rxFree := f\<rparr>))
             (pull_loop req (rxQueue s) (rxFree s)))"

subsection \<open>Two ends and the line between them\<close>

text \<open>
  Two streams that face each other, the frames under way to each of them, and, for the
  theorems, the bytes each has been given to send and has handed out. A frame arrives or is
  lost, as one is that was cut short by a write that took only part of it; control packets of whatever origin may arrive besides.
\<close>

datatype side = LeftEnd | RightEnd

record channel =
  stream :: SLAPStream
  incoming :: "wire list"
  given :: "byte list"
  handed :: "byte list"

type_synonym link = "channel \<times> channel"

datatype event =
    Push "byte list"
  | Pull nat
  | Alarm CallbackType "bool list"
  | Arrive
  | Lose
  | Noise ControlPacketType "byte list"
  | Begin_close
  | End_close

definition local_step :: "channel \<Rightarrow> event \<Rightarrow> (wire list \<times> channel) option" where
  "local_step c e =
     (case e of
        Push bs \<Rightarrow> (case PushBytes bs (stream c) of (status, n, s) \<Rightarrow>
          Some ([], c\<lparr>stream := s, given := given c @ take n bs\<rparr>))
      | Pull n \<Rightarrow> map_option (\<lambda>(status, bs, s). ([], c\<lparr>stream := s, handed := handed c @ bs\<rparr>)) (SLAP_PullBytes n (stream c))
      | Alarm a ok \<Rightarrow> (case AlarmTriggered a ok (stream c) of (ws, s) \<Rightarrow> Some (ws, c\<lparr>stream := s\<rparr>))
      | Arrive \<Rightarrow> Some ([], case incoming c of [] \<Rightarrow> c
          | w # ws \<Rightarrow> c\<lparr>stream := receive_packet w (stream c), incoming := ws\<rparr>)
      | Lose \<Rightarrow> Some ([], c\<lparr>incoming := tl (incoming c)\<rparr>)
      | Noise t cf \<Rightarrow> Some ([], c\<lparr>stream := ProcessControlPacket t cf (stream c)\<rparr>)
      | Begin_close \<Rightarrow> Some ([], c\<lparr>stream := Close_begin (stream c)\<rparr>)
      | End_close \<Rightarrow> Some ([], c\<lparr>stream := Close_end (stream c)\<rparr>))"

fun link_step :: "link \<Rightarrow> side \<times> event \<Rightarrow> link option" where
  "link_step (a, b) (LeftEnd, e) =
     map_option (\<lambda>(ws, a). (a, b\<lparr>incoming := incoming b @ ws\<rparr>)) (local_step a e)"
| "link_step (a, b) (RightEnd, e) =
     map_option (\<lambda>(ws, b). (a\<lparr>incoming := incoming a @ ws\<rparr>, b)) (local_step b e)"

text \<open>A stream whose link has been set up with the given packet and window size.\<close>

definition linked :: "nat \<Rightarrow> nat \<Rightarrow> channel" where
  "linked sz w =
     \<lparr>stream = ProcessControlPacket NEGO_RESP_PKT (config_bytes sz 1 w)
        (ProcessControlPacket ACCEPT_PKT [] (new_SLAPStream sz w)),
      incoming = [], given = [], handed = []\<rparr>"

text \<open>Requests for reading below 64K, and deliveries that succeed.\<close>

fun link_adm :: "side \<times> event \<Rightarrow> bool" where
  "link_adm (_, Pull n) \<longleftrightarrow> n < 65536"
| "link_adm (_, Alarm a ok) \<longleftrightarrow> False \<notin> set ok"
| "link_adm _ \<longleftrightarrow> True"

definition corrupting :: "(side \<times> event) list" where
  "corrupting =
    [(LeftEnd, Alarm SEND_DATA_ALARM []), (RightEnd, Arrive),
     (LeftEnd, Push [0]), (LeftEnd, Push [1]), (LeftEnd, Push [2]), (LeftEnd, Push [3]),
     (LeftEnd, Alarm SEND_DATA_ALARM [True, False]), (RightEnd, Arrive),
     (LeftEnd, Alarm RESEND_DATA_ALARM [True, True, False]), (RightEnd, Arrive), (RightEnd, Arrive),
     (LeftEnd, Alarm RESEND_DATA_ALARM [True, True, False]), (RightEnd, Arrive), (RightEnd, Arrive),
     (RightEnd, Alarm ACK_ALARM []), (LeftEnd, Arrive), (RightEnd, Pull 100),
     (LeftEnd, Push [4]), (LeftEnd, Push [5]),
     (LeftEnd, Alarm SEND_DATA_ALARM [True, False]), (RightEnd, Arrive),
     (LeftEnd, Alarm RESEND_DATA_ALARM [True, True, False]), (RightEnd, Arrive), (RightEnd, Arrive),
     (LeftEnd, Alarm RESEND_DATA_ALARM []), (RightEnd, Arrive), (RightEnd, Arrive), (RightEnd, Arrive), (RightEnd, Arrive),
     (RightEnd, Alarm ACK_ALARM []), (LeftEnd, Arrive), (RightEnd, Pull 100),
     (LeftEnd, Push [6]), (LeftEnd, Push [7]),
     (LeftEnd, Alarm SEND_DATA_ALARM []), (RightEnd, Arrive), (RightEnd, Arrive),
     (LeftEnd, Alarm RESEND_DATA_ALARM []), (RightEnd, Arrive)]"

end
