(* ===== verification/Slap_Delivery.thy ===== *)
theory Slap_Delivery
  imports Slap_Stream
begin

text \<open>
  What two streams that face each other deliver. As long as no delivery to the device
  fails, each end hands out a prefix of the bytes given to the other, whatever frames are
  lost and whenever alarms go off. When a delivery fails, resending reorders the packets and
  old bytes are handed out as new ones.
\<close>

subsection \<open>What the streams hold\<close>

text \<open>Data packets in a transmit queue, and data and acknowledgments among frames.\<close>

fun data_of :: "entry list \<Rightarrow> (nat \<times> byte list) list" where
  "data_of [] = []"
| "data_of (E_ctrl # q) = data_of q"
| "data_of (E_data n p # q) = (n, p) # data_of q"

fun frames :: "wire list \<Rightarrow> (nat \<times> byte list) list" where
  "frames [] = []"
| "frames (W_data n a p # ws) = (n, p) # frames ws"
| "frames (_ # ws) = frames ws"

fun acks :: "wire list \<Rightarrow> nat list" where
  "acks [] = []"
| "acks (W_data n a p # ws) = a # acks ws"
| "acks (W_ack a # ws) = a # acks ws"
| "acks (_ # ws) = acks ws"

lemma data_of_append [simp]: "data_of (q @ r) = data_of q @ data_of r"
  by (induction q rule: data_of.induct) auto

lemma frames_append [simp]: "frames (v @ w) = frames v @ frames w"
  by (induction v rule: frames.induct) auto

lemma acks_append [simp]: "acks (v @ w) = acks v @ acks w"
  by (induction v rule: acks.induct) auto

lemma data_of_map [simp]: "data_of (map (\<lambda>(n, p). E_data n p) ps) = ps"
  by (induction ps) auto

text \<open>The link has been set up, and no packet is waiting to be sent on.\<close>

definition up :: "nat \<Rightarrow> SLAPStream \<Rightarrow> bool" where
  "up W s \<longleftrightarrow> windowSize s = W \<and> getNextPacket s \<and> linkState s \<notin> {LINK_UNINITIALIZED, LINK_INITIALIZED}"

text \<open>Two states that differ at most in the control packet and the state of the link.\<close>

definition agree :: "SLAPStream \<Rightarrow> SLAPStream \<Rightarrow> bool" where
  "agree s t \<longleftrightarrow> txSent t = txSent s \<and> data_of (txQueue t) = data_of (txQueue s) \<and> txFree t = txFree s \<and>
     txSeqNum t = txSeqNum s \<and> expectedSeq t = expectedSeq s \<and> currentTxAck t = currentTxAck s \<and>
     rxQueue t = rxQueue s \<and> rxFree t = rxFree s \<and> packetSize t = packetSize s"

lemma agree_refl [simp]: "agree s s"
  by (simp add: agree_def)

lemma agree_trans: "agree s t \<Longrightarrow> agree t u \<Longrightarrow> agree s u"
  by (simp add: agree_def)

lemma put_ctrl_agree [simp]: "agree s (put_ctrl c s)" "up W (put_ctrl c s) = up W s"
  by (auto simp: agree_def put_ctrl_def up_def split: list.splits entry.splits)

lemma EnqueueCtrl_agree [simp]: "agree s (EnqueueCtrl t c s)" "up W (EnqueueCtrl t c s) = up W s"
  by (simp_all add: EnqueueCtrl_def)

lemma agree_state:
  "agree s (t\<lparr>linkState := l\<rparr>) = agree s t" "agree s (t\<lparr>st_configField := f\<rparr>) = agree s t"
  "agree (s\<lparr>linkState := l\<rparr>) t = agree s t" "agree (s\<lparr>st_configField := f\<rparr>) t = agree s t"
  "agree (s\<lparr>pendingAcks := n\<rparr>) t = agree s t" "agree s (t\<lparr>pendingAcks := n\<rparr>) = agree s t"
  "agree (s\<lparr>txIdle := b\<rparr>) t = agree s t" "agree s (t\<lparr>txIdle := b\<rparr>) = agree s t"
  by (simp_all add: agree_def)

lemma up_state:
  "up W (s\<lparr>st_configField := f\<rparr>) = up W s" "up W (s\<lparr>pendingAcks := n\<rparr>) = up W s"
  "up W (s\<lparr>txIdle := b\<rparr>) = up W s"
  "up W s \<Longrightarrow> l = LINK_DEAD \<or> l = LINK_DYING \<Longrightarrow> up W (s\<lparr>linkState := l\<rparr>)"
  by (auto simp: up_def)

lemma ProcessControlPacket_agree:
  assumes "up W s"
  shows "agree s (ProcessControlPacket t c s) \<and> up W (ProcessControlPacket t c s)"
proof -
  have e: "agree s (EnqueueCtrl t' c' (s\<lparr>st_configField := f\<rparr>))" for t' c' f
    by (rule agree_trans [OF _ EnqueueCtrl_agree(1)]) (simp add: agree_state)
  have "linkState s \<in> {LINK_ACTIVE, LINK_DYING, LINK_DEAD}"
    using assms by (cases "linkState s") (auto simp: up_def)
  then show ?thesis
    using assms e by (auto simp: ProcessControlPacket_def agree_state up_state Let_def)
qed

lemma ScheduleLinkControlPacket_agree:
  "up W s \<Longrightarrow> agree s (ScheduleLinkControlPacket s) \<and> up W (ScheduleLinkControlPacket s)"
  by (auto simp: ScheduleLinkControlPacket_def split: LinkState.splits)

lemma Close_agree:
  assumes "up W s"
  shows "agree s (Close_begin s) \<and> up W (Close_begin s)" "agree s (Close_end s) \<and> up W (Close_end s)"
proof -
  have "up W (s\<lparr>linkState := LINK_DYING\<rparr>)" using assms by (simp add: up_state)
  then show "agree s (Close_begin s) \<and> up W (Close_begin s)"
    using ScheduleLinkControlPacket_agree [of W "s\<lparr>linkState := LINK_DYING\<rparr>"] assms
    by (simp add: Close_begin_def agree_state up_state)
  show "agree s (Close_end s) \<and> up W (Close_end s)"
    using assms by (simp add: Close_end_def agree_state up_state)
qed

subsection \<open>Transmission without failures\<close>

lemma all_tl: "False \<notin> set ok \<Longrightarrow> (ok = [] \<or> hd ok) \<and> False \<notin> set (tl ok)"
  by (cases ok) auto

lemma transmit_loop_all:
  assumes "False \<notin> set ok" "up W s"
  shows "\<exists>ws t. transmit_loop ok s = (ws, t) \<and> frames ws = data_of (txQueue s) \<and>
           set (acks ws) \<subseteq> {currentTxAck s} \<and> up W t \<and> agree (s\<lparr>txQueue := [], txSent := txSent s @ data_of (txQueue s)\<rparr>) t"
  using assms
proof (induction ok s rule: transmit_loop.induct)
  case (1 ok s)
  show ?case
  proof (cases "txQueue s")
    case Nil
    then show ?thesis using 1 by (simp add: agree_def transmit_loop.simps)
  next
    case (Cons e q)
    define l where "l = load_packet s"
    have g: "getNextPacket s" using 1 by (simp add: up_def)
    have h: "\<not> (ok \<noteq> [] \<and> \<not> hd ok)" "False \<notin> set (tl ok)"
      using 1(2) all_tl by blast+
    have u: "up W (finish_packet l)"
      using 1(3) Cons by (auto simp: l_def load_packet_def finish_packet_def up_def split: entry.splits ctl.splits)
    obtain ws t where t: "transmit_loop (tl ok) (finish_packet l) = (ws, t)"
      "frames ws = data_of (txQueue (finish_packet l))" "set (acks ws) \<subseteq> {currentTxAck (finish_packet l)}" "up W t"
      "agree ((finish_packet l)\<lparr>txQueue := [], txSent := txSent (finish_packet l) @ data_of (txQueue (finish_packet l))\<rparr>) t"
      using 1(1) [of l] Cons g h u unfolding l_def by auto
    have "transmit_loop ok s = (frames_of (txCurrent l) @ ws, t)"
      using Cons g h t(1) by (subst transmit_loop.simps) (auto simp: l_def Let_def)
    with t(2-) show ?thesis using Cons
      by (auto simp: l_def load_packet_def finish_packet_def agree_def split: entry.splits ctl.splits)
  qed
qed

lemma TransmitToLink_all:
  assumes "False \<notin> set ok" "up W s"
  shows "\<exists>ws t. TransmitToLink ok s = (ws, t) \<and> frames ws = data_of (txQueue s) \<and>
           set (acks ws) \<subseteq> {currentTxAck s} \<and> up W t \<and> agree (s\<lparr>txQueue := [], txSent := txSent s @ data_of (txQueue s)\<rparr>) t"
proof -
  obtain ws t where "transmit_loop ok (s\<lparr>txIdle := False\<rparr>) = (ws, t)" "frames ws = data_of (txQueue s)"
    "set (acks ws) \<subseteq> {currentTxAck s}" "up W t" "agree (s\<lparr>txIdle := False, txQueue := [], txSent := txSent s @ data_of (txQueue s)\<rparr>) t"
    using transmit_loop_all [of ok W "s\<lparr>txIdle := False\<rparr>"] assms by (auto simp: up_state)
  then show ?thesis
    by (auto simp: TransmitToLink_def up_state agree_def)
qed

subsection \<open>Sequence numbers\<close>

lemma mod8_eq_iff:
  assumes "i \<le> R + 3" "R \<le> i + 4"
  shows "(i :: nat) mod 8 = R mod 8 \<longleftrightarrow> i = R"
proof
  assume "i mod 8 = R mod 8"
  then have "int i mod 8 = int R mod 8" by (metis of_nat_mod of_nat_numeral)
  then have "8 dvd int i - int R" by (simp add: mod_eq_dvd_iff)
  then obtain k where "int i - int R = 8 * k" by (elim dvdE)
  with assms show "i = R" by presburger
qed simp

lemma seq_diff_mod: "(7 + int (A mod 8) - int (i mod 8)) mod 8 = (7 + int A - int i) mod 8"
  by (simp add: of_nat_mod mod_diff_eq mod_add_right_eq mod_diff_left_eq [of "7 + int A mod 8", symmetric]
      mod_diff_left_eq [of "7 + int A", symmetric])

lemma SEQ_GT_mod:
  assumes "windowSize s = W" "W \<le> 4" "i < A + W" "A \<le> i + W"
  shows "SEQ_GT (A mod 8) (i mod 8) s \<longleftrightarrow> i < A"
proof (cases "i < A")
  case True
  then have "7 + int A - int i = (int A - int i - 1) + 8" by simp
  then have "(7 + int A - int i) mod 8 = (int A - int i - 1) mod 8" by (metis mod_add_self2)
  also have "\<dots> = int A - int i - 1" using True assms by (intro mod_pos_pos_trivial) auto
  finally show ?thesis using True assms by (simp add: SEQ_GT_def seq_diff_mod)
next
  case False
  have "(7 + int A - int i) mod 8 = 7 + int A - int i"
    using False assms by (intro mod_pos_pos_trivial) auto
  then show ?thesis using False assms by (simp add: SEQ_GT_def seq_diff_mod)
qed

subsection \<open>One direction\<close>

text \<open>
  All packets ever queued by the sender, numbered from 0: those below \<open>B\<close> are acknowledged,
  those below \<open>M\<close> sent, those below \<open>R\<close> received; \<open>is\<close> are those under way, and \<open>as\<close> the
  numbers that the acknowledgments under way stand for.
\<close>

definition packet :: "byte list list \<Rightarrow> nat \<Rightarrow> nat \<times> byte list" where
  "packet P i = (i mod 8, P ! i)"

definition sending :: "nat \<Rightarrow> byte list list \<Rightarrow> nat \<Rightarrow> nat \<Rightarrow> SLAPStream \<Rightarrow> bool" where
  "sending W P B M s \<longleftrightarrow> B \<le> M \<and> M \<le> length P \<and> txSent s = map (packet P) [B..<M] \<and>
     data_of (txQueue s) = map (packet P) [M..<length P] \<and> txFree s + length P = W + B \<and>
     txSeqNum s = length P mod 8"

definition receiving :: "byte list list \<Rightarrow> nat \<Rightarrow> byte list \<Rightarrow> SLAPStream \<Rightarrow> bool" where
  "receiving P R h s \<longleftrightarrow> R \<le> length P \<and> concat (take R P) = h @ concat (rxQueue s) \<and>
     expectedSeq s = R mod 8 \<and> currentTxAck s = R mod 8"

definition under_way :: "nat \<Rightarrow> byte list list \<Rightarrow> nat \<Rightarrow> nat list \<Rightarrow> wire list \<Rightarrow> bool" where
  "under_way W P R is ws \<longleftrightarrow> frames ws = map (packet P) is \<and> sorted_wrt (\<lambda>j i. j < i + W) is \<and>
     (\<forall>i \<in> set is. i < length P \<and> R \<le> i + W)"

definition acked :: "nat \<Rightarrow> nat \<Rightarrow> nat list \<Rightarrow> wire list \<Rightarrow> bool" where
  "acked B R as ws \<longleftrightarrow> acks ws = map (\<lambda>A. A mod 8) as \<and> sorted as \<and> (\<forall>A \<in> set as. B \<le> A \<and> A \<le> R)"

definition flow :: "nat \<Rightarrow> channel \<Rightarrow> channel \<Rightarrow> bool" where
  "flow W x y \<longleftrightarrow> (\<exists>P B M R is as. given x = concat P \<and> B \<le> R \<and> sending W P B M (stream x) \<and>
     receiving P R (handed y) (stream y) \<and> under_way W P R is (incoming y) \<and> acked B R as (incoming x))"

lemma sending_agree: "agree s t \<Longrightarrow> sending W P B M t = sending W P B M s"
  by (simp add: agree_def sending_def)

lemma receiving_agree: "agree s t \<Longrightarrow> receiving P R h t = receiving P R h s"
  by (simp add: agree_def receiving_def)

text \<open>The packets of a transmission.\<close>

lemma under_way_transmit:
  assumes "sending W P B M s" "B \<le> R" "R \<le> length P" "under_way W P R is ws" "frames v = data_of (txQueue s)"
  shows "under_way W P R (is @ [M..<length P]) (ws @ v)"
proof -
  have n: "length P \<le> B + W" "B \<le> M" using assms(1) by (auto simp: sending_def)
  have "sorted_wrt (\<lambda>j i. j < i + W) [M..<length P]"
    by (rule sorted_wrt_mono_rel [OF _ sorted_wrt_upt]) simp
  moreover have "\<forall>j \<in> set is. \<forall>i \<in> set [M..<length P]. j < i + W"
    using assms(4) n by (force simp: under_way_def)
  moreover have "\<forall>i \<in> set [M..<length P]. i < length P \<and> R \<le> i + W"
    using assms(3) n by auto
  ultimately show ?thesis
    using assms(1,4,5) by (auto simp: under_way_def sending_def sorted_wrt_append)
qed

lemma under_way_tl: "under_way W P R is (w # ws) \<Longrightarrow> \<exists>is'. under_way W P R is' ws"
  by (cases w) (auto simp: under_way_def intro: exI [of _ "tl is"])

lemma acked_tl: "acked B R as (w # ws) \<Longrightarrow> \<exists>as'. acked B R as' ws"
  by (cases w) (auto simp: acked_def intro: exI [of _ "tl as"])

lemma acked_transmit:
  assumes "acked B R as ws" "set (acks v) \<subseteq> {R mod 8}" "B \<le> R"
  shows "acked B R (as @ replicate (length (acks v)) R) (ws @ v)"
proof -
  have "acks v = replicate (length (acks v)) (R mod 8)"
    using assms(2) by (intro replicate_eqI) auto
  then show ?thesis using assms by (auto simp: acked_def sorted_append map_replicate)
qed

lemma requeue_sent_simps:
  "data_of (txQueue (requeue_sent s)) = txSent s @ data_of (txQueue s)" "txSent (requeue_sent s) = []"
  "txFree (requeue_sent s) = txFree s" "txSeqNum (requeue_sent s) = txSeqNum s"
  by (simp_all add: requeue_sent_def Let_def split: list.splits entry.splits)

lemma sending_requeue:
  assumes "sending W P B M s"
  shows "sending W P B B (requeue_sent s)"
proof -
  have "[B..<length P] = [B..<M] @ [M..<length P]"
    using assms by (metis le_Suc_ex sending_def upt_add_eq_append)
  then show ?thesis using assms
    by (auto simp: requeue_sent_simps sending_def)
qed

lemma sending_transmitted:
  assumes "sending W P B M s"
  shows "sending W P B (length P) (s\<lparr>txQueue := [], txSent := txSent s @ data_of (txQueue s)\<rparr>)"
proof -
  have "[B..<length P] = [B..<M] @ [M..<length P]"
    using assms by (metis le_Suc_ex sending_def upt_add_eq_append)
  then show ?thesis using assms by (auto simp: sending_def)
qed

text \<open>Queueing appends packets whose bytes are those taken.\<close>

lemma packet_append [simp]: "i < length P \<Longrightarrow> packet (P @ Q) i = packet P i"
  by (simp add: packet_def nth_append)

lemma sending_push:
  assumes "sending W P B M s" "txFree s = Suc free"
  shows "sending W (P @ [p]) B M (s\<lparr>txFree := free, txQueue := txQueue s @ [E_data (txSeqNum s) p],
           txSeqNum := (txSeqNum s + 1) mod 8\<rparr>)"
  using assms by (auto simp: sending_def mod_Suc_eq) (simp_all add: packet_def)

lemma queue_packets_sending:
  assumes "queue_packets free bs s = (n, t)" "sending W P B M s" "txFree s = free"
  shows "\<exists>Q. sending W (P @ Q) B M t \<and> concat Q = take n bs \<and> up W t = up W s \<and>
    (\<forall>P R h. receiving P R h t = receiving P R h s)"
  using assms
proof (induction free bs s arbitrary: n P rule: queue_packets.induct)
  case (1 bs s)
  then show ?case by (auto intro: exI [of _ "[]"])
next
  case (2 free bs s)
  show ?case
  proof (cases "bs = []")
    case True
    then show ?thesis using 2 by (auto intro: exI [of _ "[]"])
  next
    case False
    define p where "p = take (packetSize s) bs"
    define s1 where "s1 = s\<lparr>txFree := free, txQueue := txQueue s @ [E_data (txSeqNum s) p], txSeqNum := (txSeqNum s + 1) mod 8\<rparr>"
    obtain m where m: "queue_packets free (drop (packetSize s) bs) s1 = (m, t)" "n = length p + m"
      using 2(2) False by (auto simp: p_def s1_def Let_def split: prod.splits)
    have s1: "sending W (P @ [p]) B M s1" unfolding s1_def using 2 by (intro sending_push) auto
    obtain Q where Q: "sending W ((P @ [p]) @ Q) B M t" "concat Q = take m (drop (packetSize s) bs)" "up W t = up W s1"
      "\<forall>P R h. receiving P R h t = receiving P R h s1"
      using 2(1) [OF False p_def m(1) [unfolded s1_def] s1 [unfolded s1_def]] by (auto simp: s1_def)
    have "take n bs = p @ concat Q" unfolding m(2) Q(2) p_def by (simp add: take_add min_def)
    with Q show ?thesis by (intro exI [of _ "p # Q"]) (auto simp: s1_def up_def receiving_def)
  qed
qed

lemma under_way_append: "under_way W P R is ws \<Longrightarrow> under_way W (P @ Q) R is ws"
  by (fastforce simp: under_way_def)

lemma receiving_append: "receiving P R h s \<Longrightarrow> receiving (P @ Q) R h s"
  by (auto simp: receiving_def)

text \<open>Acknowledgments.\<close>

lemma takeWhile_upt: "takeWhile (\<lambda>i. i < A) [B..<M] = [B..<min A M]"
proof (cases "A < M \<and> B \<le> A")
  case True
  then have "[B..<M] = [B..<A] @ A # [Suc A..<M]"
    by (metis le_Suc_ex less_imp_le upt_add_eq_append upt_conv_Cons)
  moreover have "takeWhile (\<lambda>i. i < A) ([B..<A] @ A # [Suc A..<M]) = [B..<A]"
    by (subst takeWhile_append2) auto
  ultimately show ?thesis using True by (simp add: min_def)
next
  case False
  show ?thesis
  proof (cases "A < M")
    case True
    then show ?thesis using False by (simp add: upt_rec [of B M])
  next
    case False
    then have "takeWhile (\<lambda>i. i < A) [B..<M] = [B..<M]" by (simp add: takeWhile_eq_all_conv)
    then show ?thesis using False by (simp add: min_def)
  qed
qed

lemma ProcessAckNum_sending:
  assumes "sending W P B M s" "windowSize s = W" "W \<le> 4" "B \<le> A" "A \<le> length P"
  shows "sending W P (min A M) M (ProcessAckNum (A mod 8) s)"
proof -
  have s: "B \<le> M" "M \<le> length P" "txSent s = map (packet P) [B..<M]" "txFree s + length P = W + B"
    using assms(1) by (auto simp: sending_def)
  have "takeWhile (\<lambda>(n, p). SEQ_GT (A mod 8) n s) (txSent s) =
      map (packet P) (takeWhile (\<lambda>i. SEQ_GT (A mod 8) (i mod 8) s) [B..<M])"
    unfolding s(3) takeWhile_map by (simp add: o_def packet_def)
  also have "takeWhile (\<lambda>i. SEQ_GT (A mod 8) (i mod 8) s) [B..<M] = takeWhile (\<lambda>i. i < A) [B..<M]"
    using assms s by (intro takeWhile_cong SEQ_GT_mod) auto
  finally have f: "takeWhile (\<lambda>(n, p). SEQ_GT (A mod 8) n s) (txSent s) = map (packet P) [B..<min A M]"
    by (simp add: takeWhile_upt)
  have "drop (min A M - B) [B..<M] = [min A M..<M]"
    using s(1) assms(4) by simp
  then show ?thesis using assms s
    unfolding ProcessAckNum_def Let_def f by (auto simp: sending_def drop_map)
qed

lemma receive_data_sending [simp]: "sending W P B M (receive_data n p s) = sending W P B M s"
  by (simp add: receive_data_def ProcessDataSeqNum_def Let_def sending_def)

lemma ack_arrives:
  assumes "sending W P B M s" "acked B R as (w # ws)" "R \<le> length P" "B \<le> R" "up W s" "W \<le> 4"
  shows "\<exists>B' as'. sending W P B' M (receive_packet w s) \<and> acked B' R as' ws \<and> B' \<le> R"
proof -
  have num: "\<exists>B' as'. sending W P B' M (ProcessAckNum a s) \<and> acked B' R as' ws \<and> B' \<le> R"
    if "acks (w # ws) = a # acks ws" for a
  proof -
    have "map (\<lambda>A. A mod 8) as = a # acks ws" using assms(2) that by (simp add: acked_def)
    then obtain A as' where a: "as = A # as'" "a = A mod 8" "B \<le> A" "A \<le> R"
      using assms(2) by (cases as) (auto simp: acked_def)
    have "sending W P (min A M) M (ProcessAckNum a s)"
      unfolding a(2) using assms a by (intro ProcessAckNum_sending) (auto simp: up_def)
    moreover have "acked (min A M) R as' ws"
      using assms(2) a that by (auto simp: acked_def min_le_iff_disj)
    ultimately show ?thesis
      using a by (intro exI [of _ "min A M"] exI [of _ as']) (auto simp: min_le_iff_disj)
  qed
  show ?thesis
  proof (cases w)
    case (W_ctrl t c)
    then have "sending W P B M (receive_packet w s)"
      using assms ProcessControlPacket_agree [of W s t c] sending_agree by fastforce
    then show ?thesis using W_ctrl assms by (auto simp: acked_def)
  qed (use num in auto)
qed

text \<open>Data.\<close>

lemma ProcessAckNum_same [simp]:
  "receiving P R h (ProcessAckNum a s) = receiving P R h s" "windowSize (ProcessAckNum a s) = windowSize s"
  "rxFree (ProcessAckNum a s) = rxFree s" "expectedSeq (ProcessAckNum a s) = expectedSeq s"
  by (simp_all add: ProcessAckNum_def receiving_def Let_def)

lemma data_arrives:
  assumes "receiving P R h s" "under_way W P R is (w # ws)" "length P \<le> R + W" "up W s" "W \<le> 4"
  shows "\<exists>R' is'. receiving P R' h (receive_packet w s) \<and> under_way W P R' is' ws \<and> R \<le> R'"
proof (cases w)
  case (W_data n a p)
  obtain i is' where i: "is = i # is'" "n = i mod 8" "p = P ! i" "i < length P" "R \<le> i + W" "\<forall>j \<in> set is'. i < j + W"
    using assms(2) W_data by (cases "is") (auto simp: under_way_def packet_def)
  define t where "t = ProcessAckNum a s"
  have t: "receiving P R h t" "windowSize t = W" using assms by (simp_all add: t_def up_def)
  have eq: "n = expectedSeq t \<longleftrightarrow> i = R"
    using t i assms by (auto simp: receiving_def intro!: mod8_eq_iff [THEN iffD1])
  have gt: "SEQ_GT (R mod 8) (j mod 8) t \<longleftrightarrow> j < R" if "j < R + W" "R \<le> j + W" for j
    using t that assms by (intro SEQ_GT_mod) auto
  have old: "i < R" if "\<not> SEQ_GT n (expectedSeq t) t" "i \<noteq> R"
  proof (rule ccontr)
    assume "\<not> i < R"
    then have "SEQ_GT (i mod 8) (R mod 8) t"
      using t assms i that(2) by (subst SEQ_GT_mod [where W = W]) auto
    then show False using that t i by (simp add: receiving_def)
  qed
  show ?thesis
  proof (cases "i = R \<and> rxFree t > 0")
    case True
    then have "R < R + W" using i assms(3) by simp
    then have "\<not> SEQ_GT (currentTxAck t) n t" using gt [of R] t i True by (simp add: receiving_def)
    moreover have "concat (take (Suc R) P) = concat (take R P) @ P ! R"
      using True i by (simp add: take_Suc_conv_app_nth)
    ultimately have "receiving P (Suc R) h (receive_data n p t)"
      using t i eq True
      by (auto simp: receiving_def receive_data_def ProcessDataSeqNum_def Let_def SEQ_GT_def mod_Suc_eq)
    moreover have "under_way W P (Suc R) is' ws"
      using assms(2) W_data i True by (auto simp: under_way_def)
    ultimately show ?thesis using W_data by (auto simp: t_def)
  next
    case False
    have "SEQ_GT (currentTxAck t) n t" if "\<not> SEQ_GT n (expectedSeq t) t" "i \<noteq> R"
      using gt [of i] old [OF that] t i by (simp add: receiving_def)
    then have "receiving P R h (receive_data n p t)"
      using t eq False
      by (auto simp: receiving_def receive_data_def ProcessDataSeqNum_def Let_def)
    moreover have "under_way W P R is' ws"
      using assms(2) W_data i by (auto simp: under_way_def)
    ultimately show ?thesis using W_data by (auto simp: t_def)
  qed
next
  case (W_ack a)
  then show ?thesis using assms by (auto simp: under_way_def)
next
  case (W_ctrl t c)
  then have "receiving P R h (receive_packet w s)"
    using assms ProcessControlPacket_agree [of W s t c] receiving_agree by fastforce
  then show ?thesis using W_ctrl assms by (auto simp: under_way_def)
qed

subsection \<open>Steps that may transmit\<close>

text \<open>
  The frames put out continue those under way in both directions: the queued packets for the
  one, acknowledgments of all that is received for the other.
\<close>

definition emits :: "nat \<Rightarrow> SLAPStream \<Rightarrow> wire list \<Rightarrow> SLAPStream \<Rightarrow> bool" where
  "emits W s ws t \<longleftrightarrow> up W t \<and>
     (\<forall>P B M. sending W P B M s \<longrightarrow> (\<exists>M'. sending W P B M' t) \<and>
        (\<forall>R is v. B \<le> R \<and> R \<le> length P \<and> under_way W P R is v \<longrightarrow> (\<exists>is'. under_way W P R is' (v @ ws)))) \<and>
     (\<forall>P R h. receiving P R h s \<longrightarrow> receiving P R h t \<and> set (acks ws) \<subseteq> {R mod 8})"

lemma emits_agree: "agree s t \<Longrightarrow> up W t \<Longrightarrow> emits W s [] t"
  by (auto simp: emits_def sending_agree [of s t] receiving_agree [of s t])

lemma emits_post:
  assumes "emits W s ws t" "agree t u" "up W u"
  shows "emits W s ws u"
  using assms(1,3) unfolding emits_def sending_agree [OF assms(2)] receiving_agree [OF assms(2)] by blast

lemma emits_pre:
  assumes "emits W t ws u" "agree s t"
  shows "emits W s ws u"
  using assms(1) unfolding emits_def sending_agree [OF assms(2)] receiving_agree [OF assms(2)] by blast

lemma emits_requeue:
  assumes "emits W (requeue_sent s) ws t"
  shows "emits W s ws t"
proof -
  have "receiving P R h (requeue_sent s) = receiving P R h s" for P R h
    by (simp add: receiving_def requeue_sent_def Let_def)
  then show ?thesis
    using assms sending_requeue [of W _ _ _ s] unfolding emits_def by (metis (no_types, lifting))
qed

lemma emits_transmit:
  assumes "up W s" "False \<notin> set ok" "TransmitToLink ok s = (ws, t)"
  shows "emits W s ws t"
proof -
  have t: "frames ws = data_of (txQueue s)" "set (acks ws) \<subseteq> {currentTxAck s}" "up W t"
    "agree (s\<lparr>txQueue := [], txSent := txSent s @ data_of (txQueue s)\<rparr>) t"
    using TransmitToLink_all [OF assms(2,1)] assms(3) by auto
  have "sending W P B (length P) t" if "sending W P B M s" for P B M
    using sending_transmitted [OF that] t(4) by (simp add: sending_agree)
  moreover have "receiving P R h t \<and> set (acks ws) \<subseteq> {R mod 8}" if "receiving P R h s" for P R h
    using that t(2,4) by (simp add: receiving_agree [OF t(4)]) (simp add: receiving_def)
  ultimately show ?thesis
    unfolding emits_def using t(1,3) under_way_transmit by metis
qed

lemma emits_alarm:
  assumes "up W s" "False \<notin> set ok" "AlarmTriggered a ok s = (ws, t)"
  shows "emits W s ws t"
proof (cases a)
  case SEND_DATA_ALARM
  then show ?thesis using assms emits_transmit by (simp add: AlarmTriggered_def)
next
  case RESEND_DATA_ALARM
  have "up W (requeue_sent s)" using assms(1) by (simp add: up_def requeue_sent_def Let_def)
  then show ?thesis using RESEND_DATA_ALARM assms emits_transmit [of W "requeue_sent s" ok ws t] emits_requeue
    by (auto simp: AlarmTriggered_def emits_agree split: if_splits)
next
  case ACK_ALARM
  let ?s = "put_ctrl CtlAck (s\<lparr>pendingAcks := 0\<rparr>)"
  obtain u where u: "(if pendingAcks s > 0 then TransmitToLink ok ?s else ([], s)) = (ws, u)"
    "t = ScheduleLinkControlPacket u"
    using assms(3) ACK_ALARM by (auto simp: AlarmTriggered_def split: prod.splits)
  have "agree s ?s"
    by (rule agree_trans [OF _ put_ctrl_agree(1)]) (simp add: agree_state)
  then have "emits W s ws u"
  proof (cases "pendingAcks s > 0")
    case True
    then have "emits W ?s ws u"
      using u(1) assms by (intro emits_transmit) (simp_all add: up_state)
    then show ?thesis using \<open>agree s ?s\<close> by (rule emits_pre)
  next
    case False
    then show ?thesis using u(1) assms(1) by (simp add: emits_agree)
  qed
  moreover from this have "up W u" by (simp add: emits_def)
  ultimately show ?thesis
    unfolding u(2) using ScheduleLinkControlPacket_agree emits_post by blast
next
  case RESEND_CONTROL_ALARM
  then show ?thesis using assms ScheduleLinkControlPacket_agree [of W s] emits_agree
    by (auto simp: AlarmTriggered_def)
qed

lemma flow_emits_sender:
  assumes "flow W x y" "emits W (stream x) ws t"
  shows "flow W (x\<lparr>stream := t\<rparr>) (y\<lparr>incoming := incoming y @ ws\<rparr>)"
proof -
  from assms(1) obtain P B M R "is" as where f: "given x = concat P" "B \<le> R" "sending W P B M (stream x)"
    "receiving P R (handed y) (stream y)" "under_way W P R is (incoming y)" "acked B R as (incoming x)"
    unfolding flow_def by blast
  moreover have "R \<le> length P" using f by (simp add: receiving_def)
  ultimately obtain M' is' where "sending W P B M' t" "under_way W P R is' (incoming y @ ws)"
    using assms(2) unfolding emits_def by meson
  with f show ?thesis
    unfolding flow_def
    by (intro exI [of _ P] exI [of _ B] exI [of _ M'] exI [of _ R] exI [of _ is'] exI [of _ as]) simp
qed

lemma flow_emits_receiver:
  assumes "flow W x y" "emits W (stream y) ws t"
  shows "flow W (x\<lparr>incoming := incoming x @ ws\<rparr>) (y\<lparr>stream := t\<rparr>)"
proof -
  from assms(1) obtain P B M R "is" as where f: "given x = concat P" "B \<le> R" "sending W P B M (stream x)"
    "receiving P R (handed y) (stream y)" "under_way W P R is (incoming y)" "acked B R as (incoming x)"
    unfolding flow_def by blast
  then have r: "receiving P R (handed y) t" "set (acks ws) \<subseteq> {R mod 8}"
    using assms(2) unfolding emits_def by blast+
  show ?thesis
    unfolding flow_def using f r acked_transmit [OF f(6) r(2) f(2)]
    by (intro exI [of _ P] exI [of _ B] exI [of _ M] exI [of _ R] exI [of _ "is"]
        exI [of _ "as @ replicate (length (acks ws)) R"]) simp
qed

subsection \<open>Pushing, pulling and arrivals\<close>

lemma flow_push:
  assumes "flow W x y" "PushBytes bs (stream x) = (st, n, t)" "up W (stream x)"
  shows "flow W (x\<lparr>stream := t, given := given x @ take n bs\<rparr>) y" "up W t"
    "flow W z x \<Longrightarrow> flow W z (x\<lparr>stream := t, given := given x @ take n bs\<rparr>)"
proof -
  have *: "\<exists>Q. sending W (P @ Q) B M t \<and> concat Q = take n bs \<and> up W t \<and>
    (\<forall>P R h. receiving P R h t = receiving P R h (stream x))" if "sending W P B M (stream x)" for P B M
  proof (cases "linkState (stream x) = LINK_DEAD \<and> bs \<noteq> []")
    case True
    then show ?thesis using assms that by (intro exI [of _ "[]"]) (auto simp: PushBytes_def)
  next
    case False
    then show ?thesis
      using queue_packets_sending [of "txFree (stream x)" bs "stream x" n t W P B M] assms that
      by (auto simp: PushBytes_def split: prod.splits if_splits)
  qed
  from assms(1) obtain P B M R "is" as where f: "given x = concat P" "B \<le> R" "sending W P B M (stream x)"
    "receiving P R (handed y) (stream y)" "under_way W P R is (incoming y)" "acked B R as (incoming x)"
    unfolding flow_def by blast
  from * [OF f(3)] obtain Q where q: "sending W (P @ Q) B M t" "concat Q = take n bs" "up W t"
    "\<forall>P R h. receiving P R h t = receiving P R h (stream x)" by blast
  show "up W t" by (rule q(3))
  show "flow W (x\<lparr>stream := t, given := given x @ take n bs\<rparr>) y"
    unfolding flow_def using f q receiving_append under_way_append
    by (intro exI [of _ "P @ Q"] exI [of _ B] exI [of _ M] exI [of _ R] exI [of _ "is"] exI [of _ as]) simp
  show "flow W z (x\<lparr>stream := t, given := given x @ take n bs\<rparr>)" if "flow W z x"
    using that q(4) by (simp add: flow_def)
qed

lemma pull_loop_bytes:
  "req < 65536 \<Longrightarrow> \<exists>bs qs f. pull_loop req ps n = Some (bs, qs, f) \<and> bs @ concat qs = concat ps"
proof (induction req ps n rule: pull_loop.induct)
  case (2 req p ps n)
  show ?case
  proof (cases "length p \<le> req")
    case True
    have l: "req mod 65536 = req" using 2(2) by simp
    then have "min (req mod 65536) (length p) = length p" using True by simp
    then have "req \<noteq> 0 \<Longrightarrow> \<exists>bs qs f. pull_loop (req - length p) ps (n + 1) = Some (bs, qs, f) \<and> bs @ concat qs = concat ps"
      using 2(1) 2(2) by (metis less_imp_diff_less)
    then show ?thesis using True l by (cases "req = 0") auto
  next
    case False
    then show ?thesis using 2(2) by (auto simp: min_def append_assoc [symmetric] simp del: append_assoc)
  qed
qed simp

lemma flow_pull:
  assumes "req < 65536"
  shows "\<exists>st bs t. SLAP_PullBytes req (stream y) = Some (st, bs, t) \<and> (up W (stream y) \<longrightarrow> up W t) \<and>
     (flow W x y \<longrightarrow> flow W x (y\<lparr>stream := t, handed := handed y @ bs\<rparr>)) \<and>
     (flow W y x \<longrightarrow> flow W (y\<lparr>stream := t, handed := handed y @ bs\<rparr>) x)"
proof -
  obtain bs qs f where l: "pull_loop req (rxQueue (stream y)) (rxFree (stream y)) = Some (bs, qs, f)"
    "bs @ concat qs = concat (rxQueue (stream y))"
    using pull_loop_bytes [OF assms] by blast
  have r: "receiving P R h (stream y) \<Longrightarrow> receiving P R (h @ bs) ((stream y)\<lparr>rxQueue := qs, rxFree := f\<rparr>)" for P R h
    using l(2) by (simp add: receiving_def)
  have s: "sending W P B M ((stream y)\<lparr>rxQueue := qs, rxFree := f\<rparr>) = sending W P B M (stream y)" for P B M
    by (simp add: sending_def)
  show ?thesis
  proof (cases "linkState (stream y) = LINK_DEAD \<and> req > 0")
    case True
    then show ?thesis by (simp add: SLAP_PullBytes_def flow_def)
  next
    case False
    then show ?thesis using l(1) r s
      by (simp add: SLAP_PullBytes_def flow_def up_def del: not_gr_zero) blast
  qed
qed

lemma flow_arrive:
  assumes "flow W x y" "flow W y x" "incoming x = w # ws" "up W (stream x)" "W \<le> 4"
  defines "z \<equiv> x\<lparr>stream := receive_packet w (stream x), incoming := ws\<rparr>"
  shows "flow W z y" "flow W y z" "up W (stream z)"
proof -
  from assms(1) obtain P B M R "is" as where f: "given x = concat P" "B \<le> R" "sending W P B M (stream x)"
    "receiving P R (handed y) (stream y)" "under_way W P R is (incoming y)" "acked B R as (incoming x)"
    unfolding flow_def by blast
  then have "R \<le> length P" by (simp add: receiving_def)
  with f assms obtain B' as' where "sending W P B' M (stream z)" "acked B' R as' ws" "B' \<le> R"
    using ack_arrives [of W P B M "stream x" R as w ws] by (auto simp: z_def)
  with f show "flow W z y"
    unfolding flow_def
    by (intro exI [of _ P] exI [of _ B'] exI [of _ M] exI [of _ R] exI [of _ "is"] exI [of _ as']) (simp add: z_def)
next
  from assms(2) obtain P B M R "is" as where f: "given y = concat P" "B \<le> R" "sending W P B M (stream y)"
    "receiving P R (handed x) (stream x)" "under_way W P R is (incoming x)" "acked B R as (incoming y)"
    unfolding flow_def by blast
  then have "length P \<le> R + W" by (simp add: sending_def)
  with f assms obtain R' is' where r: "receiving P R' (handed z) (stream z)" "under_way W P R' is' ws" "R \<le> R'"
    using data_arrives [of P R "handed x" "stream x" W "is" w ws] by (auto simp: z_def)
  moreover have "acked B R' as (incoming y)" using f(6) r(3) by (fastforce simp: acked_def)
  ultimately show "flow W y z"
    unfolding flow_def using f
    by (intro exI [of _ P] exI [of _ B] exI [of _ M] exI [of _ R'] exI [of _ is'] exI [of _ as]) (simp add: z_def)
next
  show "up W (stream z)"
    using assms(4) ProcessControlPacket_agree [of W "stream x"]
    by (cases w) (auto simp: z_def up_def receive_data_def ProcessDataSeqNum_def ProcessAckNum_def Let_def)
qed

lemma flow_lose:
  assumes "flow W x y" "flow W y x"
  shows "flow W (x\<lparr>incoming := tl (incoming x)\<rparr>) y" "flow W y (x\<lparr>incoming := tl (incoming x)\<rparr>)"
proof -
  show "flow W (x\<lparr>incoming := tl (incoming x)\<rparr>) y"
    using assms(1) by (cases "incoming x") (fastforce simp: flow_def dest: acked_tl)+
  show "flow W y (x\<lparr>incoming := tl (incoming x)\<rparr>)"
    using assms(2) by (cases "incoming x") (fastforce simp: flow_def dest: under_way_tl)+
qed

subsection \<open>The two ends\<close>

definition both :: "nat \<Rightarrow> link \<Rightarrow> bool" where
  "both W l \<longleftrightarrow> W \<le> 4 \<and> flow W (fst l) (snd l) \<and> flow W (snd l) (fst l) \<and> up W (stream (fst l)) \<and> up W (stream (snd l))"

text \<open>One step of one end, with the frames it puts out on the way to the other.\<close>

lemma local_step_both:
  assumes "both W (x, y)" "link_adm (d, e)"
  shows "\<exists>ws z. local_step x e = Some (ws, z) \<and> both W (z, y\<lparr>incoming := incoming y @ ws\<rparr>)"
proof -
  have b: "flow W x y" "flow W y x" "up W (stream x)" "up W (stream y)" "W \<le> 4"
    using assms(1) by (auto simp: both_def)
  have emits: "both W (x\<lparr>stream := t\<rparr>, y\<lparr>incoming := incoming y @ ws\<rparr>)" if "emits W (stream x) ws t" for ws t
    using flow_emits_sender [OF b(1) that] flow_emits_receiver [OF b(2) that] that b
    by (simp add: both_def emits_def)
  have quiet: "both W (x\<lparr>stream := t\<rparr>, y)" if "agree (stream x) t \<and> up W t" for t
    using emits [OF emits_agree] that by fastforce
  show ?thesis
  proof (cases e)
    case (Push bs)
    obtain st n t where "PushBytes bs (stream x) = (st, n, t)" by (cases "PushBytes bs (stream x)") auto
    then show ?thesis using flow_push [OF b(1) _ b(3)] Push b by (simp add: local_step_def both_def)
  next
    case (Pull n)
    then have "n < 65536" using assms(2) by simp
    from flow_pull [OF this, of x W y] show ?thesis
      using Pull b by (auto simp: local_step_def both_def)
  next
    case (Alarm a ok)
    obtain ws t where t: "AlarmTriggered a ok (stream x) = (ws, t)" by (cases "AlarmTriggered a ok (stream x)")
    then have "emits W (stream x) ws t" using emits_alarm b(3) assms(2) Alarm by auto
    then show ?thesis using emits t Alarm by (simp add: local_step_def)
  next
    case Arrive
    show ?thesis
    proof (cases "incoming x")
      case Nil
      then show ?thesis using Arrive assms(1) by (simp add: local_step_def)
    next
      case (Cons w ws)
      then show ?thesis using flow_arrive [OF b(1,2) Cons b(3,5)] Arrive b by (simp add: local_step_def both_def)
    qed
  next
    case Lose
    then show ?thesis using flow_lose [OF b(1,2)] b by (simp add: local_step_def both_def)
  qed (use quiet ProcessControlPacket_agree Close_agree b in \<open>simp_all add: local_step_def\<close>)
qed

lemma both_swap: "both W (a, b) = both W (b, a)"
  by (auto simp: both_def)

lemma link_step_both:
  assumes "both W l" "link_adm e"
  shows "\<exists>l'. link_step l e = Some l' \<and> both W l'"
proof (cases l)
  case (Pair a b)
  obtain d ev where e: "e = (d, ev)" by (cases e)
  show ?thesis
  proof (cases d)
    case LeftEnd
    with local_step_both [of W a b d ev] assms Pair e show ?thesis by auto
  next
    case RightEnd
    with local_step_both [of W b a d ev] assms Pair e both_swap show ?thesis by fastforce
  qed
qed

interpretation slap: invariant_machine link_step "both W" link_adm
  by unfold_locales (rule link_step_both)

lemma config_window_bytes: "W \<in> {1, 2, 4} \<Longrightarrow> config_window (config_bytes sz 1 W) = W"
  by (auto simp: config_window_def config_bytes_def encodedWindow_def)

lemma linked_both:
  assumes "W \<in> {1, 2, 4}"
  shows "both W (linked sz W, linked sz W)"
proof -
  let ?s = "stream (linked sz W)"
  have s: "up W ?s" "txSent ?s = []" "data_of (txQueue ?s) = []" "txFree ?s = W" "txSeqNum ?s = 0"
    "rxQueue ?s = []" "expectedSeq ?s = 0" "currentTxAck ?s = 0"
    using assms config_window_bytes [OF assms, of sz]
    by (auto simp: linked_def ProcessControlPacket_def configure_link_def new_SLAPStream_def EnqueueCtrl_def put_ctrl_def
        up_def Let_def SLAP_MAX_WINDOW_SIZE_def)
  have "flow W (linked sz W) (linked sz W)"
    unfolding flow_def using s
    by (intro exI [of _ "[]"] exI [of _ 0] exI [of _ "[]"])
      (simp add: sending_def receiving_def under_way_def acked_def, simp add: linked_def)
  then show ?thesis using s(1) assms by (auto simp: both_def)
qed

lemma flow_prefix: "flow W x y \<Longrightarrow> \<exists>rest. given x = (handed y @ concat (rxQueue (stream y))) @ rest"
  unfolding flow_def receiving_def by (metis append_take_drop_id concat_append)

text \<open>
  C7. Over a line that loses frames, with timers that go off at any time, as long as no
  delivery to the device fails: whatever is pushed, pulled (by reads that ask for fewer than
  65536 bytes at a time), sent and resent, every step of the model has a result, and what
  each end hands out and holds is a prefix of the bytes given to the other. A call that would
  wait for an event is taken to give up with its time-out, so this says nothing about how
  long a call without one may block; and a read for 65536 bytes or more need not end.
\<close>

theorem slap_stream_delivers:
  assumes "W \<in> {1, 2, 4}" "list_all link_adm es"
  shows "\<exists>a b more more'. run_steps link_step (linked sz W, linked sz W) es = Some (a, b) \<and>
    given a = handed b @ concat (rxQueue (stream b)) @ more \<and>
    given b = handed a @ concat (rxQueue (stream a)) @ more'"
proof -
  obtain a b where r: "run_steps link_step (linked sz W, linked sz W) es = Some (a, b)" "both W (a, b)"
    using slap.run_inv [OF linked_both [OF assms(1)] assms(2)] by (metis surj_pair)
  then have "flow W a b" "flow W b a" by (auto simp: both_def)
  with r(1) show ?thesis using flow_prefix [of W a b] flow_prefix [of W b a] by auto
qed

lemma slap_stream_delivers_witness:
  "\<exists>a b more more'. run_steps link_step (linked 1 2, linked 1 2)
      [(LeftEnd, Push [1, 2]), (LeftEnd, Alarm SEND_DATA_ALARM []), (RightEnd, Lose), (RightEnd, Arrive), (RightEnd, Pull 2)] = Some (a, b) \<and>
    given a = handed b @ concat (rxQueue (stream b)) @ more \<and>
    given b = handed a @ concat (rxQueue (stream a)) @ more'"
  by (rule slap_stream_delivers) simp_all

subsection \<open>Deliveries that fail\<close>

text \<open>The run is evaluated one step at a time.\<close>

lemma run_next:
  "link_step l e = Some m \<Longrightarrow> map_option f (run_steps link_step m es) = r \<Longrightarrow> map_option f (run_steps link_step l (e # es)) = r"
  by simp

lemma linked_1_4: "linked 1 4 = \<lparr>stream = \<lparr>linkState = LINK_ACTIVE, packetSize = 1, maxPacketSize = 1, windowSize = 4, maxWindowSize = 4,
  protocolVersion = 1, st_configField = [0, 1, 6], txIdle = True, getNextPacket = True, expectedSeq = 0, txSeqNum = 0, currentTxAck = 0,
    pendingAcks = 0, rxFree = 4, rxQueue = [], txFree = 4, txQueue = [E_ctrl], txSent = [], txCurrent = C_none, txCtrl = Ctl NEGO_PKT [0, 1, 6]\<rparr>,
   incoming = [], given = [], handed = []\<rparr>"
  by code_simp

lemma queue_packets_numeral:
  "queue_packets (numeral k) bs s =
     (if bs = [] then (0, s)
      else let (n, s') = queue_packets (pred_numeral k) (drop (packetSize s) bs)
             (s\<lparr>txFree := pred_numeral k, txQueue := txQueue s @ [E_data (txSeqNum s) (take (packetSize s) bs)],
                txSeqNum := (txSeqNum s + 1) mod 8\<rparr>)
           in (length (take (packetSize s) bs) + n, s'))"
  by (simp only: numeral_eq_Suc [of k] queue_packets.simps(2) Let_def)

lemmas step_defs = local_step_def PushBytes_def SLAP_PullBytes_def AlarmTriggered_def TransmitToLink_def transmit_loop.simps
  load_packet_def finish_packet_def receive_data_def ProcessDataSeqNum_def ProcessAckNum_def SEQ_GT_def requeue_sent_def
  put_ctrl_def EnqueueCtrl_def config_bytes_def encodedWindow_def queue_packets_numeral ScheduleLinkControlPacket_def ProcessControlPacket_def Let_def

text \<open>
  When deliveries fail (the device takes no more now) the stream is not reliable, although no
  frame is lost. In this run a packet that is current when the alarm for resending goes off is sent before the
  older ones, those acknowledged later stay in the list behind it, and when
  the numbers have gone round one of them is taken for a new packet. Here the ninth byte
  handed out is the first one again; only eight were given.
\<close>

lemma slap_resend_corrupts:
  "map_option (\<lambda>(a, b). (given a, handed b @ concat (rxQueue (stream b))))
     (run_steps link_step (linked 1 4, linked 1 4) corrupting) =
   Some ([0, 1, 2, 3, 4, 5, 6, 7], [0, 1, 2, 3, 4, 5, 6, 7, 0])"
  unfolding corrupting_def linked_1_4
  by ((rule run_next, simp add: step_defs cong: if_weak_cong)+) simp

end
