(* ===== verification/Router_Dispatch.thy ===== *)
theory Router_Dispatch
  imports Match_Rules
begin

text \<open>
  How the router passes a message on: \<^verbatim>\<open>DaemonRouter::PushMessage\<close> of
  \<^verbatim>\<open>alljoyn_core/router/DaemonRouter.cc\<close> with its three branches, for a message to one
  destination, to everybody, and to the members of a session. What the router asks of the
  policy, of the controller and of the endpoints is an input, and what it has them do is
  the list of actions that the model returns.

  Locks, traces and the serial numbers of messages are left out. While a message is pushed
  the router lets go of its locks: the endpoints that unregister in the meantime are an
  input too, as far as the two sets of bus-to-bus routes are concerned. The texts of error
  replies are not kept, and marshalling one is taken to succeed.
\<close>

unbundle bit_operations_syntax

subsection \<open>The router and its surroundings\<close>

text \<open>What is asked for by \<open>SendThroughEndpoint\<close>, and by the calls of the controller.\<close>

datatype action =
    Push ep message
  | PushSession ep message u32
  | RouteSessionless u32 message
  | PushSessionless message
  | StartService message ep

fun target :: "action \<Rightarrow> ep option" where
  "target (Push e msg) = Some e"
| "target (PushSession e msg sid) = Some e"
| "target _ = None"

record SessionCastEntry =
  sce_id :: u32
  src :: string
  b2bEp :: ep
  destEp :: ep

record Router =
  localEndpoint :: ep
  nameTable :: NameTable
  ruleTable :: RuleTable
  m_b2bEndpoints :: "ep list"
  sessionCastSet :: "SessionCastEntry list"

text \<open>
  Without the policy database (it is a build option) \<open>OKToSend\<close> and \<open>OKToReceive\<close> are
  always true. \<open>push_status\<close> is what an action returns, \<open>routed\<close> whether the controller
  has delivered a sessionless message, and \<open>departs e\<close> are the bus-to-bus endpoints
  that unregister while a message is pushed to \<open>e\<close>.
\<close>

record surroundings =
  endpoints :: store
  AllowRemoteMessages :: "ep \<Rightarrow> bool"
  b2bSessionId :: "ep \<Rightarrow> u32"
  OKToSend :: "message \<Rightarrow> ep option \<Rightarrow> bool"
  OKToReceive :: "message \<Rightarrow> ep \<Rightarrow> bool"
  routed :: "u32 \<Rightarrow> message \<Rightarrow> bool"
  push_status :: "action \<Rightarrow> QStatus"
  departs :: "ep \<Rightarrow> ep set"

subsection \<open>Messages\<close>

definition ALLJOYN_FLAG_NO_REPLY_EXPECTED :: byte where "ALLJOYN_FLAG_NO_REPLY_EXPECTED = 0x01"
definition ALLJOYN_FLAG_AUTO_START :: byte where "ALLJOYN_FLAG_AUTO_START = 0x02"
definition ALLJOYN_FLAG_GLOBAL_BROADCAST :: byte where "ALLJOYN_FLAG_GLOBAL_BROADCAST = 0x20"
definition ALLJOYN_FLAG_ENCRYPTED :: byte where "ALLJOYN_FLAG_ENCRYPTED = 0x80"

definition replyExpected :: "message \<Rightarrow> bool" where
  "replyExpected msg \<longleftrightarrow>
     GetType msg = MESSAGE_METHOD_CALL \<and> GetFlags msg AND ALLJOYN_FLAG_NO_REPLY_EXPECTED = 0"

text \<open>A message without destination field has the empty destination.\<close>

definition IsBroadcastSignal :: "message \<Rightarrow> bool" where
  "IsBroadcastSignal msg \<longleftrightarrow> GetType msg = MESSAGE_SIGNAL \<and> GetDestination msg = []"

definition IsGlobalBroadcast :: "message \<Rightarrow> bool" where
  "IsGlobalBroadcast msg \<longleftrightarrow>
     IsBroadcastSignal msg \<and> GetFlags msg AND ALLJOYN_FLAG_GLOBAL_BROADCAST \<noteq> 0"

text \<open>
  The error reply to a call, written over the call; its one argument is the description (those
  the router gives are not empty). The name of the error is not among what is asked of a message.
\<close>

definition ErrorMsg :: "string \<Rightarrow> message \<Rightarrow> string \<Rightarrow> message" where
  "ErrorMsg localName call description =
     call\<lparr>GetType := MESSAGE_ERROR, GetSender := localName, GetInterface := [], GetMemberName := [],
          GetObjectPath := [], GetDestination := GetSender call,
          GetFlags := GetFlags call AND ALLJOYN_FLAG_ENCRYPTED,
          unmarshalled := Some [StringArg description], announced := None\<rparr>"

lemma ErrorMsg_simps [simp]:
  "GetType (ErrorMsg n call d) = MESSAGE_ERROR" "GetDestination (ErrorMsg n call d) = GetSender call"
  "GetSessionId (ErrorMsg n call d) = GetSessionId call" "\<not> replyExpected (ErrorMsg n call d)"
  by (simp_all add: ErrorMsg_def replyExpected_def)

subsection \<open>Sending\<close>

definition SendThroughEndpoint :: "surroundings \<Rightarrow> message \<Rightarrow> u32 \<Rightarrow> ep \<Rightarrow> action" where
  "SendThroughEndpoint env msg sessionId ep =
     (if sessionId \<noteq> 0 \<and> GetEndpointType (endpoints env ep) = ENDPOINT_TYPE_VIRTUAL
      then PushSession ep msg sessionId else Push ep msg)"

lemma target_SendThroughEndpoint [simp]: "target (SendThroughEndpoint env msg sid e) = Some e"
  by (simp add: SendThroughEndpoint_def)

definition from_b2b :: "surroundings \<Rightarrow> ep \<Rightarrow> bool" where
  "from_b2b env e \<longleftrightarrow> GetEndpointType (endpoints env e) = ENDPOINT_TYPE_BUS2BUS"

text \<open>The first failure among the actions of a loop is what the loop reports.\<close>

definition first_failure :: "surroundings \<Rightarrow> action list \<Rightarrow> QStatus \<Rightarrow> QStatus" where
  "first_failure env acts status =
     fold (\<lambda>a status. if status = ER_OK then push_status env a else status) acts status"

definition receives :: "surroundings \<Rightarrow> Router \<Rightarrow> message \<Rightarrow> ep \<Rightarrow> bool" where
  "receives env R msg e \<longleftrightarrow> e = localEndpoint R \<or> OKToReceive env msg e"

subsection \<open>Broadcasts\<close>

text \<open>
  The walk over the bus-to-bus endpoints, from the iterator on. After a message was pushed to
  one the iterator is looked up again, as the first of those left that is not below it,
  and then advanced unless it is at the end.
\<close>

function b2b_loop :: "(ep \<Rightarrow> bool) \<Rightarrow> (ep \<Rightarrow> ep set) \<Rightarrow> ep list \<Rightarrow> ep list" where
  "b2b_loop chosen gone [] = []"
| "b2b_loop chosen gone (e # es) =
     (if chosen e then e # b2b_loop chosen gone (tl (filter (\<lambda>x. x \<notin> gone e) (e # es)))
      else b2b_loop chosen gone es)"
  by pat_completeness auto
termination
proof (relation "measure (\<lambda>(c, g, es). length es)", goal_cases)
  case (2 chosen gone e es)
  have "length (filter (\<lambda>x. x \<notin> gone e) (e # es)) \<le> length (e # es)"
    by (rule length_filter_le)
  then show ?case by (simp add: le_diff_conv split: if_splits)
qed simp_all

definition DetachSession_id :: "message \<Rightarrow> u32" where
  "DetachSession_id msg =
     (if GetSessionId msg = 0 \<and> GetMemberName msg = ''DetachSession'' \<and>
         GetInterface msg = ''org.alljoyn.Daemon''
      then (case unmarshalled msg of Some [UInt32Arg i, StringArg s] \<Rightarrow> i | _ \<Rightarrow> GetSessionId msg)
      else GetSessionId msg)"

text \<open>The test before a message is sent on because of a rule.\<close>

definition may_receive :: "surroundings \<Rightarrow> Router \<Rightarrow> message \<Rightarrow> ep \<Rightarrow> ep \<Rightarrow> bool" where
  "may_receive env R msg origSender dest \<longleftrightarrow>
     \<not> (from_b2b env origSender \<and> \<not> AllowRemoteMessages env dest) \<and> receives env R msg dest"

definition push_broadcast :: "surroundings \<Rightarrow> Router \<Rightarrow> message \<Rightarrow> ep \<Rightarrow> QStatus \<times> action list" where
  "push_broadcast env R msg origSender =
     (let dests = broadcast (may_receive env R msg origSender) msg (ruleTable R);
          acts = map (SendThroughEndpoint env msg (GetSessionId msg)) dests;
          status = first_failure env acts ER_OK in
      if IsSessionless msg then
        (if \<not> from_b2b env origSender
         then (push_status env (PushSessionless msg), acts @ [PushSessionless msg]) else (status, acts))
      else if IsGlobalBroadcast msg then
        (let sessionId = DetachSession_id msg;
             eps = b2b_loop
               (\<lambda>e. e \<noteq> origSender \<and> (sessionId = 0 \<or> b2bSessionId env e = sessionId) \<and> receives env R msg e)
               (departs env) (m_b2bEndpoints R);
             acts' = map (SendThroughEndpoint env msg sessionId) eps in
         (first_failure env acts' status, acts @ acts'))
      else (status, acts))"

subsection \<open>Session multicasts\<close>

text \<open>The order of the entries: by source first, then by session, route and destination.\<close>

definition sce_less :: "SessionCastEntry \<Rightarrow> SessionCastEntry \<Rightarrow> bool" where
  "sce_less x y \<longleftrightarrow>
     src x < src y \<or> src x = src y \<and> (sce_id x < sce_id y \<or> sce_id x = sce_id y \<and>
       (b2bEp x < b2bEp y \<or> b2bEp x = b2bEp y \<and> destEp x < destEp y))"

text \<open>
  The loop over the entries of the session, with the route used last; it also gives
  whether the last endpoint that was asked was allowed to receive the message.
\<close>

function cast_loop ::
  "(SessionCastEntry \<Rightarrow> bool) \<Rightarrow> (ep \<Rightarrow> bool) \<Rightarrow> (ep \<Rightarrow> ep set) \<Rightarrow> ep option \<Rightarrow> bool \<Rightarrow> SessionCastEntry list \<Rightarrow>
     SessionCastEntry list \<times> bool" where
  "cast_loop member_of ok gone lastB2b okToReceive [] = ([], okToReceive)"
| "cast_loop member_of ok gone lastB2b okToReceive (x # xs) =
     (if member_of x
      then (if Some (b2bEp x) \<noteq> lastB2b
            then (if ok (destEp x)
                  then (case cast_loop member_of ok gone (Some (b2bEp x)) True
                               (tl (filter (\<lambda>y. b2bEp y \<notin> gone (destEp x)) (x # xs))) of
                          (ys, ok') \<Rightarrow> (x # ys, ok'))
                  else cast_loop member_of ok gone lastB2b False xs)
            else cast_loop member_of ok gone lastB2b okToReceive xs)
      else ([], okToReceive))"
  by pat_completeness auto
termination
proof (relation "measure (\<lambda>(m, c, g, l, k, es). length es)", goal_cases)
  case (2 m ok gone l k x xs)
  have "length (filter (\<lambda>y. b2bEp y \<notin> gone (destEp x)) (x # xs)) \<le> length (x # xs)"
    by (rule length_filter_le)
  then show ?case by (simp add: le_diff_conv split: if_splits)
qed simp_all

text \<open>
  The search for the first entry: \<open>upper_bound\<close> of an entry with the session before
  this one and new endpoints, whose addresses are not known, then past what is left of that
  session.
\<close>

definition cast_start :: "u32 \<Rightarrow> string \<Rightarrow> ep \<Rightarrow> ep \<Rightarrow> SessionCastEntry list \<Rightarrow> SessionCastEntry list" where
  "cast_start sessionId from_name new1 new2 xs =
     (let sce = \<lparr>sce_id = sessionId - 1, src = from_name, b2bEp = new1, destEp = new2\<rparr> in
      dropWhile (\<lambda>x. src x = src sce \<and> sce_id x < sessionId) (dropWhile (\<lambda>x. \<not> sce_less sce x) xs))"

definition push_multicast ::
  "surroundings \<Rightarrow> Router \<Rightarrow> ep \<times> ep \<Rightarrow> message \<Rightarrow> QStatus \<times> action list" where
  "push_multicast env R new msg =
     (let sessionId = GetSessionId msg;
          sit = cast_start sessionId (GetSender msg) (fst new) (snd new) (sessionCastSet R) in
      case cast_loop (\<lambda>x. sce_id x = sessionId \<and> src x = GetSender msg) (receives env R msg) (departs env)
             None True sit of
        (xs, okToReceive) \<Rightarrow>
          (let acts = map (\<lambda>x. SendThroughEndpoint env msg sessionId (destEp x)) xs in
           (if xs = [] then (if okToReceive then ER_BUS_NO_ROUTE else ER_BUS_POLICY_VIOLATION)
            else first_failure env acts ER_OK, acts)))"

subsection \<open>All messages\<close>

definition caller_blocked :: string where
  "caller_blocked = ''Method reply would be blocked because caller does not allow remote messages''"

definition policy_blocked :: string where
  "policy_blocked = ''Destination not allowed to receive method call''"

definition receiver_blocked :: "string \<Rightarrow> string" where
  "receiver_blocked name = ''Remote method calls blocked for bus name: '' @ name"

definition unknown_name :: "string \<Rightarrow> string" where
  "unknown_name name = ''Unknown bus name: '' @ name"

text \<open>
  The whole function; \<open>new\<close> are the addresses of the two endpoints that the search for a
  session builds. An error reply goes through the function once more, from the local
  endpoint. No result means that a lookup of a name does not return.
\<close>

function PushMessage ::
  "surroundings \<Rightarrow> Router \<Rightarrow> ep \<times> ep \<Rightarrow> message \<Rightarrow> ep \<Rightarrow> (QStatus \<times> action list) option" where
  "PushMessage env R new msg origSender =
     (if \<not> isValid (endpoints env (localEndpoint R)) then Some (ER_BUS_ENDPOINT_CLOSING, [])
      else do {
        destEndpoint \<leftarrow>
          (if GetDestination msg \<noteq> [] then FindEndpoint (endpoints env) (nameTable R) (GetDestination msg)
           else Some None);
        if origSender \<noteq> localEndpoint R \<and> \<not> OKToSend env msg destEndpoint
        then Some (ER_BUS_POLICY_VIOLATION, [])
        else if IsSessionless msg \<and> from_b2b env origSender \<and> routed env (b2bSessionId env origSender) msg
        then Some (ER_OK, [RouteSessionless (b2bSessionId env origSender) msg])
        else do {
          let asked = (if IsSessionless msg \<and> from_b2b env origSender
                       then [RouteSessionless (b2bSessionId env origSender) msg] else []);
          let errorMsg = ErrorMsg (GetUniqueName (endpoints env (localEndpoint R))) msg;
          (status, acts) \<leftarrow>
            (if GetDestination msg \<noteq> [] then
               (if IsValid (endpoints env) destEndpoint then
                  (let dest = the destEndpoint in
                   if \<not> (from_b2b env origSender \<and> \<not> AllowRemoteMessages env dest) then
                     (if GetEndpointType (endpoints env dest) = ENDPOINT_TYPE_VIRTUAL \<and> replyExpected msg \<and>
                         \<not> AllowRemoteMessages env origSender then do {
                        (_, acts) \<leftarrow> PushMessage env R new (errorMsg caller_blocked) (localEndpoint R);
                        Some (ER_OK, acts) }
                      else if \<not> receives env R msg dest then
                        (if replyExpected msg then do {
                           (_, acts) \<leftarrow> PushMessage env R new (errorMsg policy_blocked) (localEndpoint R);
                           Some (ER_BUS_POLICY_VIOLATION, acts) }
                         else Some (ER_BUS_POLICY_VIOLATION, []))
                      else (let a = SendThroughEndpoint env msg (GetSessionId msg) dest in
                            Some (push_status env a, [a])))
                   else if replyExpected msg then do {
                     (_, acts) \<leftarrow> PushMessage env R new (errorMsg (receiver_blocked (GetDestination msg))) (localEndpoint R);
                     Some (ER_OK, acts) }
                   else Some (ER_OK, []))
                else
                  (let start = (GetFlags msg AND ALLJOYN_FLAG_AUTO_START \<noteq> 0 \<and> \<not> from_b2b env origSender \<and>
                                GetEndpointType (endpoints env origSender) \<noteq> ENDPOINT_TYPE_NULL);
                       acts0 = (if start then [StartService msg origSender] else []);
                       status = (if start then push_status env (StartService msg origSender) else ER_BUS_NO_ROUTE) in
                   if status \<noteq> ER_OK \<and> replyExpected msg then do {
                     (_, acts) \<leftarrow> PushMessage env R new (errorMsg (unknown_name (GetDestination msg))) (localEndpoint R);
                     Some (status, acts0 @ acts) }
                   else Some (status, acts0)))
             else if GetSessionId msg = 0 then Some (push_broadcast env R msg origSender)
             else Some (push_multicast env R new msg));
          Some (status, asked @ acts) } })"
  by pat_completeness auto
termination
  by (relation "measure (\<lambda>(env, R, new, msg, origSender). if replyExpected msg then 1 else 0)") auto

declare PushMessage.simps [simp del]

subsection \<open>The loops, when no endpoint leaves\<close>

lemma b2b_loop_filter: "b2b_loop chosen (\<lambda>_. {}) es = filter chosen es"
  by (induction es) auto

lemma dropWhile_upward:
  "sorted_wrt R xs \<Longrightarrow> (\<And>x y. R x y \<Longrightarrow> P x \<Longrightarrow> P y) \<Longrightarrow> dropWhile (\<lambda>x. \<not> P x) xs = filter P xs"
proof (induction xs)
  case (Cons x xs)
  show ?case
  proof (cases "P x")
    case True
    with Cons.prems have "\<forall>y \<in> set xs. P y" by auto
    with True show ?thesis by (simp add: filter_id_conv)
  qed (use Cons in simp)
qed simp

lemma below_pred: "n \<noteq> 0 \<Longrightarrow> n - 1 < i \<longleftrightarrow> n \<le> i" for n i :: u32
  by (simp add: word_less_nat_alt word_le_nat_alt unat_minus_one) (use unat_gt_0 [of n] in linarith)

lemma lex_trans:
  fixes x y z :: "'a :: order"
  shows "x < y \<or> x = y \<and> P \<Longrightarrow> y < z \<or> y = z \<and> Q \<Longrightarrow> (P \<Longrightarrow> Q \<Longrightarrow> S) \<Longrightarrow> x < z \<or> x = z \<and> S"
  by (auto intro: less_trans)

lemma sce_less_trans: "sce_less x y \<Longrightarrow> sce_less y z \<Longrightarrow> sce_less x z"
  unfolding sce_less_def by (erule (1) lex_trans)+ (rule less_trans)

lemma sce_less_le: "sce_less x y \<Longrightarrow> src x < src y \<or> src x = src y \<and> sce_id x \<le> sce_id y"
  by (auto simp: sce_less_def)

lemma cast_start_filter:
  assumes "sorted_wrt sce_less xs" and "sessionId \<noteq> 0"
  shows "cast_start sessionId name n1 n2 xs =
     filter (\<lambda>x. name < src x \<or> name = src x \<and> sessionId \<le> sce_id x) xs"
proof -
  let ?sce = "\<lparr>sce_id = sessionId - 1, src = name, b2bEp = n1, destEp = n2\<rparr>"
  let ?P = "\<lambda>x. name < src x \<or> name = src x \<and> sessionId \<le> sce_id x"
  have first: "dropWhile (\<lambda>x. \<not> sce_less ?sce x) xs = filter (sce_less ?sce) xs"
    using assms(1) by (rule dropWhile_upward) (rule sce_less_trans)
  have sub: "sce_less ?sce x" if "?P x" for x
    using that assms(2) by (auto simp: sce_less_def below_pred)
  have rest: "src x = name \<and> sce_id x < sessionId \<longleftrightarrow> \<not> ?P x" if "sce_less ?sce x" for x
    using that by (auto simp: sce_less_def)
  have "dropWhile (\<lambda>x. src x = name \<and> sce_id x < sessionId) (filter (sce_less ?sce) xs) =
      dropWhile (\<lambda>x. \<not> ?P x) (filter (sce_less ?sce) xs)"
    using rest by (intro dropWhile_cong) auto
  also have "\<dots> = filter ?P (filter (sce_less ?sce) xs)"
  proof (rule dropWhile_upward [of sce_less])
    show "sorted_wrt sce_less (filter (sce_less ?sce) xs)"
      using assms(1) by (rule sorted_wrt_filter)
    show "?P y" if "sce_less x y" "?P x" for x y
      using sce_less_le [OF that(1)] that(2) by auto
  qed
  also have "\<dots> = filter ?P xs"
    using sub by (auto intro: filter_cong)
  finally show ?thesis
    using first by (simp add: cast_start_def)
qed

text \<open>
  The entries that are used: the first permitted one of every route. The routes of the entries of one
  session come in order, so comparing with the last one used is enough.
\<close>

lemma cast_loop_routes:
  assumes "sorted (map b2bEp (takeWhile P xs))"
    and "\<forall>b. last_used = Some b \<longrightarrow> (\<forall>x \<in> set (takeWhile P xs). b \<le> b2bEp x)"
    and "cast_loop P ok (\<lambda>_. {}) last_used k xs = (ys, k')"
  shows "set ys \<subseteq> set (takeWhile P xs) \<and> (\<forall>y \<in> set ys. ok (destEp y)) \<and> distinct (map b2bEp ys) \<and>
     b2bEp ` set ys = {b. Some b \<noteq> last_used \<and> (\<exists>x \<in> set (takeWhile P xs). b2bEp x = b \<and> ok (destEp x))} \<and>
     (ys = [] \<longrightarrow> k' = (k \<and> (\<forall>x \<in> set (takeWhile P xs). Some (b2bEp x) = last_used)))"
  using assms
proof (induction xs arbitrary: last_used k ys k')
  case (Cons x xs)
  show ?case
  proof (cases "P x \<and> Some (b2bEp x) \<noteq> last_used \<and> ok (destEp x)")
    case True
    obtain zs k'' where r: "cast_loop P ok (\<lambda>_. {}) (Some (b2bEp x)) True xs = (zs, k'')" by force
    have ys: "ys = x # zs" using True Cons.prems(3) r by simp
    from Cons.IH [OF _ _ r] Cons.prems(1) True
    have IH: "set zs \<subseteq> set (takeWhile P xs)" "\<forall>y \<in> set zs. ok (destEp y)" "distinct (map b2bEp zs)"
      "b2bEp ` set zs = {b. b \<noteq> b2bEp x \<and> (\<exists>x \<in> set (takeWhile P xs). b2bEp x = b \<and> ok (destEp x))}"
      by auto
    have later: "Some (b2bEp y) \<noteq> last_used" if "y \<in> set (takeWhile P xs)" for y
      using that True Cons.prems(1,2) by (cases last_used) fastforce+
    show ?thesis
      unfolding ys using True IH(1-3) later by (simp add: IH(4)) auto
  next
    case False
    show ?thesis
    proof (cases "P x")
      case True
      let ?k = "if Some (b2bEp x) \<noteq> last_used then False else k"
      have "cast_loop P ok (\<lambda>_. {}) last_used ?k xs = (ys, k')"
        using False True Cons.prems(3) by (auto split: if_splits)
      from Cons.IH [OF _ _ this] Cons.prems(1,2) True False show ?thesis
        by auto
    qed (use Cons.prems(3) in simp)
  qed
qed auto

lemma takeWhile_downward:
  "sorted_wrt R xs \<Longrightarrow> (\<And>x y. x \<in> set xs \<Longrightarrow> R x y \<Longrightarrow> P y \<Longrightarrow> P x) \<Longrightarrow> takeWhile P xs = filter P xs"
proof (induction xs)
  case (Cons x xs)
  show ?case
  proof (cases "P x")
    case False
    with Cons.prems have "\<forall>y \<in> set xs. \<not> P y" by (metis list.set_intros(1) sorted_wrt.simps(2))
    with False show ?thesis by (simp add: filter_empty_conv)
  qed (use Cons in auto)
qed simp

lemma filter_weaker: "(\<And>x. P x \<Longrightarrow> Q x) \<Longrightarrow> filter P (filter Q xs) = filter P xs"
  by (induction xs) auto

lemma cast_members:
  fixes name :: string
  assumes "sorted_wrt sce_less xs" and "sessionId \<noteq> 0"
  defines "P \<equiv> \<lambda>x. sce_id x = sessionId \<and> src x = name"
  shows "takeWhile P (cast_start sessionId name n1 n2 xs) = filter P xs"
    and "sorted (map b2bEp (filter P xs))"
proof -
  let ?Q = "\<lambda>x. name < src x \<or> name = src x \<and> sessionId \<le> sce_id x"
  have "takeWhile P (filter ?Q xs) = filter P (filter ?Q xs)"
  proof (rule takeWhile_downward [of sce_less])
    show "sorted_wrt sce_less (filter ?Q xs)"
      using assms(1) by (rule sorted_wrt_filter)
    show "P x" if xQ: "x \<in> set (filter ?Q xs)" and xy: "sce_less x y" and Py: "P y" for x y
    proof -
      have y: "src y = name" "sce_id y = sessionId"
        using Py by (simp_all add: P_def)
      consider "src x < name" | "src x = name" "sce_id x \<le> sessionId"
        using sce_less_le [OF xy] unfolding y by blast
      then show "P x"
      proof cases
        case 1
        then have "\<not> name < src x" "name \<noteq> src x" by order+
        with xQ show ?thesis by simp
      next
        case 2
        with xQ have "sessionId \<le> sce_id x" by simp
        with 2 show ?thesis unfolding P_def by simp
      qed
    qed
  qed
  also have "\<dots> = filter P xs"
    by (rule filter_weaker) (simp add: P_def)
  finally show "takeWhile P (cast_start sessionId name n1 n2 xs) = filter P xs"
    unfolding cast_start_filter [OF assms(1,2)] .
  have "sorted_wrt (\<lambda>x y. b2bEp x \<le> b2bEp y) (filter P xs)"
    by (rule sorted_wrt_mono_rel [of _ sce_less])
      (auto simp: P_def sce_less_def intro: sorted_wrt_filter assms(1))
  then show "sorted (map b2bEp (filter P xs))"
    by (simp add: sorted_map)
qed

subsection \<open>Properties\<close>

text \<open>How often a list of actions sends a message to an endpoint.\<close>

definition pushes :: "ep \<Rightarrow> action list \<Rightarrow> nat" where
  "pushes e acts = length (filter (\<lambda>a. target a = Some e) acts)"

lemma pushes_simps [simp]:
  "pushes e [] = 0" "pushes e (a # acts) = (if target a = Some e then 1 else 0) + pushes e acts"
  "pushes e (xs @ ys) = pushes e xs + pushes e ys"
  by (simp_all add: pushes_def)

lemma pushes_sends:
  "distinct es \<Longrightarrow> pushes e (map (SendThroughEndpoint env msg sid) es) = of_bool (e \<in> set es)"
  by (induction es) auto

lemma no_push_sessionless:
  "PushSessionless m \<notin> set (map (SendThroughEndpoint env msg sid) es)"
  by (auto simp: SendThroughEndpoint_def split: if_splits)

text \<open>Which endpoints want a broadcast, and to which routes it goes besides.\<close>

definition subscribed :: "surroundings \<Rightarrow> Router \<Rightarrow> message \<Rightarrow> ep \<Rightarrow> ep \<Rightarrow> bool" where
  "subscribed env R msg origSender e \<longleftrightarrow>
     list_ex (\<lambda>r. IsMatch r msg) (rules_of (ruleTable R) e) \<and> receives env R msg e \<and>
     (from_b2b env origSender \<longrightarrow> AllowRemoteMessages env e)"

definition routes_on :: "surroundings \<Rightarrow> Router \<Rightarrow> message \<Rightarrow> ep \<Rightarrow> ep \<Rightarrow> bool" where
  "routes_on env R msg origSender e \<longleftrightarrow>
     IsGlobalBroadcast msg \<and> \<not> IsSessionless msg \<and> e \<in> set (m_b2bEndpoints R) \<and> e \<noteq> origSender \<and>
     (DetachSession_id msg = 0 \<or> b2bSessionId env e = DetachSession_id msg) \<and> receives env R msg e"

lemma broadcast_pushes:
  assumes "ordered (ruleTable R)"
  shows "pushes e (map (SendThroughEndpoint env msg sid) (broadcast (may_receive env R msg origSender) msg (ruleTable R))) =
     of_bool (subscribed env R msg origSender e)"
  using broadcast_spec [OF assms]
  by (subst pushes_sends) (auto simp: strict_sorted_iff subscribed_def may_receive_def rules_of_def list_ex_iff)

lemma push_broadcast_pushes:
  assumes "ordered (ruleTable R)" and "distinct (m_b2bEndpoints R)" and "departs env = (\<lambda>_. {})"
  shows "pushes e (snd (push_broadcast env R msg origSender)) =
      of_bool (subscribed env R msg origSender e) + of_bool (routes_on env R msg origSender e)"
  using assms(2)
  by (simp add: push_broadcast_def Let_def broadcast_pushes [OF assms(1)] pushes_sends assms(3) b2b_loop_filter)
    (auto simp: routes_on_def)

lemma PushMessage_broadcast:
  assumes "isValid (endpoints env (localEndpoint R))" and "GetDestination msg = []" and "GetSessionId msg = 0"
    and "origSender = localEndpoint R \<or> OKToSend env msg None"
    and "\<not> (IsSessionless msg \<and> from_b2b env origSender \<and> routed env (b2bSessionId env origSender) msg)"
  shows "PushMessage env R new msg origSender =
     (case push_broadcast env R msg origSender of (status, acts) \<Rightarrow>
        Some (status, (if IsSessionless msg \<and> from_b2b env origSender
                       then [RouteSessionless (b2bSessionId env origSender) msg] else []) @ acts))"
  using assms by (subst PushMessage.simps) auto

text \<open>
  C12. A message without destination and session that the sender may send, and that the
  controller has not already routed itself: every endpoint is sent it once if it has a matching
  rule (however many of its rules match), may receive it and, where the message comes from
  another bus, allows remote messages; a bus-to-bus endpoint other than the sender is sent
  it (once more, should it have rules) if the message is a global broadcast and not
  sessionless, the session named in a \<open>DetachSession\<close> is none or its own, and it may
  receive it; nobody else is sent anything. A sessionless message of this bus is also
  given to the controller. The rules are ordered, the set of bus-to-bus endpoints has no
  duplicates, and none of them unregisters in the meantime.
\<close>

theorem broadcast_exactly_once:
  assumes "isValid (endpoints env (localEndpoint R))" and "GetDestination msg = []" and "GetSessionId msg = 0"
    and "origSender = localEndpoint R \<or> OKToSend env msg None"
    and "\<not> (IsSessionless msg \<and> from_b2b env origSender \<and> routed env (b2bSessionId env origSender) msg)"
    and "ordered (ruleTable R)" and "distinct (m_b2bEndpoints R)" and "departs env = (\<lambda>_. {})"
  shows "\<exists>status acts. PushMessage env R new msg origSender = Some (status, acts) \<and>
     (\<forall>e. pushes e acts =
        of_bool (subscribed env R msg origSender e) + of_bool (routes_on env R msg origSender e)) \<and>
     (PushSessionless msg \<in> set acts \<longleftrightarrow> IsSessionless msg \<and> \<not> from_b2b env origSender)"
proof -
  obtain status acts where pb: "push_broadcast env R msg origSender = (status, acts)" by force
  have n: "pushes e acts =
      of_bool (subscribed env R msg origSender e) + of_bool (routes_on env R msg origSender e)" for e
    using push_broadcast_pushes [OF assms(6-8), of e msg origSender] by (simp add: pb)
  have "PushSessionless msg \<in> set (snd (push_broadcast env R msg origSender)) \<longleftrightarrow>
      IsSessionless msg \<and> \<not> from_b2b env origSender"
    using no_push_sessionless by (auto simp: push_broadcast_def Let_def)
  then show ?thesis
    using PushMessage_broadcast [OF assms(1-5), of new] by (simp add: pb n)
qed

text \<open>Which endpoint takes a call, and whether a service may be started for it.\<close>

definition taken_by :: "surroundings \<Rightarrow> Router \<Rightarrow> message \<Rightarrow> ep \<Rightarrow> ep \<Rightarrow> bool" where
  "taken_by env R msg origSender d \<longleftrightarrow>
     may_receive env R msg origSender d \<and>
     (GetEndpointType (endpoints env d) = ENDPOINT_TYPE_VIRTUAL \<longrightarrow> AllowRemoteMessages env origSender)"

definition may_start :: "surroundings \<Rightarrow> message \<Rightarrow> ep \<Rightarrow> bool" where
  "may_start env msg origSender \<longleftrightarrow>
     GetFlags msg AND ALLJOYN_FLAG_AUTO_START \<noteq> 0 \<and> \<not> from_b2b env origSender \<and>
     GetEndpointType (endpoints env origSender) \<noteq> ENDPOINT_TYPE_NULL"

lemma error_not_sessionless [simp]: "\<not> IsSessionless (ErrorMsg n msg d)"
proof -
  have "(x AND 0x80) AND 0x10 = (0 :: byte)" for x
    by (simp add: and.assoc)
  then show ?thesis
    by (simp add: IsSessionless_def ErrorMsg_def ALLJOYN_FLAG_SESSIONLESS_def ALLJOYN_FLAG_ENCRYPTED_def)
qed

lemma PushMessage_error:
  assumes "isValid (endpoints env (localEndpoint R))" and "\<not> from_b2b env (localEndpoint R)"
    and "GetSender msg \<noteq> []"
    and "FindEndpoint (endpoints env) (nameTable R) (GetSender msg) = Some (Some c)" and "isValid (endpoints env c)"
    and "receives env R (ErrorMsg n msg d) c"
  shows "PushMessage env R new (ErrorMsg n msg d) (localEndpoint R) =
     Some (push_status env (SendThroughEndpoint env (ErrorMsg n msg d) (GetSessionId msg) c),
           [SendThroughEndpoint env (ErrorMsg n msg d) (GetSessionId msg) c])"
  using assms by (subst PushMessage.simps) (simp add: Let_def)

text \<open>What the caller is told when the owner of the destination does not take the call.\<close>

definition refusal :: "surroundings \<Rightarrow> message \<Rightarrow> ep \<Rightarrow> ep \<Rightarrow> string" where
  "refusal env msg origSender d =
     (if from_b2b env origSender \<and> \<not> AllowRemoteMessages env d then receiver_blocked (GetDestination msg)
      else if GetEndpointType (endpoints env d) = ENDPOINT_TYPE_VIRTUAL \<and> \<not> AllowRemoteMessages env origSender
      then caller_blocked else policy_blocked)"

text \<open>
  C13. A method call that expects a reply is never lost without a word. The sender may send it,
  the name table returns for its destination and finds a valid endpoint by the name the call
  has as its sender, and that endpoint may receive the reply; the call is not marked
  sessionless. Then the router does exactly one of these: it pushes the call to the owner of
  the destination, if there is a valid one that takes it; or it starts a service for it and
  succeeds; or it pushes one error reply, with the text for the case, to the endpoint of the
  sender's name, after a failed start or without one.
\<close>

theorem method_call_answered:
  assumes "isValid (endpoints env (localEndpoint R))" and "\<not> from_b2b env (localEndpoint R)"
    and "GetDestination msg \<noteq> []" and "replyExpected msg" and "\<not> IsSessionless msg"
    and dest: "FindEndpoint (endpoints env) (nameTable R) (GetDestination msg) = Some dest"
    and "origSender = localEndpoint R \<or> OKToSend env msg dest"
    and "GetSender msg \<noteq> []"
    and "FindEndpoint (endpoints env) (nameTable R) (GetSender msg) = Some (Some caller)"
    and "isValid (endpoints env caller)"
    and reply: "reply = ErrorMsg (GetUniqueName (endpoints env (localEndpoint R))) msg"
    and "\<And>text. receives env R (reply text) caller"
  shows "\<exists>status acts. PushMessage env R new msg origSender = Some (status, acts) \<and>
     acts = (if IsValid (endpoints env) dest then
               (if taken_by env R msg origSender (the dest)
                then [SendThroughEndpoint env msg (GetSessionId msg) (the dest)]
                else [SendThroughEndpoint env (reply (refusal env msg origSender (the dest))) (GetSessionId msg) caller])
             else if may_start env msg origSender then
               (if push_status env (StartService msg origSender) = ER_OK then [StartService msg origSender]
                else [StartService msg origSender,
                      SendThroughEndpoint env (reply (unknown_name (GetDestination msg))) (GetSessionId msg) caller])
             else [SendThroughEndpoint env (reply (unknown_name (GetDestination msg))) (GetSessionId msg) caller])"
proof -
  have r: "PushMessage env R new (ErrorMsg (GetUniqueName (endpoints env (localEndpoint R))) msg d) (localEndpoint R) =
     Some (push_status env (SendThroughEndpoint env (reply d) (GetSessionId msg) caller),
           [SendThroughEndpoint env (reply d) (GetSessionId msg) caller])" for d
    using PushMessage_error [OF assms(1,2,8-10), of _ d new] assms(12) unfolding reply by simp
  show ?thesis
    using assms(1,3-5,7) dest
    by (subst PushMessage.simps)
      (auto simp: Let_def r taken_by_def may_receive_def may_start_def refusal_def)
qed

lemma PushMessage_multicast:
  assumes "isValid (endpoints env (localEndpoint R))" and "GetDestination msg = []" and "GetSessionId msg \<noteq> 0"
    and "\<not> IsSessionless msg" and "origSender = localEndpoint R \<or> OKToSend env msg None"
  shows "PushMessage env R new msg origSender = Some (push_multicast env R new msg)"
  using assms by (subst PushMessage.simps) auto

text \<open>
  C14. A message to a session, from a sender that may send it: the entries of the session for
  that sender say which routes there are, a route being the bus-to-bus endpoint of an entry (for a
  member on this bus, whatever endpoint its entry has in that place). Over each route that leads to a member that may receive
  the message it is sent exactly once, to such a member, and over no other route; when there
  is no such member the result says whether there was no entry at all or the policy forbade
  it. The set is ordered and no endpoint unregisters in the meantime.
\<close>

theorem session_multicast_once_per_route:
  assumes "isValid (endpoints env (localEndpoint R))" and "GetDestination msg = []" and "GetSessionId msg \<noteq> 0"
    and "\<not> IsSessionless msg" and "origSender = localEndpoint R \<or> OKToSend env msg None"
    and "sorted_wrt sce_less (sessionCastSet R)" and "departs env = (\<lambda>_. {})"
    and members: "members = filter (\<lambda>x. sce_id x = GetSessionId msg \<and> src x = GetSender msg) (sessionCastSet R)"
  shows "\<exists>status used. PushMessage env R new msg origSender =
       Some (status, map (\<lambda>x. SendThroughEndpoint env msg (GetSessionId msg) (destEp x)) used) \<and>
     set used \<subseteq> set members \<and> (\<forall>x \<in> set used. receives env R msg (destEp x)) \<and>
     distinct (map b2bEp used) \<and>
     b2bEp ` set used = b2bEp ` {x \<in> set members. receives env R msg (destEp x)} \<and>
     (used = [] \<longrightarrow> status = (if members = [] then ER_BUS_NO_ROUTE else ER_BUS_POLICY_VIOLATION))"
proof -
  let ?P = "\<lambda>x. sce_id x = GetSessionId msg \<and> src x = GetSender msg"
  let ?sit = "cast_start (GetSessionId msg) (GetSender msg) (fst new) (snd new) (sessionCastSet R)"
  obtain used k where run: "cast_loop ?P (receives env R msg) (\<lambda>_. {}) None True ?sit = (used, k)"
    by force
  have m: "takeWhile ?P ?sit = members" "sorted (map b2bEp members)"
    unfolding members by (rule cast_members [OF assms(6,3)])+
  have spec: "set used \<subseteq> set members" "\<forall>x \<in> set used. receives env R msg (destEp x)"
    "distinct (map b2bEp used)"
    "b2bEp ` set used = {b. \<exists>x \<in> set members. b2bEp x = b \<and> receives env R msg (destEp x)}"
    "used = [] \<longrightarrow> k = (members = [])"
    using cast_loop_routes [OF _ _ run] m by auto
  obtain status where "push_multicast env R new msg =
      (status, map (\<lambda>x. SendThroughEndpoint env msg (GetSessionId msg) (destEp x)) used)"
    "used = [] \<longrightarrow> status = (if k then ER_BUS_NO_ROUTE else ER_BUS_POLICY_VIOLATION)"
    using run by (simp add: push_multicast_def Let_def assms(7))
  then show ?thesis
    using PushMessage_multicast [OF assms(1-5)] spec by (intro exI [of _ status] exI [of _ used]) auto
qed

lemma b2b_loop_stays: "\<forall>x \<in> set xs. gone x = {} \<Longrightarrow> b2b_loop chosen gone xs = filter chosen xs"
  by (induction xs) auto

lemma b2b_loop_departs:
  assumes "chosen e" and "distinct (before @ e # hidden # behind)"
  shows "b2b_loop chosen (\<lambda>x. if x = e then {e} else {}) (before @ e # hidden # behind) =
     filter chosen before @ e # filter chosen behind"
  using assms(2)
proof (induction before)
  case Nil
  then have "filter (\<lambda>x. x \<noteq> e) behind = behind" by (auto simp: filter_id_conv)
  moreover have "b2b_loop chosen (\<lambda>x. if x = e then {e} else {}) behind = filter chosen behind"
    using Nil by (intro b2b_loop_stays) auto
  ultimately show ?case using Nil assms(1) by simp
qed (use assms(1) in auto)

lemma independent:
  "subscribed (env\<lparr>departs := d\<rparr>) R msg s e = subscribed env R msg s e"
  "routes_on (env\<lparr>departs := d\<rparr>) R msg s e = routes_on env R msg s e"
  "from_b2b (env\<lparr>departs := d\<rparr>) s = from_b2b env s"
  by (simp_all add: subscribed_def routes_on_def receives_def from_b2b_def)

text \<open>
  C40. While the router pushes a global broadcast to a bus-to-bus endpoint it does not hold the
  lock of the set. If that endpoint unregisters in the meantime, the walk goes on behind
  the next one, which is then sent nothing, although it is still there; had the
  endpoint stayed, it would have been sent the message.
\<close>

theorem departing_route_hides_next:
  assumes "isValid (endpoints env (localEndpoint R))" and "GetDestination msg = []" and "GetSessionId msg = 0"
    and "origSender = localEndpoint R \<or> OKToSend env msg None" and "\<not> IsSessionless msg"
    and "ordered (ruleTable R)" and "distinct (m_b2bEndpoints R)"
    and set: "m_b2bEndpoints R = before @ e # hidden # behind"
    and "routes_on env R msg origSender e" and "routes_on env R msg origSender hidden"
    and "\<not> subscribed env R msg origSender hidden"
    and gone: "departs env = (\<lambda>x. if x = e then {e} else {})"
  shows "\<exists>status acts. PushMessage env R new msg origSender = Some (status, acts) \<and> pushes hidden acts = 0 \<and>
     (\<exists>status' acts'. PushMessage (env\<lparr>departs := \<lambda>_. {}\<rparr>) R new msg origSender = Some (status', acts') \<and>
        pushes hidden acts' = 1)"
proof -
  let ?sid = "DetachSession_id msg"
  let ?chosen = "\<lambda>x. x \<noteq> origSender \<and> (?sid = 0 \<or> b2bSessionId env x = ?sid) \<and> receives env R msg x"
  have e: "?chosen e" "IsGlobalBroadcast msg"
    using assms(9) by (simp_all add: routes_on_def)
  have eps: "b2b_loop ?chosen (departs env) (m_b2bEndpoints R) = filter ?chosen before @ e # filter ?chosen behind"
    unfolding gone set using b2b_loop_departs [of ?chosen e before hidden behind] e(1) assms(7) set by simp
  have "pushes hidden (snd (push_broadcast env R msg origSender)) = 0"
    using assms(5,7,11) e(2)
    by (simp add: push_broadcast_def Let_def broadcast_pushes [OF assms(6)] eps [unfolded set] set)
      (simp add: pushes_sends)
  moreover have "pushes hidden (snd (push_broadcast (env\<lparr>departs := \<lambda>_. {}\<rparr>) R msg origSender)) = 1"
    using assms(10,11)
    by (subst push_broadcast_pushes [OF assms(6,7)]) (simp_all add: independent)
  moreover have "PushMessage env R new msg origSender = Some (push_broadcast env R msg origSender)"
    "PushMessage (env\<lparr>departs := \<lambda>_. {}\<rparr>) R new msg origSender =
       Some (push_broadcast (env\<lparr>departs := \<lambda>_. {}\<rparr>) R msg origSender)"
    using PushMessage_broadcast [of env R msg origSender new]
      PushMessage_broadcast [of "env\<lparr>departs := \<lambda>_. {}\<rparr>" R msg origSender new] assms(1-5)
    by (simp_all add: case_prod_unfold)
  ultimately show ?thesis
    by (metis prod.collapse)
qed

subsection \<open>Witnesses\<close>

text \<open>
  A router with its local endpoint 1, a client 2, a member of a session 7 that is on another
  bus, and the bus-to-bus endpoints 3, 4 and 5.
\<close>

definition demo_endpoints :: store where
  "demo_endpoints e =
     \<lparr>GetUniqueName = (if e = 1 then '':r.1'' else if e = 2 then '':r.2'' else if e = 7 then '':q.2'' else []),
      GetEndpointType = (if e = 1 then ENDPOINT_TYPE_LOCAL else if e = 2 then ENDPOINT_TYPE_REMOTE
                         else if e = 7 then ENDPOINT_TYPE_VIRTUAL else ENDPOINT_TYPE_BUS2BUS),
      isValid = True, b2bTransfers = []\<rparr>"

definition demo_surroundings :: surroundings where
  "demo_surroundings =
     \<lparr>endpoints = demo_endpoints, AllowRemoteMessages = (\<lambda>e. e = 7), b2bSessionId = (\<lambda>_. 0),
      OKToSend = (\<lambda>_ _. True), OKToReceive = (\<lambda>_ _. True), routed = (\<lambda>_ _. False),
      push_status = (\<lambda>_. ER_OK), departs = (\<lambda>_. {})\<rparr>"

definition demo_router :: Router where
  "demo_router =
     \<lparr>localEndpoint = 1,
      nameTable = new_NameTable\<lparr>uniqueNames := [('':r.1'', 1, ALL_NAMES), ('':r.2'', 2, ALL_NAMES), ('':q.2'', 7, ALL_NAMES)]\<rparr>,
      ruleTable = demo_rules, m_b2bEndpoints = [3, 4, 5],
      sessionCastSet =
        [\<lparr>sce_id = 9, src = '':r.2'', b2bEp = 3, destEp = 7\<rparr>, \<lparr>sce_id = 9, src = '':r.2'', b2bEp = 3, destEp = 8\<rparr>,
         \<lparr>sce_id = 9, src = '':r.2'', b2bEp = 6, destEp = 1\<rparr>]\<rparr>"

lemma demo_simps:
  "endpoints demo_surroundings = demo_endpoints" "OKToSend demo_surroundings m d" "localEndpoint demo_router = 1"
  "receives demo_surroundings demo_router m e" "departs demo_surroundings = (\<lambda>_. {})"
  "\<not> routed demo_surroundings i m" "ordered (ruleTable demo_router)" "m_b2bEndpoints demo_router = [3, 4, 5]"
  "isValid (demo_endpoints e)" "GetUniqueName (demo_endpoints 1) = '':r.1''"
  "from_b2b demo_surroundings e \<longleftrightarrow> e \<notin> {1, 2, 7}"
  "uniqueNames (nameTable demo_router) = [('':r.1'', 1, ALL_NAMES), ('':r.2'', 2, ALL_NAMES), ('':q.2'', 7, ALL_NAMES)]"
  by (simp_all add: demo_surroundings_def demo_router_def demo_endpoints_def receives_def from_b2b_def demo_rules_def
      del: One_nat_def)

lemma demo_message_simps:
  "GetType demo_message = MESSAGE_SIGNAL" "GetDestination demo_message = []" "GetSessionId demo_message = 0"
  "GetFlags demo_message = 0" "GetInterface demo_message = ''a.b''"
  by (simp_all add: demo_message_def)

lemmas flag_defs' = IsSessionless_def ALLJOYN_FLAG_SESSIONLESS_def ALLJOYN_FLAG_NO_REPLY_EXPECTED_def
  ALLJOYN_FLAG_AUTO_START_def ALLJOYN_FLAG_GLOBAL_BROADCAST_def

theorem broadcast_exactly_once_witness:
  "\<exists>status acts. PushMessage demo_surroundings demo_router (0, 0)
       (demo_message\<lparr>GetFlags := 0x20\<rparr>) 3 = Some (status, acts) \<and>
     (\<forall>e. pushes e acts =
        of_bool (subscribed demo_surroundings demo_router (demo_message\<lparr>GetFlags := 0x20\<rparr>) 3 e) +
        of_bool (routes_on demo_surroundings demo_router (demo_message\<lparr>GetFlags := 0x20\<rparr>) 3 e)) \<and>
     (PushSessionless (demo_message\<lparr>GetFlags := 0x20\<rparr>) \<in> set acts \<longleftrightarrow>
        IsSessionless (demo_message\<lparr>GetFlags := 0x20\<rparr>) \<and> \<not> from_b2b demo_surroundings 3)"
  by (rule broadcast_exactly_once) (simp_all add: demo_simps demo_message_simps)

definition demo_call :: message where
  "demo_call = demo_message\<lparr>GetType := MESSAGE_METHOD_CALL, GetSender := '':r.2'', GetDestination := '':r.9''\<rparr>"

lemma demo_call_simps:
  "GetDestination demo_call = '':r.9''" "GetSender demo_call = '':r.2''" "GetSessionId demo_call = 0"
  "replyExpected demo_call" "\<not> IsSessionless demo_call" "\<not> may_start demo_surroundings demo_call 2"
  by (simp_all add: demo_call_def demo_message_simps replyExpected_def may_start_def flag_defs')

theorem method_call_answered_witness:
  "\<exists>status. PushMessage demo_surroundings demo_router (0, 0) demo_call 2 =
     Some (status, [SendThroughEndpoint demo_surroundings (ErrorMsg '':r.1'' demo_call ''Unknown bus name: :r.9'') 0 2])"
  using method_call_answered [of demo_surroundings demo_router demo_call None 2 2
      "ErrorMsg '':r.1'' demo_call" "(0, 0)"]
  by (simp add: demo_simps demo_call_simps unknown_name_def FindEndpoint_unique del: One_nat_def)

definition demo_cast :: message where
  "demo_cast = demo_message\<lparr>GetSender := '':r.2'', GetSessionId := 9\<rparr>"

lemma demo_cast_simps:
  "GetDestination demo_cast = []" "GetSender demo_cast = '':r.2''" "GetSessionId demo_cast = 9"
  "\<not> IsSessionless demo_cast"
  by (simp_all add: demo_cast_def demo_message_simps flag_defs')

lemma demo_members:
  "sorted_wrt sce_less (sessionCastSet demo_router)"
  "filter (\<lambda>x. sce_id x = 9 \<and> src x = '':r.2'') (sessionCastSet demo_router) = sessionCastSet demo_router"
  "b2bEp ` set (sessionCastSet demo_router) = {3, 6}"
  by (simp_all add: demo_router_def sce_less_def)

theorem session_multicast_once_per_route_witness:
  "\<exists>status used. PushMessage demo_surroundings demo_router (0, 0) demo_cast 2 =
       Some (status, map (\<lambda>x. SendThroughEndpoint demo_surroundings demo_cast 9 (destEp x)) used) \<and>
     set used \<subseteq> set (sessionCastSet demo_router) \<and> distinct (map b2bEp used) \<and> b2bEp ` set used = {3, 6}"
  using session_multicast_once_per_route [of demo_surroundings demo_router demo_cast 2 "sessionCastSet demo_router" "(0, 0)"]
  by (simp add: demo_simps demo_cast_simps demo_members del: One_nat_def) blast

lemma demo_route:
  assumes "e \<in> {3, 4, 5}"
  shows "routes_on (demo_surroundings\<lparr>departs := d\<rparr>) demo_router (demo_message\<lparr>GetFlags := 0x20\<rparr>) 2 e"
    and "\<not> subscribed (demo_surroundings\<lparr>departs := d\<rparr>) demo_router (demo_message\<lparr>GetFlags := 0x20\<rparr>) 2 4"
  using assms unfolding independent
  by (auto simp: routes_on_def subscribed_def demo_simps IsGlobalBroadcast_def IsBroadcastSignal_def demo_message_simps
      flag_defs' DetachSession_id_def) (auto simp: demo_router_def demo_rules_def rules_of_def)

theorem departing_route_hides_next_witness:
  "\<exists>status acts. PushMessage (demo_surroundings\<lparr>departs := \<lambda>x. if x = 3 then {3} else {}\<rparr>) demo_router (0, 0)
       (demo_message\<lparr>GetFlags := 0x20\<rparr>) 2 = Some (status, acts) \<and> pushes 4 acts = 0"
  using departing_route_hides_next [of "demo_surroundings\<lparr>departs := \<lambda>x. if x = 3 then {3} else {}\<rparr>" demo_router
      "demo_message\<lparr>GetFlags := 0x20\<rparr>" 2 "[]" 3 4 "[5]" "(0, 0)"] demo_route [of 3] demo_route [of 4]
  by (simp add: demo_simps demo_message_simps flag_defs' del: One_nat_def) blast

end
