(* ===== verification/Sasl_Engine.thy ===== *)
theory Sasl_Engine
  imports String_Util "HOL-Library.Char_ord" "HOL-Library.List_Lexorder"
begin

text \<open>
  The state machine of authentication, \<^verbatim>\<open>alljoyn_core/src/SASLEngine.cc\<close>, for both
  roles. The mechanisms and the handler of extension commands are interfaces whose virtual
  methods are the fields of a record; a result \<open>None\<close> means that a null pointer is followed or
  that the handler does not return. The set of names is a sorted list.
\<close>

subsection \<open>Commands\<close>

datatype AuthCmdType = CMD_AUTH | CMD_CANCEL | CMD_BEGIN | CMD_DATA | CMD_ERROR | CMD_REJECTED | CMD_OK | CMD_INVALID

fun cmdStr :: "AuthCmdType \<Rightarrow> string" where
  "cmdStr CMD_AUTH = ''AUTH''"
| "cmdStr CMD_CANCEL = ''CANCEL''"
| "cmdStr CMD_BEGIN = ''BEGIN''"
| "cmdStr CMD_DATA = ''DATA''"
| "cmdStr CMD_ERROR = ''ERROR''"
| "cmdStr CMD_REJECTED = ''REJECTED''"
| "cmdStr CMD_OK = ''OK''"
| "cmdStr CMD_INVALID = ''invalid''"

definition CRLF :: string where
  "CRLF = [CHR 0x0D, CHR 0x0A]"

text \<open>What precedes the first occurrence of CRLF.\<close>

fun before_CRLF :: "string \<Rightarrow> string" where
  "before_CRLF (c # d # s) = (if c = CHR 0x0D \<and> d = CHR 0x0A then [] else c # before_CRLF (d # s))"
| "before_CRLF s = s"

definition starts :: "string \<Rightarrow> string \<Rightarrow> bool" where
  "starts p s \<longleftrightarrow> take (length p) s = p"

definition AllJoynAuthCmdList :: "AuthCmdType list" where
  "AllJoynAuthCmdList = [CMD_AUTH, CMD_CANCEL, CMD_BEGIN, CMD_DATA, CMD_ERROR, CMD_REJECTED, CMD_OK]"

definition ParseAuth :: "string \<Rightarrow> AuthCmdType \<times> string" where
  "ParseAuth str =
     (let s = before_CRLF str
      in case filter (\<lambda>c. starts (cmdStr c) s) AllJoynAuthCmdList of
           [] \<Rightarrow> (CMD_INVALID, s)
         | c # _ \<Rightarrow> (c, drop (length (cmdStr c)) s))"

definition ComposeAuth :: "AuthCmdType \<Rightarrow> string \<Rightarrow> string \<Rightarrow> string" where
  "ComposeAuth cmd str1 str2 =
     cmdStr cmd @ (if str1 \<noteq> [] then '' '' @ str1 else []) @ (if str2 \<noteq> [] then '' '' @ str2 else []) @ CRLF"

text \<open>A decoded text ends at its first NUL.\<close>

definition HexToAscii :: "string \<Rightarrow> string" where
  "HexToAscii hex =
     (let len = length hex div 2; bs = HexStringToBytes hex len NUL
      in if length bs = len then takeWhile (\<lambda>c. c \<noteq> NUL) (map (\<lambda>b. char_of (unat b)) bs) else [])"

definition AsciiToHex :: "string \<Rightarrow> string" where
  "AsciiToHex ascii = BytesToHexString (map (\<lambda>c. word_of_nat (char_code c)) ascii) True NUL"

definition set_insert :: "string \<Rightarrow> string list \<Rightarrow> string list" where
  "set_insert n S = (if n \<in> set S then S else insort n S)"

definition set_erase :: "string \<Rightarrow> string list \<Rightarrow> string list" where
  "set_erase n S = removeAll n S"

function ParseAuthNames :: "string list \<Rightarrow> string \<Rightarrow> string list" where
  "ParseAuthNames S names =
     (if names = [] then S
      else let name = takeWhile (\<lambda>c. c \<noteq> CHR '' '') names
           in ParseAuthNames (if name = [] then S else set_insert name S) (drop (length name + 1) names))"
  by pat_completeness auto

termination ParseAuthNames
  by (relation "measure (\<lambda>(S, names). length names)") auto

declare ParseAuthNames.simps [simp del]

lemma ParseAuthNames_single:
  assumes "n \<noteq> []" "CHR '' '' \<notin> set n"
  shows "ParseAuthNames [] n = [n]" "ParseAuthNames [] ('' '' @ n) = [n]"
proof -
  have tw: "takeWhile (\<lambda>c. c \<noteq> CHR '' '') n = n" using assms(2) by (auto simp: takeWhile_eq_all_conv)
  show n: "ParseAuthNames [] n = [n]"
    using assms(1) by (subst ParseAuthNames.simps) (simp add: tw Let_def set_insert_def ParseAuthNames.simps [of _ "[]"])
  show "ParseAuthNames [] ('' '' @ n) = [n]"
    by (subst ParseAuthNames.simps) (simp add: n)
qed

fun ExpandAuthNames :: "string list \<Rightarrow> string" where
  "ExpandAuthNames [] = []"
| "ExpandAuthNames [n] = n"
| "ExpandAuthNames (n # ns) = n @ '' '' @ ExpandAuthNames ns"

subsection \<open>The interfaces and the state\<close>

datatype AuthRole = CHALLENGER | RESPONDER

datatype AuthResult = ALLJOYN_AUTH_OK | ALLJOYN_AUTH_CONTINUE | ALLJOYN_AUTH_RETRY | ALLJOYN_AUTH_FAIL | ALLJOYN_AUTH_ERROR

datatype AuthState =
    ALLJOYN_SEND_AUTH_REQ | ALLJOYN_WAIT_FOR_AUTH | ALLJOYN_WAIT_FOR_BEGIN | ALLJOYN_WAIT_FOR_DATA
  | ALLJOYN_WAIT_FOR_OK | ALLJOYN_WAIT_FOR_REJECT | ALLJOYN_WAIT_EXT_RESPONSE | ALLJOYN_AUTH_SUCCESS | ALLJOYN_AUTH_FAILED

record ('m, 'h) methods =
  GetMechanism :: "string \<Rightarrow> 'm option"
  GetName :: "'m \<Rightarrow> string"
  m_Init :: "AuthRole \<Rightarrow> string \<Rightarrow> 'm \<Rightarrow> QStatus \<times> 'm"
  m_InitialResponse :: "'m \<Rightarrow> string \<times> AuthResult \<times> 'm"
  m_Response :: "string \<Rightarrow> 'm \<Rightarrow> string \<times> AuthResult \<times> 'm"
  m_InitialChallenge :: "'m \<Rightarrow> string \<times> AuthResult \<times> 'm"
  m_Challenge :: "string \<Rightarrow> 'm \<Rightarrow> string \<times> AuthResult \<times> 'm"
  IsMutual :: "'m \<Rightarrow> bool"
  SASLCallout :: "AuthRole \<Rightarrow> string \<Rightarrow> 'h \<Rightarrow> (string \<times> 'h) option"

record ('m, 'h) SASLEngine =
  authRole :: AuthRole
  authPeer :: string
  authSet :: "string list"
  authCount :: nat
  authMechanism :: "'m option"
  authState :: AuthState
  remoteId :: string
  localId :: string
  extHandler :: "'h option"
  authIsMutual :: bool

definition new_SASLEngine :: "AuthRole \<Rightarrow> string \<Rightarrow> string \<Rightarrow> 'h option \<Rightarrow> ('m, 'h) SASLEngine" where
  "new_SASLEngine role mechanisms peer ext =
     \<lparr>authRole = role, authPeer = peer, authSet = ParseAuthNames [] mechanisms, authCount = 0, authMechanism = None,
      authState = (if role = RESPONDER then ALLJOYN_SEND_AUTH_REQ else ALLJOYN_WAIT_FOR_AUTH),
      remoteId = [], localId = [], extHandler = ext, authIsMutual = False\<rparr>"

definition SetLocalId :: "string \<Rightarrow> ('m, 'h) SASLEngine \<Rightarrow> ('m, 'h) SASLEngine" where
  "SetLocalId i e = e\<lparr>localId := i\<rparr>"

definition SASL_GetMechanism :: "('m, 'h) methods \<Rightarrow> ('m, 'h) SASLEngine \<Rightarrow> string" where
  "SASL_GetMechanism M e = (case authMechanism e of Some m \<Rightarrow> GetName M m | None \<Rightarrow> [])"

definition MAX_AUTH_COUNT :: nat where
  "MAX_AUTH_COUNT = 64"

definition SetState :: "AuthState \<Rightarrow> ('m, 'h) SASLEngine \<Rightarrow> ('m, 'h) SASLEngine" where
  "SetState st e = e\<lparr>authState := st\<rparr>"

lemma SetState_simps [simp]:
  "authState (SetState st e) = st" "authMechanism (SetState st e) = authMechanism e" "authSet (SetState st e) = authSet e"
  "authRole (SetState st e) = authRole e" "authCount (SetState st e) = authCount e" "extHandler (SetState st e) = extHandler e"
  "remoteId (SetState st e) = remoteId e" "localId (SetState st e) = localId e" "authPeer (SetState st e) = authPeer e"
  by (simp_all add: SetState_def)

definition call_ext :: "('m, 'h) methods \<Rightarrow> string \<Rightarrow> ('m, 'h) SASLEngine \<Rightarrow> (string \<times> ('m, 'h) SASLEngine) option" where
  "call_ext M cmd e =
     (case extHandler e of
        None \<Rightarrow> None
      | Some h \<Rightarrow> map_option (\<lambda>(s, h). (s, e\<lparr>extHandler := Some h\<rparr>)) (SASLCallout M (authRole e) cmd h))"

subsection \<open>The responder\<close>

text \<open>One mechanism: initialise it and ask for its initial response.\<close>

definition start_mechanism :: "('m, 'h) methods \<Rightarrow> 'm \<Rightarrow> ('m, 'h) SASLEngine \<Rightarrow> (string \<times> ('m, 'h) SASLEngine) option" where
  "start_mechanism M m e =
     (case m_Init M (authRole e) (authPeer e) m of (status, m) \<Rightarrow>
        if status \<noteq> ER_OK then None
        else case m_InitialResponse M m of (response, authResult, m) \<Rightarrow>
          if authResult = ALLJOYN_AUTH_OK \<or> authResult = ALLJOYN_AUTH_CONTINUE then
            Some (ComposeAuth CMD_AUTH (GetName M m) (AsciiToHex response),
              SetState (if authResult = ALLJOYN_AUTH_OK then ALLJOYN_WAIT_FOR_OK else ALLJOYN_WAIT_FOR_DATA)
                (e\<lparr>authMechanism := Some m\<rparr>))
          else None)"

fun try_mechanisms ::
  "('m, 'h) methods \<Rightarrow> 'm option \<Rightarrow> string list \<Rightarrow> ('m, 'h) SASLEngine \<Rightarrow> QStatus \<times> string \<times> ('m, 'h) SASLEngine" where
  "try_mechanisms M mech names e =
     (case Option.bind mech (\<lambda>m. start_mechanism M m (e\<lparr>authSet := names\<rparr>)) of
        Some (cmd, e) \<Rightarrow> (ER_OK, cmd, e)
      | None \<Rightarrow>
          (case names of
             [] \<Rightarrow> (ER_AUTH_FAIL, [], e\<lparr>authMechanism := None, authSet := []\<rparr>)
           | n # ns \<Rightarrow> try_mechanisms M (GetMechanism M n) ns e))"

declare try_mechanisms.simps [simp del]

definition NewAuthRequest :: "('m, 'h) methods \<Rightarrow> ('m, 'h) SASLEngine \<Rightarrow> QStatus \<times> string \<times> ('m, 'h) SASLEngine" where
  "NewAuthRequest M e =
     (case authMechanism e of
        None \<Rightarrow> try_mechanisms M None (authSet e) e
      | Some m \<Rightarrow>
          if GetName M m \<in> set (authSet e) then try_mechanisms M (Some m) (set_erase (GetName M m) (authSet e)) e
          else try_mechanisms M None (authSet e) e)"

text \<open>The parts of the switch give the status, the command and its text, what is to be sent as it is, and the engine.\<close>

type_synonym ('m, 'h) outcome = "(QStatus \<times> AuthCmdType \<times> string \<times> string \<times> ('m, 'h) SASLEngine) option"

definition on_REJECTED :: "('m, 'h) methods \<Rightarrow> string \<Rightarrow> ('m, 'h) SASLEngine \<Rightarrow> ('m, 'h) outcome" where
  "on_REJECTED M inStr e =
     (let S = (case authMechanism e of
                 Some m \<Rightarrow> if authState e \<noteq> ALLJOYN_WAIT_FOR_REJECT then set_insert (GetName M m) (authSet e) else authSet e
               | None \<Rightarrow> authSet e);
          inAuth = ParseAuthNames [] inStr
      in case NewAuthRequest M (e\<lparr>authSet := filter (\<lambda>n. n \<in> set inAuth) S\<rparr>) of
           (status, cmd, e) \<Rightarrow> Some (status, CMD_REJECTED, [], cmd, e))"

definition respond_challenge :: "('m, 'h) methods \<Rightarrow> string \<Rightarrow> ('m, 'h) SASLEngine \<Rightarrow> ('m, 'h) outcome" where
  "respond_challenge M challenge e =
     (case authMechanism e of
        None \<Rightarrow> None
      | Some m \<Rightarrow>
          case m_Response M challenge m of (r, authResult, m) \<Rightarrow>
            let e = e\<lparr>authMechanism := Some m\<rparr>; response = AsciiToHex r in
            Some (case authResult of
                ALLJOYN_AUTH_OK \<Rightarrow> (ER_OK, CMD_DATA, response, [], SetState ALLJOYN_WAIT_FOR_OK e)
              | ALLJOYN_AUTH_ERROR \<Rightarrow> (ER_OK, CMD_ERROR, response, [], SetState ALLJOYN_WAIT_FOR_DATA e)
              | ALLJOYN_AUTH_CONTINUE \<Rightarrow> (ER_OK, CMD_DATA, response, [], SetState ALLJOYN_WAIT_FOR_DATA e)
              | ALLJOYN_AUTH_RETRY \<Rightarrow>
                  (ER_OK, CMD_CANCEL, [], [], SetState ALLJOYN_WAIT_FOR_REJECT (e\<lparr>authSet := set_insert (GetName M m) (authSet e)\<rparr>))
              | ALLJOYN_AUTH_FAIL \<Rightarrow> (ER_OK, CMD_CANCEL, [], [], SetState ALLJOYN_WAIT_FOR_REJECT e)))"

definition on_DATA :: "('m, 'h) methods \<Rightarrow> string \<Rightarrow> ('m, 'h) SASLEngine \<Rightarrow> ('m, 'h) outcome" where
  "on_DATA M inStr e =
     (case authState e of
        ALLJOYN_WAIT_FOR_DATA \<Rightarrow>
          if inStr \<noteq> [] \<and> HexToAscii (drop 1 inStr) = [] then Some (ER_OK, CMD_ERROR, ''Expected hex-encoded data'', [], e)
          else respond_challenge M (if inStr = [] then [] else HexToAscii (drop 1 inStr)) e
      | ALLJOYN_WAIT_FOR_OK \<Rightarrow> Some (ER_OK, CMD_CANCEL, [], [], SetState ALLJOYN_WAIT_FOR_REJECT e)
      | _ \<Rightarrow> Some (ER_AUTH_FAIL, CMD_DATA, [], [], e))"

text \<open>An extension command goes out as it is; when there is none, authentication is over.\<close>

definition extend_or_begin :: "AuthCmdType \<Rightarrow> string \<times> ('m, 'h) SASLEngine \<Rightarrow> QStatus \<times> AuthCmdType \<times> string \<times> string \<times> ('m, 'h) SASLEngine" where
  "extend_or_begin cmd = (\<lambda>(s, e).
     if s \<noteq> [] then (ER_OK, cmd, [], s @ CRLF, SetState ALLJOYN_WAIT_EXT_RESPONSE e)
     else (ER_OK, CMD_BEGIN, localId e, [], SetState ALLJOYN_AUTH_SUCCESS e))"

definition on_OK :: "('m, 'h) methods \<Rightarrow> string \<Rightarrow> ('m, 'h) SASLEngine \<Rightarrow> ('m, 'h) outcome" where
  "on_OK M inStr e =
     (if authState e = ALLJOYN_WAIT_FOR_DATA \<or> authState e = ALLJOYN_WAIT_FOR_OK then
        (let e = e\<lparr>remoteId := drop 1 inStr\<rparr>
         in if extHandler e = None then Some (extend_or_begin CMD_OK ([], e))
            else map_option (extend_or_begin CMD_OK) (call_ext M [] e))
      else Some (ER_AUTH_FAIL, CMD_OK, [], [], e))"

definition on_ERROR :: "('m, 'h) methods \<Rightarrow> ('m, 'h) SASLEngine \<Rightarrow> ('m, 'h) outcome" where
  "on_ERROR M e =
     (case authState e of
        ALLJOYN_WAIT_FOR_DATA \<Rightarrow> Some (ER_OK, CMD_CANCEL, [], [], SetState ALLJOYN_WAIT_FOR_REJECT e)
      | ALLJOYN_WAIT_FOR_OK \<Rightarrow> Some (ER_OK, CMD_BEGIN, localId e, [], SetState ALLJOYN_WAIT_FOR_REJECT e)
      | ALLJOYN_WAIT_EXT_RESPONSE \<Rightarrow> map_option (extend_or_begin CMD_ERROR) (call_ext M ''ERROR'' e)
      | _ \<Rightarrow> Some (ER_AUTH_FAIL, CMD_ERROR, [], [], e))"

definition on_other :: "('m, 'h) methods \<Rightarrow> AuthCmdType \<Rightarrow> string \<Rightarrow> ('m, 'h) SASLEngine \<Rightarrow> ('m, 'h) outcome" where
  "on_other M cmd inStr e =
     (case authState e of
        ALLJOYN_WAIT_EXT_RESPONSE \<Rightarrow> map_option (extend_or_begin cmd) (call_ext M inStr e)
      | ALLJOYN_WAIT_FOR_DATA \<Rightarrow> Some (ER_OK, CMD_ERROR, ''Unexpected Command'', [], e)
      | ALLJOYN_WAIT_FOR_OK \<Rightarrow> Some (ER_OK, CMD_ERROR, ''Unexpected Command'', [], e)
      | _ \<Rightarrow> Some (ER_AUTH_FAIL, cmd, [], [], e))"

definition respond :: "('m, 'h) methods \<Rightarrow> AuthCmdType \<Rightarrow> string \<Rightarrow> ('m, 'h) SASLEngine \<Rightarrow> ('m, 'h) outcome" where
  "respond M cmd inStr e =
     (case cmd of
        CMD_REJECTED \<Rightarrow> on_REJECTED M inStr e
      | CMD_DATA \<Rightarrow> on_DATA M inStr e
      | CMD_OK \<Rightarrow> on_OK M inStr e
      | CMD_ERROR \<Rightarrow> on_ERROR M e
      | _ \<Rightarrow> on_other M cmd inStr e)"

definition reply :: "AuthCmdType \<Rightarrow> string \<Rightarrow> string \<Rightarrow> string" where
  "reply cmd response outStr = (if outStr = [] then ComposeAuth cmd response [] else outStr)"

definition Response :: "('m, 'h) methods \<Rightarrow> string \<Rightarrow> ('m, 'h) SASLEngine \<Rightarrow> (QStatus \<times> string \<times> ('m, 'h) SASLEngine) option" where
  "Response M inStr e =
     (let e = (if authCount e > MAX_AUTH_COUNT then SetState ALLJOYN_AUTH_FAILED e else e)
      in if authState e = ALLJOYN_AUTH_FAILED then Some (ER_AUTH_FAIL, [], e)
         else case (if authState e = ALLJOYN_SEND_AUTH_REQ then (CMD_REJECTED, '' '' @ ExpandAuthNames (authSet e)) else ParseAuth inStr) of
           (cmd, inStr) \<Rightarrow>
             map_option (\<lambda>(status, cmd, response, outStr, e).
                 if status = ER_OK then (ER_OK, reply cmd response outStr, e)
                 else if authCount e > 0 then (ER_OK, ComposeAuth CMD_BEGIN [] [], SetState ALLJOYN_AUTH_FAILED e)
                 else (status, outStr, SetState ALLJOYN_AUTH_FAILED e))
               (respond M cmd inStr e))"

subsection \<open>The challenger\<close>

text \<open>What the mechanism made of a response.\<close>

definition challenge_AUTH :: "string \<Rightarrow> AuthResult \<Rightarrow> string \<Rightarrow> ('m, 'h) SASLEngine \<Rightarrow> ('m, 'h) outcome" where
  "challenge_AUTH challenge authResult response e =
     Some (case authResult of
         ALLJOYN_AUTH_OK \<Rightarrow> (ER_OK, CMD_OK, localId e, [], SetState ALLJOYN_WAIT_FOR_BEGIN e)
       | ALLJOYN_AUTH_CONTINUE \<Rightarrow> (ER_OK, CMD_DATA, AsciiToHex challenge, [], SetState ALLJOYN_WAIT_FOR_DATA e)
       | ALLJOYN_AUTH_ERROR \<Rightarrow>
           (ER_OK, CMD_ERROR, if challenge = [] then ''Invalid response'' else takeWhile (\<lambda>c. c \<noteq> NUL) challenge, [], e)
       | ALLJOYN_AUTH_RETRY \<Rightarrow> (ER_OK, CMD_REJECTED, ExpandAuthNames (authSet e), [], e)
       | ALLJOYN_AUTH_FAIL \<Rightarrow> (ER_AUTH_FAIL, CMD_AUTH, response, [], SetState ALLJOYN_AUTH_FAILED e))"

text \<open>
  The mechanism asked for, the current one or a new one, initialised. The status is that of
  \<^verbatim>\<open>Init\<close>, and it stays when the mechanism is thrown away.
\<close>

definition choose_mechanism :: "('m, 'h) methods \<Rightarrow> string \<Rightarrow> ('m, 'h) SASLEngine \<Rightarrow> QStatus \<times> 'm option" where
  "choose_mechanism M n e =
     (case (case authMechanism e of Some m \<Rightarrow> if n = GetName M m then Some m else GetMechanism M n | None \<Rightarrow> GetMechanism M n) of
        None \<Rightarrow> (ER_OK, None)
      | Some m \<Rightarrow>
          case m_Init M (authRole e) (authPeer e) m of (status, m) \<Rightarrow> (status, if status = ER_OK then Some m else None))"

definition start_AUTH :: "('m, 'h) methods \<Rightarrow> string \<Rightarrow> string \<Rightarrow> ('m, 'h) SASLEngine \<Rightarrow> ('m, 'h) outcome" where
  "start_AUTH M mechanismName response e =
     (if mechanismName \<notin> set (authSet e) then Some (ER_OK, CMD_REJECTED, ExpandAuthNames (authSet e), [], e)
      else case choose_mechanism M mechanismName e of
        (status, None) \<Rightarrow> Some (status, CMD_REJECTED, ExpandAuthNames (authSet e), [], e\<lparr>authMechanism := None\<rparr>)
      | (status, Some m) \<Rightarrow>
          case (if response = [] then m_InitialChallenge M m else m_Challenge M response m) of (challenge, authResult, m) \<Rightarrow>
            challenge_AUTH challenge authResult response (e\<lparr>authMechanism := Some m\<rparr>))"

definition on_AUTH :: "('m, 'h) methods \<Rightarrow> string \<Rightarrow> ('m, 'h) SASLEngine \<Rightarrow> ('m, 'h) outcome" where
  "on_AUTH M inStr e =
     (let inStr = drop 1 inStr;
          mechanismName = takeWhile (\<lambda>c. c \<noteq> CHR '' '') inStr;
          arg = drop (length mechanismName) inStr;
          response = (if arg = [] then [] else HexToAscii (drop 1 arg))
      in if arg \<noteq> [] \<and> response = [] then Some (ER_OK, CMD_ERROR, ''Expected hex-encoded data'', [], e)
         else start_AUTH M mechanismName response e)"

definition on_response :: "('m, 'h) methods \<Rightarrow> string \<Rightarrow> ('m, 'h) SASLEngine \<Rightarrow> ('m, 'h) outcome" where
  "on_response M inStr e =
     (let response = HexToAscii (drop 1 inStr)
      in if response = [] then Some (ER_OK, CMD_ERROR, ''Expected hex-encoded data'', [], e)
         else case authMechanism e of
           None \<Rightarrow> None
         | Some m \<Rightarrow>
             case m_Challenge M response m of (challenge, authResult, m) \<Rightarrow>
               let e = e\<lparr>authMechanism := Some m\<rparr> in
               Some (case authResult of
                   ALLJOYN_AUTH_OK \<Rightarrow> (ER_OK, CMD_OK, localId e, [], SetState ALLJOYN_WAIT_FOR_BEGIN e)
                 | ALLJOYN_AUTH_CONTINUE \<Rightarrow> (ER_OK, CMD_DATA, AsciiToHex challenge, [], SetState ALLJOYN_WAIT_FOR_DATA e)
                 | ALLJOYN_AUTH_RETRY \<Rightarrow> (ER_OK, CMD_REJECTED, ExpandAuthNames (authSet e), [], SetState ALLJOYN_WAIT_FOR_AUTH e)
                 | _ \<Rightarrow> (ER_AUTH_FAIL, CMD_DATA, response, [], SetState ALLJOYN_AUTH_FAILED e)))"

definition challenge :: "('m, 'h) methods \<Rightarrow> AuthCmdType \<Rightarrow> string \<Rightarrow> ('m, 'h) SASLEngine \<Rightarrow> ('m, 'h) outcome" where
  "challenge M cmd inStr e =
     (case cmd of
        CMD_AUTH \<Rightarrow>
          if authState e = ALLJOYN_WAIT_FOR_AUTH then on_AUTH M inStr e else Some (ER_OK, CMD_ERROR, ''Unexpected'', [], e)
      | CMD_BEGIN \<Rightarrow>
          if authState e = ALLJOYN_WAIT_FOR_BEGIN
          then Some (ER_OK, CMD_BEGIN, [], [], SetState ALLJOYN_AUTH_SUCCESS (e\<lparr>remoteId := drop 1 inStr\<rparr>))
          else Some (ER_AUTH_FAIL, CMD_BEGIN, [], [], e)
      | CMD_DATA \<Rightarrow>
          if authState e = ALLJOYN_WAIT_FOR_DATA then on_response M inStr e else Some (ER_OK, CMD_ERROR, ''Unexpected'', [], e)
      | _ \<Rightarrow>
          if cmd = CMD_CANCEL \<or> cmd = CMD_ERROR then
            if authState e = ALLJOYN_WAIT_FOR_AUTH then Some (ER_OK, CMD_ERROR, ''Expecting AUTH'', [], e)
            else Some (ER_OK, CMD_REJECTED, ExpandAuthNames (authSet e), [], SetState ALLJOYN_WAIT_FOR_AUTH e)
          else map_option (\<lambda>(s, e). if s = [] then (ER_OK, CMD_ERROR, ''Unknown'', [], e) else (ER_OK, cmd, [], s @ CRLF, e))
                 (if extHandler e \<noteq> None \<and> authState e = ALLJOYN_WAIT_FOR_BEGIN then call_ext M inStr e else Some ([], e)))"

definition Challenge :: "('m, 'h) methods \<Rightarrow> string \<Rightarrow> ('m, 'h) SASLEngine \<Rightarrow> (QStatus \<times> string \<times> ('m, 'h) SASLEngine) option" where
  "Challenge M inStr e =
     (let e = (if authCount e > MAX_AUTH_COUNT then SetState ALLJOYN_AUTH_FAILED e else e)
      in if authState e = ALLJOYN_AUTH_FAILED then Some (ER_AUTH_FAIL, [], e)
         else case ParseAuth inStr of (cmd, inStr) \<Rightarrow>
           map_option (\<lambda>(status, cmd, response, outStr, e). (status, reply cmd response outStr, e)) (challenge M cmd inStr e))"

subsection \<open>Advancing\<close>

definition note_mutual :: "('m, 'h) methods \<Rightarrow> ('m, 'h) SASLEngine \<Rightarrow> ('m, 'h) SASLEngine option" where
  "note_mutual M e =
     (if authState e = ALLJOYN_AUTH_SUCCESS then map_option (\<lambda>m. e\<lparr>authIsMutual := IsMutual M m\<rparr>) (authMechanism e) else Some e)"

definition Advance :: "('m, 'h) methods \<Rightarrow> string \<Rightarrow> ('m, 'h) SASLEngine \<Rightarrow> (QStatus \<times> string \<times> ('m, 'h) SASLEngine) option" where
  "Advance M authIn e =
     (if authState e = ALLJOYN_AUTH_SUCCESS \<or> authState e = ALLJOYN_AUTH_FAILED then Some (ER_BUS_NOT_AUTHENTICATING, [], e)
      else Option.bind (if authRole e = RESPONDER then Response M authIn e else Challenge M authIn e) (\<lambda>(status, out, e).
        Option.bind (if status = ER_OK then note_mutual M e else Some (SetState ALLJOYN_AUTH_FAILED e)) (\<lambda>e.
          Some (status, out, e\<lparr>authCount := (authCount e + 1) mod 65536\<rparr>))))"

subsection \<open>No step follows a null pointer\<close>

text \<open>In the states that use the mechanism there is one, and an extension is awaited only with a handler.\<close>

definition usable :: "('m, 'h) SASLEngine \<Rightarrow> bool" where
  "usable e \<longleftrightarrow>
     (authState e \<in> {ALLJOYN_WAIT_FOR_DATA, ALLJOYN_WAIT_FOR_OK, ALLJOYN_WAIT_FOR_BEGIN, ALLJOYN_WAIT_EXT_RESPONSE,
        ALLJOYN_AUTH_SUCCESS} \<longrightarrow> authMechanism e \<noteq> None) \<and>
     (authState e = ALLJOYN_WAIT_EXT_RESPONSE \<longrightarrow> extHandler e \<noteq> None)"

definition callouts_return :: "('m, 'h) methods \<Rightarrow> bool" where
  "callouts_return M \<longleftrightarrow> (\<forall>role cmd h. SASLCallout M role cmd h \<noteq> None)"

text \<open>What no part of the switch changes.\<close>

definition same_conversation :: "('m, 'h) SASLEngine \<Rightarrow> ('m, 'h) SASLEngine \<Rightarrow> bool" where
  "same_conversation e e' \<longleftrightarrow> authRole e' = authRole e \<and> authCount e' = authCount e \<and> localId e' = localId e \<and>
     authPeer e' = authPeer e"

definition steps_to :: "('m, 'h) outcome \<Rightarrow> ('m, 'h) SASLEngine \<Rightarrow> bool" where
  "steps_to x e \<longleftrightarrow> (\<exists>status cmd response out e'. x = Some (status, cmd, response, out, e') \<and> same_conversation e e' \<and>
     (status = ER_OK \<longrightarrow> usable e'))"

lemma steps_toI:
  "same_conversation e e' \<Longrightarrow> (status = ER_OK \<Longrightarrow> usable e') \<Longrightarrow> steps_to (Some (status, cmd, response, out, e')) e"
  by (auto simp: steps_to_def)

lemmas engine_simps = usable_def same_conversation_def SetState_def

lemma start_mechanism_usable:
  "start_mechanism M m e = Some (cmd, e') \<Longrightarrow> usable e' \<and> same_conversation e e'"
  by (auto simp: start_mechanism_def engine_simps split: prod.splits if_splits)

lemma try_mechanisms_usable:
  "try_mechanisms M mech names e = (status, cmd, e') \<Longrightarrow> (status = ER_OK \<longrightarrow> usable e') \<and> same_conversation e e'"
proof (induction M mech names e rule: try_mechanisms.induct)
  case (1 M mech names e)
  show ?case
  proof (cases "Option.bind mech (\<lambda>m. start_mechanism M m (e\<lparr>authSet := names\<rparr>))")
    case None
    then show ?thesis using 1
      by (cases names) (auto simp: try_mechanisms.simps [of M mech] engine_simps)
  next
    case (Some a)
    then show ?thesis using 1(2) start_mechanism_usable [of M _ "e\<lparr>authSet := names\<rparr>"]
      by (cases a) (auto simp: try_mechanisms.simps [of M mech] bind_eq_Some_conv same_conversation_def)
  qed
qed

lemma NewAuthRequest_usable:
  "NewAuthRequest M e = (status, cmd, e') \<Longrightarrow> (status = ER_OK \<longrightarrow> usable e') \<and> same_conversation e e'"
  by (auto simp: NewAuthRequest_def split: option.splits if_splits dest: try_mechanisms_usable)

lemma call_ext_returns:
  assumes "callouts_return M" "extHandler e \<noteq> None"
  shows "\<exists>s h. call_ext M cmd e = Some (s, e\<lparr>extHandler := Some h\<rparr>)"
proof -
  obtain h where h: "extHandler e = Some h" using assms(2) by auto
  obtain s h' where "SASLCallout M (authRole e) cmd h = Some (s, h')"
    using assms(1) unfolding callouts_return_def by (metis not_None_eq surj_pair)
  with h have "call_ext M cmd e = Some (s, e\<lparr>extHandler := Some h'\<rparr>)" by (simp add: call_ext_def)
  then show ?thesis by blast
qed

lemma extend_or_begin_steps:
  assumes "usable e" "authMechanism e \<noteq> None"
  shows "steps_to (Some (extend_or_begin cmd (s, e\<lparr>extHandler := Some h\<rparr>))) e"
    "steps_to (Some (extend_or_begin cmd ([], e))) e"
  using assms by (auto simp: extend_or_begin_def engine_simps steps_to_def)

lemma respond_steps:
  assumes "usable e" "callouts_return M"
  shows "steps_to (respond M cmd inStr e) e"
proof -
  have rejected: "steps_to (on_REJECTED M inStr e) e"
    using NewAuthRequest_usable [of M "e\<lparr>authSet := S\<rparr>" for S]
    by (fastforce simp: on_REJECTED_def Let_def steps_to_def same_conversation_def split: prod.splits)
  have data: "steps_to (on_DATA M inStr e) e"
    using assms(1) by (cases "authState e")
      (auto simp: on_DATA_def respond_challenge_def Let_def steps_to_def engine_simps split: option.splits prod.splits AuthResult.splits)
  have ok: "steps_to (on_OK M inStr e) e"
  proof (cases "authState e = ALLJOYN_WAIT_FOR_DATA \<or> authState e = ALLJOYN_WAIT_FOR_OK")
    case True
    let ?e = "e\<lparr>remoteId := drop 1 inStr\<rparr>"
    have u: "usable ?e" "authMechanism ?e \<noteq> None" using assms(1) True by (auto simp: usable_def)
    have "steps_to (on_OK M inStr e) ?e"
    proof (cases "extHandler e")
      case None
      then show ?thesis using True extend_or_begin_steps(2) [OF u] by (simp add: on_OK_def Let_def)
    next
      case (Some h)
      then have "extHandler ?e \<noteq> None" by simp
      then obtain s h' where "call_ext M [] ?e = Some (s, ?e\<lparr>extHandler := Some h'\<rparr>)"
        using call_ext_returns [OF assms(2), of ?e] by blast
      then show ?thesis using Some True extend_or_begin_steps(1) [OF u] by (auto simp: on_OK_def Let_def)
    qed
    then show ?thesis by (simp add: steps_to_def same_conversation_def)
  next
    case False
    then show ?thesis by (auto simp: on_OK_def steps_to_def same_conversation_def)
  qed
  have ext: "steps_to (map_option (extend_or_begin c) (call_ext M s e)) e" if st: "authState e = ALLJOYN_WAIT_EXT_RESPONSE" for c s
  proof -
    have "authMechanism e \<noteq> None" "extHandler e \<noteq> None" using st assms(1) by (auto simp: usable_def)
    moreover from this obtain r h where "call_ext M s e = Some (r, e\<lparr>extHandler := Some h\<rparr>)"
      using call_ext_returns [OF assms(2)] by blast
    ultimately show ?thesis using extend_or_begin_steps(1) [OF assms(1)] by simp
  qed
  have error: "steps_to (on_ERROR M e) e"
    using assms(1) ext by (cases "authState e") (auto simp: on_ERROR_def steps_to_def engine_simps)
  have other: "steps_to (on_other M cmd inStr e) e"
    using assms(1) ext by (cases "authState e") (auto simp: on_other_def steps_to_def engine_simps)
  show ?thesis
    using rejected data ok error other by (cases cmd) (simp_all add: respond_def)
qed

lemma steps_quiet: "usable e \<Longrightarrow> steps_to (Some (status, cmd, response, out, e)) e"
  by (rule steps_toI) (simp_all add: same_conversation_def)

lemma challenge_AUTH_steps:
  assumes "authState e = ALLJOYN_WAIT_FOR_AUTH"
  shows "steps_to (challenge_AUTH c authResult response (e\<lparr>authMechanism := Some m\<rparr>)) e"
  using assms by (cases authResult) (simp_all add: challenge_AUTH_def steps_to_def engine_simps)

lemma on_AUTH_steps:
  assumes "authState e = ALLJOYN_WAIT_FOR_AUTH"
  shows "steps_to (on_AUTH M inStr e) e"
proof -
  have quiet: "steps_to (Some (status, cmd, response, out, e\<lparr>authMechanism := mech\<rparr>)) e"
    "steps_to (Some (status, cmd, response, out, e)) e" for status cmd response out mech
    using assms by (auto simp: steps_to_def engine_simps)
  have "steps_to (start_AUTH M n r e) e" for n r
    unfolding start_AUTH_def
    by (auto simp: quiet challenge_AUTH_steps [OF assms] split: option.split prod.split)
  then show ?thesis
    unfolding on_AUTH_def Let_def by (simp add: quiet)
qed

lemma on_response_steps:
  assumes "usable e" "authState e = ALLJOYN_WAIT_FOR_DATA"
  shows "steps_to (on_response M inStr e) e"
proof (cases "HexToAscii (drop 1 inStr) = []")
  case True
  then show ?thesis using assms(1) by (simp add: on_response_def steps_to_def same_conversation_def)
next
  case False
  obtain m where m: "authMechanism e = Some m" using assms by (auto simp: usable_def)
  obtain c r m' where c: "m_Challenge M (HexToAscii (drop (Suc 0) inStr)) m = (c, r, m')" by (metis surj_pair)
  show ?thesis using False
    by (cases r) (simp_all add: on_response_def m c Let_def steps_to_def engine_simps)
qed

lemma challenge_steps:
  assumes "usable e" "callouts_return M"
  shows "steps_to (challenge M cmd inStr e) e"
proof -
  have ext: "steps_to (challenge M cmd inStr e) e" if c: "cmd = CMD_REJECTED \<or> cmd = CMD_OK \<or> cmd = CMD_INVALID"
  proof (cases "extHandler e \<noteq> None \<and> authState e = ALLJOYN_WAIT_FOR_BEGIN")
    case True
    then obtain r h where "call_ext M inStr e = Some (r, e\<lparr>extHandler := Some h\<rparr>)"
      using call_ext_returns [OF assms(2)] by blast
    then show ?thesis using c True assms(1)
      by (auto simp: challenge_def steps_to_def same_conversation_def usable_def)
  next
    case False
    then have "challenge M cmd inStr e = Some (ER_OK, CMD_ERROR, ''Unknown'', [], e)"
      using c unfolding challenge_def by (elim disjE) (simp_all only: AuthCmdType.case AuthCmdType.distinct if_False, simp_all)
    then show ?thesis using steps_quiet [OF assms(1)] by simp
  qed
  show ?thesis
  proof (cases cmd)
    case CMD_AUTH
    then show ?thesis using on_AUTH_steps [of e M inStr] steps_quiet [OF assms(1)] by (simp add: challenge_def)
  next
    case CMD_DATA
    then show ?thesis using on_response_steps [OF assms(1)] steps_quiet [OF assms(1)] by (simp add: challenge_def)
  next
    case CMD_BEGIN
    then show ?thesis using assms(1) by (auto simp: challenge_def steps_to_def engine_simps)
  next
    case CMD_CANCEL
    then show ?thesis using steps_quiet [OF assms(1)] by (simp add: challenge_def) (simp add: steps_to_def engine_simps)
  next
    case CMD_ERROR
    then show ?thesis using steps_quiet [OF assms(1)] by (simp add: challenge_def) (simp add: steps_to_def engine_simps)
  qed (use ext in auto)
qed

subsection \<open>Conversations\<close>

definition over :: "('m, 'h) SASLEngine \<Rightarrow> bool" where
  "over e \<longleftrightarrow> authState e = ALLJOYN_AUTH_SUCCESS \<or> authState e = ALLJOYN_AUTH_FAILED"

definition hear :: "('m, 'h) methods \<Rightarrow> ('m, 'h) SASLEngine \<Rightarrow> string \<Rightarrow> ('m, 'h) SASLEngine option" where
  "hear M e authIn = map_option (\<lambda>(status, out, e). e) (Advance M authIn e)"

lemma Response_usable:
  assumes "usable e" "callouts_return M"
  shows "\<exists>status out e'. Response M s e = Some (status, out, e') \<and> same_conversation e e' \<and> (status = ER_OK \<longrightarrow> usable e') \<and>
    (authCount e > 64 \<longrightarrow> status \<noteq> ER_OK)"
proof (cases "authCount e > MAX_AUTH_COUNT \<or> authState e = ALLJOYN_AUTH_FAILED")
  case True
  then show ?thesis by (auto simp: Response_def Let_def SetState_def same_conversation_def MAX_AUTH_COUNT_def)
next
  case False
  obtain c i where ci: "(if authState e = ALLJOYN_SEND_AUTH_REQ then (CMD_REJECTED, '' '' @ ExpandAuthNames (authSet e)) else ParseAuth s) = (c, i)"
    by (metis surj_pair)
  obtain status cmd r out e' where x: "respond M c i e = Some (status, cmd, r, out, e')" "same_conversation e e'"
    "status = ER_OK \<longrightarrow> usable e'"
    using respond_steps [OF assms, of c i] unfolding steps_to_def by blast
  show ?thesis
    using False x by (simp add: Response_def Let_def ci MAX_AUTH_COUNT_def) (simp add: engine_simps)
qed

lemma Challenge_usable:
  assumes "usable e" "callouts_return M"
  shows "\<exists>status out e'. Challenge M s e = Some (status, out, e') \<and> same_conversation e e' \<and> (status = ER_OK \<longrightarrow> usable e') \<and>
    (authCount e > 64 \<longrightarrow> status \<noteq> ER_OK)"
proof (cases "authCount e > MAX_AUTH_COUNT \<or> authState e = ALLJOYN_AUTH_FAILED")
  case True
  then show ?thesis by (auto simp: Challenge_def Let_def SetState_def same_conversation_def MAX_AUTH_COUNT_def)
next
  case False
  obtain c i where ci: "ParseAuth s = (c, i)" by (metis surj_pair)
  obtain status cmd r out e' where "challenge M c i e = Some (status, cmd, r, out, e')" "same_conversation e e'"
    "status = ER_OK \<longrightarrow> usable e'"
    using challenge_steps [OF assms, of c i] unfolding steps_to_def by blast
  then show ?thesis
    using False by (simp add: Challenge_def Let_def ci MAX_AUTH_COUNT_def)
qed

text \<open>The bound on the number of steps is part of the invariant.\<close>

definition conversing :: "('m, 'h) methods \<Rightarrow> ('m, 'h) SASLEngine \<Rightarrow> bool" where
  "conversing M e \<longleftrightarrow> callouts_return M \<and> usable e \<and> (over e \<or> authCount e \<le> 65)"

lemma hear_conversing:
  assumes "conversing M e"
  shows "\<exists>e'. hear M e s = Some e' \<and> conversing M e' \<and> (over e \<longrightarrow> e' = e) \<and> (over e' \<or> authCount e' = authCount e + 1) \<and>
    authRole e' = authRole e"
proof (cases "over e")
  case True
  then show ?thesis using assms by (auto simp: hear_def Advance_def over_def)
next
  case False
  then have u: "usable e" "callouts_return M" "authCount e \<le> 65" using assms by (auto simp: conversing_def)
  obtain status out e1 where r: "(if authRole e = RESPONDER then Response M s e else Challenge M s e) = Some (status, out, e1)"
    "same_conversation e e1" "status = ER_OK \<longrightarrow> usable e1" "authCount e > 64 \<longrightarrow> status \<noteq> ER_OK"
    using Response_usable [OF u(1,2), of s] Challenge_usable [OF u(1,2), of s] by (cases "authRole e") auto
  have h: "hear M e s = Option.bind (if status = ER_OK then note_mutual M e1 else Some (SetState ALLJOYN_AUTH_FAILED e1))
      (\<lambda>e'. Some (e'\<lparr>authCount := (authCount e' + 1) mod 65536\<rparr>))"
    using False r(1) by (simp add: hear_def Advance_def over_def map_option_bind o_def)
  show ?thesis
  proof (cases "status = ER_OK")
    case True
    with r u have "usable e1" "authCount e \<le> 64" by auto
    then show ?thesis using True r(2) u h False
      by (cases "authMechanism e1") (auto simp: note_mutual_def conversing_def over_def usable_def same_conversation_def)
  next
    case False
    then show ?thesis using r(2) u h \<open>\<not> over e\<close> by (simp add: conversing_def over_def engine_simps)
  qed
qed

interpretation sasl: invariant_machine "hear M" "conversing M" "\<lambda>_. True" for M
  by unfold_locales (use hear_conversing in blast)

lemma new_SASLEngine_conversing: "callouts_return M \<Longrightarrow> conversing M (new_SASLEngine role mechanisms peer ext)"
  by (simp add: conversing_def usable_def new_SASLEngine_def)

lemma hear_all_count:
  "conversing M e \<Longrightarrow> run_steps (hear M) e ins = Some e' \<Longrightarrow> over e' \<or> authCount e' = authCount e + length ins"
proof (induction ins arbitrary: e)
  case (Cons s ins)
  obtain e1 where e1: "hear M e s = Some e1" "conversing M e1" "over e \<longrightarrow> e1 = e" "over e1 \<or> authCount e1 = authCount e + 1"
    using hear_conversing [OF Cons.prems(1)] by blast
  have stays: "over e1 \<Longrightarrow> run_steps (hear M) e1 js = Some e' \<Longrightarrow> e' = e1" for js
  proof (induction js)
    case (Cons j js)
    then show ?case using hear_conversing [OF e1(2), of j] by auto
  qed simp
  show ?case using Cons e1 stays by fastforce
qed simp

text \<open>
  C6. Whatever the peer sends and whatever the mechanisms answer, as long as the handler of
  extension commands returns from its calls, no step of an authentication conversation follows a
  null pointer, and after at most 66 steps the conversation is over, one way or the other.
\<close>

theorem sasl_conversation_ends:
  assumes "callouts_return M"
  shows "\<exists>e. run_steps (hear M) (new_SASLEngine role mechanisms peer ext) ins = Some e \<and>
    (length ins \<ge> 66 \<longrightarrow> authState e = ALLJOYN_AUTH_SUCCESS \<or> authState e = ALLJOYN_AUTH_FAILED)"
proof -
  let ?e = "new_SASLEngine role mechanisms peer ext"
  have c: "conversing M ?e" using assms by (rule new_SASLEngine_conversing)
  obtain e where e: "run_steps (hear M) ?e ins = Some e" "conversing M e"
    using sasl.run_inv [OF c, of ins] by (auto simp: list_all_iff)
  moreover have "over e \<or> authCount e = length ins"
    using hear_all_count [OF c e(1)] by (simp add: new_SASLEngine_def)
  ultimately show ?thesis by (auto simp: conversing_def over_def)
qed

subsection \<open>Who vouches for a success\<close>

text \<open>What the engine relies on: a mechanism has the name it was asked for by, and keeps it.\<close>

locale auth_mechanisms =
  fixes M :: "('m, 'h) methods"
  assumes made: "GetMechanism M n = Some m \<Longrightarrow> GetName M m = n"
    and init: "m_Init M role peer m = (status, m') \<Longrightarrow> GetName M m' = GetName M m"
    and initial: "m_InitialChallenge M m = (c, r, m') \<Longrightarrow> GetName M m' = GetName M m"
    and challenged: "m_Challenge M s m = (c, r, m') \<Longrightarrow> GetName M m' = GetName M m"
begin

text \<open>The current mechanism is of the configured ones, and it has said yes where that counts.\<close>

definition vouched :: "('m \<Rightarrow> bool) \<Rightarrow> string list \<Rightarrow> ('m, 'h) SASLEngine \<Rightarrow> bool" where
  "vouched G names e \<longleftrightarrow> authRole e = CHALLENGER \<and> authSet e = names \<and>
     (\<forall>m. authMechanism e = Some m \<longrightarrow> GetName M m \<in> set names) \<and>
     (authState e = ALLJOYN_WAIT_FOR_BEGIN \<or> authState e = ALLJOYN_AUTH_SUCCESS \<longrightarrow> (\<exists>m. authMechanism e = Some m \<and> G m))"

definition says_yes :: "('m \<Rightarrow> bool) \<Rightarrow> bool" where
  "says_yes G \<longleftrightarrow> (\<forall>m c m'. m_InitialChallenge M m = (c, ALLJOYN_AUTH_OK, m') \<longrightarrow> G m') \<and>
     (\<forall>s m c m'. m_Challenge M s m = (c, ALLJOYN_AUTH_OK, m') \<longrightarrow> G m')"

lemma choose_mechanism_name:
  assumes "choose_mechanism M n e = (status, Some m)"
  shows "GetName M m = n"
proof -
  let ?x = "case authMechanism e of Some m \<Rightarrow> if n = GetName M m then Some m else GetMechanism M n | None \<Rightarrow> GetMechanism M n"
  obtain m0 where m0: "?x = Some m0"
    "(case m_Init M (authRole e) (authPeer e) m0 of (status, m) \<Rightarrow> (status, if status = ER_OK then Some m else None)) = (status, Some m)"
    using assms unfolding choose_mechanism_def by (cases ?x) auto
  have "GetName M m0 = n"
    using m0(1) made by (cases "authMechanism e") (auto split: if_splits)
  moreover obtain st m1 where "m_Init M (authRole e) (authPeer e) m0 = (st, m1)" by (metis surj_pair)
  ultimately show ?thesis using m0(2) init by (auto split: if_splits)
qed

lemma challenge_AUTH_vouched:
  assumes "vouched G names e" "authState e = ALLJOYN_WAIT_FOR_AUTH" "GetName M m \<in> set names" "a = ALLJOYN_AUTH_OK \<longrightarrow> G m"
    "challenge_AUTH c a resp (e\<lparr>authMechanism := Some m\<rparr>) = Some (st, cm, rs, ot, e1)"
  shows "vouched G names e1"
  using assms by (cases a) (auto simp: challenge_AUTH_def vouched_def SetState_def)

lemma start_AUTH_vouched:
  assumes "vouched G names e" "says_yes G" "start_AUTH M n response e = Some (status, cmd, r, out, e')"
    "authState e = ALLJOYN_WAIT_FOR_AUTH"
  shows "vouched G names e'"
proof (cases "n \<in> set (authSet e) \<and> snd (choose_mechanism M n e) \<noteq> None")
  case False
  then have "e' = e \<or> e' = e\<lparr>authMechanism := None\<rparr>"
    using assms(3) by (auto simp: start_AUTH_def split: if_splits prod.splits)
  then show ?thesis using assms(1,4) by (auto simp: vouched_def)
next
  case True
  then obtain st0 m where m: "choose_mechanism M n e = (st0, Some m)" "GetName M m \<in> set names"
    using choose_mechanism_name assms(1) by (cases "choose_mechanism M n e") (auto simp: vouched_def)
  obtain c a m' where c: "(if response = [] then m_InitialChallenge M m else m_Challenge M response m) = (c, a, m')"
    by (metis surj_pair)
  have "GetName M m' = GetName M m \<and> (a = ALLJOYN_AUTH_OK \<longrightarrow> G m')"
    using c initial challenged assms(2) by (cases "response = []") (auto simp: says_yes_def)
  moreover have "challenge_AUTH c a response (e\<lparr>authMechanism := Some m'\<rparr>) = Some (status, cmd, r, out, e')"
    using assms(3) True unfolding start_AUTH_def m(1) by (simp add: c)
  ultimately show ?thesis using challenge_AUTH_vouched [OF assms(1,4)] m(2) by metis
qed

lemma on_AUTH_vouched:
  assumes "vouched G names e" "says_yes G" "on_AUTH M s e = Some (status, cmd, r, out, e')"
    "authState e = ALLJOYN_WAIT_FOR_AUTH"
  shows "vouched G names e'"
proof -
  have "e' = e \<or> (\<exists>n response. start_AUTH M n response e = Some (status, cmd, r, out, e'))"
    using assms(3) unfolding on_AUTH_def Let_def by (auto split: if_splits)
  then show ?thesis using start_AUTH_vouched [OF assms(1,2)] assms(1,4) by blast
qed

lemma on_response_vouched:
  assumes "vouched G names e" "says_yes G" "on_response M s e = Some (status, cmd, r, out, e')"
    "authState e = ALLJOYN_WAIT_FOR_DATA"
  shows "vouched G names e'"
proof (cases "HexToAscii (drop 1 s) = []")
  case True
  then show ?thesis using assms(1,3) by (simp add: on_response_def)
next
  case False
  then obtain m where m: "authMechanism e = Some m"
    using assms(3) by (cases "authMechanism e") (auto simp: on_response_def)
  obtain c a m' where c: "m_Challenge M (HexToAscii (drop (Suc 0) s)) m = (c, a, m')" by (metis surj_pair)
  then have "GetName M m' \<in> set names" "a = ALLJOYN_AUTH_OK \<longrightarrow> G m'"
    using challenged m assms(1,2) by (auto simp: vouched_def says_yes_def)
  then show ?thesis using assms(1,3) False
    by (cases a) (auto simp: on_response_def m c Let_def vouched_def SetState_def)
qed

lemma vouched_ext: "vouched G names e \<Longrightarrow> call_ext M s e = Some (r, e') \<Longrightarrow> vouched G names e'"
  by (auto simp: call_ext_def vouched_def split: option.splits)

lemma challenge_vouched:
  assumes "vouched G names e" "says_yes G" "challenge M c s e = Some (status, cmd, r, out, e')"
  shows "vouched G names e'"
proof -
  have other: "vouched G names e'" if "c = CMD_REJECTED \<or> c = CMD_OK \<or> c = CMD_INVALID"
  proof -
    let ?x = "if extHandler e \<noteq> None \<and> authState e = ALLJOYN_WAIT_FOR_BEGIN then call_ext M s e else Some ([], e)"
    have "map_option (\<lambda>(s, e). if s = [] then (ER_OK, CMD_ERROR, ''Unknown'', [], e) else (ER_OK, c, [], s @ CRLF, e)) ?x =
        Some (status, cmd, r, out, e')"
      using that assms(3) unfolding challenge_def by (elim disjE) (simp_all only: AuthCmdType.case AuthCmdType.distinct simp_thms if_False)
    then obtain t where "?x = Some (t, e')" by (auto split: if_splits)
    then show ?thesis using vouched_ext [OF assms(1)] assms(1) by (auto split: if_splits)
  qed
  show ?thesis
  proof (cases c)
  case CMD_AUTH
  then show ?thesis using assms on_AUTH_vouched by (auto simp: challenge_def split: if_splits)
next
  case CMD_DATA
  then show ?thesis using assms on_response_vouched by (auto simp: challenge_def split: if_splits)
next
  case CMD_BEGIN
  then show ?thesis using assms(1,3) by (auto simp: challenge_def vouched_def SetState_def split: if_splits)
next
  case CMD_CANCEL
  then show ?thesis using assms(1,3) by (auto simp: challenge_def vouched_def split: if_splits)
next
  case CMD_ERROR
  then show ?thesis using assms(1,3) by (auto simp: challenge_def vouched_def split: if_splits)
qed (use other in auto)
qed

lemma hear_vouched:
  assumes "vouched G names e" "says_yes G" "hear M e s = Some e'"
  shows "vouched G names e'"
proof (cases "over e")
  case True
  then show ?thesis using assms by (auto simp: hear_def Advance_def over_def)
next
  case False
  have stop: "vouched G names (SetState ALLJOYN_AUTH_FAILED x)" if "vouched G names x" for x
    using that by (simp add: vouched_def SetState_def)
  obtain status out e1 where e1: "Challenge M s e = Some (status, out, e1)"
    "Option.bind (if status = ER_OK then note_mutual M e1 else Some (SetState ALLJOYN_AUTH_FAILED e1))
      (\<lambda>e. Some (e\<lparr>authCount := (authCount e + 1) mod 65536\<rparr>)) = Some e'"
    using assms(1,3) False
    by (auto simp: hear_def Advance_def over_def vouched_def bind_eq_Some_conv)
  have v: "vouched G names e1"
  proof (cases "authCount e > MAX_AUTH_COUNT \<or> authState e = ALLJOYN_AUTH_FAILED")
    case True
    then have "e1 = e \<or> e1 = SetState ALLJOYN_AUTH_FAILED e"
      using e1(1) by (auto simp: Challenge_def Let_def split: if_splits)
    then show ?thesis using stop assms(1) by auto
  next
    case False
    obtain c i where ci: "ParseAuth s = (c, i)" by (metis surj_pair)
    then obtain st cmd r o' where "challenge M c i e = Some (st, cmd, r, o', e1)"
      using e1(1) False by (auto simp: Challenge_def Let_def)
    then show ?thesis using challenge_vouched [OF assms(1,2)] by blast
  qed
  obtain e2 where e2: "(if status = ER_OK then note_mutual M e1 else Some (SetState ALLJOYN_AUTH_FAILED e1)) = Some e2"
    "e' = e2\<lparr>authCount := (authCount e2 + 1) mod 65536\<rparr>"
    using e1(2) unfolding bind_eq_Some_conv option.inject by metis
  then have "vouched G names e2"
    using v stop [OF v] by (cases "status = ER_OK") (auto simp: note_mutual_def vouched_def split: if_splits)
  then show ?thesis using e2(2) by (simp add: vouched_def)
qed

lemma hear_all_vouched:
  "vouched G names e \<Longrightarrow> says_yes G \<Longrightarrow> run_steps (hear M) e ins = Some e' \<Longrightarrow> vouched G names e'"
proof (induction ins arbitrary: e)
  case (Cons s ins)
  then obtain e1 where "hear M e s = Some e1" "run_steps (hear M) e1 ins = Some e'" by (auto simp: bind_eq_Some_conv)
  then show ?case using hear_vouched Cons.prems Cons.IH by blast
qed simp

end

text \<open>
  C5. A challenger ends with success only if one of its configured mechanisms has said so: the current
  mechanism has a name from the list, and it satisfies whatever every mechanism satisfies that
  has just answered yes. Assumed of the mechanisms is that each has the name it was asked for by
  and keeps it.
\<close>

theorem sasl_challenger_vouched:
  assumes "auth_mechanisms M"
    and "\<forall>m c m'. m_InitialChallenge M m = (c, ALLJOYN_AUTH_OK, m') \<longrightarrow> G m'"
    and "\<forall>s m c m'. m_Challenge M s m = (c, ALLJOYN_AUTH_OK, m') \<longrightarrow> G m'"
    and "run_steps (hear M) (new_SASLEngine CHALLENGER mechanisms peer ext) ins = Some e"
    and "authState e = ALLJOYN_AUTH_SUCCESS"
  shows "\<exists>m. authMechanism e = Some m \<and> GetName M m \<in> set (ParseAuthNames [] mechanisms) \<and> G m"
proof -
  have "auth_mechanisms.vouched M G (ParseAuthNames [] mechanisms) (new_SASLEngine CHALLENGER mechanisms peer ext)"
    using assms(1) by (simp add: auth_mechanisms.vouched_def new_SASLEngine_def)
  moreover have "auth_mechanisms.says_yes M G"
    using assms(1-3) by (simp add: auth_mechanisms.says_yes_def)
  ultimately have "auth_mechanisms.vouched M G (ParseAuthNames [] mechanisms) e"
    using auth_mechanisms.hear_all_vouched [OF assms(1)] assms(4) by blast
  then show ?thesis
    using assms(5) unfolding auth_mechanisms.vouched_def [OF assms(1)] by blast
qed

subsection \<open>Two mechanisms\<close>

text \<open>
  The two mechanisms of \<^verbatim>\<open>AuthMechAnonymous.h\<close> and \<^verbatim>\<open>AuthMechExternal.h\<close>,
  with the user id of the process. They say yes to everything.
\<close>

datatype mechanism = AuthMechAnonymous | AuthMechExternal u32

fun mech_GetName :: "mechanism \<Rightarrow> string" where
  "mech_GetName AuthMechAnonymous = ''ANONYMOUS''"
| "mech_GetName (AuthMechExternal uid) = ''EXTERNAL''"

fun mech_InitialResponse :: "mechanism \<Rightarrow> string \<times> AuthResult \<times> mechanism" where
  "mech_InitialResponse AuthMechAnonymous = ([], ALLJOYN_AUTH_CONTINUE, AuthMechAnonymous)"
| "mech_InitialResponse (AuthMechExternal uid) =
     (case U32ToString uid 10 1 (CHR '' '') of Some t \<Rightarrow> t | None \<Rightarrow> [], ALLJOYN_AUTH_CONTINUE, AuthMechExternal uid)"

definition mech_accept :: "mechanism \<Rightarrow> string \<times> AuthResult \<times> mechanism" where
  "mech_accept m = ([], ALLJOYN_AUTH_OK, m)"

definition registered :: "u32 \<Rightarrow> string \<Rightarrow> mechanism option" where
  "registered uid n =
     (if n = ''ANONYMOUS'' then Some AuthMechAnonymous else if n = ''EXTERNAL'' then Some (AuthMechExternal uid) else None)"

definition builtin :: "u32 \<Rightarrow> (AuthRole \<Rightarrow> string \<Rightarrow> 'h \<Rightarrow> (string \<times> 'h) option) \<Rightarrow> (mechanism, 'h) methods" where
  "builtin uid callout =
     \<lparr>GetMechanism = registered uid, GetName = mech_GetName, m_Init = (\<lambda>role peer m. (ER_OK, m)),
      m_InitialResponse = mech_InitialResponse, m_Response = (\<lambda>s. mech_accept), m_InitialChallenge = mech_accept,
      m_Challenge = (\<lambda>s. mech_accept), IsMutual = (\<lambda>m. True), SASLCallout = callout\<rparr>"

interpretation builtin: auth_mechanisms "builtin uid callout"
  by unfold_locales (auto simp: builtin_def registered_def mech_accept_def split: if_splits)

text \<open>A handler that answers nothing.\<close>

definition no_callout :: "AuthRole \<Rightarrow> string \<Rightarrow> unit \<Rightarrow> (string \<times> unit) option" where
  "no_callout role cmd h = Some ([], h)"

theorem sasl_conversation_ends_witness:
  "\<exists>e. run_steps (hear (builtin 7 no_callout)) (new_SASLEngine CHALLENGER ''ANONYMOUS'' [] None) (replicate 66 ''AUTH ANONYMOUS'') = Some e \<and>
    (authState e = ALLJOYN_AUTH_SUCCESS \<or> authState e = ALLJOYN_AUTH_FAILED)"
  using sasl_conversation_ends [of "builtin 7 no_callout" CHALLENGER "''ANONYMOUS''" "[]" None "replicate 66 ''AUTH ANONYMOUS''"]
  unfolding length_replicate by (simp add: callouts_return_def builtin_def no_callout_def)

lemma hear_next: "hear M e s = Some e' \<Longrightarrow> run_steps (hear M) e' ss = r \<Longrightarrow> run_steps (hear M) e (s # ss) = r"
  by simp

lemmas hear_defs = hear_def Advance_def Challenge_def challenge_def on_AUTH_def start_AUTH_def choose_mechanism_def challenge_AUTH_def
  note_mutual_def ParseAuth_def AllJoynAuthCmdList_def starts_def MAX_AUTH_COUNT_def SetState_def Let_def

lemma anonymous_run:
  "run_steps (hear (builtin 7 no_callout)) (new_SASLEngine CHALLENGER ''ANONYMOUS'' [] None) [''AUTH ANONYMOUS'', ''BEGIN id''] =
    Some \<lparr>authRole = CHALLENGER, authPeer = [], authSet = [''ANONYMOUS''], authCount = 2, authMechanism = Some AuthMechAnonymous,
      authState = ALLJOYN_AUTH_SUCCESS, remoteId = ''id'', localId = [], extHandler = None, authIsMutual = True\<rparr>"
proof -
  have names: "ParseAuthNames [] ''ANONYMOUS'' = [''ANONYMOUS'']" by (rule ParseAuthNames_single) simp_all
  show ?thesis
    unfolding new_SASLEngine_def names
    by ((rule hear_next, simp add: hear_defs builtin_def registered_def mech_accept_def)+) simp
qed

theorem sasl_challenger_vouched_witness:
  "\<exists>m. Some AuthMechAnonymous = Some m \<and> GetName (builtin 7 no_callout) m \<in> set (ParseAuthNames [] ''ANONYMOUS'') \<and>
    mech_accept m = ([], ALLJOYN_AUTH_OK, m)"
proof -
  have "mech_accept m = ([], ALLJOYN_AUTH_OK, m)" for m by (simp add: mech_accept_def)
  then show ?thesis
    using sasl_challenger_vouched [where G = "\<lambda>m. mech_accept m = ([], ALLJOYN_AUTH_OK, m)",
        OF builtin.auth_mechanisms_axioms _ _ anonymous_run] by simp
qed

text \<open>
  A responder takes an early OK for success: while its mechanism still waits for the first
  challenge, the command OK ends the conversation, although the mechanism has checked nothing,
  and the authentication counts as mutual when the mechanism calls itself so.
\<close>

lemma sasl_responder_trusts_early_ok:
  assumes "GetMechanism M n = Some m" "GetName M m' = n" "m_Init M RESPONDER peer m = (ER_OK, m')"
    and "m_InitialResponse M m' = (r, ALLJOYN_AUTH_CONTINUE, m')"
    and "n \<noteq> []" "CHR '' '' \<notin> set n"
  shows "map_option (\<lambda>e. (authState e, authMechanism e, authIsMutual e))
      (run_steps (hear M) (new_SASLEngine RESPONDER n peer None) [[], ''OK'']) =
    Some (ALLJOYN_AUTH_SUCCESS, Some m', IsMutual M m')"
proof -
  note names = ParseAuthNames_single [OF assms(5,6)]
  have ok: "ParseAuth ''OK'' = (CMD_OK, [])" by code_simp
  let ?e = "new_SASLEngine RESPONDER n peer None"
  let ?out = "ComposeAuth CMD_AUTH n (AsciiToHex r)"
  let ?e1 = "?e\<lparr>authSet := [], authMechanism := Some m', authState := ALLJOYN_WAIT_FOR_DATA, authCount := Suc 0\<rparr>"
  have one: "hear M ?e [] = Some ?e1"
    using assms names
    by (simp add: hear_def Advance_def Response_def new_SASLEngine_def respond_def on_REJECTED_def NewAuthRequest_def Let_def
        MAX_AUTH_COUNT_def try_mechanisms.simps start_mechanism_def SetState_def note_mutual_def)
  have two: "hear M ?e1 ''OK'' =
      Some (?e1\<lparr>remoteId := [], authState := ALLJOYN_AUTH_SUCCESS, authIsMutual := IsMutual M m', authCount := 2\<rparr>)"
    using ok by (simp add: hear_def Advance_def Response_def new_SASLEngine_def respond_def on_OK_def Let_def
        MAX_AUTH_COUNT_def extend_or_begin_def SetState_def note_mutual_def)
  show ?thesis by (simp add: one two)
qed

end
