(* ===== verification/Spec2Isabelle.thy ===== *)
theory Spec2Isabelle
  imports Name_Ownership Peer_State Signature_Grammar Ns_Roundtrip Big_Num_Mod Big_Num_Text
    Msg_Roundtrip Slap_Delivery Router_Dispatch Sasl_Engine
begin

text \<open>
  A verification library for the AllJoyn core (\<^verbatim>\<open>src/alljoyn\<close>). AllJoyn is a software
  bus: applications attach to a router, own names on the bus, exchange messages whose
  arguments are described by signatures, and find each other through a name service.

  \<^bold>\<open>Parts and how they interact.\<close> Every message carries names and a signature, which the
  validators check on the way in. The router keeps a name table: endpoints get a unique
  name, request well-known names, queue for them, and remote names appear as virtual aliases;
  listeners hear every change of ownership. The router passes a message on to the owner of its
  destination, or answers a call it cannot pass on; a signal goes to the endpoints whose match
  rules it satisfies, found by a walk over the rule table, and a global one to the other buses; a
  message of a session goes once over each route of the session. Two ends of a connection first
  authenticate each other in a conversation of commands. An attachment keeps the state of its
  peers, among it the window that refuses replayed messages. The name service packs who-has
  questions and is-at answers with internet addresses in text form into datagrams. Over a serial
  line the bytes of messages travel in numbered packets that are resent until acknowledged.

  \<^bold>\<open>Theories.\<close>
  \<^item> \<^verbatim>\<open>AJ_Prelude\<close>: bytes and words, the C string view of a character list, reading a
    counted sequence of items, and the interfaces the components share: a state machine with
    an invariant (\<open>invariant_machine\<close>), a wire format whose reader inverts its writer
    (\<open>wire_format\<close>), a reader that stays within its buffer (\<open>bounded_reader\<close>).
  \<^item> \<^verbatim>\<open>String_Util\<close>: \<^verbatim>\<open>common/src/StringUtil.cc\<close>, character classes, hexadecimal
    text and numbers as text.
  \<^item> \<^verbatim>\<open>Bus_Names\<close>: \<^verbatim>\<open>alljoyn_core/src/BusUtil.cc\<close>, the name validators, equal to
    grammars that are read off the code (they differ from the comments in \<^verbatim>\<open>BusUtil.h\<close>,
    and the theories show where), and the wildcard matcher.
  \<^item> \<^verbatim>\<open>Signatures\<close>, \<^verbatim>\<open>Signature_Grammar\<close>: the parser of
    \<^verbatim>\<open>alljoyn_core/src/SignatureUtils.cc\<close> with its explicit container stack, and its
    equivalence with a grammar of types, which is wider than the one of D-Bus.
  \<^item> \<^verbatim>\<open>Msg_Arg\<close>: the values of message arguments
    (\<^verbatim>\<open>alljoyn_core/inc/alljoyn/MsgArg.h\<close>), which have which type, and the rest of
    \<^verbatim>\<open>SignatureUtils.cc\<close>: the writer of signatures with its fixed buffer, alignments and
    sizes.
  \<^item> \<^verbatim>\<open>Msg_Marshal\<close>, \<^verbatim>\<open>Msg_Parse\<close>, \<^verbatim>\<open>Msg_Roundtrip\<close>:
    \<^verbatim>\<open>MarshalArgs\<close> of \<^verbatim>\<open>alljoyn_core/src/Message_Gen.cc\<close> against a reference
    encoding, \<^verbatim>\<open>ParseValue\<close> and its companions of \<^verbatim>\<open>Message_Parse.cc\<close>, which
    never leave the buffer, and the way of the arguments from sender to receiver.
  \<^item> \<^verbatim>\<open>Name_Table\<close>, \<^verbatim>\<open>Name_Ownership\<close>: \<^verbatim>\<open>alljoyn_core/router/NameTable.cc\<close>,
    one definition per method over a record of its members; the invariant every operation
    keeps, and that the notifications tell the whole story of who owns a name.
  \<^item> \<^verbatim>\<open>Match_Rules\<close>: \<^verbatim>\<open>alljoyn_core/src/Rule.cc\<close>,
    \<^verbatim>\<open>alljoyn_core/router/RuleTable.cc\<close>, a multimap that refines one list of rules
    for each endpoint (locale \<open>subscriptions\<close>), and the walk over the rules of
    \<^verbatim>\<open>DaemonRouter.cc\<close>.
  \<^item> \<^verbatim>\<open>Router_Dispatch\<close>: \<^verbatim>\<open>PushMessage\<close> of
    \<^verbatim>\<open>alljoyn_core/router/DaemonRouter.cc\<close>, as a status and the list of pushes and calls of
    the controller it makes: who is sent a broadcast, a call or a message of a session. The
    policy, the controller and the results of the pushes are inputs, as are the bus-to-bus endpoints that
    unregister during a push.
  \<^item> \<^verbatim>\<open>Sasl_Engine\<close>: \<^verbatim>\<open>alljoyn_core/src/SASLEngine.cc\<close>, the state machine of
    authentication in both roles; the mechanisms are an interface (locale
    \<open>auth_mechanisms\<close>), with the anonymous and the external mechanism as instances. A
    conversation ends within 66 steps, because the engine counts them.
  \<^item> \<^verbatim>\<open>Peer_State\<close>: \<^verbatim>\<open>alljoyn_core/src/PeerState.cc\<close>.
  \<^item> \<^verbatim>\<open>Key_Blob\<close>: \<^verbatim>\<open>common/src/KeyBlob.cc\<close>, keys and how they are stored.
  \<^item> \<^verbatim>\<open>Big_Num\<close> (representation, comparison, sum and difference),
    \<^verbatim>\<open>Big_Num_Mul\<close> (products, shifts, powers), \<^verbatim>\<open>Big_Num_Div\<close>,
    \<^verbatim>\<open>Big_Num_Mod\<close> (Montgomery products, modular powers and inverses) and
    \<^verbatim>\<open>Big_Num_Text\<close> (bytes and hexadecimal text): \<^verbatim>\<open>common/src/BigNum.cc\<close>, the
    numbers of the key exchange. The operators refine the integers (locale \<open>exact_arith\<close>).
  \<^item> \<^verbatim>\<open>IP_Address\<close>: \<^verbatim>\<open>common/src/IPAddress.cc\<close>, addresses and their text.
  \<^item> \<^verbatim>\<open>Ns_Protocol\<close>, \<^verbatim>\<open>Ns_Roundtrip\<close>:
    \<^verbatim>\<open>alljoyn_core/router/ns/IpNsProtocol.cc\<close>, messages of versions 0 and 1.

  \<^item> \<^verbatim>\<open>Slap_Packet\<close>, \<^verbatim>\<open>Slap_Stream\<close>, \<^verbatim>\<open>Slap_Delivery\<close>:
    the serial link of \<^verbatim>\<open>common/src/SLAPPacket.cc\<close> and \<^verbatim>\<open>SLAPStream.cc\<close>:
    framing with its checksum against a specification, the stream with its window,
    acknowledgments, resends and link negotiation, and what two streams that face each other
    deliver over a line that loses frames.

  \<^bold>\<open>Conventions.\<close> An object is a record, a method a function from the record to the new
  record and its result. A character pointer is a character list without NUL, \<open>peek\<close>
  the character it points to. Containers with an order are lists, ordered maps association
  lists kept in key order. A failed assertion, a loop that does not end and a write outside
  an array are results of their own (\<open>None\<close>, or a constructor named for the fault), so
  that a theorem that a function returns says something. Locks are left out: each operation
  is one step. Sequences of operations are runs of \<open>invariant_machine\<close>. No model uses
  fuel: loops are structural, have a measure, or are partial functions whose results are
  proved to exist.

  \<^bold>\<open>Not modelled.\<close> Sockets, threads, timers and the platform layer; the session object
  and the transports of the router; cryptography, and with it the encryption of messages; the language bindings. Listeners of the
  name table do not call back into it. An unlimited wait of the serial stream is taken to
  time out. Planned, in this order: multicast DNS messages, the headers of messages, the reliable
  datagram protocol.
\<close>

end
